(* ===== verification/Rust_Prelude.thy ===== *)
theory Rust_Prelude
  imports
    Main
    "HOL-Library.Word"
    "HOL-Library.List_Lexorder"
    "HOL-Library.Monad_Syntax"
    "HOL-Library.Mapping"
begin

text \<open>
  Shared vocabulary of the development: machine integers, byte strings, the reading of a Rust
  computation that may panic, checked slice access, little-endian encodings, and the generic lemmas
  on byte strings that the component theories use.

  A Rust expression that may panic has type \<open>'a exec\<close>, which is \<open>'a option\<close> with \<open>None\<close> for the
  panic; the \<open>do\<close> notation of \<open>Monad_Syntax\<close> sequences such expressions. A Rust \<open>Option<T>\<close> that is
  returned by code that may also panic is therefore an \<open>'a option exec\<close>. A Rust \<open>Result<T, E>\<close> is a
  sum \<open>'e + 'a\<close> with \<open>Inl\<close> for \<open>Err\<close>. The type \<open>usize\<close> is modelled by \<open>nat\<close>, on a 64-bit target,
  with overflow written out where the source checks for it.
\<close>

section \<open>Types\<close>

type_synonym byte = "8 word"
type_synonym u16 = "16 word"
type_synonym u32 = "32 word"
type_synonym u64 = "64 word"
type_synonym bytes = "byte list"
type_synonym 'a exec = "'a option"

named_theorems codec_simps \<open>unfolding rules for encoders and decoders\<close>
named_theorems page_simps \<open>reading back what was written into a byte buffer\<close>

section \<open>Loops and early returns\<close>

text \<open>A \<open>for\<close> loop whose body may panic.\<close>

fun for_each :: "('x \<Rightarrow> 's \<Rightarrow> 's exec) \<Rightarrow> 'x list \<Rightarrow> 's \<Rightarrow> 's exec" where
  "for_each f [] s = Some s"
| "for_each f (x # xs) s = do { s' \<leftarrow> f x s; for_each f xs s' }"

text \<open>A \<open>map\<close> over an iterator whose closure may panic.\<close>

fun map_exec :: "('a \<Rightarrow> 'b exec) \<Rightarrow> 'a list \<Rightarrow> 'b list exec" where
  "map_exec f [] = Some []"
| "map_exec f (x # xs) = do { y \<leftarrow> f x; ys \<leftarrow> map_exec f xs; Some (y # ys) }"

text \<open>\<open>Iterator::position\<close>.\<close>

fun position :: "('a \<Rightarrow> bool) \<Rightarrow> 'a list \<Rightarrow> nat option" where
  "position P [] = None"
| "position P (x # xs) = (if P x then Some 0 else map_option Suc (position P xs))"

text \<open>\<open>min().unwrap_or(d)\<close> and \<open>cmp\<close>.\<close>

fun min_or :: "nat \<Rightarrow> nat list \<Rightarrow> nat" where
  "min_or d [] = d"
| "min_or d (x # xs) = fold min xs x"

datatype ordering = Less | Equal | Greater

definition cmp :: "'a::linorder \<Rightarrow> 'a \<Rightarrow> ordering" where
  "cmp a b = (if a < b then Less else if a = b then Equal else Greater)"

text \<open>The \<open>?\<close> operator on a \<open>Result\<close>: return the error, or go on with the value.\<close>

definition try_result :: "('e + 'a) exec \<Rightarrow> ('a \<Rightarrow> ('e + 'b) exec) \<Rightarrow> ('e + 'b) exec" where
  "try_result m f = do { r \<leftarrow> m; (case r of Inl e \<Rightarrow> Some (Inl e) | Inr a \<Rightarrow> f a) }"

text \<open>The \<open>?\<close> operator on an \<open>Option\<close>.\<close>

definition try_option :: "'a option exec \<Rightarrow> ('a \<Rightarrow> 'b option exec) \<Rightarrow> 'b option exec" where
  "try_option m f = do { r \<leftarrow> m; (case r of None \<Rightarrow> Some None | Some a \<Rightarrow> f a) }"

text \<open>\<open>ok_or(e)?\<close>: an absent value becomes the error \<open>e\<close>.\<close>

definition ok_or :: "'e \<Rightarrow> 'a option exec \<Rightarrow> ('e + 'a) exec" where
  "ok_or e m = do { r \<leftarrow> m; Some (case r of None \<Rightarrow> Inl e | Some a \<Rightarrow> Inr a) }"

lemma try_result_simps [simp]:
  "try_result None f = None"
  "try_result (Some (Inl e)) f = Some (Inl e)"
  "try_result (Some (Inr a)) f = f a"
  by (simp_all add: try_result_def)

lemma try_option_simps [simp]:
  "try_option None f = None"
  "try_option (Some None) f = Some None"
  "try_option (Some (Some a)) f = f a"
  by (simp_all add: try_option_def)

lemma ok_or_simps [simp]:
  "ok_or e None = None"
  "ok_or e (Some None) = Some (Inl e)"
  "ok_or e (Some (Some a)) = Some (Inr a)"
  by (simp_all add: ok_or_def)

lemma try_option_eq_Some_Some:
  "try_option m f = Some (Some b) \<longleftrightarrow> (\<exists>a. m = Some (Some a) \<and> f a = Some (Some b))"
  by (cases m; cases "the m") (auto simp: try_option_def)

lemma try_option_eq_None:
  "try_option m f = None \<longleftrightarrow> m = None \<or> (\<exists>a. m = Some (Some a) \<and> f a = None)"
  by (cases m; cases "the m") (auto simp: try_option_def)

lemma try_result_eq_Inr:
  "try_result m f = Some (Inr b) \<longleftrightarrow> (\<exists>a. m = Some (Inr a) \<and> f a = Some (Inr b))"
  by (cases m; cases "the m") (auto simp: try_result_def)

lemma try_result_eq_None:
  "try_result m f = None \<longleftrightarrow> m = None \<or> (\<exists>a. m = Some (Inr a) \<and> f a = None)"
  by (cases m; cases "the m") (auto simp: try_result_def)

lemma try_result_cong [fundef_cong]:
  "m = m' \<Longrightarrow> (\<And>a. m' = Some (Inr a) \<Longrightarrow> f a = f' a) \<Longrightarrow> try_result m f = try_result m' f'"
  by (cases m'; cases "the m'") (auto simp: try_result_def)

lemma try_option_cong [fundef_cong]:
  "m = m' \<Longrightarrow> (\<And>a. m' = Some (Some a) \<Longrightarrow> f a = f' a) \<Longrightarrow> try_option m f = try_option m' f'"
  by (cases m'; cases "the m'") (auto simp: try_option_def)

lemma for_each_append:
  "for_each f (xs @ ys) s = do { s' \<leftarrow> for_each f xs s; for_each f ys s' }"
  by (induction xs arbitrary: s) (auto split: bind_splits)

lemma map_exec_eq: "(\<And>x. x \<in> set xs \<Longrightarrow> f x = Some (g x)) \<Longrightarrow> map_exec f xs = Some (map g xs)"
  by (induction xs) auto

lemma position_Some: "position P xs = Some i \<Longrightarrow> i < length xs \<and> P (xs ! i) \<and> (\<forall>j < i. \<not> P (xs ! j))"
proof (induction xs arbitrary: i)
  case Nil
  then show ?case by simp
next
  case (Cons x xs)
  then show ?case by (cases i) (auto split: if_splits simp: nth_Cons split: nat.splits)
qed

lemma position_None: "position P xs = None \<longleftrightarrow> (\<forall>x \<in> set xs. \<not> P x)"
  by (induction xs) auto

lemma min_or_Min: "xs \<noteq> [] \<Longrightarrow> min_or d xs = Min (set xs)"
  by (cases xs) (simp_all add: Min.set_eq_fold [symmetric] del: Min.set_eq_fold)

lemma min_or_le: "x \<in> set xs \<Longrightarrow> min_or d xs \<le> x"
  by (cases "xs = []") (simp_all add: min_or_Min)

lemma min_or_in: "min_or d xs \<in> insert d (set xs)"
  by (cases "xs = []") (simp_all add: min_or_Min)

lemma min_or_eqI:
  assumes "m \<in> set xs \<or> (xs = [] \<and> m = d)" and "\<And>x. x \<in> set xs \<Longrightarrow> m \<le> x"
  shows "min_or d xs = m"
  using assms by (cases "xs = []") (auto simp: min_or_Min intro: Min_eqI)

lemma cmp_simps [simp]:
  "cmp a b = Less \<longleftrightarrow> a < b" "cmp a b = Equal \<longleftrightarrow> a = b" "cmp a b = Greater \<longleftrightarrow> b < a"
  by (auto simp: cmp_def)

section \<open>Checked integer arithmetic\<close>

definition usize_checked_add :: "nat \<Rightarrow> nat \<Rightarrow> nat option" where
  "usize_checked_add a b = (if a + b < 2 ^ 64 then Some (a + b) else None)"

definition usize_checked_mul :: "nat \<Rightarrow> nat \<Rightarrow> nat option" where
  "usize_checked_mul a b = (if a * b < 2 ^ 64 then Some (a * b) else None)"

definition usize_saturating_add :: "nat \<Rightarrow> nat \<Rightarrow> nat" where
  "usize_saturating_add a b = min (a + b) (2 ^ 64 - 1)"

definition usize_saturating_mul :: "nat \<Rightarrow> nat \<Rightarrow> nat" where
  "usize_saturating_mul a b = min (a * b) (2 ^ 64 - 1)"

definition checked_add_word :: "'w::len word \<Rightarrow> 'w word \<Rightarrow> 'w word option" where
  "checked_add_word a b = (if unat a + unat b < 2 ^ LENGTH('w) then Some (a + b) else None)"

definition saturating_add_word :: "'w::len word \<Rightarrow> 'w word \<Rightarrow> 'w word" where
  "saturating_add_word a b = (if unat a + unat b < 2 ^ LENGTH('w) then a + b else - 1)"

lemma unat_minus_one_word_eq: "unat (- 1 :: 'w::len word) = 2 ^ LENGTH('w) - 1"
  by (simp add: unsigned_minus_1_eq_mask mask_eq_exp_minus_1)

lemma unat_less_pow: "unat (w :: 'w::len word) < 2 ^ LENGTH('w)"
  by (rule unsigned_less)

lemma unat_le_max_word: "unat (w :: 'w::len word) \<le> 2 ^ LENGTH('w) - 1"
  using unat_less_pow [of w] by linarith

lemma unat_saturating_add:
  "unat (saturating_add_word a b :: 'w::len word) = min (unat a + unat b) (2 ^ LENGTH('w) - 1)"
proof (cases "unat a + unat b < 2 ^ LENGTH('w)")
  case True
  then have "unat (a + b) = unat a + unat b"
    by (simp add: unat_word_ariths)
  with True show ?thesis by (simp add: saturating_add_word_def)
next
  case False
  then show ?thesis
    by (simp add: saturating_add_word_def unat_minus_one_word_eq)
qed

lemma checked_add_word_Some:
  "checked_add_word a b = Some c \<longleftrightarrow> c = a + b \<and> unat a + unat b < 2 ^ LENGTH('w)"
  for a b :: "'w::len word"
  by (auto simp: checked_add_word_def)

lemma unat_add_no_overflow:
  "unat a + unat b < 2 ^ LENGTH('w) \<Longrightarrow> unat (a + b :: 'w::len word) = unat a + unat b"
  by (simp add: unat_word_ariths)

section \<open>Little-endian encodings\<close>

fun le_nat :: "bytes \<Rightarrow> nat" where
  "le_nat [] = 0"
| "le_nat (b # bs) = unat b + 256 * le_nat bs"

fun nat_le :: "nat \<Rightarrow> nat \<Rightarrow> bytes" where
  "nat_le 0 n = []"
| "nat_le (Suc k) n = word_of_nat (n mod 256) # nat_le k (n div 256)"

text \<open>\<open>to_le_bytes\<close> and \<open>from_le_bytes\<close> at the three widths the formats use.\<close>

definition u16_le :: "u16 \<Rightarrow> bytes" where "u16_le w = nat_le 2 (unat w)"
definition u32_le :: "u32 \<Rightarrow> bytes" where "u32_le w = nat_le 4 (unat w)"
definition u64_le :: "u64 \<Rightarrow> bytes" where "u64_le w = nat_le 8 (unat w)"

definition le_u16 :: "bytes \<Rightarrow> u16" where "le_u16 bs = word_of_nat (le_nat bs)"
definition le_u32 :: "bytes \<Rightarrow> u32" where "le_u32 bs = word_of_nat (le_nat bs)"
definition le_u64 :: "bytes \<Rightarrow> u64" where "le_u64 bs = word_of_nat (le_nat bs)"

lemma length_nat_le [simp]: "length (nat_le k n) = k"
  by (induction k arbitrary: n) auto

lemma unat_byte_mod [simp]: "unat (word_of_nat (n mod 256) :: byte) = n mod 256"
  by (simp add: unat_of_nat)

lemma le_nat_nat_le: "le_nat (nat_le k n) = n mod 256 ^ k"
proof (induction k arbitrary: n)
  case 0
  then show ?case by simp
next
  case (Suc k)
  have "le_nat (nat_le (Suc k) n) = n mod 256 + 256 * (n div 256 mod 256 ^ k)"
    by (simp add: Suc.IH)
  also have "\<dots> = n mod (256 * 256 ^ k)"
    by (simp add: mod_mult2_eq)
  finally show ?case by simp
qed

lemma le_nat_less: "le_nat bs < 256 ^ length bs"
proof (induction bs)
  case Nil
  then show ?case by simp
next
  case (Cons b bs)
  have "unat b < 256"
    using unat_less_pow [of b] by simp
  with Cons show ?case by simp
qed

lemma nat_le_le_nat: "nat_le (length bs) (le_nat bs) = bs"
proof (induction bs)
  case Nil
  then show ?case by simp
next
  case (Cons b bs)
  have b: "unat b < 256"
    using unat_less_pow [of b] by simp
  then have "(unat b + 256 * le_nat bs) div 256 = le_nat bs"
    and "(unat b + 256 * le_nat bs) mod 256 = unat b"
    by simp_all
  with Cons show ?case by simp
qed

lemma u16_le_length [simp]: "length (u16_le w) = 2" by (simp add: u16_le_def)
lemma u32_le_length [simp]: "length (u32_le w) = 4" by (simp add: u32_le_def)
lemma u64_le_length [simp]: "length (u64_le w) = 8" by (simp add: u64_le_def)

lemma le_u16_u16_le [simp]: "le_u16 (u16_le w) = w"
  using unat_less_pow [of w] by (simp add: le_u16_def u16_le_def le_nat_nat_le)

lemma le_u32_u32_le [simp]: "le_u32 (u32_le w) = w"
  using unat_less_pow [of w] by (simp add: le_u32_def u32_le_def le_nat_nat_le)

lemma le_u64_u64_le [simp]: "le_u64 (u64_le w) = w"
  using unat_less_pow [of w] by (simp add: le_u64_def u64_le_def le_nat_nat_le)

lemma u16_le_le_u16: "length bs = 2 \<Longrightarrow> u16_le (le_u16 bs) = bs"
  using le_nat_less [of bs] nat_le_le_nat [of bs]
  by (simp add: le_u16_def u16_le_def unat_of_nat)

lemma u32_le_le_u32: "length bs = 4 \<Longrightarrow> u32_le (le_u32 bs) = bs"
  using le_nat_less [of bs] nat_le_le_nat [of bs]
  by (simp add: le_u32_def u32_le_def unat_of_nat)

lemma u64_le_le_u64: "length bs = 8 \<Longrightarrow> u64_le (le_u64 bs) = bs"
  using le_nat_less [of bs] nat_le_le_nat [of bs]
  by (simp add: le_u64_def u64_le_def unat_of_nat)

section \<open>Byte buffers\<close>

text \<open>\<open>sub_bytes d a l\<close> is the run of \<open>l\<close> bytes at offset \<open>a\<close>, without a range check; the
  specifications use it. The checked accesses of the source are below.\<close>

definition sub_bytes :: "bytes \<Rightarrow> nat \<Rightarrow> nat \<Rightarrow> bytes" where
  "sub_bytes d a l = take l (drop a d)"

text \<open>\<open>d[i]\<close>, \<open>d[a..b]\<close> and \<open>d[a..a + v.len()].copy_from_slice(v)\<close>; each panics out of range.\<close>

definition byte_at :: "bytes \<Rightarrow> nat \<Rightarrow> byte exec" where
  "byte_at d i = (if i < length d then Some (d ! i) else None)"

definition slice_range :: "bytes \<Rightarrow> nat \<Rightarrow> nat \<Rightarrow> bytes exec" where
  "slice_range d a b = (if a \<le> b \<and> b \<le> length d then Some (take (b - a) (drop a d)) else None)"

definition write_at :: "bytes \<Rightarrow> nat \<Rightarrow> bytes \<Rightarrow> bytes" where
  "write_at d a v = take a d @ v @ drop (a + length v) d"

definition copy_from_slice :: "bytes \<Rightarrow> nat \<Rightarrow> bytes \<Rightarrow> bytes exec" where
  "copy_from_slice d a v = (if a + length v \<le> length d then Some (write_at d a v) else None)"

definition read_u16 :: "bytes \<Rightarrow> nat \<Rightarrow> u16 exec" where
  "read_u16 d a = map_option le_u16 (slice_range d a (a + 2))"

definition read_u32 :: "bytes \<Rightarrow> nat \<Rightarrow> u32 exec" where
  "read_u32 d a = map_option le_u32 (slice_range d a (a + 4))"

definition read_u64 :: "bytes \<Rightarrow> nat \<Rightarrow> u64 exec" where
  "read_u64 d a = map_option le_u64 (slice_range d a (a + 8))"

lemma length_sub_bytes [simp]: "length (sub_bytes d a l) = min l (length d - a)"
  by (simp add: sub_bytes_def)

lemma slice_sub_bytes: "a \<le> b \<Longrightarrow> b \<le> length d \<Longrightarrow> slice_range d a b = Some (sub_bytes d a (b - a))"
  by (simp add: slice_range_def sub_bytes_def)

lemma slice_at: "a + l \<le> length d \<Longrightarrow> slice_range d a (a + l) = Some (sub_bytes d a l)"
  by (simp add: slice_sub_bytes)

lemma slice_eq_None: "slice_range d a b = None \<longleftrightarrow> \<not> (a \<le> b \<and> b \<le> length d)"
  by (simp add: slice_range_def)

lemma slice_length: "slice_range d a b = Some s \<Longrightarrow> length s = b - a"
  by (auto simp: slice_range_def split: if_splits)

lemma slice_all [simp]: "n = length d \<Longrightarrow> slice_range d 0 n = Some d"
  by (simp add: slice_range_def)

lemma read_u16_eq [page_simps]: "a + 2 \<le> length d \<Longrightarrow> read_u16 d a = Some (le_u16 (sub_bytes d a 2))"
  using slice_at [of a 2 d] by (simp add: read_u16_def)

lemma read_u32_eq [page_simps]: "a + 4 \<le> length d \<Longrightarrow> read_u32 d a = Some (le_u32 (sub_bytes d a 4))"
  by (simp add: read_u32_def slice_at)

lemma read_u64_eq [page_simps]: "a + 8 \<le> length d \<Longrightarrow> read_u64 d a = Some (le_u64 (sub_bytes d a 8))"
  by (simp add: read_u64_def slice_at)

lemma byte_at_eq [page_simps]: "i < length d \<Longrightarrow> byte_at d i = Some (d ! i)"
  by (simp add: byte_at_def)

lemma copy_from_slice_eq [page_simps]:
  "a + length v \<le> length d \<Longrightarrow> copy_from_slice d a v = Some (write_at d a v)"
  by (simp add: copy_from_slice_def)

lemma length_write_at [simp]: "a + length v \<le> length d \<Longrightarrow> length (write_at d a v) = length d"
  by (simp add: write_at_def)

text \<open>The three ways a read can meet a write: before it, after it, or inside it.\<close>

lemma sub_bytes_write_before:
  "b + l \<le> a \<Longrightarrow> a + length v \<le> length d \<Longrightarrow> sub_bytes (write_at d a v) b l = sub_bytes d b l"
  by (simp add: sub_bytes_def write_at_def take_drop min_def)

lemma sub_bytes_write_after:
  assumes "a + length v \<le> b" and "a + length v \<le> length d"
  shows "sub_bytes (write_at d a v) b l = sub_bytes d b l"
proof -
  have "drop b (write_at d a v) = drop (b - (a + length v)) (drop (a + length v) d)"
    using assms by (simp add: write_at_def min_def)
  also have "\<dots> = drop b d"
    using assms by simp
  finally show ?thesis by (simp add: sub_bytes_def)
qed

lemma sub_bytes_write_inside:
  assumes "a \<le> b" and "b + l \<le> a + length v" and "a + length v \<le> length d"
  shows "sub_bytes (write_at d a v) b l = sub_bytes v (b - a) l"
proof -
  have "drop b (write_at d a v) = drop (b - a) v @ drop (a + length v) d"
    using assms by (simp add: write_at_def min_def)
  then show ?thesis
    using assms by (simp add: sub_bytes_def)
qed

lemma sub_bytes_write_same [simp]:
  "a + length v \<le> length d \<Longrightarrow> l = length v \<Longrightarrow> sub_bytes (write_at d a v) a l = v"
  by (simp add: sub_bytes_write_inside) (simp add: sub_bytes_def)

lemma write_at_append:
  assumes "b = a + length u" and "a + length u + length v \<le> length d"
  shows "write_at (write_at d a u) b v = write_at d a (u @ v)"
  using assms by (simp add: write_at_def min_absorb2 ac_simps)

lemma nth_write_at:
  assumes "a + length v \<le> length d" and "i < length d"
  shows "write_at d a v ! i = (if a \<le> i \<and> i < a + length v then v ! (i - a) else d ! i)"
  using assms by (auto simp: write_at_def nth_append min_def)

lemma sub_bytes_sub_bytes:
  "b + l' \<le> l \<Longrightarrow> sub_bytes (sub_bytes d a l) b l' = sub_bytes d (a + b) l'"
  by (simp add: sub_bytes_def drop_take add.commute)

lemma nth_sub_bytes: "i < l \<Longrightarrow> a + i < length d \<Longrightarrow> sub_bytes d a l ! i = d ! (a + i)"
  by (simp add: sub_bytes_def)

lemma sub_bytes_eqI:
  assumes "\<And>i. i < l \<Longrightarrow> d ! (a + i) = d' ! (b + i)" and "a + l \<le> length d" and "b + l \<le> length d'"
  shows "sub_bytes d a l = sub_bytes d' b l"
  using assms by (intro nth_equalityI) (auto simp: nth_sub_bytes)

lemma sub_bytes_append_left:
  "a + l \<le> length xs \<Longrightarrow> sub_bytes (xs @ ys) a l = sub_bytes xs a l"
  by (simp add: sub_bytes_def)

lemma sub_bytes_append_right:
  "length xs \<le> a \<Longrightarrow> sub_bytes (xs @ ys) a l = sub_bytes ys (a - length xs) l"
  by (simp add: sub_bytes_def)

lemma sub_bytes_prefix: "l = length xs \<Longrightarrow> sub_bytes (xs @ ys) 0 l = xs"
  by (simp add: sub_bytes_def)

lemma sub_bytes_all: "l = length xs \<Longrightarrow> sub_bytes xs 0 l = xs"
  by (simp add: sub_bytes_def)

lemma sub_bytes_split:
  "sub_bytes d a (l + m) = sub_bytes d a l @ sub_bytes d (a + l) m"
  by (simp add: sub_bytes_def take_add add.commute)

lemma drop_field: "b = a + l \<Longrightarrow> drop a d = sub_bytes d a l @ drop b d"
  by (simp add: sub_bytes_def) (metis append_take_drop_id drop_drop add.commute)

lemma drop_last_field: "length d = a + l \<Longrightarrow> drop a d = sub_bytes d a l"
  by (simp add: sub_bytes_def)

lemmas append_field_simps =
  sub_bytes_append_left sub_bytes_append_right sub_bytes_prefix sub_bytes_all

section \<open>Hash maps\<close>

lemma mapping_update_same [simp]: "Mapping.lookup m k = Some v \<Longrightarrow> Mapping.update k v m = m"
  by (rule mapping_eqI) (metis lookup_update lookup_update_neq)

lemma lookup_delete_if: "Mapping.lookup (Mapping.delete k m) k' = (if k' = k then None else Mapping.lookup m k')"
  by simp

lemma lookup_update_if: "Mapping.lookup (Mapping.update k v m) k' = (if k' = k then Some v else Mapping.lookup m k')"
  by (simp add: lookup_update')

section \<open>The interface of a fixed-width record codec\<close>

text \<open>
  Several formats store a sequence of records of one width after a header. The locale fixes the
  encoder, its width and the records it is used on; what a client of the format needs is where the
  \<open>i\<close>-th record lies in such a file.
\<close>

locale fixed_codec =
  fixes enc :: "'r \<Rightarrow> bytes" and width :: nat and ok :: "'r \<Rightarrow> bool"
  assumes enc_length: "ok r \<Longrightarrow> length (enc r) = width"
begin

lemma length_encoded_records: "list_all ok rs \<Longrightarrow> length (concat (map enc rs)) = width * length rs"
  by (induction rs) (auto simp: enc_length)

lemma encoded_record_at:
  assumes "list_all ok rs" and "i < length rs"
  shows "sub_bytes (pre @ concat (map enc rs) @ post) (length pre + width * i) width = enc (rs ! i)"
  using assms
proof (induction rs arbitrary: pre i)
  case Nil
  then show ?case by simp
next
  case (Cons r rs)
  show ?case
  proof (cases i)
    case 0
    then show ?thesis
      using Cons.prems by (simp add: sub_bytes_def enc_length)
  next
    case (Suc j)
    then have "sub_bytes ((pre @ enc r) @ concat (map enc rs) @ post)
        (length (pre @ enc r) + width * j) width = enc (rs ! j)"
      using Cons.prems by (intro Cons.IH) simp_all
    then show ?thesis
      using Suc Cons.prems by (simp add: enc_length add.assoc)
  qed
qed

end

end
