(* ===== verification/Page_Allocator.thy ===== *)
theory Page_Allocator
  imports Rust_Prelude
begin

text \<open>
  Logical page identifiers, \<open>src/src/allocator.rs\<close>. The state is the record \<open>page_allocator\<close>: the
  sequential frontier, the stack of freed identifiers (last element on top, as the \<open>Vec\<close> has it) and
  the set of allocated identifiers. The invariant says that the free and the allocated identifiers
  are disjoint, never zero and below the frontier.
\<close>

record page_allocator =
  pa_next_id :: u64
  pa_free_list :: "u64 list"
  pa_allocated :: "u64 set"

definition pa_new :: page_allocator where
  "pa_new = \<lparr>pa_next_id = 1, pa_free_list = [], pa_allocated = {}\<rparr>"

definition pa_with_next_id :: "u64 \<Rightarrow> page_allocator" where
  "pa_with_next_id next_id = \<lparr>pa_next_id = next_id, pa_free_list = [], pa_allocated = {}\<rparr>"

definition pa_alloc :: "page_allocator \<Rightarrow> u64 \<times> page_allocator" where
  "pa_alloc a =
     (let (id, a') =
        (if pa_free_list a \<noteq> []
         then (last (pa_free_list a), a\<lparr>pa_free_list := butlast (pa_free_list a)\<rparr>)
         else (pa_next_id a, a\<lparr>pa_next_id := saturating_add_word (pa_next_id a) 1\<rparr>))
      in (id, a'\<lparr>pa_allocated := insert id (pa_allocated a')\<rparr>))"

definition pa_free :: "page_allocator \<Rightarrow> u64 \<Rightarrow> bool \<times> page_allocator" where
  "pa_free a page_id =
     (if page_id \<in> pa_allocated a
      then (True, a\<lparr>pa_allocated := pa_allocated a - {page_id},
                    pa_free_list := pa_free_list a @ [page_id]\<rparr>)
      else (False, a))"

definition pa_is_allocated :: "page_allocator \<Rightarrow> u64 \<Rightarrow> bool" where
  "pa_is_allocated a page_id = (page_id \<in> pa_allocated a)"

definition pa_allocated_count :: "page_allocator \<Rightarrow> nat" where
  "pa_allocated_count a = card (pa_allocated a)"

definition pa_free_count :: "page_allocator \<Rightarrow> nat" where
  "pa_free_count a = length (pa_free_list a)"

definition pa_advance_next_id :: "page_allocator \<Rightarrow> u64 \<Rightarrow> page_allocator" where
  "pa_advance_next_id a minimum = a\<lparr>pa_next_id := max (pa_next_id a) minimum\<rparr>"

definition pa_serialized_len :: "page_allocator \<Rightarrow> nat" where
  "pa_serialized_len a = 12 + length (pa_free_list a) * 8"

definition pa_to_bytes :: "page_allocator \<Rightarrow> bytes" where
  "pa_to_bytes a =
     u64_le (pa_next_id a) @ u32_le (word_of_nat (length (pa_free_list a)))
     @ concat (map u64_le (pa_free_list a))"

text \<open>The loop of \<open>from_bytes\<close>; \<open>seen\<close> holds exactly the identifiers pushed so far.\<close>

fun pa_read_free_list :: "bytes \<Rightarrow> u64 \<Rightarrow> nat \<Rightarrow> nat \<Rightarrow> u64 list \<Rightarrow> u64 list option exec" where
  "pa_read_free_list buf next_id 0 pos free_list = Some (Some free_list)"
| "pa_read_free_list buf next_id (Suc k) pos free_list = do {
     id \<leftarrow> read_u64 buf pos;
     if id = 0 \<or> id \<ge> next_id \<or> id \<in> set free_list then Some None
     else pa_read_free_list buf next_id k (pos + 8) (free_list @ [id])
   }"

definition pa_from_bytes :: "bytes \<Rightarrow> page_allocator option exec" where
  "pa_from_bytes buf =
     (if length buf < 12 then Some None
      else do {
        next_id \<leftarrow> read_u64 buf 0;
        if next_id = 0 then Some None
        else do {
          count \<leftarrow> read_u32 buf 8;
          let free_count = unat count;
          try_option (Some (usize_checked_mul free_count 8)) (\<lambda>body.
          try_option (Some (usize_checked_add 12 body)) (\<lambda>expected.
            if length buf \<noteq> expected then Some None
            else try_option (pa_read_free_list buf next_id free_count 12 []) (\<lambda>free_list.
              Some (Some \<lparr>pa_next_id = next_id, pa_free_list = free_list, pa_allocated = {}\<rparr>))))
        }
      })"

section \<open>The invariant\<close>

definition pa_inv :: "page_allocator \<Rightarrow> bool" where
  "pa_inv a \<longleftrightarrow>
     pa_next_id a \<noteq> 0 \<and> distinct (pa_free_list a) \<and> set (pa_free_list a) \<inter> pa_allocated a = {} \<and>
     (\<forall>id \<in> set (pa_free_list a) \<union> pa_allocated a. id \<noteq> 0 \<and> id < pa_next_id a)"

text \<open>An allocator can still hand out a fresh identifier when one was freed or when the frontier is
  below the largest identifier.\<close>

definition pa_can_alloc :: "page_allocator \<Rightarrow> bool" where
  "pa_can_alloc a \<longleftrightarrow> pa_free_list a \<noteq> [] \<or> pa_next_id a < - 1"

text \<open>The number of identifiers that can still be handed out; it bounds every chain of
  allocations.\<close>

definition pa_room :: "page_allocator \<Rightarrow> nat" where
  "pa_room a = length (pa_free_list a) + (2 ^ 64 - 1 - unat (pa_next_id a))"

lemma pa_new_inv: "pa_inv pa_new"
  by (simp add: pa_inv_def pa_new_def)

lemma succ_word_less: "(w :: u64) < - 1 \<Longrightarrow> w < w + 1 \<and> unat (w + 1) = unat w + 1"
proof -
  assume "w < - 1"
  then have "unat w < 2 ^ 64 - 1"
    by (simp add: word_less_nat_alt unat_minus_one_word_eq)
  then have "unat (w + 1) = unat w + 1"
    by (simp add: unat_word_ariths)
  then show ?thesis by (simp add: word_less_nat_alt)
qed

lemma saturating_succ: "(w :: u64) < - 1 \<Longrightarrow> saturating_add_word w 1 = w + 1"
  by (simp add: saturating_add_word_def word_less_nat_alt unat_minus_one_word_eq)

lemma pa_alloc_reuse:
  "pa_free_list a = xs @ [x] \<Longrightarrow>
   pa_alloc a = (x, a\<lparr>pa_free_list := xs, pa_allocated := insert x (pa_allocated a)\<rparr>)"
  by (simp add: pa_alloc_def)

lemma pa_alloc_frontier:
  "pa_free_list a = [] \<Longrightarrow>
   pa_alloc a = (pa_next_id a, a\<lparr>pa_next_id := saturating_add_word (pa_next_id a) 1,
                                 pa_allocated := insert (pa_next_id a) (pa_allocated a)\<rparr>)"
  by (simp add: pa_alloc_def)

lemma pa_alloc_inv:
  assumes inv: "pa_inv a" and can: "pa_can_alloc a" and alloc: "pa_alloc a = (pid, a')"
  shows "pa_inv a'" and "pid \<noteq> 0" and "pid \<notin> pa_allocated a"
    and "pa_allocated a' = insert pid (pa_allocated a)" and "pa_room a = Suc (pa_room a')"
    and "pid < pa_next_id a'"
proof -
  consider (reuse) xs where "pa_free_list a = xs @ [pid]"
      "a' = a\<lparr>pa_free_list := xs, pa_allocated := insert pid (pa_allocated a)\<rparr>"
    | (fresh) "pa_free_list a = []" "pid = pa_next_id a" "pa_next_id a < - 1"
      "a' = a\<lparr>pa_next_id := pa_next_id a + 1, pa_allocated := insert pid (pa_allocated a)\<rparr>"
  proof (cases "pa_free_list a" rule: rev_cases)
    case Nil
    with can alloc show ?thesis
      by (intro that(2)) (auto simp: pa_can_alloc_def pa_alloc_frontier saturating_succ)
  next
    case (snoc xs x)
    with alloc show ?thesis
      by (intro that(1) [of xs]) (auto simp: pa_alloc_reuse)
  qed
  then have "pa_inv a' \<and> pid \<noteq> 0 \<and> pid \<notin> pa_allocated a
    \<and> pa_allocated a' = insert pid (pa_allocated a) \<and> pa_room a = Suc (pa_room a')
    \<and> pid < pa_next_id a'"
  proof cases
    case reuse
    with inv show ?thesis by (auto simp: pa_inv_def pa_room_def)
  next
    case fresh
    have "unat (pa_next_id a) < 2 ^ 64 - 1"
      using fresh(3) by (simp add: word_less_nat_alt unat_minus_one_word_eq)
    moreover have "pa_next_id a + 1 \<noteq> 0"
      using succ_word_less [OF fresh(3)] by auto
    ultimately show ?thesis
      using inv fresh succ_word_less [OF fresh(3)]
      by (auto simp: pa_inv_def pa_room_def intro: less_trans)
  qed
  then show "pa_inv a'" and "pid \<noteq> 0" and "pid \<notin> pa_allocated a"
    and "pa_allocated a' = insert pid (pa_allocated a)" and "pa_room a = Suc (pa_room a')"
    and "pid < pa_next_id a'"
    by blast+
qed

lemma pa_can_alloc_iff_room: "pa_can_alloc a \<longleftrightarrow> 0 < pa_room a"
  by (auto simp: pa_can_alloc_def pa_room_def word_less_nat_alt unat_minus_one_word_eq)

lemma pa_free_inv: "pa_inv a \<Longrightarrow> pa_inv (snd (pa_free a pid))"
  by (auto simp: pa_inv_def pa_free_def)

lemma pa_advance_inv: "pa_inv a \<Longrightarrow> pa_inv (pa_advance_next_id a m)"
proof -
  assume inv: "pa_inv a"
  then have "0 < max (pa_next_id a) m"
    by (simp add: pa_inv_def less_max_iff_disj word_gt_0)
  then have "max (pa_next_id a) m \<noteq> 0" by simp
  with inv show ?thesis
    by (simp add: pa_inv_def pa_advance_next_id_def less_max_iff_disj)
qed

section \<open>The interface of an identifier source\<close>

text \<open>A client that asks for \<open>k\<close> identifiers in a row.\<close>

fun alloc_many :: "('s \<Rightarrow> u64 \<times> 's) \<Rightarrow> nat \<Rightarrow> 's \<Rightarrow> u64 list \<times> 's" where
  "alloc_many alloc 0 s = ([], s)"
| "alloc_many alloc (Suc k) s =
     (let (id, s') = alloc s; (ids, s'') = alloc_many alloc k s' in (id # ids, s''))"

text \<open>What a client of the allocator relies on: while there is room, an identifier is fresh and
  nonzero, it becomes live, and each allocation uses up one unit of room.\<close>

locale id_source =
  fixes alloc :: "'s \<Rightarrow> u64 \<times> 's" and live :: "'s \<Rightarrow> u64 set"
    and ok :: "'s \<Rightarrow> bool" and room :: "'s \<Rightarrow> nat"
  assumes alloc_ok: "ok s \<Longrightarrow> 0 < room s \<Longrightarrow> ok (snd (alloc s))"
    and alloc_fresh: "ok s \<Longrightarrow> 0 < room s \<Longrightarrow> fst (alloc s) \<notin> live s"
    and alloc_nonzero: "ok s \<Longrightarrow> 0 < room s \<Longrightarrow> fst (alloc s) \<noteq> 0"
    and alloc_live: "ok s \<Longrightarrow> 0 < room s \<Longrightarrow> live (snd (alloc s)) = insert (fst (alloc s)) (live s)"
    and alloc_room: "ok s \<Longrightarrow> 0 < room s \<Longrightarrow> room s = Suc (room (snd (alloc s)))"
begin

lemma alloc_many_distinct:
  assumes "ok s" and "k \<le> room s" and "alloc_many alloc k s = (ids, s')"
  shows "distinct ids \<and> set ids \<inter> live s = {} \<and> 0 \<notin> set ids \<and> length ids = k
    \<and> live s' = live s \<union> set ids \<and> ok s'"
  using assms
proof (induction k arbitrary: s ids s')
  case 0
  then show ?case by simp
next
  case (Suc k)
  obtain id s1 where a: "alloc s = (id, s1)" by force
  obtain ids1 s2 where m: "alloc_many alloc k s1 = (ids1, s2)" by force
  from Suc.prems(3) a m have ids: "ids = id # ids1" "s' = s2" by auto
  have r: "0 < room s" using Suc.prems(2) by simp
  note laws = alloc_ok [OF Suc.prems(1) r] alloc_fresh [OF Suc.prems(1) r]
    alloc_nonzero [OF Suc.prems(1) r] alloc_live [OF Suc.prems(1) r] alloc_room [OF Suc.prems(1) r]
  have "k \<le> room s1" using laws(5) Suc.prems(2) a by simp
  moreover have "ok s1" using laws(1) a by simp
  ultimately have "distinct ids1 \<and> set ids1 \<inter> live s1 = {} \<and> 0 \<notin> set ids1 \<and> length ids1 = k
    \<and> live s2 = live s1 \<union> set ids1 \<and> ok s2"
    using Suc.IH m by blast
  with laws a ids show ?case by auto
qed

end

interpretation pa_ids: id_source pa_alloc pa_allocated pa_inv pa_room
proof unfold_locales
  fix s :: page_allocator
  assume s: "pa_inv s" "0 < pa_room s"
  obtain id s' where a: "pa_alloc s = (id, s')" by force
  have can: "pa_can_alloc s" using s(2) by (simp add: pa_can_alloc_iff_room)
  note laws = pa_alloc_inv [OF s(1) can a]
  show "pa_inv (snd (pa_alloc s))" using laws(1) a by simp
  show "fst (pa_alloc s) \<notin> pa_allocated s" using laws(3) a by simp
  show "fst (pa_alloc s) \<noteq> 0" using laws(2) a by simp
  show "pa_allocated (snd (pa_alloc s)) = insert (fst (pa_alloc s)) (pa_allocated s)"
    using laws(4) a by simp
  show "pa_room s = Suc (pa_room (snd (pa_alloc s)))" using laws(5) a by simp
qed

section \<open>The checkpoint encoding\<close>

interpretation u64_records: fixed_codec u64_le 8 "\<lambda>_. True"
  by unfold_locales simp

lemma pa_to_bytes_length: "length (pa_to_bytes a) = pa_serialized_len a"
  by (simp add: pa_to_bytes_def pa_serialized_len_def u64_records.length_encoded_records list_all_iff)

lemma pa_read_free_list_total:
  "pos + 8 * k \<le> length buf \<Longrightarrow> pa_read_free_list buf n k pos acc \<noteq> None"
  by (induction k arbitrary: pos acc) (auto simp: page_simps)

lemma pa_read_free_list_sound:
  assumes "pa_read_free_list buf n k pos acc = Some (Some ids)" and "pos + 8 * k \<le> length buf"
    and "distinct acc" and "\<forall>id \<in> set acc. id \<noteq> 0 \<and> id < n"
  shows "distinct ids \<and> (\<forall>id \<in> set ids. id \<noteq> 0 \<and> id < n) \<and> length ids = length acc + k
    \<and> concat (map u64_le ids) = concat (map u64_le acc) @ sub_bytes buf pos (8 * k)"
  using assms
proof (induction k arbitrary: pos acc)
  case 0
  then show ?case by (simp add: sub_bytes_def)
next
  case (Suc k)
  let ?id = "le_u64 (sub_bytes buf pos 8)"
  have rd: "read_u64 buf pos = Some ?id"
    using Suc.prems(2) by (simp add: page_simps)
  have id: "?id \<noteq> 0" "?id < n" "?id \<notin> set acc"
    and rest: "pa_read_free_list buf n k (pos + 8) (acc @ [?id]) = Some (Some ids)"
    using Suc.prems(1) rd by (auto split: if_splits)
  have "sub_bytes buf pos (8 + 8 * k) = u64_le ?id @ sub_bytes buf (pos + 8) (8 * k)"
    using Suc.prems(2) by (subst sub_bytes_split) (simp add: u64_le_le_u64)
  moreover have "distinct ids \<and> (\<forall>id \<in> set ids. id \<noteq> 0 \<and> id < n) \<and> length ids = length (acc @ [?id]) + k
    \<and> concat (map u64_le ids) = concat (map u64_le (acc @ [?id])) @ sub_bytes buf (pos + 8) (8 * k)"
    using Suc.prems id by (intro Suc.IH [OF rest]) auto
  ultimately show ?case by simp
qed

lemma pa_read_free_list_complete:
  assumes "\<And>i. i < length ids \<Longrightarrow> read_u64 buf (pos + 8 * i) = Some (ids ! i)"
    and "distinct (acc @ ids)" and "\<forall>id \<in> set ids. id \<noteq> 0 \<and> id < n"
  shows "pa_read_free_list buf n (length ids) pos acc = Some (Some (acc @ ids))"
  using assms
proof (induction ids arbitrary: pos acc)
  case Nil
  then show ?case by simp
next
  case (Cons id ids)
  have "read_u64 buf pos = Some id" using Cons.prems(1) [of 0] by simp
  moreover have "pa_read_free_list buf n (length ids) (pos + 8) (acc @ [id]) = Some (Some ((acc @ [id]) @ ids))"
  proof (rule Cons.IH)
    show "read_u64 buf (pos + 8 + 8 * i) = Some (ids ! i)" if "i < length ids" for i
      using Cons.prems(1) [of "Suc i"] that by (simp add: add.assoc)
  qed (use Cons.prems in auto)
  ultimately show ?case using Cons.prems by (auto simp: not_le)
qed

lemma usize_header_ok:
  "unat (c :: u32) * 8 < 2 ^ 64" "12 + unat c * 8 < 2 ^ 64"
  using unat_less_pow [of c] by simp_all

lemma pa_from_bytes_eq:
  "pa_from_bytes buf =
    (if length buf < 12 \<or> le_u64 (sub_bytes buf 0 8) = 0
        \<or> length buf \<noteq> 12 + unat (le_u32 (sub_bytes buf 8 4)) * 8
     then Some None
     else try_option (pa_read_free_list buf (le_u64 (sub_bytes buf 0 8))
            (unat (le_u32 (sub_bytes buf 8 4))) 12 [])
       (\<lambda>ids. Some (Some \<lparr>pa_next_id = le_u64 (sub_bytes buf 0 8), pa_free_list = ids,
                         pa_allocated = {}\<rparr>)))"
  using usize_header_ok [of "le_u32 (sub_bytes buf 8 4)"]
  by (auto simp: pa_from_bytes_def page_simps usize_checked_mul_def usize_checked_add_def Let_def)

lemma pa_from_bytes_total: "pa_from_bytes buf \<noteq> None"
  using pa_read_free_list_total [of 12 "unat (le_u32 (sub_bytes buf 8 4))" buf]
  by (auto simp: pa_from_bytes_eq try_option_eq_None simp del: not_None_eq)

lemma pa_buffer_fields:
  assumes "length buf = 12 + 8 * k"
  shows "u64_le (le_u64 (sub_bytes buf 0 8)) @ u32_le (le_u32 (sub_bytes buf 8 4))
    @ sub_bytes buf 12 (8 * k) = buf"
proof -
  have "buf = sub_bytes buf 0 8 @ drop 8 buf" "drop 8 buf = sub_bytes buf 8 4 @ drop 12 buf"
    "drop 12 buf = sub_bytes buf 12 (8 * k)"
    using drop_field [of 8 0 8 buf] drop_field [of 12 8 4 buf] drop_last_field [of buf 12 "8 * k"] assms
    by simp_all
  then have "sub_bytes buf 0 8 @ sub_bytes buf 8 4 @ sub_bytes buf 12 (8 * k) = buf"
    by metis
  then show ?thesis
    using assms by (simp add: u64_le_le_u64 u32_le_le_u32)
qed

lemma pa_from_bytes_inv:
  assumes "pa_from_bytes buf = Some (Some a)"
  shows "pa_inv a" and "pa_to_bytes a = buf" and "pa_allocated a = {}"
proof -
  let ?n = "le_u64 (sub_bytes buf 0 8)" and ?c = "le_u32 (sub_bytes buf 8 4)"
  have len: "length buf = 12 + unat ?c * 8" and n: "?n \<noteq> 0"
    using assms by (simp_all add: pa_from_bytes_eq split: if_splits)
  then obtain ids where rd: "pa_read_free_list buf ?n (unat ?c) 12 [] = Some (Some ids)"
    and a: "a = \<lparr>pa_next_id = ?n, pa_free_list = ids, pa_allocated = {}\<rparr>"
    using assms by (auto simp: pa_from_bytes_eq try_option_eq_Some_Some)
  have "12 + 8 * unat ?c \<le> length buf" using len by linarith
  then have ids: "distinct ids" "\<forall>id \<in> set ids. id \<noteq> 0 \<and> id < ?n" "length ids = unat ?c"
    "concat (map u64_le ids) = sub_bytes buf 12 (8 * unat ?c)"
    using pa_read_free_list_sound [OF rd] by simp_all
  then show "pa_inv a" using n a by (simp add: pa_inv_def)
  have "u64_le ?n @ u32_le ?c @ sub_bytes buf 12 (8 * unat ?c) = buf"
    using len by (intro pa_buffer_fields) simp
  then show "pa_to_bytes a = buf"
    using ids a by (simp add: pa_to_bytes_def)
  show "pa_allocated a = {}" using a by simp
qed

lemma pa_from_to_bytes:
  assumes inv: "pa_inv a" and small: "length (pa_free_list a) < 2 ^ 32"
  shows "pa_from_bytes (pa_to_bytes a) = Some (Some (a\<lparr>pa_allocated := {}\<rparr>))"
proof -
  let ?buf = "pa_to_bytes a" and ?ids = "pa_free_list a"
  let ?hdr = "u64_le (pa_next_id a) @ u32_le (word_of_nat (length ?ids))"
  have buf: "?buf = ?hdr @ concat (map u64_le ?ids) @ []"
    by (simp add: pa_to_bytes_def)
  have hdr: "sub_bytes ?buf 0 8 = u64_le (pa_next_id a)"
    "sub_bytes ?buf 8 4 = u32_le (word_of_nat (length ?ids))"
    by (simp_all add: pa_to_bytes_def append_field_simps)
  have count: "unat (word_of_nat (length ?ids) :: u32) = length ?ids"
    using small by (simp add: unat_of_nat)
  have len: "length ?buf = 12 + length ?ids * 8"
    by (simp add: pa_to_bytes_length pa_serialized_len_def)
  have rd: "read_u64 ?buf (12 + 8 * i) = Some (?ids ! i)" if "i < length ?ids" for i
    using u64_records.encoded_record_at [of ?ids i ?hdr "[]"] that len buf
    by (simp add: page_simps list_all_iff)
  have "pa_read_free_list ?buf (pa_next_id a) (length ?ids) 12 [] = Some (Some ([] @ ?ids))"
    using inv by (intro pa_read_free_list_complete rd) (auto simp: pa_inv_def)
  then show ?thesis
    using inv len by (simp add: pa_from_bytes_eq hdr count pa_inv_def)
qed

section \<open>Properties\<close>

text \<open>C29. While identifiers are left, allocating \<open>k\<close> pages in a row hands out \<open>k\<close> distinct nonzero
  identifiers, none of which was live before, and keeps the invariant.\<close>

theorem pa_alloc_many_fresh:
  assumes "pa_inv a" and "k \<le> pa_room a" and "alloc_many pa_alloc k a = (ids, a')"
  shows "distinct ids \<and> set ids \<inter> pa_allocated a = {} \<and> 0 \<notin> set ids \<and> length ids = k
    \<and> pa_allocated a' = pa_allocated a \<union> set ids \<and> pa_inv a'"
  using assms by (rule pa_ids.alloc_many_distinct)

theorem pa_alloc_many_fresh_witness:
  "pa_inv pa_new \<and> 2 \<le> pa_room pa_new
    \<and> (\<exists>a'. alloc_many pa_alloc 2 pa_new = ([1, 2], a') \<and> distinct [1, 2 :: u64] \<and> pa_inv a')"
proof -
  let ?a1 = "\<lparr>pa_next_id = 2, pa_free_list = [], pa_allocated = {1}\<rparr>"
  let ?a2 = "\<lparr>pa_next_id = 3, pa_free_list = [], pa_allocated = {2, 1}\<rparr>"
  have "pa_alloc pa_new = (1, ?a1)" "pa_alloc ?a1 = (2, ?a2)"
    by (simp_all add: pa_alloc_def pa_new_def saturating_add_word_def)
  then have a': "alloc_many pa_alloc 2 pa_new = ([1, 2], ?a2)"
    unfolding numeral_2_eq_2 by simp
  have r: "2 \<le> pa_room pa_new" by (simp add: pa_room_def pa_new_def)
  show ?thesis
    using pa_alloc_many_fresh [OF pa_new_inv r a'] pa_new_inv r a' by blast
qed

text \<open>Decoding the allocator never panics, whatever the bytes. When it accepts a buffer, the result
  satisfies the invariant with no page allocated, and encoding it gives the buffer back: the encoding
  is canonical.\<close>

theorem pa_decode_safe:
  "pa_from_bytes buf = Some None
    \<or> (\<exists>a. pa_from_bytes buf = Some (Some a) \<and> pa_inv a \<and> pa_allocated a = {} \<and> pa_to_bytes a = buf)"
proof (cases "pa_from_bytes buf")
  case None
  then show ?thesis using pa_from_bytes_total [of buf] by simp
next
  case (Some r)
  then show ?thesis using pa_from_bytes_inv [of buf] by (cases r) auto
qed

text \<open>An allocator that satisfies the invariant and has fewer than $2^{32}$ free identifiers is restored
  from its checkpoint with the same frontier and the same free stack; the allocated set is left to
  recovery.\<close>

theorem pa_checkpoint_roundtrip:
  assumes "pa_inv a" and "length (pa_free_list a) < 2 ^ 32"
  shows "pa_from_bytes (pa_to_bytes a) = Some (Some (a\<lparr>pa_allocated := {}\<rparr>))
    \<and> length (pa_to_bytes a) = pa_serialized_len a"
  using pa_from_to_bytes [OF assms] pa_to_bytes_length by simp

theorem pa_checkpoint_roundtrip_witness:
  "let a = \<lparr>pa_next_id = 4, pa_free_list = [2], pa_allocated = {1, 3}\<rparr> in
   pa_inv a \<and> pa_from_bytes (pa_to_bytes a) = Some (Some (a\<lparr>pa_allocated := {}\<rparr>))"
proof -
  let ?a = "\<lparr>pa_next_id = 4, pa_free_list = [2], pa_allocated = {1, 3}\<rparr>"
  have inv: "pa_inv ?a" by (simp add: pa_inv_def)
  have "length (pa_free_list ?a) < 2 ^ 32" by simp
  from pa_checkpoint_roundtrip [OF inv this] inv show ?thesis by (simp add: Let_def)
qed

end
