(* ===== verification/Page_Mapping.thy ===== *)
theory Page_Mapping
  imports Page_Allocator "HOL-Library.Mapping" "HOL-Library.AList_Mapping"
begin

text \<open>
  The page mapping table, \<open>src/src/mvcc/pmt.rs\<close>: where the current image of each logical page lies.
  The hash map is a \<open>('k, 'v) mapping\<close>; its serialisation lists the entries in key order, as the
  source sorts them. Versions come from a monotonic counter, so that no two images of the life of a
  table share a version.
\<close>

record page_mapping =
  pm_file_id :: u32
  pm_offset :: u64
  pm_version :: u64

record pmt =
  pmt_mappings :: "(u64, page_mapping) mapping"
  pmt_next_version :: u64

definition pm_new :: "u32 \<Rightarrow> u64 \<Rightarrow> u64 \<Rightarrow> page_mapping" where
  "pm_new file_id offset version = \<lparr>pm_file_id = file_id, pm_offset = offset, pm_version = version\<rparr>"

definition pm_to_bytes :: "page_mapping \<Rightarrow> bytes" where
  "pm_to_bytes m = u32_le (pm_file_id m) @ u64_le (pm_offset m) @ u64_le (pm_version m)"

definition pm_from_bytes :: "bytes \<Rightarrow> page_mapping exec" where
  "pm_from_bytes buf = do {
     file_id \<leftarrow> read_u32 buf 0;
     offset \<leftarrow> read_u64 buf 4;
     version \<leftarrow> read_u64 buf 12;
     Some \<lparr>pm_file_id = file_id, pm_offset = offset, pm_version = version\<rparr>
   }"

definition pmt_new :: pmt where
  "pmt_new = \<lparr>pmt_mappings = Mapping.empty, pmt_next_version = 1\<rparr>"

definition pmt_get :: "pmt \<Rightarrow> u64 \<Rightarrow> page_mapping option" where
  "pmt_get p page_id = Mapping.lookup (pmt_mappings p) page_id"

text \<open>\<open>next_version += 1\<close> is an arithmetic overflow panic at the largest version.\<close>

definition pmt_insert :: "pmt \<Rightarrow> u64 \<Rightarrow> u32 \<Rightarrow> u64 \<Rightarrow> (page_mapping option \<times> pmt) exec" where
  "pmt_insert p page_id file_id offset = do {
     let m = pm_new file_id offset (pmt_next_version p);
     next \<leftarrow> checked_add_word (pmt_next_version p) 1;
     Some (pmt_get p page_id,
           \<lparr>pmt_mappings = Mapping.update page_id m (pmt_mappings p), pmt_next_version = next\<rparr>)
   }"

definition pmt_insert_persisted :: "pmt \<Rightarrow> u64 \<Rightarrow> page_mapping \<Rightarrow> page_mapping option \<times> pmt" where
  "pmt_insert_persisted p page_id m =
     (pmt_get p page_id,
      \<lparr>pmt_mappings = Mapping.update page_id m (pmt_mappings p),
       pmt_next_version = max (pmt_next_version p) (saturating_add_word (pm_version m) 1)\<rparr>)"

definition pmt_remove :: "pmt \<Rightarrow> u64 \<Rightarrow> page_mapping option \<times> pmt" where
  "pmt_remove p page_id =
     (pmt_get p page_id, p\<lparr>pmt_mappings := Mapping.delete page_id (pmt_mappings p)\<rparr>)"

definition pmt_contains :: "pmt \<Rightarrow> u64 \<Rightarrow> bool" where
  "pmt_contains p page_id \<longleftrightarrow> pmt_get p page_id \<noteq> None"

definition pmt_len :: "pmt \<Rightarrow> nat" where
  "pmt_len p = Mapping.size (pmt_mappings p)"

definition pmt_is_empty :: "pmt \<Rightarrow> bool" where
  "pmt_is_empty p = Mapping.is_empty (pmt_mappings p)"

definition pmt_clear :: "pmt \<Rightarrow> pmt" where
  "pmt_clear p = p\<lparr>pmt_mappings := Mapping.empty\<rparr>"

text \<open>\<open>iter\<close>, in the key order that \<open>to_bytes\<close> imposes.\<close>

definition pmt_entries :: "pmt \<Rightarrow> (u64 \<times> page_mapping) list" where
  "pmt_entries p =
     map (\<lambda>page_id. (page_id, the (pmt_get p page_id))) (Mapping.ordered_keys (pmt_mappings p))"

definition pmt_entry_bytes :: "u64 \<times> page_mapping \<Rightarrow> bytes" where
  "pmt_entry_bytes e = u64_le (fst e) @ pm_to_bytes (snd e)"

definition pmt_serialized_len :: "pmt \<Rightarrow> nat" where
  "pmt_serialized_len p = 4 + pmt_len p * (8 + 20)"

definition pmt_to_bytes :: "pmt \<Rightarrow> bytes" where
  "pmt_to_bytes p =
     u32_le (word_of_nat (pmt_len p)) @ concat (map pmt_entry_bytes (pmt_entries p))"

fun pmt_read_entries :: "bytes \<Rightarrow> nat \<Rightarrow> nat \<Rightarrow> pmt \<Rightarrow> pmt option exec" where
  "pmt_read_entries buf 0 pos p = Some (Some p)"
| "pmt_read_entries buf (Suc k) pos p = do {
     page_id \<leftarrow> read_u64 buf pos;
     mapping_buf \<leftarrow> slice_range buf (pos + 8) (pos + 8 + 20);
     m \<leftarrow> pm_from_bytes mapping_buf;
     try_option (Some (checked_add_word (pm_version m) 1)) (\<lambda>next_version.
       pmt_read_entries buf k (pos + 8 + 20)
         \<lparr>pmt_mappings = Mapping.update page_id m (pmt_mappings p),
          pmt_next_version =
            (if pm_version m \<ge> pmt_next_version p then next_version else pmt_next_version p)\<rparr>)
   }"

definition pmt_from_bytes :: "bytes \<Rightarrow> pmt option exec" where
  "pmt_from_bytes buf =
     (if length buf < 4 then Some None
      else do {
        c \<leftarrow> read_u32 buf 0;
        let count = unat c;
        try_option (Some (usize_checked_mul count (8 + 20))) (\<lambda>body.
        try_option (Some (usize_checked_add 4 body)) (\<lambda>expected_size.
          if length buf \<noteq> expected_size then Some None
          else pmt_read_entries buf count 4 pmt_new))
      })"

section \<open>The invariant\<close>

text \<open>Every stored version is below the version frontier, the frontier is positive and the table is
  finite.\<close>

definition pmt_inv :: "pmt \<Rightarrow> bool" where
  "pmt_inv p \<longleftrightarrow>
     finite (Mapping.keys (pmt_mappings p)) \<and> 1 \<le> pmt_next_version p \<and>
     (\<forall>page_id m. pmt_get p page_id = Some m \<longrightarrow> pm_version m < pmt_next_version p)"

lemma pmt_new_inv: "pmt_inv pmt_new"
  by (simp add: pmt_inv_def pmt_new_def pmt_get_def)

lemma checked_succ_less:
  "checked_add_word (v :: u64) 1 = Some n \<Longrightarrow> v < n \<and> unat n = Suc (unat v)"
  by (auto simp: checked_add_word_def word_less_nat_alt unat_word_ariths split: if_splits)

lemma one_le_word_iff: "(1 :: u64) \<le> w \<longleftrightarrow> w \<noteq> 0"
  by (simp add: word_le_nat_alt unat_gt_0 Suc_le_eq)

lemma lookup_update_cases:
  "Mapping.lookup (Mapping.update k v m) k' = (if k = k' then Some v else Mapping.lookup m k')"
  by (simp add: lookup_update lookup_update_neq)

lemma pmt_insert_spec:
  assumes "pmt_insert p page_id f off = Some (old, p')"
  shows "old = pmt_get p page_id"
    and "pmt_get p' k = (if page_id = k then Some (pm_new f off (pmt_next_version p)) else pmt_get p k)"
    and "pmt_next_version p < pmt_next_version p'"
    and "Mapping.keys (pmt_mappings p') = insert page_id (Mapping.keys (pmt_mappings p))"
proof -
  from assms obtain n where n: "checked_add_word (pmt_next_version p) 1 = Some n"
    and r: "old = pmt_get p page_id"
      "p' = \<lparr>pmt_mappings = Mapping.update page_id (pm_new f off (pmt_next_version p)) (pmt_mappings p),
             pmt_next_version = n\<rparr>"
    by (auto simp: pmt_insert_def Let_def bind_eq_Some_conv)
  show "old = pmt_get p page_id" by (rule r)
  show "pmt_get p' k = (if page_id = k then Some (pm_new f off (pmt_next_version p)) else pmt_get p k)"
    by (simp add: r pmt_get_def lookup_update_cases)
  show "pmt_next_version p < pmt_next_version p'"
    using checked_succ_less [OF n] by (simp add: r)
  show "Mapping.keys (pmt_mappings p') = insert page_id (Mapping.keys (pmt_mappings p))"
    by (simp add: r)
qed

lemma pmt_insert_inv:
  assumes inv: "pmt_inv p" and ins: "pmt_insert p page_id f off = Some (old, p')"
  shows "pmt_inv p'"
proof -
  note spec = pmt_insert_spec [OF ins]
  have "1 \<le> pmt_next_version p'"
    using spec(3) inv by (auto simp: pmt_inv_def)
  moreover have "pm_version m < pmt_next_version p'" if "pmt_get p' k = Some m" for k m
    using that spec(2) [of k] spec(3) inv
    by (auto simp: pmt_inv_def pm_new_def split: if_splits intro: less_trans)
  ultimately show ?thesis
    using inv spec(4) by (simp add: pmt_inv_def)
qed

lemma pmt_remove_inv: "pmt_inv p \<Longrightarrow> pmt_inv (snd (pmt_remove p page_id))"
  by (auto simp: pmt_inv_def pmt_remove_def pmt_get_def lookup_delete lookup_delete_neq
      elim: allE [where x = page_id]) (metis lookup_delete lookup_delete_neq option.distinct(1))

lemma pmt_clear_inv: "pmt_inv p \<Longrightarrow> pmt_inv (pmt_clear p)"
  by (simp add: pmt_inv_def pmt_clear_def pmt_get_def)

lemma pmt_insert_persisted_inv:
  assumes inv: "pmt_inv p" and v: "pm_version m < - 1"
  shows "pmt_inv (snd (pmt_insert_persisted p page_id m))"
proof -
  have s: "saturating_add_word (pm_version m) 1 = pm_version m + 1" "pm_version m < pm_version m + 1"
    using v saturating_succ succ_word_less by blast+
  let ?p' = "snd (pmt_insert_persisted p page_id m)"
  have get: "pmt_get ?p' k = (if page_id = k then Some m else pmt_get p k)" for k
    by (simp add: pmt_insert_persisted_def pmt_get_def lookup_update_cases)
  have nv: "pmt_next_version ?p' = max (pmt_next_version p) (pm_version m + 1)"
    and keys: "Mapping.keys (pmt_mappings ?p') = insert page_id (Mapping.keys (pmt_mappings p))"
    by (simp_all add: pmt_insert_persisted_def s(1))
  have "pm_version m' < pmt_next_version ?p'" if "pmt_get ?p' k = Some m'" for k m'
    using that inv s(2) by (auto simp: get nv pmt_inv_def less_max_iff_disj split: if_splits)
  moreover have "1 \<le> pmt_next_version ?p'"
    using inv by (simp add: nv pmt_inv_def le_max_iff_disj)
  ultimately show ?thesis
    using inv by (simp add: pmt_inv_def keys)
qed

section \<open>The checkpoint encoding\<close>

lemma pm_to_bytes_length [simp]: "length (pm_to_bytes m) = 20"
  by (simp add: pm_to_bytes_def)

lemma pm_from_to_bytes: "pm_from_bytes (pm_to_bytes m) = Some m"
  by (simp add: pm_from_bytes_def pm_to_bytes_def page_simps append_field_simps)

lemma pm_from_bytes_eq:
  "length buf = 20 \<Longrightarrow> pm_from_bytes buf =
     Some \<lparr>pm_file_id = le_u32 (sub_bytes buf 0 4), pm_offset = le_u64 (sub_bytes buf 4 8),
           pm_version = le_u64 (sub_bytes buf 12 8)\<rparr>"
  by (simp add: pm_from_bytes_def page_simps)

interpretation pmt_records: fixed_codec pmt_entry_bytes 28 "\<lambda>_. True"
  by unfold_locales (simp add: pmt_entry_bytes_def)

lemma pmt_entry_bytes_inj: "pmt_entry_bytes e = pmt_entry_bytes e' \<Longrightarrow> e = e'"
proof -
  assume eq: "pmt_entry_bytes e = pmt_entry_bytes e'"
  then have "sub_bytes (pmt_entry_bytes e) 0 8 = sub_bytes (pmt_entry_bytes e') 0 8"
    "sub_bytes (pmt_entry_bytes e) 8 20 = sub_bytes (pmt_entry_bytes e') 8 20" by simp_all
  then have "u64_le (fst e) = u64_le (fst e')" "pm_to_bytes (snd e) = pm_to_bytes (snd e')"
    by (simp_all add: pmt_entry_bytes_def append_field_simps)
  then show ?thesis
    by (metis le_u64_u64_le option.inject pm_from_to_bytes prod.expand)
qed

text \<open>What one round of the loop of \<open>from_bytes\<close> does to the table.\<close>

definition pmt_install :: "u64 \<times> page_mapping \<Rightarrow> pmt \<Rightarrow> pmt" where
  "pmt_install e p =
     \<lparr>pmt_mappings = Mapping.update (fst e) (snd e) (pmt_mappings p),
      pmt_next_version =
        (if pm_version (snd e) \<ge> pmt_next_version p then pm_version (snd e) + 1
         else pmt_next_version p)\<rparr>"

lemma pmt_read_entries_step:
  assumes "pos + 28 \<le> length buf"
  obtains e where "pmt_entry_bytes e = sub_bytes buf pos 28"
    and "\<And>k p. pmt_read_entries buf (Suc k) pos p =
      (if pm_version (snd e) < - 1 then pmt_read_entries buf k (pos + 28) (pmt_install e p)
       else Some None)"
proof
  let ?b = "sub_bytes buf (pos + 8) 20"
  let ?m = "\<lparr>pm_file_id = le_u32 (sub_bytes ?b 0 4), pm_offset = le_u64 (sub_bytes ?b 4 8),
    pm_version = le_u64 (sub_bytes ?b 12 8)\<rparr>"
  let ?e = "(le_u64 (sub_bytes buf pos 8), ?m)"
  have "sub_bytes ?b 0 4 @ sub_bytes ?b 4 8 @ sub_bytes ?b 12 8 = ?b"
    using drop_field [of 4 0 4 ?b] drop_field [of 12 4 8 ?b] drop_last_field [of ?b 12 8] assms
    by simp
  then have "pm_to_bytes ?m = ?b"
    using assms by (simp add: pm_to_bytes_def u32_le_le_u32 u64_le_le_u64)
  then show "pmt_entry_bytes ?e = sub_bytes buf pos 28"
    using assms sub_bytes_split [of buf pos 8 20] by (simp add: pmt_entry_bytes_def u64_le_le_u64)
  have "checked_add_word (pm_version ?m) 1 = (if pm_version ?m < - 1 then Some (pm_version ?m + 1) else None)"
    by (auto simp: checked_add_word_def word_less_nat_alt unat_minus_one_word_eq)
  then show "pmt_read_entries buf (Suc k) pos p =
      (if pm_version (snd ?e) < - 1 then pmt_read_entries buf k (pos + 28) (pmt_install ?e p)
       else Some None)" for k p
    using assms
    by (simp add: page_simps slice_sub_bytes pm_from_bytes_eq pmt_install_def add.commute)
qed

lemma pmt_read_entries_total:
  "pos + 28 * k \<le> length buf \<Longrightarrow> pmt_read_entries buf k pos p \<noteq> None"
proof (induction k arbitrary: pos p)
  case 0
  then show ?case by simp
next
  case (Suc k)
  then obtain e where "pmt_read_entries buf (Suc k) pos p =
      (if pm_version (snd e) < - 1 then pmt_read_entries buf k (pos + 28) (pmt_install e p)
       else Some None)"
    by (metis (no_types, lifting) pmt_read_entries_step add_leD1 add_mult_distrib2 mult_Suc_right add.assoc)
  moreover have "pmt_read_entries buf k (pos + 28) q \<noteq> None" for q
    using Suc.prems by (intro Suc.IH) simp
  ultimately show ?case by simp
qed

lemma pmt_read_entries_complete:
  assumes "\<And>i. i < length es \<Longrightarrow> sub_bytes buf (pos + 28 * i) 28 = pmt_entry_bytes (es ! i)"
    and "pos + 28 * length es \<le> length buf" and "\<forall>e \<in> set es. pm_version (snd e) < - 1"
  shows "pmt_read_entries buf (length es) pos p = Some (Some (fold pmt_install es p))"
  using assms
proof (induction es arbitrary: pos p)
  case Nil
  then show ?case by simp
next
  case (Cons e es)
  have "pos + 28 \<le> length buf" using Cons.prems(2) by simp
  then obtain e' where e': "pmt_entry_bytes e' = sub_bytes buf pos 28"
    and step: "pmt_read_entries buf (Suc (length es)) pos p =
      (if pm_version (snd e') < - 1 then pmt_read_entries buf (length es) (pos + 28) (pmt_install e' p)
       else Some None)"
    by (rule pmt_read_entries_step) blast
  have "e' = e"
    using e' Cons.prems(1) [of 0] by (intro pmt_entry_bytes_inj) simp
  moreover have "pmt_read_entries buf (length es) (pos + 28) q = Some (Some (fold pmt_install es q))" for q
  proof (rule Cons.IH)
    show "sub_bytes buf (pos + 28 + 28 * i) 28 = pmt_entry_bytes (es ! i)" if "i < length es" for i
      using Cons.prems(1) [of "Suc i"] that by (simp add: add.assoc)
  qed (use Cons.prems in auto)
  ultimately show ?case
    using Cons.prems(3) step by simp
qed

lemma usize_pmt_ok: "unat (c :: u32) * 28 < 2 ^ 64" "4 + unat c * 28 < 2 ^ 64"
  using unat_less_pow [of c] by simp_all

lemma pmt_from_bytes_eq:
  "pmt_from_bytes buf =
    (if length buf < 4 \<or> length buf \<noteq> 4 + unat (le_u32 (sub_bytes buf 0 4)) * 28 then Some None
     else pmt_read_entries buf (unat (le_u32 (sub_bytes buf 0 4))) 4 pmt_new)"
  using usize_pmt_ok [of "le_u32 (sub_bytes buf 0 4)"]
  by (simp add: pmt_from_bytes_def page_simps usize_checked_mul_def usize_checked_add_def Let_def)

lemma lookup_fold_install:
  "distinct (map fst es) \<Longrightarrow>
   pmt_get (fold pmt_install es p) k = (case map_of es k of None \<Rightarrow> pmt_get p k | Some m \<Rightarrow> Some m)"
proof (induction es arbitrary: p)
  case Nil
  then show ?case by simp
next
  case (Cons e es)
  have "fst e \<notin> fst ` set es" using Cons.prems by simp
  then have "map_of es (fst e) = None" by (simp add: map_of_eq_None_iff)
  moreover have "pmt_get (pmt_install e p) k = (if fst e = k then Some (snd e) else pmt_get p k)"
    by (simp add: pmt_install_def pmt_get_def lookup_update_cases)
  ultimately show ?case
    using Cons by (cases e) (auto split: option.splits)
qed

lemma fold_install_frontier:
  assumes "\<forall>e \<in> set es. pm_version (snd e) < - 1"
  shows "pmt_next_version p \<le> pmt_next_version (fold pmt_install es p)"
    and "\<forall>e \<in> set es. pm_version (snd e) < pmt_next_version (fold pmt_install es p)"
    and "pmt_next_version (fold pmt_install es p) \<noteq> pmt_next_version p \<Longrightarrow>
      \<exists>e \<in> set es. pmt_next_version (fold pmt_install es p) = pm_version (snd e) + 1"
proof (atomize (full), insert assms, induction es arbitrary: p)
  case Nil
  then show ?case by simp
next
  case (Cons e es)
  let ?q = "pmt_install e p" and ?r = "fold pmt_install es (pmt_install e p)"
  have v: "pm_version (snd e) < pm_version (snd e) + 1"
    using Cons.prems succ_word_less by simp
  have q: "pmt_next_version p \<le> pmt_next_version ?q" "pm_version (snd e) < pmt_next_version ?q"
    "pmt_next_version ?q \<noteq> pmt_next_version p \<Longrightarrow> pmt_next_version ?q = pm_version (snd e) + 1"
    using v by (auto simp: pmt_install_def not_le split: if_splits)
  have r: "pmt_next_version ?q \<le> pmt_next_version ?r"
    "\<forall>e \<in> set es. pm_version (snd e) < pmt_next_version ?r"
    "pmt_next_version ?r \<noteq> pmt_next_version ?q \<longrightarrow>
        (\<exists>e \<in> set es. pmt_next_version ?r = pm_version (snd e) + 1)"
    using Cons.IH [of ?q] Cons.prems by auto
  have "pmt_next_version p \<le> pmt_next_version ?r" "pm_version (snd e) < pmt_next_version ?r"
    using q(1,2) r(1) by order+
  moreover have "\<exists>e \<in> set (e # es). pmt_next_version ?r = pm_version (snd e) + 1"
    if "pmt_next_version ?r \<noteq> pmt_next_version p"
    using that q(3) r(3) by (cases "pmt_next_version ?r = pmt_next_version ?q") auto
  ultimately show ?case
    using r(2) by simp
qed

lemma pmt_entries_facts:
  assumes "pmt_inv p"
  shows "distinct (map fst (pmt_entries p))" and "sorted (map fst (pmt_entries p))"
    and "length (pmt_entries p) = pmt_len p" and "map_of (pmt_entries p) k = pmt_get p k"
    and "\<forall>e \<in> set (pmt_entries p). pmt_get p (fst e) = Some (snd e)"
proof -
  let ?ks = "Mapping.ordered_keys (pmt_mappings p)"
  have fin: "finite (Mapping.keys (pmt_mappings p))"
    using assms by (simp add: pmt_inv_def)
  have set: "set ?ks = Mapping.keys (pmt_mappings p)" and dist: "distinct ?ks" and "sorted ?ks"
    using fin by (simp_all add: ordered_keys_def)
  have fst: "map fst (pmt_entries p) = ?ks"
    by (simp add: pmt_entries_def comp_def)
  show "distinct (map fst (pmt_entries p))" "sorted (map fst (pmt_entries p))"
    using fst dist \<open>sorted ?ks\<close> by simp_all
  show "length (pmt_entries p) = pmt_len p"
    using fin by (simp add: pmt_entries_def pmt_len_def Mapping.size_def ordered_keys_def)
  show all: "\<forall>e \<in> set (pmt_entries p). pmt_get p (fst e) = Some (snd e)"
    using set by (auto simp: pmt_entries_def pmt_get_def keys_is_none_rep Option.is_none_def)
  show "map_of (pmt_entries p) k = pmt_get p k"
  proof (cases "pmt_get p k")
    case None
    then have "k \<notin> fst ` set (pmt_entries p)"
      using all by force
    then show ?thesis using None by (simp add: map_of_eq_None_iff)
  next
    case (Some m)
    then have "k \<in> set ?ks"
      using set by (simp add: pmt_get_def keys_is_none_rep Option.is_none_def)
    then have "(k, m) \<in> set (pmt_entries p)"
      using Some by (force simp: pmt_entries_def)
    then show ?thesis
      using Some \<open>distinct (map fst (pmt_entries p))\<close> by simp
  qed
qed

lemma pmt_to_bytes_length: "pmt_inv p \<Longrightarrow> length (pmt_to_bytes p) = pmt_serialized_len p"
  by (simp add: pmt_to_bytes_def pmt_serialized_len_def pmt_records.length_encoded_records list_all_iff
      pmt_entries_facts)

lemma pmt_inv_version_bound: "pmt_inv p \<Longrightarrow> pmt_get p k = Some m \<Longrightarrow> pm_version m < - 1"
  by (auto simp: pmt_inv_def intro: order.strict_trans2 [OF _ word_n1_ge])

lemma pmt_from_to_bytes:
  assumes inv: "pmt_inv p" and small: "pmt_len p < 2 ^ 32"
  shows "pmt_from_bytes (pmt_to_bytes p) = Some (Some (fold pmt_install (pmt_entries p) pmt_new))"
proof -
  let ?buf = "pmt_to_bytes p" and ?es = "pmt_entries p"
  let ?hdr = "u32_le (word_of_nat (pmt_len p))"
  note facts = pmt_entries_facts [OF inv]
  have buf: "?buf = ?hdr @ concat (map pmt_entry_bytes ?es) @ []"
    by (simp add: pmt_to_bytes_def)
  have count: "unat (le_u32 (sub_bytes ?buf 0 4)) = length ?es"
    using small by (simp add: pmt_to_bytes_def append_field_simps facts unat_of_nat)
  have len: "length ?buf = 4 + length ?es * 28"
    by (simp add: pmt_to_bytes_length inv pmt_serialized_len_def facts)
  have "sub_bytes ?buf (4 + 28 * i) 28 = pmt_entry_bytes (?es ! i)" if "i < length ?es" for i
    using pmt_records.encoded_record_at [of ?es i ?hdr "[]"] that buf
    by (simp add: list_all_iff)
  moreover have "\<forall>e \<in> set ?es. pm_version (snd e) < - 1"
    using facts(5) pmt_inv_version_bound [OF inv] by blast
  ultimately have "pmt_read_entries ?buf (length ?es) 4 pmt_new = Some (Some (fold pmt_install ?es pmt_new))"
    using len by (intro pmt_read_entries_complete) auto
  then show ?thesis
    using len by (simp add: pmt_from_bytes_eq count)
qed

section \<open>Runs of the table\<close>

inductive pmt_step :: "pmt \<Rightarrow> pmt \<Rightarrow> bool" where
  step_insert: "pmt_insert p page_id f off = Some (old, p') \<Longrightarrow> pmt_step p p'"
| step_insert_persisted: "pmt_insert_persisted p page_id m = (old, p') \<Longrightarrow> pmt_step p p'"
| step_remove: "pmt_remove p page_id = (old, p') \<Longrightarrow> pmt_step p p'"
| step_clear: "pmt_step p (pmt_clear p)"

lemma pmt_step_frontier: "pmt_step p p' \<Longrightarrow> pmt_next_version p \<le> pmt_next_version p'"
proof (induction rule: pmt_step.induct)
  case (step_insert p page_id f off old p')
  then show ?case by (auto dest: pmt_insert_spec(3))
qed (auto simp: pmt_insert_persisted_def pmt_remove_def pmt_clear_def)

lemma pmt_run_frontier: "pmt_step\<^sup>*\<^sup>* p p' \<Longrightarrow> pmt_next_version p \<le> pmt_next_version p'"
proof (induction rule: rtranclp_induct)
  case base
  then show ?case by simp
next
  case (step q r)
  then show ?case using pmt_step_frontier by (blast intro: order.trans)
qed

lemma pmt_fold_install_inv:
  assumes inv: "pmt_inv p"
  defines "q \<equiv> fold pmt_install (pmt_entries p) pmt_new"
  shows "pmt_get q k = pmt_get p k" and "pmt_inv q" and "pmt_next_version q \<le> pmt_next_version p"
proof -
  note facts = pmt_entries_facts [OF inv]
  have bound: "\<forall>e \<in> set (pmt_entries p). pm_version (snd e) < - 1"
    using facts(5) pmt_inv_version_bound [OF inv] by blast
  note frontier = fold_install_frontier [OF bound, where p = pmt_new]
  show get: "pmt_get q k = pmt_get p k" for k
    using facts(4) [of k] lookup_fold_install [OF facts(1), of pmt_new k]
    by (simp add: q_def pmt_new_def pmt_get_def split: option.splits)
  have "Mapping.keys (pmt_mappings q) = Mapping.keys (pmt_mappings p)"
    using get by (auto simp: pmt_get_def keys_is_none_rep)
  moreover have "1 \<le> pmt_next_version q"
    using frontier(1) by (simp add: q_def pmt_new_def)
  moreover have "pm_version m < pmt_next_version q" if "pmt_get q k = Some m" for k m
  proof -
    have "(k, m) \<in> set (pmt_entries p)"
      using that facts(4) [of k] get by (auto dest: map_of_SomeD)
    then show ?thesis using frontier(2) by (auto simp: q_def)
  qed
  ultimately show "pmt_inv q"
    using inv by (simp add: pmt_inv_def)
  show "pmt_next_version q \<le> pmt_next_version p"
  proof (cases "pmt_next_version q = pmt_next_version pmt_new")
    case True
    then show ?thesis using inv by (simp add: pmt_inv_def pmt_new_def)
  next
    case False
    then obtain e where e: "e \<in> set (pmt_entries p)" "pmt_next_version q = pm_version (snd e) + 1"
      using frontier(3) by (auto simp: q_def)
    then have "pm_version (snd e) < pmt_next_version p"
      using facts(5) inv by (auto simp: pmt_inv_def)
    with e(2) show ?thesis by (simp add: inc_le)
  qed
qed

lemma pmt_read_entries_inv:
  assumes "pmt_read_entries buf k pos p = Some (Some q)" and "pos + 28 * k \<le> length buf" and "pmt_inv p"
  shows "pmt_inv q"
  using assms
proof (induction k arbitrary: pos p)
  case 0
  then show ?case by simp
next
  case (Suc k)
  have "pos + 28 \<le> length buf" using Suc.prems(2) by simp
  then obtain e where "pmt_read_entries buf (Suc k) pos p =
      (if pm_version (snd e) < - 1 then pmt_read_entries buf k (pos + 28) (pmt_install e p)
       else Some None)"
    by (rule pmt_read_entries_step) blast
  then have v: "pm_version (snd e) < - 1"
    and rest: "pmt_read_entries buf k (pos + 28) (pmt_install e p) = Some (Some q)"
    using Suc.prems(1) by (simp_all split: if_splits)
  have get: "pmt_get (pmt_install e p) k = (if fst e = k then Some (snd e) else pmt_get p k)" for k
    by (simp add: pmt_install_def pmt_get_def lookup_update_cases)
  have nv: "pmt_next_version p \<le> pmt_next_version (pmt_install e p)"
    "pm_version (snd e) < pmt_next_version (pmt_install e p)"
    using succ_word_less [OF v] by (auto simp: pmt_install_def)
  have "pmt_inv (pmt_install e p)"
    unfolding pmt_inv_def
  proof (intro conjI allI impI)
    show "finite (Mapping.keys (pmt_mappings (pmt_install e p)))"
      using Suc.prems(3) by (simp add: pmt_inv_def pmt_install_def)
    show "1 \<le> pmt_next_version (pmt_install e p)"
      using Suc.prems(3) nv(1) by (auto simp: pmt_inv_def intro: order.trans)
    show "pm_version m < pmt_next_version (pmt_install e p)"
      if "pmt_get (pmt_install e p) page_id = Some m" for page_id m
      using that Suc.prems(3) nv by (auto simp: get pmt_inv_def split: if_splits intro: order.strict_trans2)
  qed
  then show ?case
    using Suc.prems(2) by (intro Suc.IH [OF rest]) auto
qed

lemma pmt_from_bytes_total: "pmt_from_bytes buf \<noteq> None"
  using pmt_read_entries_total [of 4 "unat (le_u32 (sub_bytes buf 0 4))" buf pmt_new]
  by (auto simp: pmt_from_bytes_eq simp del: not_None_eq)

lemma pmt_from_bytes_inv: "pmt_from_bytes buf = Some (Some p) \<Longrightarrow> pmt_inv p"
  using pmt_read_entries_inv [of buf "unat (le_u32 (sub_bytes buf 0 4))" 4 pmt_new p] pmt_new_inv
  by (simp add: pmt_from_bytes_eq split: if_splits)

section \<open>Properties\<close>

text \<open>C30. A table that satisfies the invariant and has fewer than $2^{32}$ pages survives its checkpoint:
  decoding its bytes succeeds, every page has the same mapping, and the restored version frontier is
  again above every stored version and never above the frontier that was saved.\<close>

theorem pmt_checkpoint_roundtrip:
  assumes "pmt_inv p" and "pmt_len p < 2 ^ 32"
  shows "\<exists>q. pmt_from_bytes (pmt_to_bytes p) = Some (Some q) \<and> (\<forall>k. pmt_get q k = pmt_get p k)
    \<and> pmt_inv q \<and> pmt_next_version q \<le> pmt_next_version p"
  using pmt_from_to_bytes [OF assms] pmt_fold_install_inv [OF assms(1)] by blast

theorem pmt_checkpoint_roundtrip_witness:
  "\<exists>p q. pmt_insert pmt_new 7 0 4096 = Some (None, p) \<and> pmt_from_bytes (pmt_to_bytes p) = Some (Some q)
    \<and> pmt_get q 7 = Some (pm_new 0 4096 1)"
proof -
  let ?p = "\<lparr>pmt_mappings = Mapping.update 7 (pm_new 0 4096 1) Mapping.empty, pmt_next_version = 2\<rparr>"
  have ins: "pmt_insert pmt_new 7 0 4096 = Some (None, ?p)"
    by (simp add: pmt_insert_def pmt_new_def pmt_get_def checked_add_word_def)
  have inv: "pmt_inv ?p" using pmt_insert_inv [OF pmt_new_inv ins] .
  have len: "pmt_len ?p < 2 ^ 32"
    by (simp add: pmt_len_def Mapping.size_def)
  have "pmt_get ?p 7 = Some (pm_new 0 4096 1)"
    by (simp add: pmt_get_def lookup_update)
  with pmt_checkpoint_roundtrip [OF inv len] ins show ?thesis by metis
qed

text \<open>Decoding a table never panics, whatever the bytes: it refuses or returns a table that
  satisfies the invariant.\<close>

theorem pmt_decode_safe:
  "pmt_from_bytes buf = Some None \<or> (\<exists>p. pmt_from_bytes buf = Some (Some p) \<and> pmt_inv p)"
proof (cases "pmt_from_bytes buf")
  case None
  then show ?thesis using pmt_from_bytes_total [of buf] by simp
next
  case (Some r)
  then show ?thesis using pmt_from_bytes_inv [of buf] by (cases r) auto
qed

text \<open>C31. No two images written in the life of a table share a version: when a page is mapped, then
  the table goes through any sequence of insertions, installations, removals and clears, and then some
  page is mapped again, the second image has a strictly larger version than the first.\<close>

theorem pmt_versions_never_reused:
  assumes "pmt_insert p k f off = Some (old, p1)" and "pmt_step\<^sup>*\<^sup>* p1 p2"
    and "pmt_insert p2 k' f' off' = Some (old', p3)"
  shows "\<exists>m m'. pmt_get p1 k = Some m \<and> pmt_get p3 k' = Some m' \<and> pm_version m < pm_version m'"
proof -
  have "pmt_get p1 k = Some (pm_new f off (pmt_next_version p))"
    and "pmt_get p3 k' = Some (pm_new f' off' (pmt_next_version p2))"
    using pmt_insert_spec(2) [OF assms(1), of k] pmt_insert_spec(2) [OF assms(3), of k'] by simp_all
  moreover have "pmt_next_version p < pmt_next_version p2"
    using pmt_insert_spec(3) [OF assms(1)] pmt_run_frontier [OF assms(2)] by order
  ultimately show ?thesis by (simp add: pm_new_def)
qed

theorem pmt_versions_never_reused_witness:
  "\<exists>p1 p3 m m'. pmt_insert pmt_new 1 0 0 = Some (None, p1)
    \<and> pmt_insert (pmt_clear p1) 1 0 4096 = Some (None, p3)
    \<and> pmt_get p1 1 = Some m \<and> pmt_get p3 1 = Some m' \<and> pm_version m < pm_version m'"
proof -
  let ?p1 = "\<lparr>pmt_mappings = Mapping.update 1 (pm_new 0 0 1) Mapping.empty, pmt_next_version = 2\<rparr>"
  let ?p3 = "\<lparr>pmt_mappings = Mapping.update 1 (pm_new 0 4096 2) Mapping.empty, pmt_next_version = 3\<rparr>"
  have i1: "pmt_insert pmt_new 1 0 0 = Some (None, ?p1)"
    and i3: "pmt_insert (pmt_clear ?p1) 1 0 4096 = Some (None, ?p3)"
    by (simp_all add: pmt_insert_def pmt_new_def pmt_get_def pmt_clear_def checked_add_word_def)
  have "pmt_step\<^sup>*\<^sup>* ?p1 (pmt_clear ?p1)" using step_clear by blast
  from pmt_versions_never_reused [OF i1 this i3] i1 i3 show ?thesis by blast
qed

end
