(* ===== verification/Durable_Format.thy ===== *)
theory Durable_Format
  imports Rust_Prelude
begin

text \<open>
  The durable format primitives of \<open>src/src/storage/format.rs\<close>: the superblock, the commit payload of
  the write-ahead log and the manifest slot. The CRC32C function comes from the crate \<open>crc32c\<close>, which is
  not part of the repository; it is the argument \<open>crc\<close> of the definitions that use it, and nothing is
  assumed of it. A \<open>DatabaseId\<close> is its sixteen bytes; the numeric identities are their integers.
\<close>

definition FORMAT_VERSION :: u32 where "FORMAT_VERSION = 2"
definition SUPERBLOCK_SIZE :: nat where "SUPERBLOCK_SIZE = 4096"
definition MANIFEST_SLOT_SIZE :: nat where "MANIFEST_SLOT_SIZE = 256"

text \<open>The magics \<open>SEERDBSB\<close> and \<open>SEERMNF1\<close>.\<close>

definition ascii :: "string \<Rightarrow> bytes" where
  "ascii s = map of_char s"

definition SUPERBLOCK_MAGIC :: bytes where "SUPERBLOCK_MAGIC = ascii ''SEERDBSB''"
definition MANIFEST_MAGIC :: bytes where "MANIFEST_MAGIC = ascii ''SEERMNF1''"

definition valid_page_size :: "u32 \<Rightarrow> bool" where
  "valid_page_size page_size \<longleftrightarrow>
     512 \<le> page_size \<and> list_ex (\<lambda>k. unat page_size = 2 ^ k) [0..<32]"

section \<open>Superblock\<close>

record superblock =
  sb_database_id :: bytes
  sb_history_id :: u64
  sb_page_size :: u32
  sb_format_version :: u32

definition sb_new :: "bytes \<Rightarrow> u64 \<Rightarrow> u32 \<Rightarrow> superblock option" where
  "sb_new database_id history_id page_size =
     (if \<not> valid_page_size page_size then None
      else Some \<lparr>sb_database_id = database_id, sb_history_id = history_id,
                 sb_page_size = page_size, sb_format_version = FORMAT_VERSION\<rparr>)"

text \<open>The first forty bytes, which the checksum covers.\<close>

definition sb_head :: "superblock \<Rightarrow> bytes" where
  "sb_head s =
     SUPERBLOCK_MAGIC @ u32_le (sb_format_version s) @ u32_le (sb_page_size s)
     @ sb_database_id s @ u64_le (sb_history_id s)"

definition sb_to_bytes :: "(bytes \<Rightarrow> u32) \<Rightarrow> superblock \<Rightarrow> bytes" where
  "sb_to_bytes crc s = sb_head s @ u32_le (crc (sb_head s)) @ replicate (SUPERBLOCK_SIZE - 44) 0"

definition sb_from_bytes :: "(bytes \<Rightarrow> u32) \<Rightarrow> bytes \<Rightarrow> superblock option exec" where
  "sb_from_bytes crc b = do {
     magic \<leftarrow> slice_range b 0 8;
     if magic \<noteq> SUPERBLOCK_MAGIC then Some None
     else do {
       stored_checksum \<leftarrow> read_u32 b 40;
       head \<leftarrow> slice_range b 0 40;
       if stored_checksum \<noteq> crc head then Some None
       else do {
         format_version \<leftarrow> read_u32 b 8;
         page_size \<leftarrow> read_u32 b 12;
         if format_version \<noteq> FORMAT_VERSION \<or> \<not> valid_page_size page_size then Some None
         else do {
           database_id \<leftarrow> slice_range b 16 32;
           history_id \<leftarrow> read_u64 b 32;
           Some (Some \<lparr>sb_database_id = database_id, sb_history_id = history_id,
                       sb_page_size = page_size, sb_format_version = format_version\<rparr>)
         }
       }
     }
   }"

section \<open>Commit record\<close>

record commit_record =
  cr_commit_id :: u64
  cr_generation_id :: u64
  cr_root_page_id :: u64
  cr_mutation_count :: u64
  cr_digest :: u32

definition cr_to_bytes :: "commit_record \<Rightarrow> bytes" where
  "cr_to_bytes c =
     u32_le FORMAT_VERSION @ u64_le (cr_commit_id c) @ u64_le (cr_generation_id c)
     @ u64_le (cr_root_page_id c) @ u64_le (cr_mutation_count c) @ u32_le (cr_digest c)"

definition cr_from_bytes :: "bytes \<Rightarrow> commit_record option exec" where
  "cr_from_bytes b =
     (if length b \<noteq> 40 then Some None
      else do {
        format_version \<leftarrow> read_u32 b 0;
        if format_version \<noteq> FORMAT_VERSION then Some None
        else do {
          commit_id \<leftarrow> read_u64 b 4;
          generation_id \<leftarrow> read_u64 b 12;
          root_page_id \<leftarrow> read_u64 b 20;
          mutation_count \<leftarrow> read_u64 b 28;
          digest \<leftarrow> read_u32 b 36;
          Some (Some \<lparr>cr_commit_id = commit_id, cr_generation_id = generation_id,
                      cr_root_page_id = root_page_id, cr_mutation_count = mutation_count,
                      cr_digest = digest\<rparr>)
        }
      })"

section \<open>Manifest\<close>

record manifest =
  mf_database_id :: bytes
  mf_history_id :: u64
  mf_generation_id :: u64
  mf_commit_id :: u64
  mf_page_size :: u32
  mf_root_page_id :: u64
  mf_pmt_checkpoint_id :: u64
  mf_wal_segment :: u64
  mf_wal_offset :: u64
  mf_mutation_count :: u64
  mf_digest :: u32
  mf_format_version :: u32

datatype manifest_error =
  InvalidManifestMagic | ManifestChecksumMismatch | UnsupportedManifestFormat

text \<open>The first 252 bytes, which the checksum covers.\<close>

definition mf_head :: "manifest \<Rightarrow> bytes" where
  "mf_head m =
     MANIFEST_MAGIC @ u32_le (mf_format_version m) @ u32_le (mf_page_size m) @ mf_database_id m
     @ u64_le (mf_history_id m) @ u64_le (mf_generation_id m) @ u64_le (mf_commit_id m)
     @ u64_le (mf_root_page_id m) @ u64_le (mf_pmt_checkpoint_id m) @ u64_le (mf_wal_segment m)
     @ u64_le (mf_wal_offset m) @ u64_le (mf_mutation_count m) @ u32_le (mf_digest m)
     @ replicate 152 0"

definition mf_to_bytes :: "(bytes \<Rightarrow> u32) \<Rightarrow> manifest \<Rightarrow> bytes" where
  "mf_to_bytes crc m = mf_head m @ u32_le (crc (mf_head m))"

definition mf_from_bytes :: "(bytes \<Rightarrow> u32) \<Rightarrow> bytes \<Rightarrow> (manifest_error + manifest option) exec" where
  "mf_from_bytes crc b =
     (if list_all (\<lambda>x. x = 0) b then Some (Inr None)
      else do {
        magic \<leftarrow> slice_range b 0 8;
        if magic \<noteq> MANIFEST_MAGIC then Some (Inl InvalidManifestMagic)
        else do {
          stored_checksum \<leftarrow> read_u32 b 252;
          head \<leftarrow> slice_range b 0 252;
          if stored_checksum \<noteq> crc head then Some (Inl ManifestChecksumMismatch)
          else do {
            format_version \<leftarrow> read_u32 b 8;
            page_size \<leftarrow> read_u32 b 12;
            if format_version \<noteq> FORMAT_VERSION \<or> \<not> valid_page_size page_size
            then Some (Inl UnsupportedManifestFormat)
            else do {
              database_id \<leftarrow> slice_range b 16 32;
              history_id \<leftarrow> read_u64 b 32;
              generation_id \<leftarrow> read_u64 b 40;
              commit_id \<leftarrow> read_u64 b 48;
              root_page_id \<leftarrow> read_u64 b 56;
              pmt_checkpoint_id \<leftarrow> read_u64 b 64;
              wal_segment \<leftarrow> read_u64 b 72;
              wal_offset \<leftarrow> read_u64 b 80;
              mutation_count \<leftarrow> read_u64 b 88;
              digest \<leftarrow> read_u32 b 96;
              Some (Inr (Some \<lparr>
                mf_database_id = database_id, mf_history_id = history_id,
                mf_generation_id = generation_id, mf_commit_id = commit_id,
                mf_page_size = page_size, mf_root_page_id = root_page_id,
                mf_pmt_checkpoint_id = pmt_checkpoint_id, mf_wal_segment = wal_segment,
                mf_wal_offset = wal_offset, mf_mutation_count = mutation_count,
                mf_digest = digest, mf_format_version = format_version\<rparr>))
            }
          }
        }
      })"

definition mf_is_newer_than :: "manifest \<Rightarrow> manifest \<Rightarrow> bool" where
  "mf_is_newer_than m other \<longleftrightarrow>
     mf_generation_id m > mf_generation_id other \<or>
     (mf_generation_id m = mf_generation_id other \<and> mf_commit_id m > mf_commit_id other)"

section \<open>Round trips\<close>

lemma ascii_length [simp]: "length (ascii s) = length s"
  by (simp add: ascii_def)

lemma magic_lengths [simp]: "length SUPERBLOCK_MAGIC = 8" "length MANIFEST_MAGIC = 8"
  by (simp_all add: SUPERBLOCK_MAGIC_def MANIFEST_MAGIC_def)

text \<open>The records the encoders are used on: a sixteen byte identity, the current format version and a
  valid page size.\<close>

definition sb_ok :: "superblock \<Rightarrow> bool" where
  "sb_ok s \<longleftrightarrow> length (sb_database_id s) = 16 \<and> sb_format_version s = FORMAT_VERSION
     \<and> valid_page_size (sb_page_size s)"

definition mf_ok :: "manifest \<Rightarrow> bool" where
  "mf_ok m \<longleftrightarrow> length (mf_database_id m) = 16 \<and> mf_format_version m = FORMAT_VERSION
     \<and> valid_page_size (mf_page_size m)"

lemma sb_head_length: "sb_ok s \<Longrightarrow> length (sb_head s) = 40"
  by (simp add: sb_ok_def sb_head_def)

lemma sb_head_fields:
  assumes "sb_ok s"
  shows "sub_bytes (sb_head s) 0 8 = SUPERBLOCK_MAGIC" "sub_bytes (sb_head s) 8 4 = u32_le (sb_format_version s)"
    "sub_bytes (sb_head s) 12 4 = u32_le (sb_page_size s)" "sub_bytes (sb_head s) 16 16 = sb_database_id s"
    "sub_bytes (sb_head s) 32 8 = u64_le (sb_history_id s)"
  using assms by (simp_all add: sb_ok_def sb_head_def append_field_simps)

lemma sb_to_bytes_length: "sb_ok s \<Longrightarrow> length (sb_to_bytes crc s) = SUPERBLOCK_SIZE"
  by (simp add: sb_to_bytes_def sb_head_length SUPERBLOCK_SIZE_def)

lemma sb_from_to_bytes:
  assumes ok: "sb_ok s"
  shows "sb_from_bytes crc (sb_to_bytes crc s) = Some (Some s)"
proof -
  let ?b = "sb_to_bytes crc s"
  note len = sb_to_bytes_length [OF ok, of crc] sb_head_length [OF ok]
  have "sub_bytes ?b 0 40 = sb_head s" "sub_bytes ?b 40 4 = u32_le (crc (sb_head s))"
    by (simp_all add: sb_to_bytes_def append_field_simps len)
  moreover have "sub_bytes ?b a l = sub_bytes (sb_head s) a l" if "a + l \<le> 40" for a l
    using that by (simp add: sb_to_bytes_def append_field_simps len)
  ultimately show ?thesis
    using ok sb_head_fields [OF ok] len(1)
    by (simp add: sb_from_bytes_def page_simps slice_sub_bytes sb_ok_def SUPERBLOCK_SIZE_def)
qed

lemma cr_to_bytes_length [simp]: "length (cr_to_bytes c) = 40"
  by (simp add: cr_to_bytes_def)

lemma cr_from_to_bytes: "cr_from_bytes (cr_to_bytes c) = Some (Some c)"
  by (simp add: cr_from_bytes_def cr_to_bytes_def page_simps append_field_simps)

lemma mf_head_length: "length (mf_head m) = 236 + length (mf_database_id m)"
  by (simp add: mf_head_def)

lemma mf_to_bytes_length [simp]: "length (mf_database_id m) = 16 \<Longrightarrow> length (mf_to_bytes crc m) = 256"
  by (simp add: mf_to_bytes_def mf_head_length)

lemma mf_head_fields:
  assumes "length (mf_database_id m) = 16"
  shows "sub_bytes (mf_head m) 0 8 = MANIFEST_MAGIC" "sub_bytes (mf_head m) 8 4 = u32_le (mf_format_version m)"
    "sub_bytes (mf_head m) 12 4 = u32_le (mf_page_size m)" "sub_bytes (mf_head m) 16 16 = mf_database_id m"
    "sub_bytes (mf_head m) 32 8 = u64_le (mf_history_id m)"
    "sub_bytes (mf_head m) 40 8 = u64_le (mf_generation_id m)"
    "sub_bytes (mf_head m) 48 8 = u64_le (mf_commit_id m)"
    "sub_bytes (mf_head m) 56 8 = u64_le (mf_root_page_id m)"
    "sub_bytes (mf_head m) 64 8 = u64_le (mf_pmt_checkpoint_id m)"
    "sub_bytes (mf_head m) 72 8 = u64_le (mf_wal_segment m)"
    "sub_bytes (mf_head m) 80 8 = u64_le (mf_wal_offset m)"
    "sub_bytes (mf_head m) 88 8 = u64_le (mf_mutation_count m)"
    "sub_bytes (mf_head m) 96 4 = u32_le (mf_digest m)"
  using assms by (simp_all add: mf_head_def append_field_simps)

lemma mf_to_bytes_not_zero: "\<not> list_all (\<lambda>x. x = 0) (mf_to_bytes crc m)"
proof
  assume "list_all (\<lambda>x. x = 0) (mf_to_bytes crc m)"
  then have "list_all (\<lambda>x. x = 0) MANIFEST_MAGIC"
    by (simp add: mf_to_bytes_def mf_head_def)
  then show False by (simp add: MANIFEST_MAGIC_def ascii_def)
qed

lemma mf_from_to_bytes:
  assumes ok: "mf_ok m"
  shows "mf_from_bytes crc (mf_to_bytes crc m) = Some (Inr (Some m))"
proof -
  let ?b = "mf_to_bytes crc m"
  have dbid: "length (mf_database_id m) = 16" using ok by (simp add: mf_ok_def)
  then have len: "length (mf_head m) = 252" "length ?b = 256" by (simp_all add: mf_head_length)
  have "sub_bytes ?b 0 252 = mf_head m" "sub_bytes ?b 252 4 = u32_le (crc (mf_head m))"
    by (simp_all add: mf_to_bytes_def append_field_simps len)
  moreover have "sub_bytes ?b a l = sub_bytes (mf_head m) a l" if "a + l \<le> 252" for a l
    using that by (simp add: mf_to_bytes_def append_field_simps len)
  ultimately show ?thesis
    using ok mf_head_fields [OF dbid] len(2) mf_to_bytes_not_zero [of crc m]
    by (simp add: mf_from_bytes_def page_simps slice_sub_bytes mf_ok_def)
qed

lemma mf_from_bytes_total: "length b = 256 \<Longrightarrow> mf_from_bytes crc b \<noteq> None"
  by (simp add: mf_from_bytes_def page_simps slice_sub_bytes del: not_None_eq)

lemma mf_from_bytes_accepts:
  assumes "mf_from_bytes crc b = Some (Inr (Some m))" and "length b = 256"
  shows "mf_ok m" and "le_u32 (sub_bytes b 252 4) = crc (sub_bytes b 0 252)"
    and "sub_bytes b 0 8 = MANIFEST_MAGIC"
  using assms
  by (auto simp: mf_from_bytes_def page_simps slice_sub_bytes mf_ok_def split: if_splits)

lemma mf_newer_irrefl: "\<not> mf_is_newer_than m m"
  by (simp add: mf_is_newer_than_def)

lemma mf_newer_trans: "mf_is_newer_than a b \<Longrightarrow> mf_is_newer_than b c \<Longrightarrow> mf_is_newer_than a c"
  by (auto simp: mf_is_newer_than_def)

lemma mf_newer_total:
  "mf_is_newer_than a b \<or> mf_is_newer_than b a
    \<or> (mf_generation_id a = mf_generation_id b \<and> mf_commit_id a = mf_commit_id b)"
  by (auto simp: mf_is_newer_than_def)

section \<open>Properties\<close>

text \<open>A manifest with a sixteen byte identity, the current format version and a valid page size
  fills one slot of 256 bytes and is read back unchanged, whatever the checksum function.\<close>

theorem manifest_slot_roundtrip:
  assumes "mf_ok m"
  shows "length (mf_to_bytes crc m) = MANIFEST_SLOT_SIZE
    \<and> mf_from_bytes crc (mf_to_bytes crc m) = Some (Inr (Some m))"
  using assms mf_from_to_bytes [OF assms] by (simp add: mf_ok_def MANIFEST_SLOT_SIZE_def)

definition sample_manifest :: manifest where
  "sample_manifest = \<lparr>mf_database_id = replicate 16 7, mf_history_id = 1, mf_generation_id = 3,
     mf_commit_id = 4, mf_page_size = 4096, mf_root_page_id = 9, mf_pmt_checkpoint_id = 3,
     mf_wal_segment = 0, mf_wal_offset = 128, mf_mutation_count = 2, mf_digest = 77,
     mf_format_version = FORMAT_VERSION\<rparr>"

lemma valid_page_size_4096: "valid_page_size 4096"
  by (simp add: valid_page_size_def list_ex_iff) (rule bexI [of _ 12], simp_all)

lemma sample_manifest_ok: "mf_ok sample_manifest"
  by (simp add: mf_ok_def sample_manifest_def valid_page_size_4096)

theorem manifest_slot_roundtrip_witness:
  "mf_ok sample_manifest
    \<and> mf_from_bytes (\<lambda>b. word_of_nat (length b)) (mf_to_bytes (\<lambda>b. word_of_nat (length b)) sample_manifest)
      = Some (Inr (Some sample_manifest))"
  using manifest_slot_roundtrip [OF sample_manifest_ok, of "\<lambda>b. word_of_nat (length b)"]
    sample_manifest_ok by simp

text \<open>Reading any 256 bytes as a manifest slot never panics. An empty slot is only the all-zero one,
  and a slot is accepted as a manifest only when its magic is right, its stored checksum is the checksum
  of its first 252 bytes, and its version and page size are supported.\<close>

theorem manifest_slot_decode_safe:
  assumes "length b = MANIFEST_SLOT_SIZE"
  shows "mf_from_bytes crc b \<noteq> None
    \<and> (mf_from_bytes crc b = Some (Inr None) \<longleftrightarrow> b = replicate MANIFEST_SLOT_SIZE 0)
    \<and> (\<forall>m. mf_from_bytes crc b = Some (Inr (Some m)) \<longrightarrow>
        mf_ok m \<and> sub_bytes b 0 8 = MANIFEST_MAGIC
        \<and> le_u32 (sub_bytes b 252 4) = crc (sub_bytes b 0 252))"
proof (intro conjI allI impI)
  have len: "length b = 256" using assms by (simp add: MANIFEST_SLOT_SIZE_def)
  show "mf_from_bytes crc b \<noteq> None" by (rule mf_from_bytes_total [OF len])
  have "list_all (\<lambda>x. x = 0) b \<longleftrightarrow> b = replicate MANIFEST_SLOT_SIZE 0"
    using assms by (auto simp: list_all_iff intro: replicate_eqI)
  moreover have "mf_from_bytes crc b = Some (Inr None) \<longleftrightarrow> list_all (\<lambda>x. x = 0) b"
    using len by (auto simp: mf_from_bytes_def page_simps slice_sub_bytes split: if_splits)
  ultimately show "mf_from_bytes crc b = Some (Inr None) \<longleftrightarrow> b = replicate MANIFEST_SLOT_SIZE 0"
    by (rule trans [rotated])
  fix m
  assume "mf_from_bytes crc b = Some (Inr (Some m))"
  then show "mf_ok m" "sub_bytes b 0 8 = MANIFEST_MAGIC"
    "le_u32 (sub_bytes b 252 4) = crc (sub_bytes b 0 252)"
    using mf_from_bytes_accepts [OF _ len] by blast+
qed

theorem manifest_slot_decode_safe_witness:
  "mf_from_bytes (\<lambda>_. 0) (mf_to_bytes (\<lambda>_. 0) sample_manifest) \<noteq> None
    \<and> le_u32 (sub_bytes (mf_to_bytes (\<lambda>_. 0) sample_manifest) 252 4) = 0"
proof -
  let ?b = "mf_to_bytes (\<lambda>_. 0) sample_manifest"
  have len: "length ?b = MANIFEST_SLOT_SIZE"
    using sample_manifest_ok by (simp add: mf_ok_def MANIFEST_SLOT_SIZE_def)
  show ?thesis
    using manifest_slot_decode_safe [OF len, of "\<lambda>_. 0"] mf_from_to_bytes [OF sample_manifest_ok]
    by blast
qed

text \<open>A superblock that \<open>Superblock::new\<close> builds fills its 4096 byte sector and is read back
  unchanged; \<open>new\<close> refuses every page size that is below 512 or no power of two.\<close>

theorem superblock_roundtrip:
  assumes "length database_id = 16"
  shows "case sb_new database_id history_id page_size of
      None \<Rightarrow> \<not> valid_page_size page_size
    | Some s \<Rightarrow> valid_page_size page_size \<and> length (sb_to_bytes crc s) = SUPERBLOCK_SIZE
        \<and> sb_from_bytes crc (sb_to_bytes crc s) = Some (Some s)"
proof (cases "valid_page_size page_size")
  case True
  let ?s = "\<lparr>sb_database_id = database_id, sb_history_id = history_id,
    sb_page_size = page_size, sb_format_version = FORMAT_VERSION\<rparr>"
  have "sb_ok ?s" using assms True by (simp add: sb_ok_def)
  then show ?thesis
    using True sb_to_bytes_length sb_from_to_bytes by (simp add: sb_new_def)
next
  case False
  then show ?thesis by (simp add: sb_new_def)
qed

theorem superblock_roundtrip_witness:
  "\<exists>s. sb_new (replicate 16 1) 5 4096 = Some s
    \<and> sb_from_bytes (\<lambda>_. 3) (sb_to_bytes (\<lambda>_. 3) s) = Some (Some s)"
  using superblock_roundtrip [where database_id = "replicate 16 1" and history_id = 5
      and page_size = 4096 and crc = "\<lambda>_. 3"] valid_page_size_4096
  by (simp add: sb_new_def)

end
