(* ===== verification/Manifest_History.thy ===== *)
theory Manifest_History
  imports Durable_Format
begin

text \<open>
  The append-only history of published manifests, \<open>src/src/storage/manifest_history.rs\<close>. The state is
  the list of manifests in publication order; the invariant is that every entry has the current format
  and each is newer than the one before.
\<close>

type_synonym manifest_history = "manifest list"

datatype history_error =
    HistInvalidFormat | HistNotMonotonic | HistDisagrees
  | HistTruncated | HistInvalidMagic | HistUnsupported
  | HistChecksumMismatch | HistInvalidManifest | HistEmptyEntry

definition MANIFEST_HISTORY_MAGIC :: bytes where "MANIFEST_HISTORY_MAGIC = ascii ''SEERHST1''"
definition MANIFEST_HISTORY_HEADER_SIZE :: nat where "MANIFEST_HISTORY_HEADER_SIZE = 8 + 4"
definition MANIFEST_HISTORY_ENTRY_SIZE :: nat where
  "MANIFEST_HISTORY_ENTRY_SIZE = MANIFEST_SLOT_SIZE + 4"

definition mh_new :: manifest_history where "mh_new = []"

definition mh_latest :: "manifest_history \<Rightarrow> manifest option" where
  "mh_latest h = (if h = [] then None else Some (last h))"

definition mh_find_commit :: "manifest_history \<Rightarrow> u64 \<Rightarrow> manifest option" where
  "mh_find_commit h commit_id = find (\<lambda>m. mf_commit_id m = commit_id) (rev h)"

definition mh_reset :: "manifest_history \<Rightarrow> manifest \<Rightarrow> manifest_history" where
  "mh_reset h m = [m]"

definition mh_push :: "manifest_history \<Rightarrow> manifest \<Rightarrow> history_error + manifest_history" where
  "mh_push h m =
     (if mf_format_version m \<noteq> FORMAT_VERSION \<or> \<not> valid_page_size (mf_page_size m)
      then Inl HistInvalidFormat
      else case mh_latest h of
        None \<Rightarrow> Inr (h @ [m])
      | Some current \<Rightarrow>
          if current = m then Inr h
          else if \<not> mf_is_newer_than m current then Inl HistNotMonotonic
          else Inr (h @ [m]))"

definition mh_reconcile_current :: "manifest_history \<Rightarrow> manifest \<Rightarrow> history_error + manifest_history" where
  "mh_reconcile_current h current =
     (case position (\<lambda>m. m = current) h of
        Some index \<Rightarrow> Inr (take (index + 1) h)
      | None \<Rightarrow>
          (case mh_latest h of
             Some latest \<Rightarrow>
               if mf_database_id latest = mf_database_id current
                  \<and> mf_history_id latest = mf_history_id current
                  \<and> mf_is_newer_than current latest
               then mh_push h current
               else if mf_database_id latest = mf_database_id current
                  \<and> mf_history_id latest \<noteq> mf_history_id current
               then Inr (mh_reset h current)
               else Inl HistDisagrees
           | None \<Rightarrow> mh_push h current))"

definition mh_prune_to_generations :: "manifest_history \<Rightarrow> u64 set \<Rightarrow> nat \<times> manifest_history" where
  "mh_prune_to_generations h retained =
     (let h' = filter (\<lambda>m. mf_generation_id m \<in> retained) h in (length h - length h', h'))"

definition mh_header_bytes :: bytes where
  "mh_header_bytes = MANIFEST_HISTORY_MAGIC @ u32_le FORMAT_VERSION"

definition mh_entry_bytes :: "(bytes \<Rightarrow> u32) \<Rightarrow> manifest \<Rightarrow> bytes" where
  "mh_entry_bytes crc m = mf_to_bytes crc m @ u32_le (crc (mf_to_bytes crc m))"

definition mh_to_bytes :: "(bytes \<Rightarrow> u32) \<Rightarrow> manifest_history \<Rightarrow> bytes option" where
  "mh_to_bytes crc h =
     (case usize_checked_mul (length h) MANIFEST_HISTORY_ENTRY_SIZE of None \<Rightarrow> None
      | Some body \<Rightarrow> (case usize_checked_add MANIFEST_HISTORY_HEADER_SIZE body of None \<Rightarrow> None
        | Some _ \<Rightarrow> Some (mh_header_bytes @ concat (map (mh_entry_bytes crc) h))))"

text \<open>The loop of \<open>from_bytes\<close> over the complete chunks.\<close>

fun mh_read_entries ::
    "(bytes \<Rightarrow> u32) \<Rightarrow> bytes \<Rightarrow> nat \<Rightarrow> nat \<Rightarrow> manifest_history \<Rightarrow> (history_error + manifest_history) exec" where
  "mh_read_entries crc b 0 pos h = Some (Inr h)"
| "mh_read_entries crc b (Suc k) pos h = do {
     chunk \<leftarrow> slice_range b pos (pos + MANIFEST_HISTORY_ENTRY_SIZE);
     slot \<leftarrow> slice_range chunk 0 MANIFEST_SLOT_SIZE;
     expected \<leftarrow> read_u32 chunk MANIFEST_SLOT_SIZE;
     if crc slot \<noteq> expected then Some (Inl HistChecksumMismatch)
     else do {
       r \<leftarrow> mf_from_bytes crc slot;
       (case r of
          Inl _ \<Rightarrow> Some (Inl HistInvalidManifest)
        | Inr None \<Rightarrow> Some (Inl HistEmptyEntry)
        | Inr (Some m) \<Rightarrow>
            (case mh_push h m of
               Inl e \<Rightarrow> Some (Inl e)
             | Inr h' \<Rightarrow> mh_read_entries crc b k (pos + MANIFEST_HISTORY_ENTRY_SIZE) h'))
     }
   }"

definition mh_from_bytes :: "(bytes \<Rightarrow> u32) \<Rightarrow> bytes \<Rightarrow> (history_error + manifest_history) exec" where
  "mh_from_bytes crc b =
     (if length b < MANIFEST_HISTORY_HEADER_SIZE then Some (Inl HistTruncated)
      else do {
        magic \<leftarrow> slice_range b 0 8;
        if magic \<noteq> MANIFEST_HISTORY_MAGIC then Some (Inl HistInvalidMagic)
        else do {
          version \<leftarrow> read_u32 b 8;
          if version \<noteq> FORMAT_VERSION then Some (Inl HistUnsupported)
          else mh_read_entries crc b
                 ((length b - MANIFEST_HISTORY_HEADER_SIZE) div MANIFEST_HISTORY_ENTRY_SIZE)
                 MANIFEST_HISTORY_HEADER_SIZE mh_new
        }
      })"

section \<open>The invariant\<close>

definition mh_inv :: "manifest_history \<Rightarrow> bool" where
  "mh_inv h \<longleftrightarrow> (\<forall>m \<in> set h. mf_ok m) \<and> sorted_wrt (\<lambda>a b. mf_is_newer_than b a) h"

lemma mh_new_inv: "mh_inv mh_new"
  by (simp add: mh_inv_def mh_new_def)

lemma mh_inv_distinct: "mh_inv h \<Longrightarrow> distinct h"
  unfolding mh_inv_def by (induction h) (auto simp: mf_newer_irrefl)

lemma mh_inv_snoc:
  assumes "mh_inv h" and "mf_ok m" and "h \<noteq> [] \<Longrightarrow> mf_is_newer_than m (last h)"
  shows "mh_inv (h @ [m])"
proof (cases h rule: rev_cases)
  case Nil
  then show ?thesis using assms(2) by (simp add: mh_inv_def)
next
  case (snoc ys y)
  then have "mf_is_newer_than m y" using assms(3) by simp
  moreover have "\<forall>x \<in> set ys. mf_is_newer_than y x"
    using assms(1) snoc by (simp add: mh_inv_def sorted_wrt_append)
  ultimately have "\<forall>x \<in> set h. mf_is_newer_than m x"
    using snoc mf_newer_trans by auto
  then show ?thesis using assms(1,2) by (auto simp: mh_inv_def sorted_wrt_append)
qed

lemma mh_push_inv:
  assumes inv: "mh_inv h" and len: "length (mf_database_id m) = 16" and push: "mh_push h m = Inr h'"
  shows "mh_inv h'" and "mh_latest h' = Some m" and "h' = h \<or> h' = h @ [m]"
proof -
  have ok: "mf_ok m"
    using push len by (auto simp: mh_push_def mf_ok_def split: if_splits)
  consider "h' = h" "h \<noteq> []" "last h = m" | "h' = h @ [m]" "h = []"
    | "h' = h @ [m]" "h \<noteq> []" "mf_is_newer_than m (last h)"
    using push by (auto simp: mh_push_def mh_latest_def split: if_splits option.splits)
  then show "mh_inv h'" and "mh_latest h' = Some m" and "h' = h \<or> h' = h @ [m]"
    using inv ok mh_inv_snoc [OF inv ok] by (cases; auto simp: mh_latest_def)+
qed

lemma sorted_wrt_take: "sorted_wrt R xs \<Longrightarrow> sorted_wrt R (take n xs)"
  by (metis append_take_drop_id sorted_wrt_append)

lemma mh_inv_take: "mh_inv h \<Longrightarrow> mh_inv (take n h)"
  by (auto simp: mh_inv_def sorted_wrt_take dest: in_set_takeD)

lemma sorted_wrt_filter_list: "sorted_wrt R xs \<Longrightarrow> sorted_wrt R (filter P xs)"
  by (induction xs) auto

lemma mh_prune_inv: "mh_inv h \<Longrightarrow> mh_inv (snd (mh_prune_to_generations h retained))"
  by (auto simp: mh_inv_def mh_prune_to_generations_def Let_def sorted_wrt_filter_list)

lemma mh_reconcile_spec:
  assumes inv: "mh_inv h" and ok: "mf_ok c" and rec: "mh_reconcile_current h c = Inr h'"
  shows "mh_inv h'" and "mh_latest h' = Some c"
proof -
  have len: "length (mf_database_id c) = 16" using ok by (simp add: mf_ok_def)
  have "mh_inv h' \<and> mh_latest h' = Some c"
  proof (cases "position (\<lambda>m. m = c) h")
    case (Some i)
    with rec have h': "h' = take (Suc i) h" by (simp add: mh_reconcile_current_def)
    from Some have "i < length h" "h ! i = c" using position_Some by fastforce+
    then show ?thesis
      using mh_inv_take [OF inv, of "Suc i"] h' by (simp add: mh_latest_def take_Suc_conv_app_nth)
  next
    case None
    with rec consider "mh_push h c = Inr h'" | "h' = [c]"
      by (auto simp: mh_reconcile_current_def mh_reset_def split: option.splits if_splits)
    then show ?thesis
    proof cases
      case 1
      then show ?thesis using mh_push_inv [OF inv len] by blast
    next
      case 2
      then show ?thesis using ok by (simp add: mh_inv_def mh_latest_def)
    qed
  qed
  then show "mh_inv h'" and "mh_latest h' = Some c" by blast+
qed

section \<open>Replaying the log\<close>

lemma mh_header_length [simp]: "length mh_header_bytes = MANIFEST_HISTORY_HEADER_SIZE"
  by (simp add: mh_header_bytes_def MANIFEST_HISTORY_HEADER_SIZE_def MANIFEST_HISTORY_MAGIC_def)

lemma mh_sizes:
  "MANIFEST_HISTORY_HEADER_SIZE = 12" "MANIFEST_HISTORY_ENTRY_SIZE = 260" "MANIFEST_SLOT_SIZE = 256"
  by (simp_all add: MANIFEST_HISTORY_HEADER_SIZE_def MANIFEST_HISTORY_ENTRY_SIZE_def MANIFEST_SLOT_SIZE_def)

interpretation mh_records: fixed_codec "mh_entry_bytes crc" MANIFEST_HISTORY_ENTRY_SIZE mf_ok for crc
  by unfold_locales (simp add: mh_entry_bytes_def mf_ok_def mh_sizes)

lemma mh_read_entries_Suc:
  assumes "pos + 260 \<le> length b"
  shows "mh_read_entries crc b (Suc k) pos h =
    (if crc (sub_bytes b pos 256) \<noteq> le_u32 (sub_bytes b (pos + 256) 4) then Some (Inl HistChecksumMismatch)
     else case mf_from_bytes crc (sub_bytes b pos 256) of
       None \<Rightarrow> None
     | Some (Inl _) \<Rightarrow> Some (Inl HistInvalidManifest)
     | Some (Inr None) \<Rightarrow> Some (Inl HistEmptyEntry)
     | Some (Inr (Some m)) \<Rightarrow>
         (case mh_push h m of
            Inl e \<Rightarrow> Some (Inl e)
          | Inr h' \<Rightarrow> mh_read_entries crc b k (pos + 260) h'))"
  using assms
  by (cases "mf_from_bytes crc (sub_bytes b pos 256)")
    (simp_all add: mh_sizes slice_sub_bytes page_simps sub_bytes_sub_bytes split: sum.split option.split)

lemma mh_read_entries_total:
  "pos + 260 * k \<le> length b \<Longrightarrow> mh_read_entries crc b k pos h \<noteq> None"
proof (induction k arbitrary: pos h)
  case 0
  then show ?case by simp
next
  case (Suc k)
  have "mh_read_entries crc b k (pos + 260) h' \<noteq> None" for h'
    using Suc.prems by (intro Suc.IH) simp
  moreover have "mf_from_bytes crc (sub_bytes b pos 256) \<noteq> None"
    using Suc.prems by (intro mf_from_bytes_total) simp
  ultimately show ?case
    using Suc.prems
    by (auto simp: mh_read_entries_Suc simp del: mh_read_entries.simps not_None_eq split: sum.splits option.splits)
qed

lemma mh_read_entries_inv:
  assumes "mh_read_entries crc b k pos h = Some (Inr h')" and "pos + 260 * k \<le> length b" and "mh_inv h"
  shows "mh_inv h'"
  using assms
proof (induction k arbitrary: pos h)
  case 0
  then show ?case by simp
next
  case (Suc k)
  from Suc.prems(1,2) obtain m h1 where m: "mf_from_bytes crc (sub_bytes b pos 256) = Some (Inr (Some m))"
    and push: "mh_push h m = Inr h1"
    and rest: "mh_read_entries crc b k (pos + 260) h1 = Some (Inr h')"
    by (auto simp: mh_read_entries_Suc simp del: mh_read_entries.simps split: sum.splits option.splits if_splits)
  have "mf_ok m" using Suc.prems(2) by (intro mf_from_bytes_accepts(1) [OF m]) simp
  then have "mh_inv h1" using mh_push_inv(1) [OF Suc.prems(3) _ push] by (simp add: mf_ok_def)
  then show ?case using Suc.prems(2) by (intro Suc.IH [OF rest]) simp_all
qed

lemma mh_push_append:
  "mh_inv (h @ [m]) \<Longrightarrow> mh_push h m = Inr (h @ [m])"
proof -
  assume inv: "mh_inv (h @ [m])"
  then have ok: "mf_ok m" and newer: "\<forall>x \<in> set h. mf_is_newer_than m x"
    by (simp_all add: mh_inv_def sorted_wrt_append)
  then have "mf_is_newer_than m (last h)" "last h \<noteq> m" if "h \<noteq> []"
    using that mf_newer_irrefl [of m] last_in_set [OF that] by metis+
  with ok show ?thesis
    by (auto simp: mh_push_def mh_latest_def mf_ok_def)
qed

lemma mh_read_entries_complete:
  assumes "\<And>i. i < length ms \<Longrightarrow> sub_bytes b (pos + 260 * i) 260 = mh_entry_bytes crc (ms ! i)"
    and "pos + 260 * length ms \<le> length b" and "mh_inv (h @ ms)"
  shows "mh_read_entries crc b (length ms) pos h = Some (Inr (h @ ms))"
  using assms
proof (induction ms arbitrary: pos h)
  case Nil
  then show ?case by simp
next
  case (Cons m ms)
  have ok: "mf_ok m" using Cons.prems(3) by (simp add: mh_inv_def)
  then have len: "length (mf_to_bytes crc m) = 256" by (simp add: mf_ok_def)
  have chunk: "sub_bytes b pos 260 = mf_to_bytes crc m @ u32_le (crc (mf_to_bytes crc m))"
    using Cons.prems(1) [of 0] by (simp add: mh_entry_bytes_def)
  have "sub_bytes b pos 256 = sub_bytes (sub_bytes b pos 260) 0 256"
    "sub_bytes b (pos + 256) 4 = sub_bytes (sub_bytes b pos 260) 256 4"
    by (simp_all add: sub_bytes_sub_bytes)
  then have "sub_bytes b pos 256 = mf_to_bytes crc m"
    "sub_bytes b (pos + 256) 4 = u32_le (crc (mf_to_bytes crc m))"
    using len by (simp_all add: chunk append_field_simps)
  moreover have "mh_push h m = Inr (h @ [m])"
    using mh_inv_take [OF Cons.prems(3), of "Suc (length h)"] by (intro mh_push_append) simp
  moreover have "mh_read_entries crc b (length ms) (pos + 260) (h @ [m]) = Some (Inr ((h @ [m]) @ ms))"
  proof (rule Cons.IH)
    show "sub_bytes b (pos + 260 + 260 * i) 260 = mh_entry_bytes crc (ms ! i)" if "i < length ms" for i
      using Cons.prems(1) [of "Suc i"] that by (simp add: add.assoc)
  qed (use Cons.prems in auto)
  ultimately show ?case
    using Cons.prems(2) mf_from_to_bytes [OF ok, of crc]
    by (simp add: mh_read_entries_Suc del: mh_read_entries.simps)
qed

lemma mh_from_to_bytes_tail:
  assumes inv: "mh_inv h" and tail: "length tail < MANIFEST_HISTORY_ENTRY_SIZE"
  shows "mh_from_bytes crc (mh_header_bytes @ concat (map (mh_entry_bytes crc) h) @ tail) = Some (Inr h)"
proof -
  let ?b = "mh_header_bytes @ concat (map (mh_entry_bytes crc) h) @ tail"
  have ok: "list_all mf_ok h" using inv by (simp add: mh_inv_def list_all_iff)
  have len: "length ?b = 12 + (260 * length h + length tail)"
    using mh_records.length_encoded_records [OF ok, of crc] by (simp add: mh_sizes)
  have "sub_bytes ?b (12 + 260 * i) 260 = mh_entry_bytes crc (h ! i)" if "i < length h" for i
    using mh_records.encoded_record_at [OF ok that, of mh_header_bytes crc tail] by (simp add: mh_sizes)
  then have "mh_read_entries crc ?b (length h) 12 [] = Some (Inr ([] @ h))"
    using inv len by (intro mh_read_entries_complete) simp_all
  moreover have "(length ?b - 12) div 260 = length h"
    using len tail by (simp add: mh_sizes)
  moreover have "sub_bytes ?b 0 8 = MANIFEST_HISTORY_MAGIC" "sub_bytes ?b 8 4 = u32_le FORMAT_VERSION"
    by (simp_all add: mh_header_bytes_def MANIFEST_HISTORY_MAGIC_def append_field_simps)
  ultimately show ?thesis
    using len by (simp add: mh_from_bytes_def mh_new_def mh_sizes slice_sub_bytes page_simps del: append_assoc)
qed

lemma mh_from_bytes_cases:
  "mh_from_bytes crc b \<noteq> None \<and> (\<forall>h. mh_from_bytes crc b = Some (Inr h) \<longrightarrow> mh_inv h)"
proof (cases "length b < 12")
  case True
  then show ?thesis by (simp add: mh_from_bytes_def mh_sizes)
next
  case False
  let ?k = "(length b - 12) div 260"
  have fit: "12 + 260 * ?k \<le> length b"
    using False times_div_less_eq_dividend [of 260 "length b - 12"] by linarith
  have "mh_read_entries crc b ?k 12 mh_new \<noteq> None"
    by (rule mh_read_entries_total [OF fit])
  moreover have "mh_inv h" if "mh_read_entries crc b ?k 12 mh_new = Some (Inr h)" for h
    by (rule mh_read_entries_inv [OF that fit mh_new_inv])
  ultimately show ?thesis
    using False by (auto simp: mh_from_bytes_def mh_sizes slice_sub_bytes page_simps simp del: not_None_eq)
qed

section \<open>Properties\<close>

text \<open>C32. A crash while an entry is appended loses that entry only: when the log of a history is
  followed by any torn tail shorter than one entry, replaying it gives back exactly that history. With
  an empty tail this is the round trip.\<close>

theorem history_torn_append:
  assumes "mh_inv h" and "mh_to_bytes crc h = Some log" and "length tail < MANIFEST_HISTORY_ENTRY_SIZE"
  shows "mh_from_bytes crc (log @ tail) = Some (Inr h)"
proof -
  have "log = mh_header_bytes @ concat (map (mh_entry_bytes crc) h)"
    using assms(2) by (auto simp: mh_to_bytes_def split: option.splits)
  then show ?thesis using mh_from_to_bytes_tail [OF assms(1,3)] by simp
qed

lemma sample_history_inv: "mh_inv [sample_manifest]"
  by (simp add: mh_inv_def sample_manifest_ok)

theorem history_torn_append_witness:
  "\<exists>log. mh_to_bytes (\<lambda>_. 0) [sample_manifest] = Some log
    \<and> mh_from_bytes (\<lambda>_. 0) (log @ [1, 2, 3]) = Some (Inr [sample_manifest])"
proof -
  obtain log where log: "mh_to_bytes (\<lambda>_. 0) [sample_manifest] = Some log"
    by (simp add: mh_to_bytes_def mh_sizes usize_checked_mul_def usize_checked_add_def)
  have "length [1, 2, 3 :: byte] < MANIFEST_HISTORY_ENTRY_SIZE" by (simp add: mh_sizes)
  from history_torn_append [OF sample_history_inv log this] log show ?thesis by blast
qed

text \<open>Replaying a history log never panics, whatever the bytes, and every history it accepts
  satisfies the invariant: current format, valid page sizes, strictly newer entries.\<close>

theorem history_decode_safe:
  "mh_from_bytes crc b \<noteq> None \<and> (\<forall>h. mh_from_bytes crc b = Some (Inr h) \<longrightarrow> mh_inv h)"
  by (rule mh_from_bytes_cases)

theorem history_decode_safe_witness:
  "mh_from_bytes (\<lambda>_. 0) (mh_header_bytes @ concat (map (mh_entry_bytes (\<lambda>_. 0)) [sample_manifest]) @ [])
      = Some (Inr [sample_manifest])
    \<and> mh_inv [sample_manifest]"
proof -
  have r: "mh_from_bytes (\<lambda>_. 0) (mh_header_bytes @ concat (map (mh_entry_bytes (\<lambda>_. 0)) [sample_manifest]) @ [])
      = Some (Inr [sample_manifest])"
    by (rule mh_from_to_bytes_tail [OF sample_history_inv]) (simp add: mh_sizes)
  with history_decode_safe [of "\<lambda>_. 0"] show ?thesis by blast
qed



end
