(* ===== verification/Retention_Registry.thy ===== *)
theory Retention_Registry
  imports Manifest_History
begin

text \<open>
  The durable registry of retained root generations, \<open>src/src/storage/retention_format.rs\<close>. The
  invariant says that snapshot identifiers are distinct, nonzero and below the next identifier, and that
  every retained manifest is well formed.
\<close>

record retained_root =
  root_snapshot_id :: u64
  root_manifest :: manifest

record retention_registry =
  rr_next_snapshot_id :: u64
  rr_roots :: "retained_root list"

datatype registry_error =
    RegTruncated | RegInvalidMagic | RegUnsupportedVersion | RegInvalidNextId | RegLengthOverflow
  | RegTrailingBytes | RegChecksumMismatch | RegDuplicateId | RegInvalidManifest | RegEmptyManifest
  | RegNextIdNotBeyond

definition RETENTION_MAGIC :: bytes where "RETENTION_MAGIC = ascii ''SEERRET1''"
definition RETENTION_HEADER_SIZE :: nat where "RETENTION_HEADER_SIZE = 8 + 4 + 8 + 4"
definition RETENTION_CHECKSUM_SIZE :: nat where "RETENTION_CHECKSUM_SIZE = 4"

definition rr_new :: retention_registry where
  "rr_new = \<lparr>rr_next_snapshot_id = 1, rr_roots = []\<rparr>"

definition rr_insert :: "retention_registry \<Rightarrow> manifest \<Rightarrow> u64 option \<times> retention_registry" where
  "rr_insert r m =
     (let snapshot_id = rr_next_snapshot_id r
      in case checked_add_word snapshot_id 1 of
           None \<Rightarrow> (None, r)
         | Some next \<Rightarrow>
             (Some snapshot_id,
              \<lparr>rr_next_snapshot_id = next,
               rr_roots = rr_roots r @ [\<lparr>root_snapshot_id = snapshot_id, root_manifest = m\<rparr>]\<rparr>))"

definition rr_remove :: "retention_registry \<Rightarrow> u64 \<Rightarrow> retained_root option \<times> retention_registry" where
  "rr_remove r snapshot_id =
     (case position (\<lambda>root. root_snapshot_id root = snapshot_id) (rr_roots r) of
        None \<Rightarrow> (None, r)
      | Some index \<Rightarrow>
          (Some (rr_roots r ! index),
           r\<lparr>rr_roots := take index (rr_roots r) @ drop (index + 1) (rr_roots r)\<rparr>))"

definition rr_is_empty :: "retention_registry \<Rightarrow> bool" where
  "rr_is_empty r \<longleftrightarrow> rr_roots r = []"

definition rr_root_bytes :: "(bytes \<Rightarrow> u32) \<Rightarrow> retained_root \<Rightarrow> bytes" where
  "rr_root_bytes crc root = u64_le (root_snapshot_id root) @ mf_to_bytes crc (root_manifest root)"

definition rr_body :: "(bytes \<Rightarrow> u32) \<Rightarrow> retention_registry \<Rightarrow> bytes" where
  "rr_body crc r =
     RETENTION_MAGIC @ u32_le FORMAT_VERSION @ u64_le (rr_next_snapshot_id r)
     @ u32_le (word_of_nat (length (rr_roots r))) @ concat (map (rr_root_bytes crc) (rr_roots r))"

definition rr_to_bytes :: "(bytes \<Rightarrow> u32) \<Rightarrow> retention_registry \<Rightarrow> bytes option" where
  "rr_to_bytes crc r =
     (if 2 ^ 32 \<le> length (rr_roots r) then None
      else case usize_checked_mul (length (rr_roots r)) (8 + MANIFEST_SLOT_SIZE) of None \<Rightarrow> None
      | Some records \<Rightarrow> (case usize_checked_add RETENTION_HEADER_SIZE records of None \<Rightarrow> None
        | Some body_len \<Rightarrow> (case usize_checked_add body_len RETENTION_CHECKSUM_SIZE of None \<Rightarrow> None
          | Some _ \<Rightarrow> Some (rr_body crc r @ u32_le (crc (rr_body crc r))))))"

text \<open>The loop of \<open>from_bytes\<close>; \<open>ids\<close> is the set of the identifiers of the roots read so far.\<close>

fun rr_read_roots ::
    "(bytes \<Rightarrow> u32) \<Rightarrow> bytes \<Rightarrow> nat \<Rightarrow> nat \<Rightarrow> retained_root list \<Rightarrow> (registry_error + retained_root list) exec" where
  "rr_read_roots crc b 0 offset roots = Some (Inr roots)"
| "rr_read_roots crc b (Suc k) offset roots = do {
     snapshot_id \<leftarrow> read_u64 b offset;
     if snapshot_id = 0 \<or> snapshot_id \<in> set (map root_snapshot_id roots) then Some (Inl RegDuplicateId)
     else do {
       manifest_bytes \<leftarrow> slice_range b (offset + 8) (offset + 8 + MANIFEST_SLOT_SIZE);
       r \<leftarrow> mf_from_bytes crc manifest_bytes;
       (case r of
          Inl _ \<Rightarrow> Some (Inl RegInvalidManifest)
        | Inr None \<Rightarrow> Some (Inl RegEmptyManifest)
        | Inr (Some m) \<Rightarrow>
            rr_read_roots crc b k (offset + 8 + MANIFEST_SLOT_SIZE)
              (roots @ [\<lparr>root_snapshot_id = snapshot_id, root_manifest = m\<rparr>]))
     }
   }"

definition rr_from_bytes :: "(bytes \<Rightarrow> u32) \<Rightarrow> bytes \<Rightarrow> (registry_error + retention_registry) exec" where
  "rr_from_bytes crc b =
     (if length b < RETENTION_HEADER_SIZE + RETENTION_CHECKSUM_SIZE then Some (Inl RegTruncated)
      else do {
        magic \<leftarrow> slice_range b 0 8;
        if magic \<noteq> RETENTION_MAGIC then Some (Inl RegInvalidMagic)
        else do {
          version \<leftarrow> read_u32 b 8;
          if version \<noteq> FORMAT_VERSION then Some (Inl RegUnsupportedVersion)
          else do {
            next_snapshot_id \<leftarrow> read_u64 b 12;
            if next_snapshot_id = 0 then Some (Inl RegInvalidNextId)
            else do {
              c \<leftarrow> read_u32 b 20;
              let count = unat c;
              try_result (ok_or RegLengthOverflow (Some (usize_checked_mul count (8 + MANIFEST_SLOT_SIZE))))
                (\<lambda>records.
              try_result (ok_or RegLengthOverflow (Some (usize_checked_add RETENTION_HEADER_SIZE records)))
                (\<lambda>checksum_offset.
                if length b \<noteq> checksum_offset + RETENTION_CHECKSUM_SIZE
                then Some (Inl (if length b < checksum_offset + RETENTION_CHECKSUM_SIZE
                                then RegTruncated else RegTrailingBytes))
                else do {
                  expected \<leftarrow> read_u32 b checksum_offset;
                  body \<leftarrow> slice_range b 0 checksum_offset;
                  if expected \<noteq> crc body then Some (Inl RegChecksumMismatch)
                  else try_result (rr_read_roots crc b count RETENTION_HEADER_SIZE []) (\<lambda>roots.
                    if list_ex (\<lambda>root. root_snapshot_id root \<ge> next_snapshot_id) roots
                    then Some (Inl RegNextIdNotBeyond)
                    else Some (Inr \<lparr>rr_next_snapshot_id = next_snapshot_id, rr_roots = roots\<rparr>))
                }))
            }
          }
        }
      })"

section \<open>The invariant\<close>

definition rr_inv :: "retention_registry \<Rightarrow> bool" where
  "rr_inv r \<longleftrightarrow>
     rr_next_snapshot_id r \<noteq> 0 \<and> distinct (map root_snapshot_id (rr_roots r)) \<and>
     (\<forall>root \<in> set (rr_roots r). root_snapshot_id root \<noteq> 0
        \<and> root_snapshot_id root < rr_next_snapshot_id r \<and> mf_ok (root_manifest root))"

lemma rr_new_inv: "rr_inv rr_new"
  by (simp add: rr_inv_def rr_new_def)

lemma rr_insert_spec:
  assumes inv: "rr_inv r" and ok: "mf_ok m" and ins: "rr_insert r m = (Some sid, r')"
  shows "rr_inv r'" and "sid = rr_next_snapshot_id r" and "rr_next_snapshot_id r < rr_next_snapshot_id r'"
    and "rr_roots r' = rr_roots r @ [\<lparr>root_snapshot_id = sid, root_manifest = m\<rparr>]"
proof -
  from ins obtain n where n: "checked_add_word (rr_next_snapshot_id r) 1 = Some n"
    and r': "sid = rr_next_snapshot_id r"
      "r' = \<lparr>rr_next_snapshot_id = n, rr_roots = rr_roots r @ [\<lparr>root_snapshot_id = sid, root_manifest = m\<rparr>]\<rparr>"
    by (auto simp: rr_insert_def Let_def split: option.splits)
  have "unat n = unat (rr_next_snapshot_id r) + 1"
    using n unat_add_no_overflow [of "rr_next_snapshot_id r" 1] checked_add_word_Some [of "rr_next_snapshot_id r" 1 n]
    by auto
  then have lt: "rr_next_snapshot_id r < n" "n \<noteq> 0"
    by (auto simp: word_less_nat_alt)
  show "sid = rr_next_snapshot_id r" "rr_roots r' = rr_roots r @ [\<lparr>root_snapshot_id = sid, root_manifest = m\<rparr>]"
    by (simp_all add: r')
  show "rr_next_snapshot_id r < rr_next_snapshot_id r'" using lt by (simp add: r')
  show "rr_inv r'"
    using inv ok lt by (auto simp: rr_inv_def r' intro: less_trans)
qed

lemma distinct_remove_nth: "distinct xs \<Longrightarrow> distinct (take i xs @ drop (Suc i) xs)"
  using set_take_disj_set_drop_if_distinct [of xs i "Suc i"] by (simp add: distinct_take distinct_drop)

lemma rr_remove_inv: "rr_inv r \<Longrightarrow> rr_inv (snd (rr_remove r sid))"
  using distinct_remove_nth [of "map root_snapshot_id (rr_roots r)"]
  by (auto simp: rr_inv_def rr_remove_def take_map drop_map split: option.splits
        dest: in_set_takeD in_set_dropD)

section \<open>Decoding\<close>

lemma rr_sizes:
  "RETENTION_HEADER_SIZE = 24" "RETENTION_CHECKSUM_SIZE = 4" "MANIFEST_SLOT_SIZE = 256"
  by (simp_all add: RETENTION_HEADER_SIZE_def RETENTION_CHECKSUM_SIZE_def MANIFEST_SLOT_SIZE_def)

interpretation rr_records: fixed_codec "rr_root_bytes crc" 264 "\<lambda>root. mf_ok (root_manifest root)" for crc
  by unfold_locales (simp add: rr_root_bytes_def mf_ok_def rr_sizes)

lemma rr_read_roots_Suc:
  assumes "offset + 264 \<le> length b"
  shows "rr_read_roots crc b (Suc k) offset roots =
    (let sid = le_u64 (sub_bytes b offset 8)
     in if sid = 0 \<or> sid \<in> set (map root_snapshot_id roots) then Some (Inl RegDuplicateId)
        else case mf_from_bytes crc (sub_bytes b (offset + 8) 256) of
          None \<Rightarrow> None
        | Some (Inl _) \<Rightarrow> Some (Inl RegInvalidManifest)
        | Some (Inr None) \<Rightarrow> Some (Inl RegEmptyManifest)
        | Some (Inr (Some m)) \<Rightarrow>
            rr_read_roots crc b k (offset + 264)
              (roots @ [\<lparr>root_snapshot_id = sid, root_manifest = m\<rparr>]))"
  using assms
  by (cases "mf_from_bytes crc (sub_bytes b (offset + 8) 256)")
    (simp_all add: rr_sizes slice_sub_bytes page_simps Let_def add.assoc split: sum.split option.split)

lemma rr_read_roots_total:
  "offset + 264 * k \<le> length b \<Longrightarrow> rr_read_roots crc b k offset roots \<noteq> None"
proof (induction k arbitrary: offset roots)
  case 0
  then show ?case by simp
next
  case (Suc k)
  have "rr_read_roots crc b k (offset + 264) roots' \<noteq> None" for roots'
    using Suc.prems by (intro Suc.IH) simp
  moreover have "mf_from_bytes crc (sub_bytes b (offset + 8) 256) \<noteq> None"
    using Suc.prems by (intro mf_from_bytes_total) simp
  ultimately show ?case
    using Suc.prems
    by (auto simp: rr_read_roots_Suc Let_def simp del: rr_read_roots.simps not_None_eq
          split: sum.splits option.splits)
qed

text \<open>What the loop has established of the roots read so far.\<close>

definition rr_roots_ok :: "retained_root list \<Rightarrow> bool" where
  "rr_roots_ok roots \<longleftrightarrow>
     distinct (map root_snapshot_id roots)
     \<and> (\<forall>root \<in> set roots. root_snapshot_id root \<noteq> 0 \<and> mf_ok (root_manifest root))"

lemma rr_read_roots_ok:
  assumes "rr_read_roots crc b k offset roots = Some (Inr roots')" and "offset + 264 * k \<le> length b"
    and "rr_roots_ok roots"
  shows "rr_roots_ok roots'"
  using assms
proof (induction k arbitrary: offset roots)
  case 0
  then show ?case by simp
next
  case (Suc k)
  let ?sid = "le_u64 (sub_bytes b offset 8)"
  from Suc.prems(1,2) obtain m where m: "mf_from_bytes crc (sub_bytes b (offset + 8) 256) = Some (Inr (Some m))"
    and new: "?sid \<noteq> 0" "?sid \<notin> root_snapshot_id ` set roots"
    and rest: "rr_read_roots crc b k (offset + 264)
        (roots @ [\<lparr>root_snapshot_id = ?sid, root_manifest = m\<rparr>]) = Some (Inr roots')"
    by (auto simp: rr_read_roots_Suc Let_def simp del: rr_read_roots.simps
          split: sum.splits option.splits if_splits)
  have "mf_ok m" using Suc.prems(2) by (intro mf_from_bytes_accepts(1) [OF m]) simp
  then show ?case using Suc.prems(2,3) new by (intro Suc.IH [OF rest]) (auto simp: rr_roots_ok_def)
qed

lemma rr_read_roots_complete:
  assumes "\<And>i. i < length rs \<Longrightarrow> sub_bytes b (offset + 264 * i) 264 = rr_root_bytes crc (rs ! i)"
    and "offset + 264 * length rs \<le> length b" and "rr_roots_ok (roots @ rs)"
  shows "rr_read_roots crc b (length rs) offset roots = Some (Inr (roots @ rs))"
  using assms
proof (induction rs arbitrary: offset roots)
  case Nil
  then show ?case by simp
next
  case (Cons root rs)
  have ok: "mf_ok (root_manifest root)" using Cons.prems(3) by (simp add: rr_roots_ok_def)
  then have len: "length (mf_to_bytes crc (root_manifest root)) = 256" by (simp add: mf_ok_def)
  have chunk: "sub_bytes b offset 264 = u64_le (root_snapshot_id root) @ mf_to_bytes crc (root_manifest root)"
    using Cons.prems(1) [of 0] by (simp add: rr_root_bytes_def)
  have "sub_bytes b offset 8 = sub_bytes (sub_bytes b offset 264) 0 8"
    "sub_bytes b (offset + 8) 256 = sub_bytes (sub_bytes b offset 264) 8 256"
    by (simp_all add: sub_bytes_sub_bytes)
  then have "sub_bytes b offset 8 = u64_le (root_snapshot_id root)"
    "sub_bytes b (offset + 8) 256 = mf_to_bytes crc (root_manifest root)"
    using len by (simp_all add: chunk append_field_simps)
  moreover have "rr_read_roots crc b (length rs) (offset + 264) (roots @ [root]) = Some (Inr ((roots @ [root]) @ rs))"
  proof (rule Cons.IH)
    show "sub_bytes b (offset + 264 + 264 * i) 264 = rr_root_bytes crc (rs ! i)" if "i < length rs" for i
      using Cons.prems(1) [of "Suc i"] that by (simp add: add.assoc)
  qed (use Cons.prems in auto)
  moreover have "root_snapshot_id root \<noteq> 0" "root_snapshot_id root \<notin> set (map root_snapshot_id roots)"
    using Cons.prems(3) by (auto simp: rr_roots_ok_def)
  ultimately show ?case
    using Cons.prems(2) mf_from_to_bytes [OF ok, of crc]
    by (cases root) (simp add: rr_read_roots_Suc Let_def del: rr_read_roots.simps)
qed

lemma rr_from_bytes_decode:
  assumes "length b = 28 + 264 * unat (le_u32 (sub_bytes b 20 4))"
  shows "rr_from_bytes crc b =
    (let n = unat (le_u32 (sub_bytes b 20 4))
     in if sub_bytes b 0 8 \<noteq> RETENTION_MAGIC then Some (Inl RegInvalidMagic)
        else if le_u32 (sub_bytes b 8 4) \<noteq> FORMAT_VERSION then Some (Inl RegUnsupportedVersion)
        else if le_u64 (sub_bytes b 12 8) = 0 then Some (Inl RegInvalidNextId)
        else if le_u32 (sub_bytes b (24 + 264 * n) 4) \<noteq> crc (sub_bytes b 0 (24 + 264 * n))
        then Some (Inl RegChecksumMismatch)
        else try_result (rr_read_roots crc b n 24 []) (\<lambda>roots.
          if list_ex (\<lambda>root. root_snapshot_id root \<ge> le_u64 (sub_bytes b 12 8)) roots
          then Some (Inl RegNextIdNotBeyond)
          else Some (Inr \<lparr>rr_next_snapshot_id = le_u64 (sub_bytes b 12 8), rr_roots = roots\<rparr>)))"
proof -
  define c where "c = le_u32 (sub_bytes b 20 4)"
  have len: "length b = 28 + 264 * unat c" using assms by (simp add: c_def)
  have c: "read_u32 b 20 = Some c" using len by (simp add: read_u32_eq c_def)
  have "unat c < 2 ^ 32" using unat_less_pow [of c] by simp
  then have mul: "usize_checked_mul (unat c) 264 = Some (264 * unat c)"
    "usize_checked_add 24 (264 * unat c) = Some (24 + 264 * unat c)"
    by (simp_all add: usize_checked_mul_def usize_checked_add_def)
  show ?thesis
    using len c mul unfolding c_def [symmetric]
    by (simp add: rr_from_bytes_def rr_sizes slice_sub_bytes page_simps Let_def)
qed

lemma rr_inv_iff:
  "rr_inv r \<longleftrightarrow> rr_next_snapshot_id r \<noteq> 0 \<and> rr_roots_ok (rr_roots r)
    \<and> (\<forall>root \<in> set (rr_roots r). root_snapshot_id root < rr_next_snapshot_id r)"
  by (auto simp: rr_inv_def rr_roots_ok_def)

lemma rr_from_bytes_length:
  assumes "length b \<noteq> 28 + 264 * unat (le_u32 (sub_bytes b 20 4))"
  shows "\<exists>e. rr_from_bytes crc b = Some (Inl e)"
proof (cases "length b < 28")
  case True
  then show ?thesis by (simp add: rr_from_bytes_def rr_sizes)
next
  case False
  define c where "c = le_u32 (sub_bytes b 20 4)"
  have len: "length b \<noteq> 28 + 264 * unat c" using assms by (simp add: c_def)
  have c: "read_u32 b 20 = Some c" using False by (simp add: read_u32_eq c_def)
  have "unat c < 2 ^ 32" using unat_less_pow [of c] by simp
  then have mul: "usize_checked_mul (unat c) 264 = Some (264 * unat c)"
    "usize_checked_add 24 (264 * unat c) = Some (24 + 264 * unat c)"
    by (simp_all add: usize_checked_mul_def usize_checked_add_def)
  show ?thesis
    using len c mul False by (simp add: rr_from_bytes_def rr_sizes slice_sub_bytes page_simps Let_def)
qed

lemma rr_from_bytes_cases:
  "rr_from_bytes crc b \<noteq> None \<and> (\<forall>r. rr_from_bytes crc b = Some (Inr r) \<longrightarrow> rr_inv r)"
proof (cases "length b = 28 + 264 * unat (le_u32 (sub_bytes b 20 4))")
  case False
  then show ?thesis using rr_from_bytes_length [OF False, of crc] by auto
next
  case True
  define n where "n = unat (le_u32 (sub_bytes b 20 4))"
  have fit: "24 + 264 * n \<le> length b" using True by (simp add: n_def)
  have "rr_read_roots crc b n 24 [] \<noteq> None"
    by (rule rr_read_roots_total [OF fit])
  then obtain res where res: "rr_read_roots crc b n 24 [] = Some res" by blast
  have ok: "rr_roots_ok roots" if "res = Inr roots" for roots
    using rr_read_roots_ok [OF _ fit, of crc "[]" roots] res that by (simp add: rr_roots_ok_def)
  show ?thesis
    unfolding rr_from_bytes_decode [OF True] n_def [symmetric] Let_def
    using res ok by (cases res) (auto simp: rr_inv_iff list_ex_iff not_le)
qed

lemma rr_from_to_bytes:
  assumes inv: "rr_inv r" and enc: "rr_to_bytes crc r = Some b"
  shows "rr_from_bytes crc b = Some (Inr r)"
proof -
  let ?n = "length (rr_roots r)"
  have b: "b = rr_body crc r @ u32_le (crc (rr_body crc r))" and n: "?n < 2 ^ 32"
    using enc by (auto simp: rr_to_bytes_def split: option.splits if_splits)
  have ok: "list_all (\<lambda>root. mf_ok (root_manifest root)) (rr_roots r)"
    using inv by (simp add: rr_inv_def list_all_iff)
  define hd where "hd = RETENTION_MAGIC @ u32_le FORMAT_VERSION @ u64_le (rr_next_snapshot_id r)
     @ u32_le (word_of_nat ?n)"
  have hd_len: "length hd = 24" by (simp add: hd_def RETENTION_MAGIC_def)
  have body: "rr_body crc r = hd @ concat (map (rr_root_bytes crc) (rr_roots r))"
    by (simp add: rr_body_def hd_def)
  have body_len: "length (rr_body crc r) = 24 + 264 * ?n"
    using rr_records.length_encoded_records [OF ok, of crc] hd_len by (simp add: body)
  have hd_fields: "sub_bytes b a l = sub_bytes hd a l" if "a + l \<le> 24" for a l
    using that hd_len by (simp add: b body append_field_simps)
  have fields: "sub_bytes b 0 8 = RETENTION_MAGIC" "sub_bytes b 8 4 = u32_le FORMAT_VERSION"
    "sub_bytes b 12 8 = u64_le (rr_next_snapshot_id r)" "sub_bytes b 20 4 = u32_le (word_of_nat ?n)"
    by (simp_all add: hd_fields) (simp_all add: hd_def RETENTION_MAGIC_def append_field_simps)
  have un: "unat (word_of_nat ?n :: u32) = ?n"
    using n by (simp add: unat_of_nat)
  have len: "length b = 28 + 264 * unat (le_u32 (sub_bytes b 20 4))"
    using body_len by (simp add: fields un) (simp add: b)
  have "sub_bytes b (24 + 264 * i) 264 = rr_root_bytes crc (rr_roots r ! i)" if "i < ?n" for i
    using rr_records.encoded_record_at [OF ok that, of hd crc "u32_le (crc (rr_body crc r))"] hd_len
    by (simp add: b body)
  then have "rr_read_roots crc b ?n 24 [] = Some (Inr ([] @ rr_roots r))"
    using inv len by (intro rr_read_roots_complete) (simp_all add: fields un rr_inv_iff)
  moreover have "sub_bytes b (24 + 264 * ?n) 4 = u32_le (crc (rr_body crc r))"
    "sub_bytes b 0 (24 + 264 * ?n) = rr_body crc r"
    using body_len by (simp_all add: b append_field_simps)
  moreover have "\<not> list_ex (\<lambda>root. root_snapshot_id root \<ge> rr_next_snapshot_id r) (rr_roots r)"
    using inv by (auto simp: rr_inv_def list_ex_iff not_le)
  ultimately show ?thesis
    unfolding rr_from_bytes_decode [OF len] Let_def
    using inv by (simp add: fields un rr_inv_def)
qed

section \<open>Properties\<close>

text \<open>C34. A registry survives its encoding: whenever the registry invariant holds and the encoder
  returns bytes, decoding them gives back the same registry. Decoding arbitrary bytes never panics, and a
  registry it accepts satisfies the invariant: distinct, nonzero identifiers below the next one and
  well-formed manifests.\<close>

theorem registry_codec:
  "rr_from_bytes crc b \<noteq> None
   \<and> (\<forall>r. rr_from_bytes crc b = Some (Inr r) \<longrightarrow> rr_inv r)
   \<and> (\<forall>r. rr_inv r \<longrightarrow> rr_to_bytes crc r = Some b \<longrightarrow> rr_from_bytes crc b = Some (Inr r))"
  using rr_from_bytes_cases rr_from_to_bytes by blast

theorem registry_codec_witness:
  "\<exists>b. rr_inv (snd (rr_insert rr_new sample_manifest))
     \<and> rr_to_bytes (\<lambda>_. 7) (snd (rr_insert rr_new sample_manifest)) = Some b
     \<and> rr_from_bytes (\<lambda>_. 7) b = Some (Inr (snd (rr_insert rr_new sample_manifest)))"
proof -
  let ?r = "snd (rr_insert rr_new sample_manifest)"
  have ins: "?r = \<lparr>rr_next_snapshot_id = 2,
      rr_roots = [\<lparr>root_snapshot_id = 1, root_manifest = sample_manifest\<rparr>]\<rparr>"
    by (simp add: rr_insert_def rr_new_def checked_add_word_def)
  have inv: "rr_inv ?r" unfolding ins using sample_manifest_ok by (simp add: rr_inv_def)
  obtain b where b: "rr_to_bytes (\<lambda>_. 7) ?r = Some b"
    unfolding ins by (simp add: rr_to_bytes_def rr_sizes usize_checked_mul_def usize_checked_add_def)
  show ?thesis using registry_codec [of "\<lambda>_. 7" b] inv b by blast
qed

text \<open>Retaining a root hands out an identifier no earlier root has, keeps the invariant and every
  root already retained, and the root can be released again: removing the identifier returns its manifest
  and restores the list of roots, while the next identifier has moved on, so the released identifier is
  not handed out again.\<close>

theorem registry_retain_release:
  assumes "rr_inv r" and "mf_ok m" and "rr_insert r m = (Some sid, r')"
  shows "rr_inv r' \<and> sid \<notin> root_snapshot_id ` set (rr_roots r)
    \<and> rr_remove r' sid = (Some \<lparr>root_snapshot_id = sid, root_manifest = m\<rparr>,
                            \<lparr>rr_next_snapshot_id = rr_next_snapshot_id r', rr_roots = rr_roots r\<rparr>)
    \<and> (\<forall>m' sid' r''. rr_insert (snd (rr_remove r' sid)) m' = (Some sid', r'') \<longrightarrow> sid < sid')"
proof -
  note spec = rr_insert_spec [OF assms]
  have fresh: "sid \<notin> root_snapshot_id ` set (rr_roots r)"
    using assms(1) spec(2) by (auto simp: rr_inv_def)
  have "position (\<lambda>root. root_snapshot_id root = sid) (xs @ [\<lparr>root_snapshot_id = sid, root_manifest = m\<rparr>])
      = Some (length xs)" if "sid \<notin> root_snapshot_id ` set xs" for xs
    using that by (induction xs) auto
  from this [OF fresh] have rem: "rr_remove r' sid = (Some \<lparr>root_snapshot_id = sid, root_manifest = m\<rparr>,
      \<lparr>rr_next_snapshot_id = rr_next_snapshot_id r', rr_roots = rr_roots r\<rparr>)"
    by (simp add: rr_remove_def spec(4))
  have "sid < sid'" if "rr_insert (snd (rr_remove r' sid)) m' = (Some sid', r'')" for m' sid' r''
    using that spec(2,3) unfolding rem by (simp add: rr_insert_def Let_def split: option.splits)
  with spec(1) fresh rem show ?thesis by blast
qed

theorem registry_retain_release_witness:
  "rr_inv rr_new \<and> mf_ok sample_manifest
    \<and> rr_insert rr_new sample_manifest
        = (Some 1, \<lparr>rr_next_snapshot_id = 2, rr_roots = [\<lparr>root_snapshot_id = 1, root_manifest = sample_manifest\<rparr>]\<rparr>)
    \<and> rr_remove (snd (rr_insert rr_new sample_manifest)) 1
        = (Some \<lparr>root_snapshot_id = 1, root_manifest = sample_manifest\<rparr>, \<lparr>rr_next_snapshot_id = 2, rr_roots = []\<rparr>)"
proof -
  have ins: "rr_insert rr_new sample_manifest
      = (Some 1, \<lparr>rr_next_snapshot_id = 2, rr_roots = [\<lparr>root_snapshot_id = 1, root_manifest = sample_manifest\<rparr>]\<rparr>)"
    by (simp add: rr_insert_def rr_new_def checked_add_word_def)
  from registry_retain_release [OF rr_new_inv sample_manifest_ok ins] show ?thesis
    using ins rr_new_inv sample_manifest_ok by (simp add: rr_new_def)
qed

end
