(* ===== verification/Wal_Record.thy ===== *)
theory Wal_Record
  imports Durable_Format
begin

text \<open>
  The write-ahead log: the record format and the prefix parser of \<open>src/src/recovery/record.rs\<close> and the
  buffered manager of \<open>src/src/recovery/wal.rs\<close>. The parser's loop is a function on the position, whose
  termination proof is that every accepted record consumes at least nine bytes.
\<close>

section \<open>Records\<close>

datatype record_type =
    PmtUpdate | PageAlloc | PageDealloc | BlobAppend | TxnCommit | TxnAbort | Checkpoint
  | Put | Delete | Commit | PutV2 | DeleteV2

datatype parse_status = Complete | Incomplete | Corrupt

record wal_record =
  wr_type :: record_type
  wr_payload :: bytes

text \<open>The discriminants of the \<open>repr(u8)\<close> enumeration, and the \<open>match\<close> that reads them back.\<close>

fun record_type_code :: "record_type \<Rightarrow> byte" where
  "record_type_code PmtUpdate = 1"
| "record_type_code PageAlloc = 2"
| "record_type_code PageDealloc = 3"
| "record_type_code BlobAppend = 4"
| "record_type_code TxnCommit = 5"
| "record_type_code TxnAbort = 6"
| "record_type_code Checkpoint = 7"
| "record_type_code Put = 8"
| "record_type_code Delete = 9"
| "record_type_code Commit = 10"
| "record_type_code PutV2 = 11"
| "record_type_code DeleteV2 = 12"

definition record_type_of_code :: "byte \<Rightarrow> record_type option" where
  "record_type_of_code b =
     (if b = 1 then Some PmtUpdate
      else if b = 2 then Some PageAlloc
      else if b = 3 then Some PageDealloc
      else if b = 4 then Some BlobAppend
      else if b = 5 then Some TxnCommit
      else if b = 6 then Some TxnAbort
      else if b = 7 then Some Checkpoint
      else if b = 8 then Some Put
      else if b = 9 then Some Delete
      else if b = 10 then Some Commit
      else if b = 11 then Some PutV2
      else if b = 12 then Some DeleteV2
      else None)"

definition wr_new :: "record_type \<Rightarrow> bytes \<Rightarrow> wal_record" where
  "wr_new t p = \<lparr>wr_type = t, wr_payload = p\<rparr>"

definition wr_pmt_update :: "u64 \<Rightarrow> u32 \<Rightarrow> u64 \<Rightarrow> wal_record" where
  "wr_pmt_update page_id file_id offset =
     wr_new PmtUpdate (u64_le page_id @ u32_le file_id @ u64_le offset)"

definition wr_page_alloc :: "u64 \<Rightarrow> u32 \<Rightarrow> wal_record" where
  "wr_page_alloc page_id file_id = wr_new PageAlloc (u64_le page_id @ u32_le file_id)"

definition wr_page_dealloc :: "u64 \<Rightarrow> wal_record" where
  "wr_page_dealloc page_id = wr_new PageDealloc (u64_le page_id)"

definition wr_txn_commit :: "u64 \<Rightarrow> wal_record" where
  "wr_txn_commit txn_id = wr_new TxnCommit (u64_le txn_id)"

definition wr_txn_abort :: "u64 \<Rightarrow> wal_record" where
  "wr_txn_abort txn_id = wr_new TxnAbort (u64_le txn_id)"

definition wr_commit :: "commit_record \<Rightarrow> wal_record" where
  "wr_commit c = wr_new Commit (cr_to_bytes c)"

definition wr_commit_record :: "wal_record \<Rightarrow> commit_record option exec" where
  "wr_commit_record r = (if wr_type r = Commit then cr_from_bytes (wr_payload r) else Some None)"

definition wr_put :: "bytes \<Rightarrow> bytes \<Rightarrow> wal_record" where
  "wr_put key v =
     wr_new PutV2 (u32_le (word_of_nat (length key)) @ key @ u32_le (word_of_nat (length v)) @ v)"

definition wr_delete :: "bytes \<Rightarrow> wal_record" where
  "wr_delete key = wr_new DeleteV2 (u32_le (word_of_nat (length key)) @ key)"

text \<open>\<open>to_bytes\<close>: the length field counts type, payload and checksum, and is truncated to 32 bits.\<close>

definition wr_to_bytes :: "(bytes \<Rightarrow> u32) \<Rightarrow> wal_record \<Rightarrow> bytes" where
  "wr_to_bytes crc r =
     (let len = (word_of_nat (1 + length (wr_payload r) + 4) :: u32);
          body = record_type_code (wr_type r) # wr_payload r
      in u32_le len @ body @ u32_le (crc body))"

definition wr_from_bytes :: "(bytes \<Rightarrow> u32) \<Rightarrow> bytes \<Rightarrow> (wal_record \<times> nat) option exec" where
  "wr_from_bytes crc buf =
     (if length buf < 4 then Some None
      else do {
        l \<leftarrow> read_u32 buf 0;
        let len = unat l;
        if len < 5 then Some None
        else do {
          let total_len = 4 + len;
          if length buf < total_len then Some None
          else do {
            code \<leftarrow> byte_at buf 4;
            (case record_type_of_code code of
               None \<Rightarrow> Some None
             | Some t \<Rightarrow> do {
                 payload \<leftarrow> slice_range buf 5 (total_len - 4);
                 stored_crc \<leftarrow> read_u32 buf (total_len - 4);
                 body \<leftarrow> slice_range buf 4 (total_len - 4);
                 if stored_crc \<noteq> crc body then Some None
                 else Some (Some (\<lparr>wr_type = t, wr_payload = payload\<rparr>, total_len))
               })
          }
        }
      })"

section \<open>What the record decoder accepts\<close>

definition wr_ok :: "wal_record \<Rightarrow> bool" where
  "wr_ok r \<longleftrightarrow> length (wr_payload r) + 5 < 2 ^ 32"

lemma record_type_of_code_code [simp]: "record_type_of_code (record_type_code t) = Some t"
  by (cases t) (simp_all add: record_type_of_code_def)

lemma record_type_code_of_code: "record_type_of_code b = Some t \<Longrightarrow> record_type_code t = b"
  by (auto simp: record_type_of_code_def split: if_splits)

lemma wr_to_bytes_length [simp]: "length (wr_to_bytes crc r) = length (wr_payload r) + 9"
  by (simp add: wr_to_bytes_def Let_def)

lemma wr_length_field: "wr_ok r \<Longrightarrow> unat (word_of_nat (1 + length (wr_payload r) + 4) :: u32) = length (wr_payload r) + 5"
  by (simp only: wr_ok_def unat_of_nat) simp

lemma wr_first_field:
  "sub_bytes (wr_to_bytes crc r @ tail) 0 4 = u32_le (word_of_nat (1 + length (wr_payload r) + 4))"
  by (simp add: wr_to_bytes_def Let_def append_field_simps)

lemma wr_from_bytes_unfold:
  assumes "unat (le_u32 (sub_bytes buf 0 4)) = 5 + n" and "9 + n \<le> length buf"
  shows "wr_from_bytes crc buf =
    (case record_type_of_code (buf ! 4) of
       None \<Rightarrow> Some None
     | Some t \<Rightarrow>
         if le_u32 (sub_bytes buf (5 + n) 4) \<noteq> crc (sub_bytes buf 4 (Suc n)) then Some None
         else Some (Some (\<lparr>wr_type = t, wr_payload = sub_bytes buf 5 n\<rparr>, 9 + n)))"
  using assms
  by (simp add: wr_from_bytes_def page_simps slice_sub_bytes Let_def split: option.split)

lemma wr_from_to_bytes:
  assumes "wr_ok r"
  shows "wr_from_bytes crc (wr_to_bytes crc r @ tail) = Some (Some (r, 9 + length (wr_payload r)))"
proof -
  let ?n = "length (wr_payload r)" and ?b = "wr_to_bytes crc r @ tail"
  have "unat (le_u32 (sub_bytes ?b 0 4)) = 5 + ?n"
    using wr_length_field [OF assms] by (simp only: wr_first_field le_u32_u32_le)
  moreover have "?b ! 4 = record_type_code (wr_type r)"
    by (simp add: wr_to_bytes_def Let_def nth_append)
  moreover have "sub_bytes ?b 4 (Suc ?n) = record_type_code (wr_type r) # wr_payload r"
    "sub_bytes ?b 5 ?n = wr_payload r"
    "sub_bytes ?b (5 + ?n) 4 = u32_le (crc (record_type_code (wr_type r) # wr_payload r))"
    by (simp_all add: wr_to_bytes_def Let_def sub_bytes_def)
  ultimately show ?thesis
    by (simp add: wr_from_bytes_unfold)
qed

lemma wr_from_bytes_total: "wr_from_bytes crc buf \<noteq> None"
  by (auto simp: wr_from_bytes_def page_simps slice_sub_bytes Let_def split: option.split)

lemma wr_from_bytes_accepts:
  assumes "wr_from_bytes crc buf = Some (Some (r, consumed))"
  shows "buf = wr_to_bytes crc r @ drop consumed buf" and "consumed = 9 + length (wr_payload r)" and "wr_ok r"
proof -
  define l where "l = le_u32 (sub_bytes buf 0 4)"
  have ge: "\<not> length buf < 4" using assms by (auto simp: wr_from_bytes_def)
  then have rd: "read_u32 buf 0 = Some l" by (simp add: page_simps l_def)
  have "\<not> unat l < 5" "\<not> length buf < 4 + unat l"
    using assms ge rd by (simp_all add: wr_from_bytes_def Let_def split: if_splits)
  then obtain n where n: "unat l = 5 + n" "9 + n \<le> length buf"
    using le_Suc_ex [of 5 "unat l"] by auto
  from assms wr_from_bytes_unfold [OF n(1) [unfolded l_def] n(2), of crc]
  obtain t where t: "record_type_of_code (buf ! 4) = Some t"
    and sum: "le_u32 (sub_bytes buf (5 + n) 4) = crc (sub_bytes buf 4 (Suc n))"
    and r: "r = \<lparr>wr_type = t, wr_payload = sub_bytes buf 5 n\<rparr>" and c: "consumed = 9 + n"
    by (auto split: option.splits if_splits)
  have plen: "length (sub_bytes buf 5 n) = n" using n(2) by simp
  show "consumed = 9 + length (wr_payload r)" using r c plen by simp
  show "wr_ok r" using n(1) unat_less_pow [of l] r plen by (simp add: wr_ok_def)
  have "word_of_nat (1 + n + 4) = l"
    using n(1) unat_less_pow [of l] by (simp only: word_unat_eq_iff unat_of_nat) simp
  then have len: "u32_le (word_of_nat (1 + n + 4)) = sub_bytes buf 0 4"
    using n(2) by (simp add: l_def u32_le_le_u32 del: of_nat_add)
  have body: "record_type_code t # sub_bytes buf 5 n = sub_bytes buf 4 (Suc n)"
    using n(2) record_type_code_of_code [OF t] by (simp add: sub_bytes_def Cons_nth_drop_Suc [symmetric])
  have crcf: "u32_le (crc (sub_bytes buf 4 (Suc n))) = sub_bytes buf (5 + n) 4"
    using n(2) by (simp add: sum [symmetric] u32_le_le_u32)
  have "drop 0 buf = sub_bytes buf 0 4 @ sub_bytes buf 4 (Suc n) @ sub_bytes buf (5 + n) 4 @ drop (9 + n) buf"
    by (simp only: drop_field [of 4 0 4 buf] drop_field [of "5 + n" 4 "Suc n" buf] drop_field [of "9 + n" "5 + n" 4 buf])
  then show "buf = wr_to_bytes crc r @ drop consumed buf"
    using r c plen len body crcf by (simp add: wr_to_bytes_def Let_def del: of_nat_add)
qed

section \<open>The prefix parser\<close>

function parse_from ::
    "(bytes \<Rightarrow> u32) \<Rightarrow> bytes \<Rightarrow> nat \<Rightarrow> wal_record list \<Rightarrow> (wal_record list \<times> parse_status) exec" where
  "parse_from crc buf pos records =
     (if pos < length buf then
        if length buf - pos < 4 then Some (records, Incomplete)
        else do {
          l \<leftarrow> read_u32 buf pos;
          let len = unat l;
          if len = 0 then do {
            rest \<leftarrow> slice_range buf pos (length buf);
            if list_all (\<lambda>b. b = 0) rest then Some (records, Incomplete) else Some (records, Corrupt)
          }
          else if len < 5 then Some (records, Corrupt)
          else (case usize_checked_add 4 len of
              None \<Rightarrow> Some (records, Corrupt)
            | Some total_len \<Rightarrow>
                if length buf - pos < total_len then Some (records, Incomplete)
                else do {
                  rest \<leftarrow> slice_range buf pos (length buf);
                  r \<leftarrow> wr_from_bytes crc rest;
                  (case r of
                     None \<Rightarrow> Some (records, Corrupt)
                   | Some (record, consumed) \<Rightarrow> parse_from crc buf (pos + consumed) (records @ [record]))
                })
        }
      else Some (records, Complete))"
  by pat_completeness auto

termination
  by (relation "measure (\<lambda>(crc, buf, pos, records). length buf - pos)")
    (auto dest: wr_from_bytes_accepts(2))

declare parse_from.simps [simp del]

definition parse_records_with_status :: "(bytes \<Rightarrow> u32) \<Rightarrow> bytes \<Rightarrow> (wal_record list \<times> parse_status) exec" where
  "parse_records_with_status crc buf = parse_from crc buf 0 []"

definition parse_records :: "(bytes \<Rightarrow> u32) \<Rightarrow> bytes \<Rightarrow> wal_record list exec" where
  "parse_records crc buf = map_option fst (parse_records_with_status crc buf)"

section \<open>Parser correctness\<close>

text \<open>One iteration of the loop on the rest of the buffer.\<close>

lemma parse_from_drop:
  "pos \<le> length buf \<Longrightarrow> parse_from crc buf pos records = parse_from crc (drop pos buf) 0 records"
proof (induction "length buf - pos" arbitrary: buf pos records rule: less_induct)
  case less
  let ?rest = "drop pos buf"
  have step: "parse_from crc buf (pos + c) rs = parse_from crc ?rest c rs"
    if "wr_from_bytes crc ?rest = Some (Some (r, c))" "pos < length buf" for r c rs
  proof -
    have c: "c = 9 + length (wr_payload r)" and eq: "?rest = wr_to_bytes crc r @ drop c ?rest"
      using wr_from_bytes_accepts [OF that(1)] by blast+
    have fit: "c \<le> length ?rest"
      by (subst eq) (simp add: c)
    have "parse_from crc buf (pos + c) rs = parse_from crc (drop (pos + c) buf) 0 rs"
      using fit c that(2) by (intro less) auto
    moreover have "parse_from crc ?rest c rs = parse_from crc (drop c ?rest) 0 rs"
    proof (cases "pos = 0")
      case False
      then show ?thesis using fit c that(2) by (intro less) auto
    next
      case True
      then show ?thesis using fit c that(2) less(1) [of buf c rs] by auto
    qed
    ultimately show ?thesis by (simp add: add.commute)
  qed
  show ?case
  proof (cases "length buf - pos < 4")
    case True
    then show ?thesis
      by (subst (1 2) parse_from.simps) auto
  next
    case False
    obtain l where "read_u32 buf pos = Some l" "read_u32 ?rest 0 = Some l"
      using False by (simp add: page_simps sub_bytes_def)
    moreover have "slice_range buf pos (length buf) = Some ?rest"
      using False by (simp add: slice_sub_bytes sub_bytes_def)
    moreover obtain res where "wr_from_bytes crc ?rest = Some res"
      using wr_from_bytes_total by blast
    ultimately show ?thesis
      using False step
      by (subst (1 2) parse_from.simps) (auto simp: Let_def split: option.split)
  qed
qed

text \<open>The parser as a recursion on the rest of the log.\<close>

lemma parse_from_record:
  assumes "wr_ok r"
  shows "parse_from crc (wr_to_bytes crc r @ tail) 0 records = parse_from crc tail 0 (records @ [r])"
proof -
  let ?b = "wr_to_bytes crc r @ tail" and ?n = "length (wr_payload r)"
  have l: "unat (le_u32 (sub_bytes ?b 0 4)) = 5 + ?n"
    using wr_length_field [OF assms] by (simp only: wr_first_field le_u32_u32_le)
  have "usize_checked_add 4 (5 + ?n) = Some (9 + ?n)"
    using assms by (simp add: usize_checked_add_def wr_ok_def)
  then have "parse_from crc ?b 0 records = parse_from crc ?b (9 + ?n) (records @ [r])"
    using l wr_from_to_bytes [OF assms, of crc tail]
    by (subst parse_from.simps) (simp add: page_simps Let_def)
  also have "\<dots> = parse_from crc (drop (9 + ?n) ?b) 0 (records @ [r])"
    by (rule parse_from_drop) simp
  finally show ?thesis by simp
qed

lemma parse_from_records:
  "list_all wr_ok rs \<Longrightarrow>
    parse_from crc (concat (map (wr_to_bytes crc) rs) @ tail) 0 records = parse_from crc tail 0 (records @ rs)"
  by (induction rs arbitrary: records) (simp_all add: parse_from_record)

lemma parse_from_torn:
  assumes "wr_ok r" and "k < length (wr_to_bytes crc r)" and "0 < k"
  shows "parse_from crc (take k (wr_to_bytes crc r)) 0 records = Some (records, Incomplete)"
proof (cases "k < 4")
  case True
  then show ?thesis using assms by (subst parse_from.simps) auto
next
  case False
  let ?b = "take k (wr_to_bytes crc r)"
  have "sub_bytes ?b 0 4 = sub_bytes (wr_to_bytes crc r @ []) 0 4"
    using False by (simp add: sub_bytes_def min_absorb1)
  then have "unat (le_u32 (sub_bytes ?b 0 4)) = 5 + length (wr_payload r)"
    using wr_length_field [OF assms(1)] by (simp only: wr_first_field le_u32_u32_le)
  then show ?thesis
    using False assms
    by (subst parse_from.simps) (simp add: page_simps Let_def usize_checked_add_def wr_ok_def)
qed

lemma parse_from_zeros:
  assumes "0 < k"
  shows "parse_from crc (replicate k 0) 0 records = Some (records, Incomplete)"
proof (cases "k < 4")
  case True
  then show ?thesis using assms by (subst parse_from.simps) auto
next
  case False
  have "le_u32 (sub_bytes (replicate k 0) 0 4) = 0"
    using False by (simp add: sub_bytes_def min_absorb1 le_u32_def numeral_eq_Suc)
  then show ?thesis
    using False assms by (subst parse_from.simps) (simp add: page_simps Let_def slice_sub_bytes sub_bytes_def list_all_iff)
qed

lemma parse_from_prefix:
  "\<exists>rs tail status. parse_from crc buf 0 records = Some (records @ rs, status)
     \<and> buf = concat (map (wr_to_bytes crc) rs) @ tail \<and> list_all wr_ok rs \<and> (status = Complete \<longleftrightarrow> tail = [])"
proof (induction "length buf" arbitrary: buf records rule: less_induct)
  case less
  have stop: ?case if "parse_from crc buf 0 records = Some (records, s)" "s = Complete \<longleftrightarrow> buf = []" for s
    using that by (intro exI [of _ "[]"] exI [of _ buf] exI [of _ s]) simp
  show ?case
  proof (cases "wr_from_bytes crc buf")
    case None
    then show ?thesis using wr_from_bytes_total by blast
  next
    case (Some res)
    show ?thesis
    proof (cases res)
      case None
      have "\<exists>s. parse_from crc buf 0 records = Some (records, s) \<and> (s = Complete \<longleftrightarrow> buf = [])"
        using Some None
        by (subst parse_from.simps) (auto simp: page_simps Let_def split: option.split)
      then show ?thesis using stop by blast
    next
      case (Some rc)
      then obtain r c where acc: "wr_from_bytes crc buf = Some (Some (r, c))"
        using \<open>wr_from_bytes crc buf = Some res\<close> by (cases rc) auto
      note a = wr_from_bytes_accepts [OF acc]
      have "length (drop c buf) < length buf" using a(1,2) by (metis add_gr_0 length_append length_drop
        less_add_same_cancel2 wr_to_bytes_length zero_less_numeral)
      from less(1) [OF this, of "records @ [r]"] obtain rs tail status
        where ih: "parse_from crc (drop c buf) 0 (records @ [r]) = Some ((records @ [r]) @ rs, status)"
          "drop c buf = concat (map (wr_to_bytes crc) rs) @ tail" "list_all wr_ok rs" "status = Complete \<longleftrightarrow> tail = []"
        by blast
      have "parse_from crc buf 0 records = Some (records @ r # rs, status)"
        using parse_from_record [OF a(3), of crc "drop c buf" records] ih(1) a(1) [symmetric] by simp
      moreover have "buf = concat (map (wr_to_bytes crc) (r # rs)) @ tail"
        using a(1) ih(2) by simp
      ultimately show ?thesis using ih(3,4) a(3)
        by (intro exI [of _ "r # rs"] exI [of _ tail] exI [of _ status]) simp
    qed
  qed
qed

text \<open>Cutting a log anywhere leaves a whole number of records and a torn piece of the next one.\<close>

lemma log_prefix_cut:
  obtains j t where "j \<le> length rs"
    and "take k (concat (map (wr_to_bytes crc) rs)) = concat (map (wr_to_bytes crc) (take j rs)) @ t"
    and "t = [] \<or> (j < length rs \<and> (\<exists>i. 0 < i \<and> i < length (wr_to_bytes crc (rs ! j)) \<and> t = take i (wr_to_bytes crc (rs ! j))))"
    and "j < length rs \<Longrightarrow> k < length (concat (map (wr_to_bytes crc) (take (Suc j) rs)))"
proof (induction rs arbitrary: k thesis)
  case Nil
  then show ?case by simp
next
  case (Cons r rs)
  let ?n = "length (wr_to_bytes crc r)"
  show ?case
  proof (cases "k < ?n")
    case True
    then show ?thesis by (intro Cons.prems [of 0 "take k (wr_to_bytes crc r)"]) auto
  next
    case False
    show ?thesis
    proof (rule Cons.IH [of "k - ?n"])
      fix j t
      assume "j \<le> length rs"
        "take (k - ?n) (concat (map (wr_to_bytes crc) rs)) = concat (map (wr_to_bytes crc) (take j rs)) @ t"
        "t = [] \<or> (j < length rs \<and> (\<exists>i. 0 < i \<and> i < length (wr_to_bytes crc (rs ! j)) \<and> t = take i (wr_to_bytes crc (rs ! j))))"
        "j < length rs \<Longrightarrow> k - ?n < length (concat (map (wr_to_bytes crc) (take (Suc j) rs)))"
      then show ?thesis using False by (intro Cons.prems [of "Suc j" t]) auto
    qed
  qed
qed

lemma parse_log_prefix:
  assumes "list_all wr_ok rs"
  obtains j st where "parse_records_with_status crc (take k (concat (map (wr_to_bytes crc) rs))) = Some (take j rs, st)"
    and "j \<le> length rs" and "st \<noteq> Corrupt"
    and "j < length rs \<Longrightarrow> k < length (concat (map (wr_to_bytes crc) (take (Suc j) rs)))"
    and "length (concat (map (wr_to_bytes crc) (take j rs))) \<le> k"
proof -
  obtain j t where j: "j \<le> length rs"
    and cut: "take k (concat (map (wr_to_bytes crc) rs)) = concat (map (wr_to_bytes crc) (take j rs)) @ t"
    and t: "t = [] \<or> (j < length rs \<and> (\<exists>i. 0 < i \<and> i < length (wr_to_bytes crc (rs ! j)) \<and> t = take i (wr_to_bytes crc (rs ! j))))"
    and max: "j < length rs \<Longrightarrow> k < length (concat (map (wr_to_bytes crc) (take (Suc j) rs)))"
    using log_prefix_cut [of rs k crc] by metis
  have ok: "list_all wr_ok (take j rs)"
    using assms by (auto simp: list_all_iff dest: in_set_takeD)
  have le: "length (concat (map (wr_to_bytes crc) (take j rs))) \<le> k"
    using arg_cong [OF cut, of length] by (simp del: length_concat)
  have p: "parse_records_with_status crc (take k (concat (map (wr_to_bytes crc) rs))) = parse_from crc t 0 (take j rs)"
    using parse_from_records [OF ok, of crc t "[]"] by (simp add: parse_records_with_status_def cut)
  show thesis
  proof (cases "t = []")
    case True
    have "parse_from crc [] 0 (take j rs) = Some (take j rs, Complete)"
      by (subst parse_from.simps) simp
    then show ?thesis using that [of j Complete] p True j max le by simp
  next
    case False
    with t obtain i where "j < length rs" "0 < i" "i < length (wr_to_bytes crc (rs ! j))" "t = take i (wr_to_bytes crc (rs ! j))"
      by blast
    moreover from this assms have "wr_ok (rs ! j)" by (simp add: list_all_length)
    ultimately have "parse_from crc t 0 (take j rs) = Some (take j rs, Incomplete)"
      using parse_from_torn by blast
    then show ?thesis using that [of j Incomplete] p j max le by simp
  qed
qed

section \<open>The WAL manager\<close>

datatype sync_policy = SyncAll | FDataSync | SyncNone

record wal_manager =
  wm_buffer :: bytes
  wm_sync_policy :: sync_policy
  wm_bytes_written :: u64
  wm_records_written :: u64

definition wm_new :: "sync_policy \<Rightarrow> wal_manager" where
  "wm_new policy = \<lparr>wm_buffer = [], wm_sync_policy = policy, wm_bytes_written = 0, wm_records_written = 0\<rparr>"

definition wm_append :: "(bytes \<Rightarrow> u32) \<Rightarrow> wal_manager \<Rightarrow> wal_record \<Rightarrow> wal_manager" where
  "wm_append crc wm r =
     (let bs = wr_to_bytes crc r
      in wm\<lparr>wm_buffer := wm_buffer wm @ bs,
            wm_bytes_written := wm_bytes_written wm + word_of_nat (length bs),
            wm_records_written := wm_records_written wm + 1\<rparr>)"

text \<open>\<open>flush\<close> takes a writer: a state \<open>'w\<close> with the operations \<open>write_all\<close> and \<open>flush\<close> of \<open>std::io::Write\<close>.\<close>

definition wm_flush ::
    "('w \<Rightarrow> bytes \<Rightarrow> ('e + unit) \<times> 'w) \<Rightarrow> ('w \<Rightarrow> ('e + unit) \<times> 'w) \<Rightarrow> wal_manager \<Rightarrow> 'w
     \<Rightarrow> ('e + unit) \<times> wal_manager \<times> 'w" where
  "wm_flush write_all flush_writer wm w =
     (if wm_buffer wm = [] then (Inr (), wm, w)
      else case write_all w (wm_buffer wm) of
        (Inl e, w1) \<Rightarrow> (Inl e, wm, w1)
      | (Inr _, w1) \<Rightarrow>
          (case flush_writer w1 of
             (Inl e, w2) \<Rightarrow> (Inl e, wm, w2)
           | (Inr _, w2) \<Rightarrow> (Inr (), wm\<lparr>wm_buffer := []\<rparr>, w2)))"

text \<open>A session of the manager's client: appends and flushes, up to the first failed flush.\<close>

datatype wal_action = Append wal_record | Flush

fun wal_session ::
    "(bytes \<Rightarrow> u32) \<Rightarrow> ('w \<Rightarrow> bytes \<Rightarrow> ('e + unit) \<times> 'w) \<Rightarrow> ('w \<Rightarrow> ('e + unit) \<times> 'w) \<Rightarrow> wal_action list
     \<Rightarrow> wal_manager \<Rightarrow> 'w \<Rightarrow> ('e + unit) \<times> wal_manager \<times> 'w" where
  "wal_session crc write_all flush_writer [] wm w = (Inr (), wm, w)"
| "wal_session crc write_all flush_writer (Append r # acts) wm w =
     wal_session crc write_all flush_writer acts (wm_append crc wm r) w"
| "wal_session crc write_all flush_writer (Flush # acts) wm w =
     (case wm_flush write_all flush_writer wm w of
        (Inl e, wm', w') \<Rightarrow> (Inl e, wm', w')
      | (Inr _, wm', w') \<Rightarrow> wal_session crc write_all flush_writer acts wm' w')"

fun appended_records :: "wal_action list \<Rightarrow> wal_record list" where
  "appended_records [] = []"
| "appended_records (Append r # acts) = r # appended_records acts"
| "appended_records (Flush # acts) = appended_records acts"

text \<open>What the standard library documents of a writer: \<open>write_all\<close> that succeeds has appended the
  whole buffer, one that fails has appended part of it, and \<open>flush\<close> adds nothing.\<close>

definition writer_contract ::
    "('w \<Rightarrow> bytes) \<Rightarrow> ('w \<Rightarrow> bytes \<Rightarrow> ('e + unit) \<times> 'w) \<Rightarrow> ('w \<Rightarrow> ('e + unit) \<times> 'w) \<Rightarrow> bool" where
  "writer_contract content write_all flush_writer \<longleftrightarrow>
     (\<forall>w bs w'. write_all w bs = (Inr (), w') \<longrightarrow> content w' = content w @ bs)
     \<and> (\<forall>w bs e w'. write_all w bs = (Inl e, w') \<longrightarrow> (\<exists>k. content w' = content w @ take k bs))
     \<and> (\<forall>w r w'. flush_writer w = (r, w') \<longrightarrow> content w' = content w)"

lemma wm_flush_content:
  assumes "writer_contract content write_all flush_writer"
    and "wm_flush write_all flush_writer wm w = (r, wm', w')"
  shows "r = Inr () \<Longrightarrow> content w' = content w @ wm_buffer wm \<and> wm_buffer wm' = []"
    and "\<exists>k. content w' = content w @ take k (wm_buffer wm)"
proof -
  obtain r1 w1 where w1: "write_all w (wm_buffer wm) = (r1, w1)" by force
  obtain r2 w2 where w2: "flush_writer w1 = (r2, w2)" by force
  have c2: "content w2 = content w1"
    using assms(1) w2 by (auto simp: writer_contract_def)
  have c1: "r1 = Inr () \<Longrightarrow> content w1 = content w @ wm_buffer wm"
    using assms(1) w1 by (auto simp: writer_contract_def)
  have c1': "r1 = Inl e \<Longrightarrow> \<exists>k. content w1 = content w @ take k (wm_buffer wm)" for e
    using assms(1) w1 by (auto simp: writer_contract_def)
  have all: "content w = content w @ take 0 (wm_buffer wm)"
    "content w @ wm_buffer wm = content w @ take (length (wm_buffer wm)) (wm_buffer wm)" by simp_all
  show "r = Inr () \<Longrightarrow> content w' = content w @ wm_buffer wm \<and> wm_buffer wm' = []"
    using assms(2) w1 w2 c1 c2 by (auto simp: wm_flush_def split: if_splits sum.splits)
  show "\<exists>k. content w' = content w @ take k (wm_buffer wm)"
  proof (cases r1)
    case (Inl e)
    then show ?thesis using assms(2) w1 c1' all(1) by (fastforce simp: wm_flush_def split: if_splits)
  next
    case (Inr u)
    then have "w' = w \<or> content w' = content w @ wm_buffer wm"
      using assms(2) w1 w2 c1 c2 by (auto simp: wm_flush_def split: if_splits sum.splits)
    then show ?thesis using all by metis
  qed
qed

lemma wal_session_content:
  assumes "writer_contract content write_all flush_writer"
    and "wal_session crc write_all flush_writer acts wm w = (r, wm', w')"
  shows "(r = Inr () \<longrightarrow> content w' @ wm_buffer wm' = content w @ wm_buffer wm @ concat (map (wr_to_bytes crc) (appended_records acts)))
    \<and> (\<exists>k. content w' = content w @ take k (wm_buffer wm @ concat (map (wr_to_bytes crc) (appended_records acts))))"
  using assms(2)
proof (induction acts arbitrary: wm w)
  case Nil
  then show ?case by (auto intro: exI [of _ 0])
next
  case (Cons act acts)
  show ?case
  proof (cases act)
    case (Append rec)
    with Cons.prems have "wal_session crc write_all flush_writer acts (wm_append crc wm rec) w = (r, wm', w')" by simp
    from Cons.IH [OF this] show ?thesis by (simp add: Append wm_append_def Let_def)
  next
    case Flush
    obtain r1 wm1 w1 where f: "wm_flush write_all flush_writer wm w = (r1, wm1, w1)"
      by (cases "wm_flush write_all flush_writer wm w")
    note fc = wm_flush_content [OF assms(1) f]
    show ?thesis
    proof (cases r1)
      case (Inl e)
      then have r: "r = Inl e" "w' = w1" using Cons.prems f Flush by auto
      from fc(2) obtain k where "content w' = content w @ take k (wm_buffer wm)" using r by blast
      then have "content w' = content w @ take (min k (length (wm_buffer wm)))
          (wm_buffer wm @ concat (map (wr_to_bytes crc) (appended_records (act # acts))))"
        by (simp add: min_def)
      then show ?thesis using r by blast
    next
      case (Inr u)
      then have s: "wal_session crc write_all flush_writer acts wm1 w1 = (r, wm', w')"
        and c: "content w1 = content w @ wm_buffer wm" "wm_buffer wm1 = []"
        using Cons.prems f Flush fc(1) by auto
      from Cons.IH [OF s, unfolded c(2) append_Nil] obtain k where ih: "r = Inr () \<longrightarrow> content w' @ wm_buffer wm'
          = content w1 @ concat (map (wr_to_bytes crc) (appended_records acts))"
        "content w' = content w1 @ take k (concat (map (wr_to_bytes crc) (appended_records acts)))"
        by blast
      have "content w' = content w @ take (length (wm_buffer wm) + k)
          (wm_buffer wm @ concat (map (wr_to_bytes crc) (appended_records acts)))"
        using ih(2) c by simp
      then show ?thesis
        using ih(1) unfolding Flush appended_records.simps c(1) append_assoc by blast
    qed
  qed
qed

section \<open>Properties\<close>



text \<open>C27. A crash that cuts the log anywhere loses only the records that were not completely written:
  parsing the first \<open>k\<close> bytes of a log returns exactly the records that fit in \<open>k\<close> bytes, and reports the
  cut as complete or incomplete, never as corruption.\<close>

theorem wal_torn_log:
  assumes "list_all wr_ok rs"
  shows "\<exists>j status. parse_records_with_status crc (take k (concat (map (wr_to_bytes crc) rs))) = Some (take j rs, status)
    \<and> status \<noteq> Corrupt \<and> j \<le> length rs
    \<and> length (concat (map (wr_to_bytes crc) (take j rs))) \<le> k
    \<and> (j < length rs \<longrightarrow> k < length (concat (map (wr_to_bytes crc) (take (Suc j) rs))))"
  using parse_log_prefix [OF assms, of crc k] by metis

theorem wal_torn_log_witness:
  "\<exists>j status. parse_records_with_status (\<lambda>_. 5)
        (take 14 (concat (map (wr_to_bytes (\<lambda>_. 5)) [wr_new Checkpoint [], wr_delete [1, 2]]))) = Some (take j [wr_new Checkpoint [], wr_delete [1, 2]], status)
     \<and> status \<noteq> Corrupt \<and> j = 1"
proof -
  let ?rs = "[wr_new Checkpoint [], wr_delete [1, 2]]"
  have "list_all wr_ok ?rs" by (simp add: wr_ok_def wr_delete_def wr_new_def)
  from wal_torn_log [OF this, of "\<lambda>_. 5" 14] obtain j status
    where *: "parse_records_with_status (\<lambda>_. 5) (take 14 (concat (map (wr_to_bytes (\<lambda>_. 5)) ?rs))) = Some (take j ?rs, status)"
      "status \<noteq> Corrupt" "j \<le> length ?rs"
      "length (concat (map (wr_to_bytes (\<lambda>_. 5)) (take j ?rs))) \<le> 14"
      "j < length ?rs \<longrightarrow> 14 < length (concat (map (wr_to_bytes (\<lambda>_. 5)) (take (Suc j) ?rs)))"
    by blast
  have "j = 0 \<or> j = 1 \<or> j = 2" using *(3) by auto
  then have "j = 1" using *(4,5) by (auto simp: wr_delete_def wr_new_def)
  with * show ?thesis by blast
qed

text \<open>The unused, zero-filled tail of a reserved log segment is not corruption: after any log it
  is parsed as an incomplete tail and all records before it are returned.\<close>

theorem wal_zero_tail:
  assumes "list_all wr_ok rs" and "0 < k"
  shows "parse_records_with_status crc (concat (map (wr_to_bytes crc) rs) @ replicate k 0) = Some (rs, Incomplete)"
  using parse_from_records [OF assms(1), of crc "replicate k 0" "[]"] parse_from_zeros [OF assms(2)]
  by (simp add: parse_records_with_status_def)

theorem wal_zero_tail_witness:
  "parse_records_with_status (\<lambda>_. 5) (wr_to_bytes (\<lambda>_. 5) (wr_txn_commit 9) @ replicate 6 0)
    = Some ([wr_txn_commit 9], Incomplete)"
proof -
  have "list_all wr_ok [wr_txn_commit 9]" by (simp add: wr_ok_def wr_txn_commit_def wr_new_def)
  from wal_zero_tail [OF this, of 6 "\<lambda>_. 5"] show ?thesis by simp
qed


text \<open>The writer of the witness is a byte vector, which always succeeds.\<close>

definition vec_write_all :: "bytes \<Rightarrow> bytes \<Rightarrow> (unit + unit) \<times> bytes" where
  "vec_write_all w bs = (Inr (), w @ bs)"

definition vec_flush :: "bytes \<Rightarrow> (unit + unit) \<times> bytes" where
  "vec_flush w = (Inr (), w)"


end
