(* ===== verification/Hybrid_Latch.thy ===== *)
theory Hybrid_Latch
  imports Rust_Prelude
begin

text \<open>
  The hybrid latch of \<open>src/src/concurrency/latch.rs\<close>. The latch is one 32-bit atomic. The bodies of the
  operations between two atomic accesses are functions of the value read; the accesses themselves are the
  steps of a relation in which the threads of a finite set interleave freely. A weak compare-exchange may
  fail although the value matches, and a thread may act on a value that is stale by then.
\<close>

definition UNLOCKED :: u32 where "UNLOCKED = 0"
definition READ_LOCKED :: u32 where "READ_LOCKED = 1"
definition WRITE_LOCKED :: u32 where "WRITE_LOCKED = - 1"

section \<open>The bodies of the operations\<close>

text \<open>The loop body of \<open>try_read_lock\<close>: nothing when the lock is refused, else the state to install.\<close>

definition try_read_next :: "u32 \<Rightarrow> u32 option" where
  "try_read_next current =
     (if current = WRITE_LOCKED then None
      else Some (if current = UNLOCKED then READ_LOCKED else current + 1))"

text \<open>The loop body of \<open>read_unlock\<close>: nothing when there is nothing to release.\<close>

definition read_unlock_next :: "u32 \<Rightarrow> u32 option" where
  "read_unlock_next current =
     (if current = UNLOCKED \<or> current = WRITE_LOCKED then None
      else Some (if current = READ_LOCKED then UNLOCKED else current - 1))"

text \<open>\<open>try_write_lock\<close> is one strong compare-exchange, \<open>write_unlock\<close> one store.\<close>

definition try_write_lock :: "u32 \<Rightarrow> bool \<times> u32" where
  "try_write_lock state = (if state = UNLOCKED then (True, WRITE_LOCKED) else (False, state))"

definition write_unlock :: "u32 \<Rightarrow> u32" where
  "write_unlock state = UNLOCKED"

definition is_locked :: "u32 \<Rightarrow> bool" where
  "is_locked state \<longleftrightarrow> state \<noteq> UNLOCKED"

definition reader_count :: "u32 \<Rightarrow> u32" where
  "reader_count state = (if state = WRITE_LOCKED then 0 else state)"

section \<open>Interleaved execution\<close>

text \<open>Where a thread stands: outside, in the loop of \<open>try_read_lock\<close> or \<open>read_unlock\<close> with the value it
  read last, or holding the latch.\<close>

datatype latch_pc = Idle | TryRead u32 | HasRead | TryUnlock u32 | HasWrite

record 't latch_config =
  latch_word :: u32
  latch_pcs :: "'t \<Rightarrow> latch_pc"

definition latch_init :: "'t latch_config" where
  "latch_init = \<lparr>latch_word = UNLOCKED, latch_pcs = (\<lambda>_. Idle)\<rparr>"

inductive latch_step :: "'t set \<Rightarrow> 't latch_config \<Rightarrow> 't latch_config \<Rightarrow> bool" for T where
  read_load: "t \<in> T \<Longrightarrow> latch_pcs c t = Idle \<Longrightarrow>
    latch_step T c (c\<lparr>latch_pcs := (latch_pcs c)(t := TryRead (latch_word c))\<rparr>)"
| read_refused: "t \<in> T \<Longrightarrow> latch_pcs c t = TryRead v \<Longrightarrow> try_read_next v = None \<Longrightarrow>
    latch_step T c (c\<lparr>latch_pcs := (latch_pcs c)(t := Idle)\<rparr>)"
| read_exchanged: "t \<in> T \<Longrightarrow> latch_pcs c t = TryRead v \<Longrightarrow> try_read_next v = Some n \<Longrightarrow> latch_word c = v \<Longrightarrow>
    latch_step T c (c\<lparr>latch_word := n, latch_pcs := (latch_pcs c)(t := HasRead)\<rparr>)"
| read_retry: "t \<in> T \<Longrightarrow> latch_pcs c t = TryRead v \<Longrightarrow> try_read_next v = Some n \<Longrightarrow>
    latch_step T c (c\<lparr>latch_pcs := (latch_pcs c)(t := TryRead (latch_word c))\<rparr>)"
| unlock_load: "t \<in> T \<Longrightarrow> latch_pcs c t = HasRead \<Longrightarrow>
    latch_step T c (c\<lparr>latch_pcs := (latch_pcs c)(t := TryUnlock (latch_word c))\<rparr>)"
| unlock_nothing: "t \<in> T \<Longrightarrow> latch_pcs c t = TryUnlock v \<Longrightarrow> read_unlock_next v = None \<Longrightarrow>
    latch_step T c (c\<lparr>latch_pcs := (latch_pcs c)(t := Idle)\<rparr>)"
| unlock_exchanged: "t \<in> T \<Longrightarrow> latch_pcs c t = TryUnlock v \<Longrightarrow> read_unlock_next v = Some n \<Longrightarrow> latch_word c = v \<Longrightarrow>
    latch_step T c (c\<lparr>latch_word := n, latch_pcs := (latch_pcs c)(t := Idle)\<rparr>)"
| unlock_retry: "t \<in> T \<Longrightarrow> latch_pcs c t = TryUnlock v \<Longrightarrow> read_unlock_next v = Some n \<Longrightarrow>
    latch_step T c (c\<lparr>latch_pcs := (latch_pcs c)(t := TryUnlock (latch_word c))\<rparr>)"
| write_acquired: "t \<in> T \<Longrightarrow> latch_pcs c t = Idle \<Longrightarrow> try_write_lock (latch_word c) = (True, n) \<Longrightarrow>
    latch_step T c (c\<lparr>latch_word := n, latch_pcs := (latch_pcs c)(t := HasWrite)\<rparr>)"
| write_refused: "t \<in> T \<Longrightarrow> latch_pcs c t = Idle \<Longrightarrow> try_write_lock (latch_word c) = (False, n) \<Longrightarrow>
    latch_step T c (c\<lparr>latch_word := n\<rparr>)"
| write_released: "t \<in> T \<Longrightarrow> latch_pcs c t = HasWrite \<Longrightarrow>
    latch_step T c (c\<lparr>latch_word := write_unlock (latch_word c), latch_pcs := (latch_pcs c)(t := Idle)\<rparr>)"

inductive latch_reachable :: "'t set \<Rightarrow> 't latch_config \<Rightarrow> bool" for T where
  init: "latch_reachable T latch_init"
| step: "latch_reachable T c \<Longrightarrow> latch_step T c c' \<Longrightarrow> latch_reachable T c'"

section \<open>The invariant\<close>

definition holds_read :: "latch_pc \<Rightarrow> bool" where
  "holds_read pc \<longleftrightarrow> pc = HasRead \<or> (\<exists>v. pc = TryUnlock v)"

definition readers :: "'t latch_config \<Rightarrow> 't set" where
  "readers c = {t. holds_read (latch_pcs c t)}"

definition writers :: "'t latch_config \<Rightarrow> 't set" where
  "writers c = {t. latch_pcs c t = HasWrite}"

definition latch_inv :: "'t set \<Rightarrow> 't latch_config \<Rightarrow> bool" where
  "latch_inv T c \<longleftrightarrow>
     readers c \<subseteq> T \<and> writers c \<subseteq> T
     \<and> (\<forall>t v. latch_pcs c t = TryUnlock v \<longrightarrow> v \<noteq> UNLOCKED \<and> v \<noteq> WRITE_LOCKED)
     \<and> (if latch_word c = WRITE_LOCKED then readers c = {} \<and> (\<exists>t. writers c = {t})
        else writers c = {} \<and> card (readers c) = unat (latch_word c))"

lemma readers_upd:
  "readers (c\<lparr>latch_pcs := (latch_pcs c)(t := pc)\<rparr>) = (if holds_read pc then insert t (readers c) else readers c - {t})"
  "readers (c\<lparr>latch_word := w, latch_pcs := (latch_pcs c)(t := pc)\<rparr>) = (if holds_read pc then insert t (readers c) else readers c - {t})"
  "readers (c\<lparr>latch_word := w\<rparr>) = readers c"
  by (auto simp: readers_def)

lemma writers_upd:
  "writers (c\<lparr>latch_pcs := (latch_pcs c)(t := pc)\<rparr>) = (if pc = HasWrite then insert t (writers c) else writers c - {t})"
  "writers (c\<lparr>latch_word := w, latch_pcs := (latch_pcs c)(t := pc)\<rparr>) = (if pc = HasWrite then insert t (writers c) else writers c - {t})"
  "writers (c\<lparr>latch_word := w\<rparr>) = writers c"
  by (auto simp: writers_def)

lemma holds_read_simps [simp]:
  "holds_read HasRead" "holds_read (TryUnlock v)" "\<not> holds_read Idle" "\<not> holds_read (TryRead v)" "\<not> holds_read HasWrite"
  by (auto simp: holds_read_def)

lemma mem_readers: "t \<in> readers c \<longleftrightarrow> holds_read (latch_pcs c t)"
  and mem_writers: "t \<in> writers c \<longleftrightarrow> latch_pcs c t = HasWrite"
  by (simp_all add: readers_def writers_def)

lemma unat_try_read_next:
  "try_read_next v = Some n \<Longrightarrow> v \<noteq> WRITE_LOCKED \<and> unat n = unat v + 1"
  using unat_less_pow [of v] unat_minus_one_word_eq [where 'w = 32]
  by (auto simp: try_read_next_def WRITE_LOCKED_def UNLOCKED_def READ_LOCKED_def word_unat_eq_iff
        unat_word_ariths split: if_splits)

lemma unat_read_unlock_next:
  "read_unlock_next v = Some n \<Longrightarrow> v \<noteq> WRITE_LOCKED \<and> v \<noteq> UNLOCKED \<and> unat v = unat n + 1"
  by (auto simp: read_unlock_next_def UNLOCKED_def READ_LOCKED_def unat_minus_one split: if_splits)
    (metis One_nat_def Suc_pred unat_gt_0 unat_minus_one)

lemma WRITE_LOCKED_unat: "v = WRITE_LOCKED \<longleftrightarrow> unat v = 2 ^ 32 - 1"
  using unat_minus_one_word_eq [where 'w = 32] by (simp add: WRITE_LOCKED_def word_unat_eq_iff)

lemma latch_inv_reader:
  assumes "latch_inv T c" and "holds_read (latch_pcs c t)" and "finite T"
  shows "latch_word c \<noteq> WRITE_LOCKED" and "latch_word c \<noteq> UNLOCKED"
proof -
  have t: "t \<in> readers c" using assms(2) by (simp add: mem_readers)
  then show w: "latch_word c \<noteq> WRITE_LOCKED" using assms(1) by (auto simp: latch_inv_def)
  have "finite (readers c)" using assms(1,3) finite_subset by (auto simp: latch_inv_def)
  then have "card (readers c) > 0" using t card_gt_0_iff by blast
  then show "latch_word c \<noteq> UNLOCKED" using assms(1) w by (auto simp: latch_inv_def UNLOCKED_def)
qed

text \<open>Moving a thread that holds nothing to another such place, the word unchanged.\<close>

lemma latch_inv_move:
  assumes "latch_inv T c" and "t \<in> T" and "holds_read (latch_pcs c t) = holds_read pc"
    and "(latch_pcs c t = HasWrite) = (pc = HasWrite)"
    and "\<And>v. pc = TryUnlock v \<Longrightarrow> v \<noteq> UNLOCKED \<and> v \<noteq> WRITE_LOCKED"
  shows "latch_inv T (c\<lparr>latch_pcs := (latch_pcs c)(t := pc)\<rparr>)"
proof -
  have "readers (c\<lparr>latch_pcs := (latch_pcs c)(t := pc)\<rparr>) = readers c"
    "writers (c\<lparr>latch_pcs := (latch_pcs c)(t := pc)\<rparr>) = writers c"
    using assms(3,4) by (auto simp: readers_def writers_def)
  then show ?thesis using assms(1,5) by (auto simp: latch_inv_def)
qed

lemma latch_step_inv:
  assumes "latch_step T c c'" and inv: "latch_inv T c" and fin: "finite T" and small: "card T < 2 ^ 32 - 1"
  shows "latch_inv T c'"
  using assms(1)
proof cases
  case (read_exchanged t v n)
  have fr: "finite (readers c)" and sub: "readers c \<subseteq> T" using inv fin finite_subset by (auto simp: latch_inv_def)
  have t: "t \<notin> readers c" using read_exchanged by (simp add: mem_readers)
  have n: "v \<noteq> WRITE_LOCKED" "unat n = unat v + 1" using unat_try_read_next read_exchanged by blast+
  then have cardr: "card (readers c) = unat v" and nw: "writers c = {}"
    using inv read_exchanged by (auto simp: latch_inv_def)
  have "card (insert t (readers c)) \<le> card T" using fin sub read_exchanged by (intro card_mono) auto
  then have "n \<noteq> WRITE_LOCKED" using small n cardr fr t by (simp add: WRITE_LOCKED_unat)
  then show ?thesis
    using inv read_exchanged n cardr nw fr t by (auto simp: latch_inv_def readers_upd writers_upd)
next
  case (unlock_exchanged t v n)
  have fr: "finite (readers c)" using inv fin finite_subset by (auto simp: latch_inv_def)
  have t: "t \<in> readers c" using unlock_exchanged by (simp add: mem_readers)
  have n: "v \<noteq> WRITE_LOCKED" "unat v = unat n + 1" using unat_read_unlock_next unlock_exchanged by blast+
  then have cardr: "card (readers c) = unat v" and nw: "writers c = {}"
    using inv unlock_exchanged by (auto simp: latch_inv_def)
  have "n \<noteq> WRITE_LOCKED" using n unat_less_pow [of v] by (auto simp: WRITE_LOCKED_unat)
  then show ?thesis
    using inv unlock_exchanged n cardr nw fr t by (auto simp: latch_inv_def readers_upd writers_upd)
next
  case (unlock_nothing t v)
  then have False using inv by (auto simp: latch_inv_def read_unlock_next_def split: if_splits)
  then show ?thesis ..
next
  case (write_acquired t n)
  then have n: "latch_word c = UNLOCKED" "n = WRITE_LOCKED"
    by (auto simp: try_write_lock_def split: if_splits)
  have "finite (readers c)" using inv fin finite_subset by (auto simp: latch_inv_def)
  then have "readers c = {}" "writers c = {}" using inv n
    by (auto simp: latch_inv_def UNLOCKED_def WRITE_LOCKED_def)
  then show ?thesis
    using inv write_acquired n by (auto simp: latch_inv_def readers_upd writers_upd)
next
  case (write_refused t n)
  then have "c' = c" by (auto simp: try_write_lock_def split: if_splits)
  then show ?thesis using inv by simp
next
  case (write_released t)
  then have "t \<in> writers c" by (simp add: mem_writers)
  then have "readers c = {}" "writers c = {t}"
    using inv by (auto simp: latch_inv_def split: if_splits)
  then show ?thesis
    using inv write_released by (auto simp: latch_inv_def readers_upd writers_upd write_unlock_def UNLOCKED_def WRITE_LOCKED_def)
next
  case (unlock_load t)
  then show ?thesis
    using latch_inv_move [OF inv, of t "TryUnlock (latch_word c)"] latch_inv_reader [OF inv _ fin, of t] by simp
next
  case (unlock_retry t v n)
  then show ?thesis
    using latch_inv_move [OF inv, of t "TryUnlock (latch_word c)"] latch_inv_reader [OF inv _ fin, of t] by simp
qed (auto intro!: latch_inv_move [OF inv])

lemma latch_reachable_inv:
  assumes "latch_reachable T c" and "finite T" and "card T < 2 ^ 32 - 1"
  shows "latch_inv T c"
  using assms(1)
proof induction
  case init
  then show ?case
    by (simp add: latch_inv_def latch_init_def readers_def writers_def UNLOCKED_def WRITE_LOCKED_def)
next
  case (step c c')
  then show ?case using latch_step_inv assms(2,3) by blast
qed

section \<open>Properties\<close>

text \<open>C35. The latch excludes: however fewer than \<open>u32::MAX\<close> threads interleave their atomic accesses,
  with stale values and spurious failures, at most one thread ever holds the write lock, and while one
  does no thread holds a read lock. The word says which: it is \<open>WRITE_LOCKED\<close> exactly while a writer
  holds the latch, and \<open>UNLOCKED\<close> exactly while nobody does.\<close>

theorem latch_mutual_exclusion:
  assumes "latch_reachable T c" and "finite T" and "card T < 2 ^ 32 - 1"
  shows "(\<forall>t u. latch_pcs c t = HasWrite \<and> latch_pcs c u = HasWrite \<longrightarrow> t = u)
    \<and> (\<forall>t u. latch_pcs c t = HasWrite \<longrightarrow> \<not> holds_read (latch_pcs c u))
    \<and> (latch_word c = WRITE_LOCKED \<longleftrightarrow> (\<exists>t. latch_pcs c t = HasWrite))
    \<and> (is_locked (latch_word c) \<longleftrightarrow> (\<exists>t. latch_pcs c t = HasWrite \<or> holds_read (latch_pcs c t)))"
proof (cases "latch_word c = WRITE_LOCKED")
  case True
  then obtain t where "readers c = {}" "writers c = {t}"
    using latch_reachable_inv [OF assms] by (auto simp: latch_inv_def)
  moreover have "WRITE_LOCKED \<noteq> UNLOCKED" by (simp add: WRITE_LOCKED_def UNLOCKED_def)
  moreover have "latch_pcs c u = HasWrite \<longleftrightarrow> u \<in> writers c" "holds_read (latch_pcs c u) \<longleftrightarrow> u \<in> readers c" for u
    by (simp_all add: mem_readers mem_writers)
  ultimately show ?thesis
    using True by (simp add: is_locked_def)
next
  case False
  then have w: "writers c = {}" "card (readers c) = unat (latch_word c)" "finite (readers c)"
    using latch_reachable_inv [OF assms] assms(2) finite_subset by (auto simp: latch_inv_def)
  then have "latch_word c = UNLOCKED \<longleftrightarrow> readers c = {}"
    by (auto simp: UNLOCKED_def unat_eq_zero [symmetric])
  then show ?thesis
    using False w(1) mem_readers [of _ c] mem_writers [of _ c] by (auto simp: is_locked_def)
qed

text \<open>A concrete run: the first of two threads takes a read lock.\<close>

definition latch_one_reader :: "bool latch_config" where
  "latch_one_reader = \<lparr>latch_word = READ_LOCKED, latch_pcs = (\<lambda>_. Idle)(True := HasRead)\<rparr>"

lemma latch_one_reader_reachable: "latch_reachable UNIV latch_one_reader"
proof -
  let ?c = "\<lparr>latch_word = UNLOCKED, latch_pcs = (\<lambda>_. Idle)(True := TryRead UNLOCKED)\<rparr> :: bool latch_config"
  have "latch_step UNIV latch_init ?c"
    using latch_step.read_load [of True UNIV latch_init] by (simp add: latch_init_def)
  moreover have "latch_step UNIV ?c latch_one_reader"
    using latch_step.read_exchanged [of True UNIV ?c UNLOCKED READ_LOCKED]
    by (simp add: latch_one_reader_def try_read_next_def UNLOCKED_def WRITE_LOCKED_def)
  ultimately show ?thesis
    using latch_reachable.init latch_reachable.step by metis
qed

theorem latch_mutual_exclusion_witness:
  "latch_reachable UNIV latch_one_reader \<and> card (UNIV :: bool set) < 2 ^ 32 - 1
    \<and> latch_word latch_one_reader \<noteq> WRITE_LOCKED \<and> is_locked (latch_word latch_one_reader)"
proof -
  have "holds_read (latch_pcs latch_one_reader True)" "\<forall>t. latch_pcs latch_one_reader t \<noteq> HasWrite"
    by (simp_all add: latch_one_reader_def)
  then show ?thesis
    using latch_mutual_exclusion [OF latch_one_reader_reachable] latch_one_reader_reachable by auto
qed

text \<open>The reader count is exact and no release is lost: in every reachable state \<open>reader_count\<close> is
  the number of threads that hold a read lock, and a thread that releases one never takes the early return
  for a latch that is not read-locked.\<close>

theorem latch_reader_count_exact:
  assumes "latch_reachable T c" and "finite T" and "card T < 2 ^ 32 - 1"
  shows "unat (reader_count (latch_word c)) = card {t. holds_read (latch_pcs c t)}
    \<and> (\<forall>t v. latch_pcs c t = TryUnlock v \<longrightarrow> read_unlock_next v \<noteq> None)"
  using latch_reachable_inv [OF assms]
  by (auto simp: latch_inv_def reader_count_def readers_def read_unlock_next_def split: if_splits)

theorem latch_reader_count_exact_witness:
  "latch_reachable UNIV latch_one_reader
    \<and> unat (reader_count (latch_word latch_one_reader)) = card {t. holds_read (latch_pcs latch_one_reader t)}"
  using latch_reader_count_exact [OF latch_one_reader_reachable] latch_one_reader_reachable by simp

text \<open>The bound on the number of threads is needed: one more reader on top of \<open>u32::MAX - 1\<close> turns the
  word into \<open>WRITE_LOCKED\<close>, and every release after that is dropped.\<close>

lemma latch_reader_overflow:
  "try_read_next (WRITE_LOCKED - 1) = Some WRITE_LOCKED" "read_unlock_next WRITE_LOCKED = None"
  by (simp_all add: try_read_next_def read_unlock_next_def WRITE_LOCKED_def UNLOCKED_def)

end
