(* ===== verification/Node_Page.thy ===== *)
theory Node_Page
  imports Rust_Prelude
begin

text \<open>
  The page format of B-tree nodes: \<open>src/src/btree/node/page_format.rs\<close> and the slot and entry readers of
  \<open>src/src/btree/node/access.rs\<close>. A node is the list of its 4096 bytes. After the executable definitions,
  the theory gives the declarative reading of a page: the header, the slot offsets, and the cell of each
  slot, which is the run of bytes from its offset to the next larger offset. The main result is that the
  layout validation never panics and accepts exactly the pages that are well formed in this reading.
\<close>

type_synonym node = bytes

definition PAGE_SIZE :: nat where "PAGE_SIZE = 4096"
definition HEADER_SIZE :: nat where "HEADER_SIZE = 48"
definition SLOT_SIZE :: nat where "SLOT_SIZE = 4"
definition BLOB_POINTER_SIZE :: nat where "BLOB_POINTER_SIZE = 16"
definition MAX_KEY_SIZE :: nat where "MAX_KEY_SIZE = PAGE_SIZE - HEADER_SIZE - 4 - 4 - 8"
definition PAGE_MAGIC :: u32 where "PAGE_MAGIC = 0x53454552"
definition PAGE_VERSION :: u32 where "PAGE_VERSION = 3"

declare PAGE_SIZE_def [simp] HEADER_SIZE_def [simp] SLOT_SIZE_def [simp] BLOB_POINTER_SIZE_def [simp]

datatype page_type = Internal | Leaf

datatype value_type = VInline | VBlobPointer | VTombstone

fun page_type_code :: "page_type \<Rightarrow> u32" where
  "page_type_code Internal = 1"
| "page_type_code Leaf = 2"

fun value_type_code :: "value_type \<Rightarrow> byte" where
  "value_type_code VInline = 0"
| "value_type_code VBlobPointer = 1"
| "value_type_code VTombstone = 2"

section \<open>Blob pointers\<close>

record blob_pointer =
  bp_file_id :: u32
  bp_offset :: u64
  bp_length :: u32

definition bp_to_bytes :: "blob_pointer \<Rightarrow> bytes" where
  "bp_to_bytes p = u32_le (bp_file_id p) @ u64_le (bp_offset p) @ u32_le (bp_length p)"

definition bp_from_bytes :: "bytes \<Rightarrow> blob_pointer exec" where
  "bp_from_bytes buf = do {
     file_id \<leftarrow> read_u32 buf 0;
     offset \<leftarrow> read_u64 buf 4;
     len \<leftarrow> read_u32 buf 12;
     Some \<lparr>bp_file_id = file_id, bp_offset = offset, bp_length = len\<rparr>
   }"

section \<open>Page headers\<close>

record node_header =
  nh_magic :: u32
  nh_version :: u32
  nh_page_type :: page_type
  nh_count :: u32
  nh_free_space :: u32
  nh_checksum :: u64
  nh_parent_id :: u32
  nh_leftmost_child :: u64
  nh_write_generation :: u64

definition nh_to_bytes :: "node_header \<Rightarrow> bytes" where
  "nh_to_bytes h =
     u32_le (nh_magic h) @ u32_le (nh_version h) @ u32_le (page_type_code (nh_page_type h))
     @ u32_le (nh_count h) @ u32_le (nh_free_space h) @ u64_le (nh_checksum h)
     @ u32_le (nh_parent_id h) @ u64_le (nh_leftmost_child h) @ u64_le (nh_write_generation h)"

definition nh_from_bytes :: "bytes \<Rightarrow> node_header exec" where
  "nh_from_bytes buf = do {
     magic \<leftarrow> read_u32 buf 0;
     version \<leftarrow> read_u32 buf 4;
     page_type_raw \<leftarrow> read_u32 buf 8;
     let page_type = (if page_type_raw = 1 then Internal else Leaf);
     count \<leftarrow> read_u32 buf 12;
     free_space \<leftarrow> read_u32 buf 16;
     checksum \<leftarrow> read_u64 buf 20;
     parent_id \<leftarrow> read_u32 buf 28;
     leftmost_child \<leftarrow> read_u64 buf 32;
     write_generation \<leftarrow> read_u64 buf 40;
     Some \<lparr>nh_magic = magic, nh_version = version, nh_page_type = page_type, nh_count = count,
       nh_free_space = free_space, nh_checksum = checksum, nh_parent_id = parent_id,
       nh_leftmost_child = leftmost_child, nh_write_generation = write_generation\<rparr>
   }"

definition nh_is_valid :: "node_header \<Rightarrow> bool" where
  "nh_is_valid h \<longleftrightarrow> nh_magic h = PAGE_MAGIC \<and> nh_version h = PAGE_VERSION"

definition nh_try_from_bytes :: "bytes \<Rightarrow> node_header option exec" where
  "nh_try_from_bytes buf = do {
     page_type_raw \<leftarrow> read_u32 buf 8;
     if \<not> (page_type_raw = 1 \<or> page_type_raw = 2) then Some None
     else do {
       h \<leftarrow> nh_from_bytes buf;
       Some (if nh_is_valid h then Some h else None)
     }
   }"

definition nh_new :: "page_type \<Rightarrow> node_header" where
  "nh_new t = \<lparr>nh_magic = PAGE_MAGIC, nh_version = PAGE_VERSION, nh_page_type = t, nh_count = 0,
     nh_free_space = word_of_nat (PAGE_SIZE - HEADER_SIZE), nh_checksum = 0, nh_parent_id = 0,
     nh_leftmost_child = 0, nh_write_generation = 0\<rparr>"

section \<open>Header access on a node\<close>

definition node_new :: "page_type \<Rightarrow> node exec" where
  "node_new t = copy_from_slice (replicate PAGE_SIZE 0) 0 (nh_to_bytes (nh_new t))"

definition new_leaf :: "node exec" where "new_leaf = node_new Leaf"
definition new_internal :: "node exec" where "new_internal = node_new Internal"

definition node_hdr :: "node \<Rightarrow> node_header exec" where
  "node_hdr n = do { buf \<leftarrow> slice_range n 0 HEADER_SIZE; nh_from_bytes buf }"

definition set_header :: "node \<Rightarrow> node_header \<Rightarrow> node exec" where
  "set_header n h = copy_from_slice n 0 (nh_to_bytes h)"

definition set_leftmost_child :: "node \<Rightarrow> u64 \<Rightarrow> node exec" where
  "set_leftmost_child n child_id = do { h \<leftarrow> node_hdr n; set_header n (h\<lparr>nh_leftmost_child := child_id\<rparr>) }"

definition leftmost_child :: "node \<Rightarrow> u64 exec" where
  "leftmost_child n = map_option nh_leftmost_child (node_hdr n)"

definition set_parent_id :: "node \<Rightarrow> u32 \<Rightarrow> node exec" where
  "set_parent_id n parent_id = do { h \<leftarrow> node_hdr n; set_header n (h\<lparr>nh_parent_id := parent_id\<rparr>) }"

definition node_parent_id :: "node \<Rightarrow> u32 exec" where
  "node_parent_id n = map_option nh_parent_id (node_hdr n)"

definition node_write_generation :: "node \<Rightarrow> u64 exec" where
  "node_write_generation n = map_option nh_write_generation (node_hdr n)"

definition set_write_generation :: "node \<Rightarrow> u64 \<Rightarrow> node exec" where
  "set_write_generation n generation = do { h \<leftarrow> node_hdr n; set_header n (h\<lparr>nh_write_generation := generation\<rparr>) }"

definition node_is_leaf :: "node \<Rightarrow> bool exec" where
  "node_is_leaf n = map_option (\<lambda>h. nh_page_type h = Leaf) (node_hdr n)"

definition node_is_internal :: "node \<Rightarrow> bool exec" where
  "node_is_internal n = map_option (\<lambda>h. nh_page_type h = Internal) (node_hdr n)"

definition node_count :: "node \<Rightarrow> nat exec" where
  "node_count n = map_option (\<lambda>h. unat (nh_count h)) (node_hdr n)"

text \<open>The checksum skips its own field; \<open>combine\<close> is \<open>crc32c_combine\<close>.\<close>

definition compute_checksum :: "(bytes \<Rightarrow> u32) \<Rightarrow> (u32 \<Rightarrow> u32 \<Rightarrow> nat \<Rightarrow> u32) \<Rightarrow> node \<Rightarrow> u64 exec" where
  "compute_checksum crc combine n = do {
     head \<leftarrow> slice_range n 0 20;
     rest \<leftarrow> slice_range n 28 PAGE_SIZE;
     Some (ucast (combine (crc head) (crc rest) (PAGE_SIZE - 28)))
   }"

definition update_checksum :: "(bytes \<Rightarrow> u32) \<Rightarrow> (u32 \<Rightarrow> u32 \<Rightarrow> nat \<Rightarrow> u32) \<Rightarrow> node \<Rightarrow> node exec" where
  "update_checksum crc combine n = do {
     checksum \<leftarrow> compute_checksum crc combine n;
     h \<leftarrow> node_hdr n;
     set_header n (h\<lparr>nh_checksum := checksum\<rparr>)
   }"

definition verify_checksum :: "(bytes \<Rightarrow> u32) \<Rightarrow> (u32 \<Rightarrow> u32 \<Rightarrow> nat \<Rightarrow> u32) \<Rightarrow> node \<Rightarrow> bool exec" where
  "verify_checksum crc combine n = do {
     h \<leftarrow> node_hdr n;
     checksum \<leftarrow> compute_checksum crc combine n;
     Some (nh_checksum h = checksum)
   }"

section \<open>Slots and entries\<close>

definition slot_array_start :: nat where "slot_array_start = HEADER_SIZE"

declare slot_array_start_def [simp]

definition slot_offset :: "node \<Rightarrow> nat \<Rightarrow> nat exec" where
  "slot_offset n index = map_option unat (read_u16 n (slot_array_start + index * SLOT_SIZE))"

definition set_slot_offset :: "node \<Rightarrow> nat \<Rightarrow> u16 \<Rightarrow> node exec" where
  "set_slot_offset n index offset = copy_from_slice n (slot_array_start + index * SLOT_SIZE) (u16_le offset)"

definition slot_key_len :: "node \<Rightarrow> nat \<Rightarrow> u16 exec" where
  "slot_key_len n index = read_u16 n (slot_array_start + index * SLOT_SIZE + 2)"

definition set_slot_key_len :: "node \<Rightarrow> nat \<Rightarrow> u16 \<Rightarrow> node exec" where
  "set_slot_key_len n index key_len = copy_from_slice n (slot_array_start + index * SLOT_SIZE + 2) (u16_le key_len)"

definition entry_prefix_len :: "node \<Rightarrow> nat \<Rightarrow> u16 exec" where
  "entry_prefix_len n index = do { off \<leftarrow> slot_offset n index; read_u16 n off }"

definition entry_suffix_len :: "node \<Rightarrow> nat \<Rightarrow> u16 exec" where
  "entry_suffix_len n index = do { off \<leftarrow> slot_offset n index; read_u16 n (off + 2) }"

section \<open>Layout validation\<close>

fun read_offsets :: "node \<Rightarrow> nat \<Rightarrow> nat list \<Rightarrow> nat list \<Rightarrow> nat list option exec" where
  "read_offsets n slot_end [] offsets = Some (Some offsets)"
| "read_offsets n slot_end (index # rest) offsets = do {
     offset \<leftarrow> slot_offset n index;
     if offset < slot_end \<or> offset \<ge> PAGE_SIZE then Some None
     else read_offsets n slot_end rest (offsets @ [offset])
   }"

fun equal_neighbours :: "nat list \<Rightarrow> bool" where
  "equal_neighbours (x # y # zs) \<longleftrightarrow> x = y \<or> equal_neighbours (y # zs)"
| "equal_neighbours _ \<longleftrightarrow> False"

text \<open>The body of the loop over the entries: the key of the entry, or nothing where the code returns
  \<open>false\<close>.\<close>

definition validate_entry :: "node \<Rightarrow> nat \<Rightarrow> nat \<Rightarrow> nat \<Rightarrow> bytes \<Rightarrow> bytes option exec" where
  "validate_entry n entry_end index offset previous_key =
     (if entry_end \<le> offset \<or> entry_end > PAGE_SIZE \<or> offset + 4 > entry_end then Some None
      else do {
        p \<leftarrow> entry_prefix_len n index;
        s \<leftarrow> entry_suffix_len n index;
        let prefix_len = unat p;
        let suffix_len = unat s;
        try_option (Some (usize_checked_add offset (4 + suffix_len))) (\<lambda>suffix_end.
          if \<not> suffix_end \<le> entry_end then Some None
          else try_option (Some (usize_checked_add prefix_len suffix_len)) (\<lambda>key_len. do {
            slot_len \<leftarrow> slot_key_len n index;
            if unat slot_len \<noteq> key_len then Some None
            else if prefix_len > length previous_key then Some None
            else do {
              key_suffix \<leftarrow> slice_range n (offset + 4) suffix_end;
              key_prefix \<leftarrow> slice_range previous_key 0 prefix_len;
              let key = key_prefix @ key_suffix;
              if previous_key > key then Some None
              else do {
                internal \<leftarrow> node_is_internal n;
                if internal then
                  Some (if (case usize_checked_add suffix_end 8 of None \<Rightarrow> True | Some e \<Rightarrow> e > entry_end)
                        then None else Some key)
                else if suffix_end \<ge> entry_end then Some None
                else do {
                  vt \<leftarrow> byte_at n suffix_end;
                  Some (if vt = 0 \<or> vt = 2
                           \<or> (vt = 1 \<and> (case usize_checked_add (suffix_end + 1) BLOB_POINTER_SIZE of
                                         None \<Rightarrow> False | Some e \<Rightarrow> e \<le> entry_end))
                        then Some key else None)
                }
              }
            }
          }))
      })"

text \<open>The binary search in the sorted offsets, which are distinct at this point, finds the only
  position of the offset.\<close>

fun validate_entries :: "node \<Rightarrow> nat list \<Rightarrow> (nat \<times> nat) list \<Rightarrow> bytes \<Rightarrow> bool exec" where
  "validate_entries n sorted_offsets [] previous_key = Some True"
| "validate_entries n sorted_offsets ((index, offset) # rest) previous_key =
     (case position (\<lambda>x. x = offset) sorted_offsets of
        None \<Rightarrow> Some False
      | Some sorted_index \<Rightarrow> do {
          r \<leftarrow> validate_entry n
            (if sorted_index + 1 < length sorted_offsets then sorted_offsets ! (sorted_index + 1) else PAGE_SIZE)
            index offset previous_key;
          (case r of None \<Rightarrow> Some False | Some key \<Rightarrow> validate_entries n sorted_offsets rest key)
        })"

definition validate_layout :: "node \<Rightarrow> bool exec" where
  "validate_layout n = do {
     h \<leftarrow> node_hdr n;
     let count = unat (nh_count h);
     let slot_end = usize_saturating_add HEADER_SIZE (usize_saturating_mul count SLOT_SIZE);
     if count > (PAGE_SIZE - HEADER_SIZE) div SLOT_SIZE \<or> slot_end > PAGE_SIZE then Some False
     else do {
       r \<leftarrow> read_offsets n slot_end [0..<count] [];
       (case r of
          None \<Rightarrow> Some False
        | Some offsets \<Rightarrow>
          (let sorted_offsets = sort offsets;
               min_entry = min_or PAGE_SIZE offsets
           in if equal_neighbours sorted_offsets then Some False
              else if unat (nh_free_space h) \<noteq> min_entry - slot_end then Some False
              else validate_entries n sorted_offsets (enumerate 0 offsets) []))
     }
   }"

definition node_from_bytes :: "bytes \<Rightarrow> node option exec" where
  "node_from_bytes n = do {
     header_bytes \<leftarrow> slice_range n 0 HEADER_SIZE;
     try_option (nh_try_from_bytes header_bytes) (\<lambda>_. do {
       valid \<leftarrow> validate_layout n;
       Some (if valid then Some n else None)
     })
   }"

section \<open>The declarative reading of a page\<close>

text \<open>The header fields of a page, the number of slots, and the two words of a slot.\<close>

definition nh_view :: "bytes \<Rightarrow> node_header" where
  "nh_view b = \<lparr>nh_magic = le_u32 (sub_bytes b 0 4), nh_version = le_u32 (sub_bytes b 4 4),
     nh_page_type = (if le_u32 (sub_bytes b 8 4) = 1 then Internal else Leaf),
     nh_count = le_u32 (sub_bytes b 12 4), nh_free_space = le_u32 (sub_bytes b 16 4),
     nh_checksum = le_u64 (sub_bytes b 20 8), nh_parent_id = le_u32 (sub_bytes b 28 4),
     nh_leftmost_child = le_u64 (sub_bytes b 32 8), nh_write_generation = le_u64 (sub_bytes b 40 8)\<rparr>"

definition hdr :: "node \<Rightarrow> node_header" where "hdr n = nh_view n"

definition cnt :: "node \<Rightarrow> nat" where "cnt n = unat (nh_count (hdr n))"

definition soff :: "node \<Rightarrow> nat \<Rightarrow> nat" where
  "soff n i = unat (le_u16 (sub_bytes n (48 + 4 * i) 2))"

definition sklen :: "node \<Rightarrow> nat \<Rightarrow> nat" where
  "sklen n i = unat (le_u16 (sub_bytes n (50 + 4 * i) 2))"

definition offs :: "node \<Rightarrow> nat list" where "offs n = map (soff n) [0..<cnt n]"

text \<open>The end of an entry is the next larger offset, or the end of the page.\<close>

definition eend :: "node \<Rightarrow> nat \<Rightarrow> nat" where
  "eend n i = min_or PAGE_SIZE (filter (\<lambda>x. soff n i < x) (offs n))"

definition cell :: "node \<Rightarrow> nat \<Rightarrow> bytes" where
  "cell n i = sub_bytes n (soff n i) (eend n i - soff n i)"

definition min_off :: "node \<Rightarrow> nat" where "min_off n = min_or PAGE_SIZE (offs n)"

text \<open>The slot array and the offsets are in order; nothing is said yet about the entries' contents.\<close>

definition page_phys :: "node \<Rightarrow> bool" where
  "page_phys n \<longleftrightarrow>
     length n = 4096 \<and> 48 + 4 * cnt n \<le> 4096
     \<and> (\<forall>i < cnt n. 48 + 4 * cnt n \<le> soff n i \<and> soff n i < 4096) \<and> distinct (offs n)
     \<and> unat (nh_free_space (hdr n)) = min_off n - (48 + 4 * cnt n)"

text \<open>The fields of a cell, and the key it stands for after the key before it.\<close>

definition cell_plen :: "bytes \<Rightarrow> nat" where "cell_plen c = unat (le_u16 (sub_bytes c 0 2))"
definition cell_slen :: "bytes \<Rightarrow> nat" where "cell_slen c = unat (le_u16 (sub_bytes c 2 2))"

definition cell_key :: "bytes \<Rightarrow> bytes \<Rightarrow> bytes" where
  "cell_key prev c = take (cell_plen c) prev @ sub_bytes c 4 (cell_slen c)"

definition cell_ok :: "page_type \<Rightarrow> bytes \<Rightarrow> nat \<Rightarrow> bytes \<Rightarrow> bool" where
  "cell_ok t prev klen c \<longleftrightarrow>
     4 + cell_slen c \<le> length c \<and> klen = cell_plen c + cell_slen c \<and> cell_plen c \<le> length prev
     \<and> prev \<le> cell_key prev c
     \<and> (case t of
          Internal \<Rightarrow> 4 + cell_slen c + 8 \<le> length c
        | Leaf \<Rightarrow> 4 + cell_slen c < length c
            \<and> (c ! (4 + cell_slen c) = 0 \<or> c ! (4 + cell_slen c) = 2
               \<or> (c ! (4 + cell_slen c) = 1 \<and> 4 + cell_slen c + 1 + 16 \<le> length c)))"

fun cells_ok :: "page_type \<Rightarrow> bytes \<Rightarrow> (nat \<times> bytes) list \<Rightarrow> bool" where
  "cells_ok t prev [] \<longleftrightarrow> True"
| "cells_ok t prev ((klen, c) # cs) \<longleftrightarrow> cell_ok t prev klen c \<and> cells_ok t (cell_key prev c) cs"

definition slots :: "node \<Rightarrow> (nat \<times> bytes) list" where
  "slots n = map (\<lambda>i. (sklen n i, cell n i)) [0..<cnt n]"

definition page_wf :: "node \<Rightarrow> bool" where
  "page_wf n \<longleftrightarrow> page_phys n \<and> cells_ok (nh_page_type (hdr n)) [] (slots n)"

section \<open>Reading the header\<close>

lemma nh_to_bytes_length [simp]: "length (nh_to_bytes h) = 48"
  by (simp add: nh_to_bytes_def)

lemma nh_view_to_bytes: "nh_view (nh_to_bytes h @ rest) = h"
  by (cases "nh_page_type h") (simp_all add: nh_view_def nh_to_bytes_def append_field_simps)

lemma nh_from_bytes_view: "48 \<le> length b \<Longrightarrow> nh_from_bytes b = Some (nh_view b)"
  by (simp add: nh_from_bytes_def nh_view_def page_simps Let_def)

lemma nh_view_sub: "nh_view (sub_bytes n 0 48) = nh_view n"
  by (simp add: nh_view_def sub_bytes_sub_bytes)

lemma node_hdr_eq [page_simps]: "length n = 4096 \<Longrightarrow> node_hdr n = Some (hdr n)"
  by (simp add: node_hdr_def slice_sub_bytes nh_from_bytes_view nh_view_sub hdr_def)

lemma hdr_write_header [simp]: "length n = 4096 \<Longrightarrow> hdr (write_at n 0 (nh_to_bytes h)) = h"
  by (simp add: hdr_def write_at_def nh_view_to_bytes)

lemma set_header_eq [page_simps]: "length n = 4096 \<Longrightarrow> set_header n h = Some (write_at n 0 (nh_to_bytes h))"
  by (simp add: set_header_def page_simps)

lemma node_count_eq [page_simps]: "length n = 4096 \<Longrightarrow> node_count n = Some (cnt n)"
  by (simp add: node_count_def page_simps cnt_def)

lemma node_kind_eq [page_simps]:
  "length n = 4096 \<Longrightarrow> node_is_leaf n = Some (nh_page_type (hdr n) = Leaf)"
  "length n = 4096 \<Longrightarrow> node_is_internal n = Some (nh_page_type (hdr n) = Internal)"
  by (simp_all add: node_is_leaf_def node_is_internal_def page_simps)

lemma header_field_eq [page_simps]:
  "length n = 4096 \<Longrightarrow> node_parent_id n = Some (nh_parent_id (hdr n))"
  "length n = 4096 \<Longrightarrow> leftmost_child n = Some (nh_leftmost_child (hdr n))"
  "length n = 4096 \<Longrightarrow> node_write_generation n = Some (nh_write_generation (hdr n))"
  by (simp_all add: node_parent_id_def leftmost_child_def node_write_generation_def page_simps)

lemma not_Leaf [simp]: "t \<noteq> Leaf \<longleftrightarrow> t = Internal"
  and not_Internal [simp]: "t \<noteq> Internal \<longleftrightarrow> t = Leaf"
  by (cases t; simp)+

lemma slot_offset_eq [page_simps]:
  "48 + 4 * i + 2 \<le> length n \<Longrightarrow> slot_offset n i = Some (soff n i)"
  by (simp add: slot_offset_def page_simps soff_def mult.commute)

lemma slot_key_len_eq [page_simps]:
  "48 + 4 * i + 4 \<le> length n \<Longrightarrow> slot_key_len n i = Some (word_of_nat (sklen n i))"
  by (simp add: slot_key_len_def page_simps sklen_def mult.commute)

lemma sklen_less: "sklen n i < 65536"
  using unat_less_pow [of "le_u16 (sub_bytes n (50 + 4 * i) 2)"] by (simp add: sklen_def)

lemma soff_less: "soff n i < 65536"
  using unat_less_pow [of "le_u16 (sub_bytes n (48 + 4 * i) 2)"] by (simp add: soff_def)

lemma length_offs [simp]: "length (offs n) = cnt n"
  by (simp add: offs_def)

lemma nth_offs [simp]: "i < cnt n \<Longrightarrow> offs n ! i = soff n i"
  by (simp add: offs_def)

lemma set_offs: "set (offs n) = soff n ` {..<cnt n}"
  by (auto simp: offs_def)

section \<open>Entry ends\<close>

lemma eend_le: "(\<And>i. i < cnt n \<Longrightarrow> soff n i < 4096) \<Longrightarrow> eend n i \<le> 4096"
  using min_or_in [of 4096 "filter (\<lambda>x. soff n i < x) (offs n)"] by (auto simp: eend_def set_offs intro: less_imp_le)

lemma soff_less_eend: "soff n i < 4096 \<Longrightarrow> soff n i < eend n i"
  using min_or_in [of 4096 "filter (\<lambda>x. soff n i < x) (offs n)"] by (auto simp: eend_def)

lemma eend_le_soff: "j < cnt n \<Longrightarrow> soff n i < soff n j \<Longrightarrow> eend n i \<le> soff n j"
  unfolding eend_def by (rule min_or_le) (auto simp: set_offs)

lemma page_phys_bounds:
  assumes "page_phys n" and "i < cnt n"
  shows "48 + 4 * cnt n \<le> soff n i" "soff n i < eend n i" "eend n i \<le> 4096" "length n = 4096"
    "length (cell n i) = eend n i - soff n i"
proof -
  show "48 + 4 * cnt n \<le> soff n i" "length n = 4096" using assms by (auto simp: page_phys_def)
  show "soff n i < eend n i" using assms by (intro soff_less_eend) (auto simp: page_phys_def)
  show e: "eend n i \<le> 4096" using assms by (intro eend_le) (auto simp: page_phys_def)
  show "length (cell n i) = eend n i - soff n i" using assms e by (auto simp: page_phys_def cell_def)
qed

text \<open>The entry end that the code finds in the sorted offsets.\<close>

lemma sorted_successor:
  assumes "distinct xs" and "position (\<lambda>x. x = v) (sort xs) = Some k"
  shows "(if k + 1 < length (sort xs) then sort xs ! (k + 1) else d) = min_or d (filter (\<lambda>x. v < x) xs)"
proof -
  let ?s = "sort xs"
  have k: "k < length ?s" "?s ! k = v" using position_Some [OF assms(2)] by auto
  have strict: "i < j \<Longrightarrow> j < length ?s \<Longrightarrow> ?s ! i < ?s ! j" for i j
    using assms(1) sorted_nth_mono [of ?s i j] nth_eq_iff_index_eq [of ?s i j] by (fastforce simp: less_le)
  have above: "v < x \<and> x \<in> set xs \<longleftrightarrow> (\<exists>j. k < j \<and> j < length ?s \<and> x = ?s ! j)" for x
  proof
    assume "v < x \<and> x \<in> set xs"
    then obtain j where j: "j < length ?s" "x = ?s ! j" "v < x" by (auto simp: in_set_conv_nth [of x ?s, simplified])
    have "k < j"
    proof (rule ccontr)
      assume "\<not> k < j"
      then have "?s ! j \<le> ?s ! k" using sorted_nth_mono [of ?s j k] k by simp
      then show False using j k by simp
    qed
    then show "\<exists>j. k < j \<and> j < length ?s \<and> x = ?s ! j" using j by blast
  next
    assume "\<exists>j. k < j \<and> j < length ?s \<and> x = ?s ! j"
    then show "v < x \<and> x \<in> set xs" using strict k by (metis nth_mem set_sort)
  qed
  show ?thesis
  proof (cases "k + 1 < length ?s")
    case True
    have "min_or d (filter (\<lambda>x. v < x) xs) = ?s ! (k + 1)"
    proof (rule min_or_eqI)
      show "?s ! (k + 1) \<in> set (filter (\<lambda>x. v < x) xs) \<or> filter (\<lambda>x. v < x) xs = [] \<and> ?s ! (k + 1) = d"
        using above [of "?s ! (k + 1)"] True by auto
      show "?s ! (k + 1) \<le> x" if "x \<in> set (filter (\<lambda>x. v < x) xs)" for x
      proof -
        from that above [of x] obtain j where "k < j" "j < length ?s" "x = ?s ! j" by auto
        then show ?thesis using sorted_nth_mono [of ?s "k + 1" j] by simp
      qed
    qed
    with True show ?thesis by simp
  next
    case False
    have "\<not> v < x" if "x \<in> set xs" for x
      using above [of x] False that by (metis Suc_eq_plus1 Suc_lessI less_trans)
    then have "filter (\<lambda>x. v < x) xs = []" by (simp add: filter_empty_conv)
    with False show ?thesis by simp
  qed
qed

lemma position_sort: "v \<in> set xs \<Longrightarrow> \<exists>k. position (\<lambda>x. x = v) (sort xs) = Some k"
  using position_None [of "\<lambda>x. x = v" "sort xs"] by (metis not_None_eq set_sort)

lemma equal_neighbours_sorted: "sorted xs \<Longrightarrow> equal_neighbours xs \<longleftrightarrow> \<not> distinct xs"
  by (induction xs rule: equal_neighbours.induct) (auto simp: less_le)

section \<open>What validation accepts\<close>

lemma cell_sub:
  assumes "a + l \<le> length (cell n i)"
  shows "sub_bytes n (soff n i + a) l = sub_bytes (cell n i) a l"
  using assms by (simp add: cell_def sub_bytes_sub_bytes)

lemma cell_nth:
  assumes "a < length (cell n i)"
  shows "n ! (soff n i + a) = cell n i ! a"
  using assms by (subst cell_def, subst nth_sub_bytes) (auto simp: cell_def)

lemma entry_fields_eq:
  assumes "length n = 4096" and "48 + 4 * i + 4 \<le> 4096" and "4 \<le> length (cell n i)"
  shows "entry_prefix_len n i = Some (le_u16 (sub_bytes (cell n i) 0 2))"
    and "entry_suffix_len n i = Some (le_u16 (sub_bytes (cell n i) 2 2))"
proof -
  have "4 \<le> 4096 - soff n i" using assms by (simp add: cell_def)
  then have "soff n i + 4 \<le> 4096" by linarith
  then show "entry_prefix_len n i = Some (le_u16 (sub_bytes (cell n i) 0 2))"
    "entry_suffix_len n i = Some (le_u16 (sub_bytes (cell n i) 2 2))"
    using assms cell_sub [of 0 2 n i] cell_sub [of 2 2 n i]
    by (simp_all add: entry_prefix_len_def entry_suffix_len_def page_simps)
qed

lemma cell_len_less: "cell_plen c < 65536" "cell_slen c < 65536"
  using unat_less_pow [of "le_u16 (sub_bytes c 0 2)"] unat_less_pow [of "le_u16 (sub_bytes c 2 2)"]
  by (simp_all add: cell_plen_def cell_slen_def)

lemma validate_entry_eq:
  assumes n: "length n = 4096" "48 + 4 * i + 4 \<le> 4096" and o: "soff n i < eend n i" "eend n i \<le> 4096"
  shows "validate_entry n (eend n i) i (soff n i) prev =
    Some (if cell_ok (nh_page_type (hdr n)) prev (sklen n i) (cell n i) then Some (cell_key prev (cell n i)) else None)"
proof (cases "4 \<le> length (cell n i)")
  case False
  have "length (cell n i) = eend n i - soff n i" using o n by (simp add: cell_def)
  then have "soff n i + 4 > eend n i" using False by simp
  then show ?thesis using False by (simp add: validate_entry_def cell_ok_def)
next
  case long: True
  define c where "c = cell n i"
  define q where "q = soff n i"
  define e where "e = eend n i"
  have len: "e = q + length c" using assms by (simp add: c_def cell_def q_def e_def)
  have b: "q < e" "e \<le> 4096" using assms by (simp_all add: q_def e_def)
  have f: "entry_prefix_len n i = Some (word_of_nat (cell_plen c))" "entry_suffix_len n i = Some (word_of_nat (cell_slen c))"
    "slot_key_len n i = Some (word_of_nat (sklen n i))"
    using entry_fields_eq [OF n long] n by (simp_all add: page_simps c_def cell_plen_def cell_slen_def)
  have un: "unat (word_of_nat (cell_plen c) :: u16) = cell_plen c" "unat (word_of_nat (cell_slen c) :: u16) = cell_slen c"
    "unat (word_of_nat (sklen n i) :: u16) = sklen n i"
    using cell_len_less [of c] sklen_less [of n i] by (simp_all add: unat_of_nat)
  have suffix: "slice_range n (q + 4) (q + (4 + cell_slen c)) = Some (sub_bytes c 4 (cell_slen c))"
    if "4 + cell_slen c \<le> length c"
    using that len b n cell_sub [of 4 "cell_slen c" n i] by (simp add: slice_sub_bytes c_def q_def)
  have prefix: "slice_range prev 0 (cell_plen c) = Some (take (cell_plen c) prev)" if "cell_plen c \<le> length prev"
    using that by (simp add: slice_sub_bytes sub_bytes_def)
  have vt: "byte_at n (q + (4 + cell_slen c)) = Some (c ! (4 + cell_slen c))" if "4 + cell_slen c < length c"
    using that cell_nth [of "4 + cell_slen c" n i] len b n by (simp add: page_simps q_def c_def)
  have add: "usize_checked_add q (4 + cell_slen c) = Some (q + (4 + cell_slen c))"
    "usize_checked_add (cell_plen c) (cell_slen c) = Some (cell_plen c + cell_slen c)"
    "usize_checked_add (q + (4 + cell_slen c)) 8 = Some (q + (4 + cell_slen c) + 8)"
    "usize_checked_add (q + (4 + cell_slen c) + 1) 16 = Some (q + (4 + cell_slen c) + 1 + 16)"
    using b cell_len_less [of c] by (auto simp: usize_checked_add_def)
  have ok1: "\<not> (e \<le> q \<or> e > PAGE_SIZE \<or> q + 4 > e)" using b len long by (simp add: c_def)
  have head: "validate_entry n e i q prev = (let key = cell_key prev c in
      if \<not> 4 + cell_slen c \<le> length c \<or> sklen n i \<noteq> cell_plen c + cell_slen c
         \<or> length prev < cell_plen c \<or> key < prev then Some None
      else if nh_page_type (hdr n) = Internal
      then Some (if 4 + cell_slen c + 8 \<le> length c then Some key else None)
      else if \<not> 4 + cell_slen c < length c then Some None
      else Some (if c ! (4 + cell_slen c) = 0 \<or> c ! (4 + cell_slen c) = 2
           \<or> (c ! (4 + cell_slen c) = 1 \<and> 4 + cell_slen c + 1 + 16 \<le> length c) then Some key else None))"
  proof (cases "4 + cell_slen c \<le> length c \<and> sklen n i = cell_plen c + cell_slen c \<and> cell_plen c \<le> length prev")
    case False
    then show ?thesis
      unfolding validate_entry_def if_not_P [OF ok1] f bind.bind_lunit Let_def un add try_option_simps
      by (auto simp: len not_le)
  next
    case True
    have fits: "q + (4 + cell_slen c) \<le> e" using True len by simp
    have T: "(\<not> q + (4 + cell_slen c) \<le> e) = False" "(sklen n i \<noteq> cell_plen c + cell_slen c) = False"
      "(length prev < cell_plen c) = False" using True fits by auto
    show ?thesis
      unfolding validate_entry_def if_not_P [OF ok1] f bind.bind_lunit Let_def un add try_option_simps T if_False
        suffix [OF conjunct1 [OF True]] prefix [OF conjunct2 [OF conjunct2 [OF True]]] cell_key_def [symmetric]
        node_kind_eq [OF n(1)] BLOB_POINTER_SIZE_def option.case
      using True vt by (auto simp: len)
  qed
  show ?thesis
    unfolding c_def [symmetric] q_def [symmetric] e_def [symmetric] head Let_def
    by (cases "nh_page_type (hdr n)") (simp_all add: cell_ok_def not_less)
qed

lemma validate_entries_eq:
  assumes n: "length n = 4096" "48 + 4 * cnt n \<le> 4096" "distinct (offs n)"
    and off: "\<And>i. i < cnt n \<Longrightarrow> soff n i < 4096"
  shows "i \<le> cnt n \<Longrightarrow> validate_entries n (sort (offs n)) (map (\<lambda>i. (i, soff n i)) [i..<cnt n]) prev =
    Some (cells_ok (nh_page_type (hdr n)) prev (map (\<lambda>i. (sklen n i, cell n i)) [i..<cnt n]))"
proof (induction "cnt n - i" arbitrary: i prev)
  case 0
  then show ?case by simp
next
  case (Suc d)
  then have i: "i < cnt n" by simp
  obtain k where k: "position (\<lambda>x. x = soff n i) (sort (offs n)) = Some k"
    using position_sort [of "soff n i" "offs n"] i by (auto simp: set_offs)
  have e: "(if k + 1 < length (sort (offs n)) then sort (offs n) ! (k + 1) else PAGE_SIZE) = eend n i"
    unfolding eend_def using sorted_successor [OF n(3) k] by blast
  have v: "validate_entry n (eend n i) i (soff n i) prev =
      Some (if cell_ok (nh_page_type (hdr n)) prev (sklen n i) (cell n i) then Some (cell_key prev (cell n i)) else None)"
    using n i soff_less_eend eend_le off by (intro validate_entry_eq) auto
  have "validate_entries n (sort (offs n)) (map (\<lambda>i. (i, soff n i)) [Suc i..<cnt n]) (cell_key prev (cell n i)) =
      Some (cells_ok (nh_page_type (hdr n)) (cell_key prev (cell n i)) (map (\<lambda>i. (sklen n i, cell n i)) [Suc i..<cnt n]))"
    using Suc.hyps(2) i by (intro Suc.hyps(1)) simp_all
  then show ?case
    using v by (simp only: upt_conv_Cons [OF i] list.map validate_entries.simps k option.case e) (simp split: if_splits)
qed

lemma read_offsets_eq:
  assumes "length n = 4096" and "48 + 4 * cnt n \<le> 4096"
  shows "i \<le> cnt n \<Longrightarrow> read_offsets n e [i..<cnt n] acc =
    Some (if \<forall>j. i \<le> j \<and> j < cnt n \<longrightarrow> e \<le> soff n j \<and> soff n j < 4096
          then Some (acc @ map (soff n) [i..<cnt n]) else None)"
proof (induction "cnt n - i" arbitrary: i acc)
  case 0
  then show ?case by simp
next
  case (Suc d)
  then have i: "i < cnt n" by simp
  have ih: "read_offsets n e [Suc i..<cnt n] (acc @ [soff n i]) =
      Some (if \<forall>j. Suc i \<le> j \<and> j < cnt n \<longrightarrow> e \<le> soff n j \<and> soff n j < 4096
          then Some ((acc @ [soff n i]) @ map (soff n) [Suc i..<cnt n]) else None)"
    using Suc.hyps(2) i by (intro Suc.hyps(1)) simp_all
  have so: "slot_offset n i = Some (soff n i)" using assms i by (simp add: page_simps)
  have "(\<forall>j. i \<le> j \<and> j < cnt n \<longrightarrow> e \<le> soff n j \<and> soff n j < 4096) \<longleftrightarrow>
      (e \<le> soff n i \<and> soff n i < 4096) \<and> (\<forall>j. Suc i \<le> j \<and> j < cnt n \<longrightarrow> e \<le> soff n j \<and> soff n j < 4096)"
    using i by (metis Suc_leD Suc_leI le_eq_less_or_eq)
  then show ?case using ih so by (auto simp: upt_conv_Cons [OF i] not_less not_le simp del: upt_Suc)
qed

lemma enumerate_offs: "enumerate 0 (offs n) = map (\<lambda>i. (i, soff n i)) [0..<cnt n]"
  by (rule nth_equalityI) (simp_all add: nth_enumerate_eq)

lemma validate_layout_eq:
  assumes "length n = 4096"
  shows "validate_layout n = Some (page_wf n)"
proof (cases "48 + 4 * cnt n \<le> 4096")
  case False
  then have "cnt n > 1012" by simp
  then show ?thesis
    using assms by (simp add: validate_layout_def page_simps cnt_def [symmetric] Let_def page_wf_def page_phys_def)
next
  case True
  then have "cnt n \<le> 1012" by simp
  then have se: "usize_saturating_add HEADER_SIZE (usize_saturating_mul (cnt n) SLOT_SIZE) = 48 + 4 * cnt n"
    by (simp add: usize_saturating_add_def usize_saturating_mul_def)
  let ?in = "\<forall>j < cnt n. 48 + 4 * cnt n \<le> soff n j \<and> soff n j < 4096"
  have ro: "read_offsets n (48 + 4 * cnt n) [0..<cnt n] [] = Some (if ?in then Some (offs n) else None)"
    using read_offsets_eq [OF assms True, of 0] by (simp add: offs_def)
  have eq: "equal_neighbours (sort (offs n)) \<longleftrightarrow> \<not> distinct (offs n)"
    by (simp add: equal_neighbours_sorted)
  have ve: "validate_entries n (sort (offs n)) (enumerate 0 (offs n)) [] = Some (cells_ok (nh_page_type (hdr n)) [] (slots n))"
    if ?in "distinct (offs n)"
    using validate_entries_eq [OF assms True, of 0 "[]"] that by (simp add: enumerate_offs slots_def)
  have small: "\<not> (cnt n > (PAGE_SIZE - HEADER_SIZE) div SLOT_SIZE \<or> 48 + 4 * cnt n > PAGE_SIZE)"
    using \<open>cnt n \<le> 1012\<close> by simp
  have "validate_layout n =
     (if ?in then
        if \<not> distinct (offs n) then Some False
        else if unat (nh_free_space (hdr n)) \<noteq> min_off n - (48 + 4 * cnt n) then Some False
        else validate_entries n (sort (offs n)) (enumerate 0 (offs n)) []
      else Some False)"
    unfolding validate_layout_def node_hdr_eq [OF assms] Let_def cnt_def [symmetric] bind.bind_lunit se ro min_off_def
      if_not_P [OF small] if_distrib [of "case_option _ _"] option.case eq ..
  then show ?thesis
    using ve assms True by (simp add: page_wf_def page_phys_def)
qed

definition page_valid :: "node \<Rightarrow> bool" where
  "page_valid n \<longleftrightarrow> page_wf n \<and> nh_is_valid (hdr n) \<and> le_u32 (sub_bytes n 8 4) \<in> {1, 2}"

lemma node_from_bytes_eq:
  assumes "length n = 4096"
  shows "node_from_bytes n = Some (if page_valid n then Some n else None)"
  using assms
  by (simp add: node_from_bytes_def slice_sub_bytes nh_try_from_bytes_def page_simps nh_from_bytes_view nh_view_sub
      hdr_def sub_bytes_sub_bytes validate_layout_eq page_valid_def)

section \<open>Rewriting the header\<close>

lemma set_header_views:
  assumes "length n = 4096" and "nh_count h = nh_count (hdr n)" and "48 + 4 * cnt n \<le> 4096"
    and "\<And>i. i < cnt n \<Longrightarrow> 48 \<le> soff n i"
  defines "n' \<equiv> write_at n 0 (nh_to_bytes h)"
  shows "length n' = 4096" "hdr n' = h" "cnt n' = cnt n" "soff n' = soff n" "sklen n' = sklen n" "offs n' = offs n"
    "min_off n' = min_off n" "slots n' = slots n"
proof -
  show len: "length n' = 4096" using assms by (simp add: n'_def)
  show h: "hdr n' = h" using assms by (simp add: n'_def)
  show c: "cnt n' = cnt n" using h assms by (simp add: cnt_def)
  show so: "soff n' = soff n" and sk: "sklen n' = sklen n"
    using assms by (auto simp: fun_eq_iff soff_def sklen_def n'_def sub_bytes_write_after)
  show o: "offs n' = offs n" using so c by (simp add: offs_def)
  then show "min_off n' = min_off n" by (simp add: min_off_def)
  have "cell n' i = cell n i" if "i < cnt n" for i
    using assms(4) [OF that] assms(1) so o
    by (simp add: cell_def eend_def) (simp add: n'_def sub_bytes_write_after)
  then show "slots n' = slots n" using c sk by (simp add: slots_def)
qed

lemma page_phys_soff48: "page_phys n \<Longrightarrow> i < cnt n \<Longrightarrow> 48 \<le> soff n i"
  using page_phys_bounds(1) [of n i] by simp

lemma page_wf_set_header:
  assumes wf: "page_wf n" and same: "nh_count h = nh_count (hdr n)" "nh_free_space h = nh_free_space (hdr n)"
    "nh_page_type h = nh_page_type (hdr n)"
  shows "page_wf (write_at n 0 (nh_to_bytes h))" "slots (write_at n 0 (nh_to_bytes h)) = slots n"
    "hdr (write_at n 0 (nh_to_bytes h)) = h" "cnt (write_at n 0 (nh_to_bytes h)) = cnt n"
proof -
  have p: "page_phys n" "length n = 4096" "48 + 4 * cnt n \<le> 4096" using wf by (auto simp: page_wf_def page_phys_def)
  note v = set_header_views [OF p(2) same(1) p(3) page_phys_soff48 [OF p(1)]]
  show "slots (write_at n 0 (nh_to_bytes h)) = slots n" "hdr (write_at n 0 (nh_to_bytes h)) = h"
    "cnt (write_at n 0 (nh_to_bytes h)) = cnt n" using v by blast+
  show "page_wf (write_at n 0 (nh_to_bytes h))"
    using wf same v by (simp add: page_wf_def page_phys_def)
qed

lemma page_wf_length [simp]: "page_wf n \<Longrightarrow> length n = 4096"
  by (simp add: page_wf_def page_phys_def)

lemma hdr_bytes:
  assumes "length n = 4096" and "le_u32 (sub_bytes n 8 4) \<in> {1, 2}"
  shows "nh_to_bytes (hdr n) = sub_bytes n 0 48"
proof -
  have t: "u32_le (page_type_code (if le_u32 (sub_bytes n 8 4) = 1 then Internal else Leaf)) = sub_bytes n 8 4"
    using assms u32_le_le_u32 [of "sub_bytes n 8 4"] by auto
  have "sub_bytes n 0 48 = sub_bytes n 0 4 @ sub_bytes n 4 4 @ sub_bytes n 8 4 @ sub_bytes n 12 4 @ sub_bytes n 16 4
      @ sub_bytes n 20 8 @ sub_bytes n 28 4 @ sub_bytes n 32 8 @ sub_bytes n 40 8"
    using sub_bytes_split [of n 0 4 44] sub_bytes_split [of n 4 4 40] sub_bytes_split [of n 8 4 36]
      sub_bytes_split [of n 12 4 32] sub_bytes_split [of n 16 4 28] sub_bytes_split [of n 20 8 20]
      sub_bytes_split [of n 28 4 16] sub_bytes_split [of n 32 8 8]
    by simp
  then show ?thesis
    using assms(1) t by (simp add: nh_to_bytes_def hdr_def nh_view_def u32_le_le_u32 u64_le_le_u64)
qed

lemma hdr_type_raw:
  assumes "length n = 4096"
  shows "le_u32 (sub_bytes (write_at n 0 (nh_to_bytes h)) 8 4) \<in> {1, 2}"
proof -
  have "sub_bytes (write_at n 0 (nh_to_bytes h)) 8 4 = u32_le (page_type_code (nh_page_type h))"
    using assms by (simp add: sub_bytes_write_inside) (simp add: nh_to_bytes_def append_field_simps)
  then show ?thesis by (cases "nh_page_type h") simp_all
qed

lemma page_valid_set_header:
  assumes "page_valid n" and "nh_count h = nh_count (hdr n)" "nh_free_space h = nh_free_space (hdr n)"
    "nh_page_type h = nh_page_type (hdr n)" "nh_magic h = nh_magic (hdr n)" "nh_version h = nh_version (hdr n)"
  shows "page_valid (write_at n 0 (nh_to_bytes h))"
  using page_wf_set_header [of n h] hdr_type_raw [of n h] assms by (auto simp: page_valid_def nh_is_valid_def)

lemma node_new_eq: "node_new t = Some (nh_to_bytes (nh_new t) @ replicate 4048 0)"
  by (simp add: node_new_def page_simps write_at_def)

lemma node_new_views:
  assumes "node_new t = Some n"
  shows "hdr n = nh_new t" "cnt n = 0" "slots n = []" "page_valid n" "min_off n = 4096"
proof -
  have n: "n = nh_to_bytes (nh_new t) @ replicate 4048 0" using assms by (simp add: node_new_eq)
  show h: "hdr n = nh_new t" unfolding n hdr_def by (rule nh_view_to_bytes)
  show c: "cnt n = 0" by (simp add: cnt_def h nh_new_def)
  show s: "slots n = []" by (simp add: slots_def c)
  show m: "min_off n = 4096" by (simp add: min_off_def offs_def c)
  have wf: "page_wf n" using c s m
    by (simp add: page_wf_def page_phys_def offs_def h) (simp add: n nh_new_def)
  have "le_u32 (sub_bytes n 8 4) = page_type_code t"
    by (simp add: n nh_to_bytes_def nh_new_def append_field_simps)
  then show "page_valid n"
    using wf by (cases t) (simp_all add: page_valid_def h nh_is_valid_def nh_new_def)
qed

section \<open>Checksums\<close>

lemma checksum_field_only:
  assumes "length n = 4096" and "le_u32 (sub_bytes n 8 4) \<in> {1, 2}"
  shows "compute_checksum crc combine (write_at n 0 (nh_to_bytes ((hdr n)\<lparr>nh_checksum := c\<rparr>)))
    = compute_checksum crc combine n"
proof -
  let ?h = "(hdr n)\<lparr>nh_checksum := c\<rparr>"
  let ?n = "write_at n 0 (nh_to_bytes ?h)"
  have len: "length ?n = 4096" using assms by simp
  have "sub_bytes ?n 0 20 = sub_bytes (nh_to_bytes ?h) 0 20"
    using assms by (simp add: sub_bytes_write_inside)
  also have "\<dots> = sub_bytes (nh_to_bytes (hdr n)) 0 20"
    by (simp add: nh_to_bytes_def sub_bytes_def)
  also have "\<dots> = sub_bytes n 0 20"
    using assms by (simp add: hdr_bytes sub_bytes_sub_bytes)
  finally have a: "sub_bytes ?n 0 20 = sub_bytes n 0 20" .
  have "sub_bytes ?n 28 20 = sub_bytes (nh_to_bytes ?h) 28 20"
    using assms by (simp add: sub_bytes_write_inside)
  also have "\<dots> = sub_bytes (nh_to_bytes (hdr n)) 28 20"
    by (simp add: nh_to_bytes_def sub_bytes_def)
  also have "\<dots> = sub_bytes n 28 20"
    using assms by (simp add: hdr_bytes sub_bytes_sub_bytes)
  finally have "sub_bytes ?n 28 (20 + 4048) = sub_bytes n 28 (20 + 4048)"
    using assms by (simp only: sub_bytes_split) (simp add: sub_bytes_write_after)
  with a show ?thesis
    using len assms(1) by (simp add: compute_checksum_def slice_sub_bytes)
qed

lemma compute_checksum_total: "length n = 4096 \<Longrightarrow> \<exists>c. compute_checksum crc combine n = Some c"
  by (simp add: compute_checksum_def slice_sub_bytes)

lemma update_checksum_valid:
  assumes "page_valid n"
  shows "\<exists>n' c. update_checksum crc combine n = Some n' \<and> verify_checksum crc combine n' = Some True
    \<and> page_valid n' \<and> slots n' = slots n \<and> hdr n' = (hdr n)\<lparr>nh_checksum := c\<rparr>"
proof -
  have wf: "page_wf n" and len: "length n = 4096" and raw: "le_u32 (sub_bytes n 8 4) \<in> {1, 2}"
    using assms by (auto simp: page_valid_def)
  obtain c where c: "compute_checksum crc combine n = Some c" using compute_checksum_total [OF len] by blast
  let ?n = "write_at n 0 (nh_to_bytes ((hdr n)\<lparr>nh_checksum := c\<rparr>))"
  have "update_checksum crc combine n = Some ?n"
    using c len by (simp add: update_checksum_def page_simps)
  moreover have "verify_checksum crc combine ?n = Some True"
    using c len checksum_field_only [OF len raw, of crc combine c]
    by (simp add: verify_checksum_def page_simps)
  moreover have "page_valid ?n" "slots ?n = slots n" "hdr ?n = (hdr n)\<lparr>nh_checksum := c\<rparr>"
    using page_valid_set_header [OF assms, of "(hdr n)\<lparr>nh_checksum := c\<rparr>"]
      page_wf_set_header [OF wf, of "(hdr n)\<lparr>nh_checksum := c\<rparr>"] by simp_all
  ultimately show ?thesis by blast
qed

section \<open>Properties\<close>

text \<open>C23. Loading a page never panics, whatever its 4096 bytes, and accepts exactly the well-formed
  ones: magic, version and page type are right, slots lie before the entries, no two slots share an entry,
  the free-space field is exact, every entry lies between its offset and the next, and the keys it decodes
  to, prefix compression included, are in order and match the slots' key lengths.\<close>

theorem node_validation_exact:
  assumes "length n = 4096"
  shows "node_from_bytes n = Some (if page_valid n then Some n else None)"
  using assms by (rule node_from_bytes_eq)

theorem node_validation_exact_witness:
  "\<exists>n. node_new Leaf = Some n \<and> length n = 4096 \<and> node_from_bytes n = Some (Some n)"
proof -
  obtain n where n: "node_new Leaf = Some n" by (simp add: node_new_eq)
  have v: "page_valid n" by (rule node_new_views(4) [OF n])
  then have len: "length n = 4096" by (simp add: page_valid_def)
  from node_validation_exact [OF len] n v len show ?thesis by auto
qed

text \<open>Sealing a page works: on every valid page \<open>update_checksum\<close> returns a page that is again
  valid, has the same entries and header fields, and whose stored checksum verifies.\<close>

theorem node_checksum_sealed:
  assumes "page_valid n"
  shows "\<exists>n' c. update_checksum crc combine n = Some n' \<and> verify_checksum crc combine n' = Some True
    \<and> page_valid n' \<and> slots n' = slots n \<and> hdr n' = (hdr n)\<lparr>nh_checksum := c\<rparr>"
  using assms by (rule update_checksum_valid)

theorem node_checksum_sealed_witness:
  "\<exists>n n'. node_new Internal = Some n \<and> page_valid n
    \<and> update_checksum (\<lambda>b. of_nat (length b)) (\<lambda>x y l. x + y) n = Some n'
    \<and> verify_checksum (\<lambda>b. of_nat (length b)) (\<lambda>x y l. x + y) n' = Some True"
proof -
  obtain n where n: "node_new Internal = Some n" by (simp add: node_new_eq)
  have v: "page_valid n" by (rule node_new_views(4) [OF n])
  from node_checksum_sealed [OF v, of "\<lambda>b. of_nat (length b)" "\<lambda>x y l. x + y"] n v show ?thesis by blast
qed

end
