(* ===== verification/Node_Access.thy ===== *)
theory Node_Access
  imports Node_Page
begin

text \<open>
  Reading and searching a node: \<open>src/src/btree/node/access.rs\<close>. On a well-formed page the readers return
  the keys, values and children of the declarative reading, and the two binary searches find the lower and
  the upper bound of a key in the sorted list of keys.
\<close>

datatype value_ref = RInline bytes | RBlob blob_pointer | RTombstone

definition has_prefix_compression :: "node \<Rightarrow> bool exec" where
  "has_prefix_compression n = do {
     count \<leftarrow> node_count n;
     lens \<leftarrow> map_exec (entry_prefix_len n) [0..<count];
     Some (list_ex (\<lambda>l. l \<noteq> 0) lens)
   }"

function node_key :: "node \<Rightarrow> nat \<Rightarrow> bytes option exec" where
  "node_key n index = do {
     count \<leftarrow> node_count n;
     if index \<ge> count then Some None
     else do {
       p \<leftarrow> entry_prefix_len n index;
       s \<leftarrow> entry_suffix_len n index;
       let prefix_len = unat p;
       let suffix_len = unat s;
       entry_off \<leftarrow> slot_offset n index;
       let suffix_start = entry_off + 4;
       suffix \<leftarrow> slice_range n suffix_start (suffix_start + suffix_len);
       if index = 0 \<or> prefix_len = 0 then Some (Some suffix)
       else try_option (node_key n (index - 1)) (\<lambda>prev_key.
         if prefix_len > length prev_key then Some None
         else do {
           prefix \<leftarrow> slice_range prev_key 0 prefix_len;
           Some (Some (prefix @ suffix))
         })
     }
   }"
  by pat_completeness auto

termination
  by (relation "measure snd") auto

declare node_key.simps [simp del]

text \<open>The end of an inline value: the smallest larger offset among the other slots.\<close>

definition value_end :: "node \<Rightarrow> nat \<Rightarrow> nat \<Rightarrow> nat exec" where
  "value_end n index entry_off = do {
     count \<leftarrow> node_count n;
     offsets \<leftarrow> map_exec (slot_offset n) (filter (\<lambda>i. i \<noteq> index) [0..<count]);
     Some (min_or PAGE_SIZE (filter (\<lambda>off. off > entry_off) offsets))
   }"

definition node_value :: "node \<Rightarrow> nat \<Rightarrow> value_ref option exec" where
  "node_value n index = do {
     count \<leftarrow> node_count n;
     leaf \<leftarrow> node_is_leaf n;
     if index \<ge> count \<or> \<not> leaf then Some None
     else do {
       entry_off \<leftarrow> slot_offset n index;
       s \<leftarrow> entry_suffix_len n index;
       let vt_off = entry_off + 4 + unat s;
       vt \<leftarrow> byte_at n vt_off;
       if vt = 0 then do {
         val_end \<leftarrow> value_end n index entry_off;
         data \<leftarrow> slice_range n (vt_off + 1) val_end;
         Some (Some (RInline data))
       }
       else if vt = 1 then do {
         ptr \<leftarrow> slice_range n (vt_off + 1) (vt_off + 1 + BLOB_POINTER_SIZE);
         p \<leftarrow> bp_from_bytes ptr;
         Some (Some (RBlob p))
       }
       else if vt = 2 then Some (Some RTombstone)
       else Some None
     }
   }"

definition child_id :: "node \<Rightarrow> nat \<Rightarrow> u64 option exec" where
  "child_id n index = do {
     count \<leftarrow> node_count n;
     internal \<leftarrow> node_is_internal n;
     if index \<ge> count \<or> \<not> internal then Some None
     else do {
       entry_off \<leftarrow> slot_offset n index;
       s \<leftarrow> entry_suffix_len n index;
       let child_off = entry_off + 4 + unat s;
       if child_off + 8 > PAGE_SIZE then Some None
       else do { c \<leftarrow> read_u64 n child_off; Some (Some c) }
     }
   }"

definition compare_key :: "node \<Rightarrow> nat \<Rightarrow> bytes \<Rightarrow> ordering option exec" where
  "compare_key n index key = do {
     count \<leftarrow> node_count n;
     if index \<ge> count then Some None
     else do {
       p \<leftarrow> entry_prefix_len n index;
       s \<leftarrow> entry_suffix_len n index;
       if unat p = 0 then do {
         off \<leftarrow> slot_offset n index;
         try_option (Some (usize_checked_add off 4)) (\<lambda>start.
         try_option (Some (usize_checked_add start (unat s))) (\<lambda>stop.
           Some (map_option (\<lambda>stored. cmp stored key) (slice_range n start stop))))
       }
       else do {
         k \<leftarrow> node_key n index;
         Some (map_option (\<lambda>stored. cmp stored key) k)
       }
     }
   }"

text \<open>The loop of \<open>child_for_key\<close>: an upper bound.\<close>

function child_loop :: "node \<Rightarrow> bytes \<Rightarrow> nat \<Rightarrow> nat \<Rightarrow> nat option exec" where
  "child_loop n key lo hi =
     (if lo < hi then
        let mid = lo + (hi - lo) div 2
        in try_option (compare_key n mid key) (\<lambda>c.
             if c = Greater then child_loop n key lo mid else child_loop n key (mid + 1) hi)
      else Some (Some lo))"
  by pat_completeness auto

termination
  by (relation "measure (\<lambda>(n, key, lo, hi). hi - lo)") auto

definition child_for_key :: "node \<Rightarrow> bytes \<Rightarrow> u64 option exec" where
  "child_for_key n key = do {
     internal \<leftarrow> node_is_internal n;
     if \<not> internal then Some None
     else do {
       count \<leftarrow> node_count n;
       try_option (child_loop n key 0 count) (\<lambda>lo.
         if lo = 0 then map_option Some (leftmost_child n) else child_id n (lo - 1))
     }
   }"

text \<open>The loop of \<open>search\<close>; \<open>Inr\<close> is the source's \<open>Ok\<close>, \<open>Inl\<close> its \<open>Err\<close>.\<close>

function search_loop :: "node \<Rightarrow> bytes \<Rightarrow> nat \<Rightarrow> nat \<Rightarrow> nat option \<Rightarrow> (nat + nat) exec" where
  "search_loop n key lo hi result =
     (if lo < hi then do {
        let mid = lo + (hi - lo) div 2;
        c \<leftarrow> compare_key n mid key;
        (case c of
           Some Less \<Rightarrow> search_loop n key (mid + 1) hi result
         | Some Equal \<Rightarrow> search_loop n key lo mid (Some mid)
         | Some Greater \<Rightarrow> search_loop n key lo mid result
         | None \<Rightarrow> Some (Inl mid))
      }
      else Some (case result of Some index \<Rightarrow> Inr index | None \<Rightarrow> Inl lo))"
  by pat_completeness auto

termination
  by (relation "measure (\<lambda>(n, key, lo, hi, result). hi - lo)") auto

declare child_loop.simps [simp del] search_loop.simps [simp del]

definition node_search :: "node \<Rightarrow> bytes \<Rightarrow> (nat + nat) exec" where
  "node_search n key = do {
     count \<leftarrow> node_count n;
     if count = 0 then Some (Inl 0) else search_loop n key 0 count None
   }"

definition keys_iter :: "node \<Rightarrow> bytes list exec" where
  "keys_iter n = do {
     count \<leftarrow> node_count n;
     ks \<leftarrow> map_exec (node_key n) [0..<count];
     Some (List.map_filter (\<lambda>k. k) ks)
   }"

section \<open>The entries of a page\<close>

fun cell_keys :: "bytes \<Rightarrow> (nat \<times> bytes) list \<Rightarrow> bytes list" where
  "cell_keys prev [] = []"
| "cell_keys prev ((klen, c) # cs) = cell_key prev c # cell_keys (cell_key prev c) cs"

definition node_keys :: "node \<Rightarrow> bytes list" where
  "node_keys n = cell_keys [] (slots n)"

definition bp_view :: "bytes \<Rightarrow> blob_pointer" where
  "bp_view b = \<lparr>bp_file_id = le_u32 (sub_bytes b 0 4), bp_offset = le_u64 (sub_bytes b 4 8), bp_length = le_u32 (sub_bytes b 12 4)\<rparr>"

definition cell_value :: "bytes \<Rightarrow> value_ref" where
  "cell_value c =
     (let v = 4 + cell_slen c
      in if c ! v = 0 then RInline (drop (v + 1) c)
         else if c ! v = 1 then RBlob (bp_view (sub_bytes c (v + 1) 16))
         else RTombstone)"

definition cell_child :: "bytes \<Rightarrow> u64" where
  "cell_child c = le_u64 (sub_bytes c (4 + cell_slen c) 8)"

definition leaf_entries :: "node \<Rightarrow> (bytes \<times> value_ref) list" where
  "leaf_entries n = zip (node_keys n) (map (\<lambda>(k, c). cell_value c) (slots n))"

definition child_entries :: "node \<Rightarrow> (bytes \<times> u64) list" where
  "child_entries n = zip (node_keys n) (map (\<lambda>(k, c). cell_child c) (slots n))"

definition compressed :: "node \<Rightarrow> bool" where
  "compressed n \<longleftrightarrow> (\<exists>(k, c) \<in> set (slots n). cell_plen c \<noteq> 0)"

lemma length_cell_keys [simp]: "length (cell_keys prev cs) = length cs"
  by (induction prev cs rule: cell_keys.induct) simp_all

lemma length_slots [simp]: "length (slots n) = cnt n"
  by (simp add: slots_def)

lemma length_node_keys [simp]: "length (node_keys n) = cnt n"
  by (simp add: node_keys_def)

lemma length_entries [simp]: "length (leaf_entries n) = cnt n" "length (child_entries n) = cnt n"
  by (simp_all add: leaf_entries_def child_entries_def)

lemma nth_slots: "i < cnt n \<Longrightarrow> slots n ! i = (sklen n i, cell n i)"
  by (simp add: slots_def)

lemma cell_keys_nth:
  "i < length cs \<Longrightarrow> cell_keys prev cs ! i = cell_key (if i = 0 then prev else cell_keys prev cs ! (i - 1)) (snd (cs ! i))"
proof (induction prev cs arbitrary: i rule: cell_keys.induct)
  case (1 prev)
  then show ?case by simp
next
  case (2 prev klen c cs)
  show ?case
  proof (cases i)
    case (Suc j)
    with "2.IH" [of j] "2.prems" show ?thesis by (cases j) simp_all
  qed simp
qed

lemma cells_ok_nth:
  "cells_ok t prev cs \<Longrightarrow> i < length cs \<Longrightarrow>
    cell_ok t (if i = 0 then prev else cell_keys prev cs ! (i - 1)) (fst (cs ! i)) (snd (cs ! i))"
proof (induction prev cs arbitrary: i rule: cell_keys.induct)
  case (1 prev)
  then show ?case by simp
next
  case (2 prev klen c cs)
  show ?case
  proof (cases i)
    case (Suc j)
    with "2.IH" [of j] "2.prems" show ?thesis by (cases j) simp_all
  qed (use 2 in simp)
qed

lemma cells_ok_sorted: "cells_ok t prev cs \<Longrightarrow> sorted (prev # cell_keys prev cs)"
proof (induction prev cs rule: cell_keys.induct)
  case (2 prev klen c cs)
  then have "prev \<le> cell_key prev c" "sorted (cell_key prev c # cell_keys (cell_key prev c) cs)"
    by (simp_all add: cell_ok_def)
  then show ?case by auto
qed simp

lemma node_keys_sorted: "page_wf n \<Longrightarrow> sorted (node_keys n)"
  using cells_ok_sorted by (auto simp: page_wf_def node_keys_def)

text \<open>What a well-formed page says of its \<open>i\<close>-th entry.\<close>

lemma page_wf_entry:
  assumes "page_wf n" and "i < cnt n"
  shows "cell_ok (nh_page_type (hdr n)) (if i = 0 then [] else node_keys n ! (i - 1)) (sklen n i) (cell n i)"
    and "node_keys n ! i = cell_key (if i = 0 then [] else node_keys n ! (i - 1)) (cell n i)"
    and "length n = 4096" "48 + 4 * cnt n \<le> 4096" "soff n i < eend n i" "eend n i \<le> 4096"
    and "length (cell n i) = eend n i - soff n i"
proof -
  have p: "page_phys n" and c: "cells_ok (nh_page_type (hdr n)) [] (slots n)" using assms by (simp_all add: page_wf_def)
  show "cell_ok (nh_page_type (hdr n)) (if i = 0 then [] else node_keys n ! (i - 1)) (sklen n i) (cell n i)"
    using cells_ok_nth [OF c, of i] assms(2) by (simp only: node_keys_def nth_slots length_slots fst_conv snd_conv)
  show "node_keys n ! i = cell_key (if i = 0 then [] else node_keys n ! (i - 1)) (cell n i)"
    using cell_keys_nth [of i "slots n" "[]"] assms(2) by (simp only: node_keys_def nth_slots length_slots fst_conv snd_conv)
  show "length n = 4096" "48 + 4 * cnt n \<le> 4096" using p by (simp_all add: page_phys_def)
  show "soff n i < eend n i" "eend n i \<le> 4096" "length (cell n i) = eend n i - soff n i"
    using page_phys_bounds [OF p assms(2)] by blast+
qed

section \<open>The readers on a well-formed page\<close>

lemma entry_readers:
  assumes "page_wf n" and "i < cnt n"
  shows "entry_prefix_len n i = Some (word_of_nat (cell_plen (cell n i)))"
    and "entry_suffix_len n i = Some (word_of_nat (cell_slen (cell n i)))"
    and "slot_offset n i = Some (soff n i)"
    and "4 + cell_slen (cell n i) \<le> length (cell n i)"
    and "soff n i + length (cell n i) = eend n i"
proof -
  note e = page_wf_entry [OF assms]
  show l: "4 + cell_slen (cell n i) \<le> length (cell n i)" using e(1) by (simp add: cell_ok_def)
  have i: "48 + 4 * i + 4 \<le> 4096" using assms(2) e(4) by linarith
  show "entry_prefix_len n i = Some (word_of_nat (cell_plen (cell n i)))"
    "entry_suffix_len n i = Some (word_of_nat (cell_slen (cell n i)))"
    using entry_fields_eq [OF e(3) i] l by (simp_all add: cell_plen_def cell_slen_def)
  show "slot_offset n i = Some (soff n i)" using e(3) i by (simp add: page_simps)
  show "soff n i + length (cell n i) = eend n i" using e by simp
qed

lemma unat_cell_len [simp]:
  "unat (word_of_nat (cell_plen c) :: u16) = cell_plen c" "unat (word_of_nat (cell_slen c) :: u16) = cell_slen c"
  using cell_len_less [of c] by (simp_all add: unat_of_nat)

lemma cell_suffix_slice:
  assumes "page_wf n" and "i < cnt n"
  shows "slice_range n (soff n i + 4) (soff n i + 4 + cell_slen (cell n i)) = Some (sub_bytes (cell n i) 4 (cell_slen (cell n i)))"
  using page_wf_entry(3,6) [OF assms] entry_readers(4,5) [OF assms] cell_sub [of 4 "cell_slen (cell n i)" n i]
  by (simp add: slice_sub_bytes)

lemma node_key_eq:
  assumes "page_wf n"
  shows "i < cnt n \<Longrightarrow> node_key n i = Some (Some (node_keys n ! i))"
proof (induction i rule: less_induct)
  case (less i)
  note r = entry_readers [OF assms less.prems] and e = page_wf_entry [OF assms less.prems]
  have prev: "i \<noteq> 0 \<Longrightarrow> node_key n (i - 1) = Some (Some (node_keys n ! (i - 1)))"
    using less by simp
  have plen: "cell_plen (cell n i) \<le> length (if i = 0 then [] else node_keys n ! (i - 1))"
    using e(1) by (simp add: cell_ok_def)
  have key: "node_keys n ! i = take (cell_plen (cell n i)) (if i = 0 then [] else node_keys n ! (i - 1))
      @ sub_bytes (cell n i) 4 (cell_slen (cell n i))"
    using e(2) by (simp add: cell_key_def)
  show ?case
  proof (cases "i = 0 \<or> cell_plen (cell n i) = 0")
    case True
    then show ?thesis
      using less.prems e(3) r cell_suffix_slice [OF assms less.prems] plen key
      by (subst node_key.simps) (auto simp: page_simps Let_def)
  next
    case False
    then have "slice_range (node_keys n ! (i - 1)) 0 (cell_plen (cell n i)) = Some (take (cell_plen (cell n i)) (node_keys n ! (i - 1)))"
      using plen by (simp add: slice_sub_bytes sub_bytes_def)
    then show ?thesis
      using False less.prems e(3) r cell_suffix_slice [OF assms less.prems] plen key prev
      by (subst node_key.simps) (simp add: page_simps Let_def)
  qed
qed

lemma node_key_out: "length n = 4096 \<Longrightarrow> cnt n \<le> i \<Longrightarrow> node_key n i = Some None"
  by (subst node_key.simps) (simp add: page_simps)

lemma compare_key_eq:
  assumes "page_wf n" and "i < cnt n"
  shows "compare_key n i key = Some (Some (cmp (node_keys n ! i) key))"
proof (cases "cell_plen (cell n i) = 0")
  case True
  note r = entry_readers [OF assms] and e = page_wf_entry [OF assms]
  have "node_keys n ! i = sub_bytes (cell n i) 4 (cell_slen (cell n i))"
    using e(2) True by (simp add: cell_key_def)
  moreover have "usize_checked_add (soff n i) 4 = Some (soff n i + 4)"
    "usize_checked_add (soff n i + 4) (cell_slen (cell n i)) = Some (soff n i + 4 + cell_slen (cell n i))"
    using r(4,5) e(6) by (auto simp: usize_checked_add_def)
  ultimately show ?thesis
    using True r e(3) assms(2) cell_suffix_slice [OF assms] by (simp add: compare_key_def page_simps)
next
  case False
  then show ?thesis
    using entry_readers [OF assms] page_wf_entry(3) [OF assms] assms(2) node_key_eq [OF assms]
    by (simp add: compare_key_def page_simps)
qed

lemma has_prefix_compression_eq:
  assumes "page_wf n"
  shows "has_prefix_compression n = Some (compressed n)"
proof -
  have "map_exec (entry_prefix_len n) [0..<cnt n] = Some (map (\<lambda>i. word_of_nat (cell_plen (cell n i))) [0..<cnt n])"
    using entry_readers(1) [OF assms] by (intro map_exec_eq) auto
  moreover have "(word_of_nat (cell_plen c) :: u16) = 0 \<longleftrightarrow> cell_plen c = 0" for c
    using unat_cell_len(1) [of c] by (simp only: word_unat_eq_iff unat_0)
  ultimately show ?thesis
    using page_wf_length [OF assms]
    by (auto simp: has_prefix_compression_def page_simps compressed_def slots_def list_ex_iff)
qed

lemma value_end_eq:
  assumes "page_wf n" and "i < cnt n"
  shows "value_end n i (soff n i) = Some (eend n i)"
proof -
  have fit: "48 + 4 * cnt n \<le> 4096" "length n = 4096" using page_wf_entry(3,4) [OF assms] by simp_all
  have "map_exec (slot_offset n) (filter (\<lambda>j. j \<noteq> i) [0..<cnt n]) = Some (map (soff n) (filter (\<lambda>j. j \<noteq> i) [0..<cnt n]))"
    using fit by (intro map_exec_eq) (simp add: page_simps)
  moreover have "filter (\<lambda>x. soff n i < x) (map (soff n) (filter (\<lambda>j. j \<noteq> i) [0..<cnt n])) = filter (\<lambda>x. soff n i < x) (offs n)"
    by (simp add: offs_def filter_map o_def) (metis (mono_tags, lifting) filter_cong less_irrefl)
  ultimately show ?thesis
    using fit by (simp add: value_end_def page_simps eend_def)
qed

lemma bp_from_bytes_eq: "16 \<le> length b \<Longrightarrow> bp_from_bytes b = Some (bp_view b)"
  by (simp add: bp_from_bytes_def bp_view_def page_simps)

lemma bp_view_to_bytes: "bp_view (bp_to_bytes p @ rest) = p"
  by (simp add: bp_view_def bp_to_bytes_def append_field_simps)

lemma bp_to_bytes_length [simp]: "length (bp_to_bytes p) = 16"
  by (simp add: bp_to_bytes_def)

lemma node_value_eq:
  assumes "page_wf n" and "nh_page_type (hdr n) = Leaf" and "i < cnt n"
  shows "node_value n i = Some (Some (cell_value (cell n i)))"
proof -
  note r = entry_readers [OF assms(1,3)] and e = page_wf_entry [OF assms(1,3)]
  define c where "c = cell n i"
  define q where "q = soff n i"
  have ok: "4 + cell_slen c < length c" "c ! (4 + cell_slen c) \<in> {0, 1, 2}"
    "c ! (4 + cell_slen c) = 1 \<Longrightarrow> 4 + cell_slen c + 1 + 16 \<le> length c"
    using e(1) assms(2) by (auto simp: cell_ok_def c_def)
  have end_eq: "q + length c = eend n i" using r(5) by (simp add: q_def c_def)
  have vt: "byte_at n (q + 4 + cell_slen c) = Some (c ! (4 + cell_slen c))"
    using ok(1) end_eq e(3,6) cell_nth [of "4 + cell_slen c" n i] by (simp add: page_simps q_def c_def add.assoc)
  have tail: "sub_bytes n (q + (5 + cell_slen c)) l = sub_bytes c (5 + cell_slen c) l" if "5 + cell_slen c + l \<le> length c" for l
    using that cell_sub [of "5 + cell_slen c" l n i] by (simp add: q_def c_def)
  have "slice_range n (q + 4 + cell_slen c + 1) (eend n i) = Some (drop (5 + cell_slen c) c)"
    using ok(1) end_eq e(3,6) tail [of "length c - (5 + cell_slen c)"]
    by (simp add: slice_sub_bytes end_eq [symmetric] ac_simps) (simp add: sub_bytes_def)
  moreover have "slice_range n (q + 4 + cell_slen c + 1) (q + 4 + cell_slen c + 1 + 16) = Some (sub_bytes c (5 + cell_slen c) 16)"
    "length (sub_bytes c (5 + cell_slen c) 16) = 16" if "c ! (4 + cell_slen c) = 1"
    using ok(3) [OF that] end_eq e(3,6) tail [of 16] by (simp_all add: slice_sub_bytes ac_simps)
  ultimately show ?thesis
    using assms e(3) r(2,3) vt value_end_eq [OF assms(1,3)] ok(2)
    by (auto simp: node_value_def page_simps cell_value_def Let_def bp_from_bytes_eq q_def c_def)
qed

lemma child_id_eq:
  assumes "page_wf n" and "nh_page_type (hdr n) = Internal" and "i < cnt n"
  shows "child_id n i = Some (Some (cell_child (cell n i)))"
proof -
  note r = entry_readers [OF assms(1,3)] and e = page_wf_entry [OF assms(1,3)]
  have ok: "4 + cell_slen (cell n i) + 8 \<le> length (cell n i)"
    using e(1) assms(2) by (simp add: cell_ok_def)
  then have "soff n i + 4 + cell_slen (cell n i) + 8 \<le> 4096" using r(5) e(6) by linarith
  then show ?thesis
    using assms e(3) r(2,3) ok cell_sub [of "4 + cell_slen (cell n i)" 8 n i]
    by (simp add: child_id_def page_simps cell_child_def Let_def add.assoc)
qed

lemma leaf_entries_nth: "i < cnt n \<Longrightarrow> leaf_entries n ! i = (node_keys n ! i, cell_value (cell n i))"
  by (simp add: leaf_entries_def nth_slots)

lemma child_entries_nth: "i < cnt n \<Longrightarrow> child_entries n ! i = (node_keys n ! i, cell_child (cell n i))"
  by (simp add: child_entries_def nth_slots)

lemma map_fst_entries [simp]: "map fst (leaf_entries n) = node_keys n" "map fst (child_entries n) = node_keys n"
  by (simp_all add: leaf_entries_def child_entries_def)

section \<open>Binary search\<close>

text \<open>The number of keys below, and at or below, a key.\<close>

definition lower_bound :: "bytes list \<Rightarrow> bytes \<Rightarrow> nat" where
  "lower_bound ks key = length (takeWhile (\<lambda>k. k < key) ks)"

definition upper_bound_keys :: "bytes list \<Rightarrow> bytes \<Rightarrow> nat" where
  "upper_bound_keys ks key = length (takeWhile (\<lambda>k. k \<le> key) ks)"

lemma length_takeWhile_eqI:
  assumes "p \<le> length ks" and "\<And>j. j < p \<Longrightarrow> P (ks ! j)" and "p < length ks \<Longrightarrow> \<not> P (ks ! p)"
  shows "length (takeWhile P ks) = p"
  using takeWhile_eq_take_P_nth [of p ks P] assms by simp

definition search_spec :: "bytes list \<Rightarrow> bytes \<Rightarrow> nat + nat" where
  "search_spec ks key = (let p = lower_bound ks key in if key \<in> set ks then Inr p else Inl p)"

lemma search_loop_spec:
  assumes "page_wf n" and "lo \<le> hi" and "hi \<le> cnt n"
    and "\<And>j. j < lo \<Longrightarrow> node_keys n ! j < key"
    and "\<And>j. hi \<le> j \<Longrightarrow> j < cnt n \<Longrightarrow> key \<le> node_keys n ! j"
    and "case result of Some r \<Rightarrow> r = hi \<and> r < cnt n \<and> node_keys n ! r = key
       | None \<Rightarrow> (\<forall>j. hi \<le> j \<and> j < cnt n \<longrightarrow> node_keys n ! j \<noteq> key)"
  shows "search_loop n key lo hi result = Some (search_spec (node_keys n) key)"
  using assms(2-)
proof (induction "hi - lo" arbitrary: lo hi result rule: less_induct)
  case less
  let ?ks = "node_keys n"
  show ?case
  proof (cases "lo < hi")
    case False
    then have eq: "hi = lo" using less.prems by simp
    have lb: "lower_bound ?ks key = lo"
      unfolding lower_bound_def using less.prems(2,3,4) eq by (intro length_takeWhile_eqI) (auto simp: not_less)
    have "key \<in> set ?ks \<longleftrightarrow> (\<exists>j. lo \<le> j \<and> j < cnt n \<and> ?ks ! j = key)"
      using less.prems(3) by (metis in_set_conv_nth length_node_keys less_irrefl not_less)
    then show ?thesis
      using False less.prems(5) eq lb
      by (subst search_loop.simps) (auto simp: search_spec_def split: option.splits)
  next
    case True
    define mid where "mid = lo + (hi - lo) div 2"
    have mid: "lo \<le> mid" "mid < hi" "mid < cnt n" using True less.prems by (auto simp: mid_def)
    have mono: "i \<le> j \<Longrightarrow> j < cnt n \<Longrightarrow> ?ks ! i \<le> ?ks ! j" for i j
      using node_keys_sorted [OF assms(1)] by (simp add: sorted_nth_mono)
    have unf: "search_loop n key lo hi result = (case cmp (?ks ! mid) key of
        Less \<Rightarrow> search_loop n key (mid + 1) hi result
      | Equal \<Rightarrow> search_loop n key lo mid (Some mid)
      | Greater \<Rightarrow> search_loop n key lo mid result)"
      using True compare_key_eq [OF assms(1) mid(3)]
      by (subst search_loop.simps) (auto simp: mid_def [symmetric] Let_def split: ordering.split)
    show ?thesis
    proof (cases "cmp (?ks ! mid) key")
      case Less
      then have "?ks ! j < key" if "j < mid + 1" for j
        using mono [of j mid] mid that by (simp add: le_less_trans)
      then have "search_loop n key (mid + 1) hi result = Some (search_spec ?ks key)"
        using less.prems mid by (intro less.hyps) auto
      with unf Less show ?thesis by simp
    next
      case Equal
      then have "search_loop n key lo mid (Some mid) = Some (search_spec ?ks key)"
        using less.prems mid mono by (intro less.hyps) auto
      with unf Equal show ?thesis by simp
    next
      case Greater
      then have gt: "key < ?ks ! j" if "mid \<le> j" "j < cnt n" for j
        using mono [OF that] by (simp add: less_le_trans)
      have "search_loop n key lo mid result = Some (search_spec ?ks key)"
      proof (rule less.hyps)
        have "result = None" using less.prems(5) gt [of hi] mid by (cases result) auto
        then show "case result of Some r \<Rightarrow> r = mid \<and> r < cnt n \<and> ?ks ! r = key
            | None \<Rightarrow> (\<forall>j. mid \<le> j \<and> j < cnt n \<longrightarrow> ?ks ! j \<noteq> key)"
          using gt by fastforce
      qed (use less.prems mid gt in \<open>auto intro: less_imp_le\<close>)
      with unf Greater show ?thesis by simp
    qed
  qed
qed

lemma node_search_eq:
  assumes "page_wf n"
  shows "node_search n key = Some (search_spec (node_keys n) key)"
proof (cases "cnt n = 0")
  case True
  then have "node_keys n = []" by (metis length_0_conv length_node_keys)
  then show ?thesis
    using True page_wf_length [OF assms] by (simp add: node_search_def page_simps search_spec_def lower_bound_def)
next
  case False
  have "search_loop n key 0 (cnt n) None = Some (search_spec (node_keys n) key)"
    by (rule search_loop_spec [OF assms]) auto
  with False show ?thesis
    using page_wf_length [OF assms] by (simp add: node_search_def page_simps)
qed

lemma child_loop_spec:
  assumes "page_wf n" and "lo \<le> hi" and "hi \<le> cnt n"
    and "\<And>j. j < lo \<Longrightarrow> node_keys n ! j \<le> key"
    and "\<And>j. hi \<le> j \<Longrightarrow> j < cnt n \<Longrightarrow> key < node_keys n ! j"
  shows "child_loop n key lo hi = Some (Some (upper_bound_keys (node_keys n) key))"
  using assms(2-)
proof (induction "hi - lo" arbitrary: lo hi rule: less_induct)
  case less
  let ?ks = "node_keys n"
  show ?case
  proof (cases "lo < hi")
    case False
    then have "upper_bound_keys ?ks key = lo"
      unfolding upper_bound_keys_def using less.prems by (intro length_takeWhile_eqI) (auto simp: not_le)
    with False show ?thesis by (subst child_loop.simps) simp
  next
    case True
    define mid where "mid = lo + (hi - lo) div 2"
    have mid: "lo \<le> mid" "mid < hi" "mid < cnt n" using True less.prems by (auto simp: mid_def)
    have mono: "i \<le> j \<Longrightarrow> j < cnt n \<Longrightarrow> ?ks ! i \<le> ?ks ! j" for i j
      using node_keys_sorted [OF assms(1)] by (simp add: sorted_nth_mono)
    have unf: "child_loop n key lo hi = (if key < ?ks ! mid then child_loop n key lo mid else child_loop n key (mid + 1) hi)"
      using True compare_key_eq [OF assms(1) mid(3)]
      by (subst child_loop.simps) (simp add: mid_def [symmetric] Let_def)
    show ?thesis
    proof (cases "key < ?ks ! mid")
      case True
      then have "key < ?ks ! j" if "mid \<le> j" "j < cnt n" for j
        using mono [OF that] by (simp add: less_le_trans)
      then have "child_loop n key lo mid = Some (Some (upper_bound_keys ?ks key))"
        using less.prems mid by (intro less.hyps) auto
      with unf True show ?thesis by simp
    next
      case False
      then have "?ks ! j \<le> key" if "j < mid + 1" for j
        using mono [of j mid] mid that by (simp add: not_less order_trans)
      then have "child_loop n key (mid + 1) hi = Some (Some (upper_bound_keys ?ks key))"
        using less.prems mid by (intro less.hyps) auto
      with unf False show ?thesis by simp
    qed
  qed
qed

lemma child_for_key_eq:
  assumes "page_wf n" and "nh_page_type (hdr n) = Internal"
  shows "child_for_key n key = Some (Some
    (let p = upper_bound_keys (node_keys n) key
     in if p = 0 then nh_leftmost_child (hdr n) else snd (child_entries n ! (p - 1))))"
proof -
  let ?p = "upper_bound_keys (node_keys n) key"
  have p: "?p \<le> cnt n" unfolding upper_bound_keys_def using length_takeWhile_le [of _ "node_keys n"] by simp
  have "child_loop n key 0 (cnt n) = Some (Some ?p)"
    by (rule child_loop_spec [OF assms(1)]) simp_all
  then show ?thesis
    using assms page_wf_length [OF assms(1)] p child_id_eq [OF assms, of "?p - 1"]
    by (cases "?p = 0") (simp_all add: child_for_key_def page_simps Let_def child_entries_nth)
qed

end
