(* ===== verification/Node_Layout.thy ===== *)
theory Node_Layout
  imports Node_Access
begin

text \<open>
  Placing an entry into a page. The inserting operations of \<open>src/src/btree/node/mutation.rs\<close> and
  \<open>src/src/btree/node/internal_mutation.rs\<close> share this code: find the offset below the lowest entry, write
  the entry there, shift the slots behind the insertion point by one, fill the freed slot and update the
  header. The lemmas reduce the byte movement to one statement: the list of slots gains one element at the
  insertion point, and every other entry keeps its bytes.
\<close>

datatype insert_error =
    PageFull | EntryTooLarge | WrongNodeType | InvalidIndex nat | ValueSizeMismatch nat nat | DuplicateKey nat

type_synonym 'a mutation = "((insert_error + 'a) \<times> node) exec"

definition new_entry_offset :: "node \<Rightarrow> nat \<Rightarrow> nat option exec" where
  "new_entry_offset n entry_size = do {
     count \<leftarrow> node_count n;
     if count = 0 then (if entry_size \<le> PAGE_SIZE then Some (Some (PAGE_SIZE - entry_size)) else None)
     else do {
       offsets \<leftarrow> map_exec (slot_offset n) [0..<count];
       let min_offset = min_or PAGE_SIZE offsets;
       Some (if min_offset < entry_size then None else Some (min_offset - entry_size))
     }
   }"

text \<open>The loop that shifts the slots, from the last one down to the insertion point.\<close>

definition shift_slots :: "node \<Rightarrow> nat \<Rightarrow> nat \<Rightarrow> node exec" where
  "shift_slots n insertion_point count =
     for_each (\<lambda>index m. do {
         old_offset \<leftarrow> slot_offset m index;
         old_key_len \<leftarrow> slot_key_len m index;
         m1 \<leftarrow> set_slot_offset m (index + 1) (word_of_nat old_offset);
         set_slot_key_len m1 (index + 1) old_key_len
       }) (rev [insertion_point..<count]) n"

text \<open>From the shift to the end of the function: fill the slot and update count and free space.\<close>

definition publish_slot :: "node \<Rightarrow> nat \<Rightarrow> nat \<Rightarrow> nat \<Rightarrow> u16 \<Rightarrow> node exec" where
  "publish_slot n insertion_point count entry_offset key_len = do {
     n1 \<leftarrow> shift_slots n insertion_point count;
     n2 \<leftarrow> set_slot_offset n1 insertion_point (word_of_nat entry_offset);
     n3 \<leftarrow> set_slot_key_len n2 insertion_point key_len;
     h \<leftarrow> node_hdr n3;
     let h1 = h\<lparr>nh_count := nh_count h + 1\<rparr>;
     let new_slot_array_end = slot_array_start + unat (nh_count h1) * SLOT_SIZE;
     offsets \<leftarrow> map_exec (slot_offset n3) [0..<unat (nh_count h1)];
     let min_entry = min_or PAGE_SIZE offsets;
     if min_entry < new_slot_array_end then None
     else set_header n3 (h1\<lparr>nh_free_space := word_of_nat (min_entry - new_slot_array_end)\<rparr>)
   }"

section \<open>Moving the slots\<close>

lemma write_at_prepend:
  assumes "b = a + length u" and "b + length v \<le> length d"
  shows "write_at (write_at d b v) a u = write_at d a (u @ v)"
proof (rule nth_equalityI)
  show "length (write_at (write_at d b v) a u) = length (write_at d a (u @ v))"
    using assms by (simp add: write_at_def)
next
  fix i
  assume "i < length (write_at (write_at d b v) a u)"
  then have i: "i < length d" using assms by simp
  have "i - a - length u = i - b" using assms by simp
  then show "write_at (write_at d b v) a u ! i = write_at d a (u @ v) ! i"
    using assms i by (auto simp: nth_write_at nth_append)
qed

lemma slot_bytes:
  assumes "48 + 4 * i + 4 \<le> length n"
  shows "u16_le (word_of_nat (soff n i)) @ u16_le (word_of_nat (sklen n i)) = sub_bytes n (48 + 4 * i) 4"
proof -
  have "sub_bytes n (48 + 4 * i) (2 + 2) = sub_bytes n (48 + 4 * i) 2 @ sub_bytes n (48 + 4 * i + 2) 2"
    by (rule sub_bytes_split)
  then show ?thesis
    using assms by (simp add: soff_def sklen_def u16_le_le_u16)
qed

lemma set_slot:
  assumes "48 + 4 * i + 4 \<le> length n"
  shows "do { n1 \<leftarrow> set_slot_offset n i o'; set_slot_key_len n1 i k } = Some (write_at n (48 + 4 * i) (u16_le o' @ u16_le k))"
  using assms
  by (simp add: set_slot_offset_def set_slot_key_len_def page_simps write_at_append mult.commute)

lemma shift_slots_eq:
  assumes "length n = 4096" and "ip \<le> m" and "48 + 4 * (m + 1) \<le> 4096"
  shows "shift_slots n ip m = Some (write_at n (48 + 4 * (ip + 1)) (sub_bytes n (48 + 4 * ip) (4 * (m - ip))))"
  using assms
proof (induction m arbitrary: n)
  case 0
  then show ?case by (simp add: shift_slots_def write_at_def sub_bytes_def)
next
  case (Suc m)
  show ?case
  proof (cases "ip = Suc m")
    case True
    then show ?thesis by (simp add: shift_slots_def write_at_def sub_bytes_def)
  next
    case False
    then have ip: "ip \<le> m" using Suc.prems by simp
    let ?n = "write_at n (48 + 4 * (m + 1)) (sub_bytes n (48 + 4 * m) 4)"
    have len: "length ?n = 4096" using Suc.prems by simp
    have "do { old_offset \<leftarrow> slot_offset n m; old_key_len \<leftarrow> slot_key_len n m;
        m1 \<leftarrow> set_slot_offset n (m + 1) (word_of_nat old_offset); set_slot_key_len m1 (m + 1) old_key_len } = Some ?n"
      using Suc.prems set_slot [of "m + 1" n "word_of_nat (soff n m)" "word_of_nat (sklen n m)"] slot_bytes [of m n]
      by (simp add: page_simps)
    then have "shift_slots n ip (Suc m) = shift_slots ?n ip m"
      using ip by (simp add: shift_slots_def)
    also have "\<dots> = Some (write_at ?n (48 + 4 * (ip + 1)) (sub_bytes ?n (48 + 4 * ip) (4 * (m - ip))))"
      using Suc.prems ip len by (intro Suc.IH) simp_all
    also have "sub_bytes ?n (48 + 4 * ip) (4 * (m - ip)) = sub_bytes n (48 + 4 * ip) (4 * (m - ip))"
      using Suc.prems ip by (intro sub_bytes_write_before) simp_all
    also have "write_at ?n (48 + 4 * (ip + 1)) (sub_bytes n (48 + 4 * ip) (4 * (m - ip)))
        = write_at n (48 + 4 * (ip + 1)) (sub_bytes n (48 + 4 * ip) (4 * (m - ip)) @ sub_bytes n (48 + 4 * m) 4)"
      using Suc.prems ip by (intro write_at_prepend) simp_all
    also have "sub_bytes n (48 + 4 * ip) (4 * (m - ip)) @ sub_bytes n (48 + 4 * m) 4 = sub_bytes n (48 + 4 * ip) (4 * (m - ip) + 4)"
      using ip sub_bytes_split [of n "48 + 4 * ip" "4 * (m - ip)" 4] by (simp add: algebra_simps)
    finally show ?thesis
      using ip by (simp add: Suc_diff_le add.commute)
  qed
qed

section \<open>Slots as a list\<close>

text \<open>The words of the slot array, and an entry as the bytes up to the next offset of a list.\<close>

definition slot_words :: "node \<Rightarrow> nat \<Rightarrow> (nat \<times> nat) list" where
  "slot_words n m = map (\<lambda>i. (soff n i, sklen n i)) [0..<m]"

definition next_off :: "nat list \<Rightarrow> nat \<Rightarrow> nat" where
  "next_off os x = min_or PAGE_SIZE (filter (\<lambda>y. x < y) os)"

definition segment :: "node \<Rightarrow> nat list \<Rightarrow> nat \<Rightarrow> bytes" where
  "segment n os x = sub_bytes n x (next_off os x - x)"

lemma slots_segment: "slots n = map (\<lambda>(x, k). (k, segment n (offs n) x)) (slot_words n (cnt n))"
  by (simp add: slots_def slot_words_def segment_def next_off_def cell_def eend_def)

lemma offs_words: "offs n = map fst (slot_words n (cnt n))"
  by (simp add: offs_def slot_words_def)

lemma length_slot_words [simp]: "length (slot_words n m) = m"
  by (simp add: slot_words_def)

lemma slot_word_inside:
  assumes "a \<le> 48 + 4 * i" and "48 + 4 * i + 4 \<le> a + length v" and "a + length v \<le> length n"
  shows "soff (write_at n a v) i = unat (le_u16 (sub_bytes v (48 + 4 * i - a) 2))"
    and "sklen (write_at n a v) i = unat (le_u16 (sub_bytes v (50 + 4 * i - a) 2))"
  using assms by (simp_all add: soff_def sklen_def sub_bytes_write_inside)

lemma slot_word_outside:
  assumes "a + length v \<le> length n" and "a + length v \<le> 48 + 4 * i \<or> 48 + 4 * i + 4 \<le> a"
  shows "soff (write_at n a v) i = soff n i" and "sklen (write_at n a v) i = sklen n i"
  using assms by (auto simp: soff_def sklen_def sub_bytes_write_before sub_bytes_write_after)

lemma insert_slot_words:
  assumes "length n = 4096" and "ip \<le> m" and "48 + 4 * (m + 1) \<le> 4096"
  shows "slot_words (write_at n (48 + 4 * ip) ((u16_le o' @ u16_le k) @ sub_bytes n (48 + 4 * ip) (4 * (m - ip)))) (Suc m)
    = take ip (slot_words n m) @ (unat o', unat k) # drop ip (slot_words n m)" (is "slot_words ?n _ = ?ws")
proof (rule nth_equalityI)
  show "length (slot_words ?n (Suc m)) = length ?ws" using assms by simp
next
  fix i
  assume "i < length (slot_words ?n (Suc m))"
  then have i: "i < Suc m" by simp
  have len: "length ((u16_le o' @ u16_le k) @ sub_bytes n (48 + 4 * ip) (4 * (m - ip))) = 4 + 4 * (m - ip)"
    using assms by simp
  have fit: "48 + 4 * ip + (4 + 4 * (m - ip)) \<le> length n" using assms by simp
  consider "i < ip" | "i = ip" | "ip < i" by linarith
  then have "(soff ?n i, sklen ?n i) = ?ws ! i"
  proof cases
    case 1
    then have "soff ?n i = soff n i" "sklen ?n i = sklen n i"
      using slot_word_outside [of "48 + 4 * ip" _ n i] len fit by auto
    then show ?thesis using 1 assms by (simp add: nth_append slot_words_def)
  next
    case 2
    then have "soff ?n i = unat o'" "sklen ?n i = unat k"
      using slot_word_inside [of "48 + 4 * ip" i "(u16_le o' @ u16_le k) @ sub_bytes n (48 + 4 * ip) (4 * (m - ip))" n] len fit
      by (simp_all add: append_field_simps)
    then show ?thesis using 2 assms by (simp add: nth_append)
  next
    case 3
    then obtain j where j: "i = Suc j" "ip \<le> j" "j < m" using i by (cases i) auto
    have "soff ?n i = soff n j" "sklen ?n i = sklen n j"
      using slot_word_inside [of "48 + 4 * ip" i "(u16_le o' @ u16_le k) @ sub_bytes n (48 + 4 * ip) (4 * (m - ip))" n] len fit j
      by (simp_all add: append_field_simps sub_bytes_sub_bytes soff_def sklen_def)
    then show ?thesis using j 3 by (simp add: nth_append slot_words_def Suc_diff_le)
  qed
  then show "slot_words ?n (Suc m) ! i = ?ws ! i"
    using i by (simp add: slot_words_def del: upt_Suc)
qed

section \<open>Placing an entry\<close>

lemma hdr_write_outside: "48 \<le> a \<Longrightarrow> a + length v \<le> length n \<Longrightarrow> hdr (write_at n a v) = hdr n"
  by (simp add: hdr_def nh_view_def sub_bytes_write_before)

lemma slot_words_outside:
  assumes "a + length v \<le> length n" and "a + length v \<le> 48 \<or> 48 + 4 * m \<le> a"
  shows "slot_words (write_at n a v) m = slot_words n m"
  using assms by (auto simp: slot_words_def slot_word_outside)

lemma min_off_bounds:
  assumes "page_phys n"
  shows "min_off n \<le> 4096" "48 + 4 * cnt n \<le> min_off n" "x \<in> set (offs n) \<Longrightarrow> min_off n \<le> x"
    "x \<in> set (offs n) \<Longrightarrow> x < 4096"
proof -
  have b: "48 + 4 * cnt n \<le> y \<and> y < 4096" if "y \<in> set (offs n)" for y
    using that assms by (auto simp: page_phys_def set_offs)
  show "min_off n \<le> x" if "x \<in> set (offs n)" using that by (simp add: min_off_def min_or_le)
  show "x < 4096" if "x \<in> set (offs n)" using b [OF that] by simp
  have "min_off n = 4096 \<or> min_off n \<in> set (offs n)"
    using min_or_in [of 4096 "offs n"] by (simp add: min_off_def)
  then show "min_off n \<le> 4096" "48 + 4 * cnt n \<le> min_off n"
    using b [of "min_off n"] assms by (auto simp: page_phys_def)
qed

lemma next_off_insert:
  assumes "x \<in> set os" and "\<And>y. y \<in> set os \<Longrightarrow> e < y"
  shows "next_off (take i os @ e # drop i os) x = next_off os x"
proof -
  have "filter (\<lambda>y. x < y) (take i os @ e # drop i os) = filter (\<lambda>y. x < y) (take i os @ drop i os)"
    using assms by (simp only: filter_append filter.simps) (metis less_asym)
  then show ?thesis by (simp only: next_off_def append_take_drop_id)
qed

lemma next_off_new:
  assumes "\<And>y. y \<in> set os \<Longrightarrow> e < y"
  shows "next_off (take i os @ e # drop i os) e = min_or PAGE_SIZE os"
proof -
  have "filter (\<lambda>y. e < y) (take i os @ e # drop i os) = filter (\<lambda>y. e < y) (take i os @ drop i os)"
    by (simp only: filter_append filter.simps less_irrefl if_False)
  also have "\<dots> = os" using assms by (simp add: filter_id_conv del: filter_append)
  finally show ?thesis by (simp only: next_off_def)
qed

lemma place_entry:
  assumes phys: "page_phys n" and ip: "ip \<le> cnt n" and c: "0 < length c"
    and fit: "48 + 4 * (cnt n + 2) + length c \<le> min_off n"
  defines "eo \<equiv> min_off n - length c"
  obtains n' where "publish_slot (write_at n eo c) ip (cnt n) eo k = Some n'"
    and "page_phys n'" and "cnt n' = Suc (cnt n)" and "min_off n' = eo"
    and "hdr n' = (hdr n)\<lparr>nh_count := nh_count (hdr n) + 1, nh_free_space := word_of_nat (eo - (48 + 4 * (cnt n + 1)))\<rparr>"
    and "slots n' = take ip (slots n) @ (unat k, c) # drop ip (slots n)"
    and "le_u32 (sub_bytes n' 8 4) \<in> {1, 2}"
proof -
  let ?m = "cnt n" and ?os = "offs n"
  have len: "length n = 4096" using phys by (simp add: page_phys_def)
  note mo = min_off_bounds [OF phys]
  have eo: "48 + 4 * (?m + 2) \<le> eo" "eo + length c = min_off n" "eo < 4096" unfolding eo_def using fit c mo(1) by linarith+
  have below: "eo < y" if "y \<in> set ?os" for y using mo(3) [OF that] eo c by linarith
  define n1 where "n1 = write_at n eo c"
  have n1: "length n1 = 4096" "hdr n1 = hdr n" "slot_words n1 ?m = slot_words n ?m"
    using eo len mo(1) by (simp_all add: n1_def hdr_write_outside slot_words_outside)
  define v where "v = (u16_le (word_of_nat eo) @ u16_le k) @ sub_bytes n1 (48 + 4 * ip) (4 * (?m - ip))"
  define n3 where "n3 = write_at n1 (48 + 4 * ip) v"
  have vlen: "48 + 4 * ip + length v = 48 + 4 * (?m + 1)" using ip n1(1) eo by (simp add: v_def)
  have sh: "shift_slots n1 ip ?m = Some (write_at n1 (48 + 4 * (ip + 1)) (sub_bytes n1 (48 + 4 * ip) (4 * (?m - ip))))"
    using n1 ip eo by (intro shift_slots_eq) auto
  have "do { a \<leftarrow> shift_slots n1 ip ?m; b \<leftarrow> set_slot_offset a ip (word_of_nat eo); set_slot_key_len b ip k } = Some n3"
  proof -
    have "write_at (write_at n1 (48 + 4 * (ip + 1)) (sub_bytes n1 (48 + 4 * ip) (4 * (?m - ip)))) (48 + 4 * ip)
        (u16_le (word_of_nat eo) @ u16_le k) = n3"
      unfolding n3_def v_def using n1(1) ip eo by (intro write_at_prepend) auto
    then show ?thesis
      unfolding sh bind.bind_lunit using n1(1) ip eo by (subst set_slot) auto
  qed
  then obtain a b where step: "shift_slots n1 ip ?m = Some a" "set_slot_offset a ip (word_of_nat eo) = Some b" "set_slot_key_len b ip k = Some n3"
    by (auto simp: bind_eq_Some_conv)
  have n3: "length n3 = 4096" "hdr n3 = hdr n"
    using vlen n1 eo by (simp_all add: n3_def hdr_write_outside)
  have un: "unat (word_of_nat eo :: u16) = eo" using eo by (simp add: unat_of_nat)
  let ?os' = "take ip ?os @ eo # drop ip ?os"
  have w3: "slot_words n3 (Suc ?m) = take ip (slot_words n ?m) @ (eo, unat k) # drop ip (slot_words n ?m)"
    using insert_slot_words [of n1 ip ?m "word_of_nat eo" k] n1 ip eo un by (simp add: n3_def v_def)
  have o3: "map (soff n3) [0..<Suc ?m] = ?os'"
    using arg_cong [OF w3, of "map fst"] by (simp add: slot_words_def offs_def take_map drop_map o_def del: upt_Suc)
  have mn: "min_or PAGE_SIZE ?os' = eo"
    by (rule min_or_eqI) (auto dest!: in_set_takeD in_set_dropD below intro: less_imp_le)
  have cn: "unat (nh_count (hdr n) + 1) = Suc ?m"
    using eo by (simp add: cnt_def unat_word_ariths)
  define h where "h = (hdr n)\<lparr>nh_count := nh_count (hdr n) + 1, nh_free_space := word_of_nat (eo - (48 + 4 * (?m + 1)))\<rparr>"
  define n' where "n' = write_at n3 0 (nh_to_bytes h)"
  have so: "map_exec (slot_offset n3) [0..<Suc ?m] = Some ?os'"
    unfolding o3 [symmetric] using n3(1) eo by (intro map_exec_eq) (auto simp: page_simps)
  have cn': "unat (nh_count ((hdr n)\<lparr>nh_count := nh_count (hdr n) + 1\<rparr>)) = Suc ?m" using cn by simp
  have sae: "slot_array_start + Suc ?m * SLOT_SIZE = 48 + 4 * (?m + 1)" by simp
  have ok: "\<not> eo < 48 + 4 * (?m + 1)" using eo(1) by simp
  have run: "publish_slot (write_at n eo c) ip ?m eo k = Some n'"
    unfolding n1_def [symmetric] publish_slot_def step bind.bind_lunit Let_def node_hdr_eq [OF n3(1)] n3(2) cn' so mn
      sae if_not_P [OF ok] set_header_eq [OF n3(1)] n'_def h_def
    by simp
  have hd': "hdr n' = h" "length n' = 4096" "cnt n' = Suc ?m"
    using n3(1) cn by (simp_all add: n'_def cnt_def h_def)
  have w': "slot_words n' (Suc ?m) = take ip (slot_words n ?m) @ (eo, unat k) # drop ip (slot_words n ?m)"
    using w3 slot_words_outside [of 0 "nh_to_bytes h" n3 "Suc ?m"] n3(1) by (simp add: n'_def)
  have o': "offs n' = ?os'"
    using w' hd'(3) by (simp add: offs_words take_map drop_map)
  have mo': "min_off n' = eo" using mn by (simp add: min_off_def o')
  have keep: "sub_bytes n' x l = sub_bytes n1 x l" if "48 + 4 * (?m + 1) \<le> x" for x l
    using that n3(1) n1(1) vlen eo by (simp add: n'_def n3_def sub_bytes_write_after)
  have seg: "segment n' ?os' x = segment n ?os x" if "x \<in> set ?os" for x
  proof -
    have "eo + length c \<le> x" using mo(3) [OF that] eo by simp
    moreover from this have "48 + 4 * (?m + 1) \<le> x" using eo(1) by simp
    ultimately show ?thesis
      using next_off_insert [OF that below, of ip] keep [of x] len eo mo(1)
      by (simp add: segment_def n1_def sub_bytes_write_after)
  qed
  have "next_off ?os' eo - eo = length c"
    using next_off_new [of ?os eo ip, OF below] eo(2) by (simp only: min_off_def [symmetric])
  then have segc: "segment n' ?os' eo = c"
    using keep [of eo] eo len mo(1) by (simp add: segment_def n1_def)
  have "slots n' = map (\<lambda>(x, k). (k, segment n' ?os' x)) (take ip (slot_words n ?m) @ (eo, unat k) # drop ip (slot_words n ?m))"
    using hd'(3) by (simp only: slots_segment o' w')
  also have "\<dots> = take ip (slots n) @ (unat k, c) # drop ip (slots n)"
  proof -
    have "segment n' ?os' x = segment n ?os x" if "(x, l) \<in> set (slot_words n ?m)" for x l
      using seg [of x] that by (force simp: offs_words)
    then show ?thesis
      using segc by (auto simp: slots_segment take_map drop_map dest!: in_set_takeD in_set_dropD)
  qed
  finally have sl: "slots n' = take ip (slots n) @ (unat k, c) # drop ip (slots n)" .
  have "page_phys n'"
  proof -
    have "48 + 4 * Suc ?m \<le> x \<and> x < 4096" if "x \<in> set ?os'" for x
      using that below mo eo by (fastforce dest: in_set_takeD in_set_dropD)
    then have a: "\<forall>i < cnt n'. 48 + 4 * cnt n' \<le> soff n' i \<and> soff n' i < 4096"
      using o' hd'(3) set_offs [of n'] by (metis imageI lessThan_iff)
    have "distinct ?os" using phys by (simp add: page_phys_def)
    then have d: "distinct (offs n')"
      unfolding o' using below set_take_disj_set_drop_if_distinct [of ?os ip ip]
      by (auto dest: in_set_takeD in_set_dropD)
    have "unat (nh_free_space h) = eo - (48 + 4 * (?m + 1))"
      using eo(3) by (simp add: h_def unat_of_nat)
    then show ?thesis
      using a d hd' mo' eo(1,3) by (simp add: page_phys_def)
  qed
  moreover have "le_u32 (sub_bytes n' 8 4) \<in> {1, 2}" unfolding n'_def by (rule hdr_type_raw [OF n3(1)])
  moreover have "hdr n' = (hdr n)\<lparr>nh_count := nh_count (hdr n) + 1, nh_free_space := word_of_nat (eo - (48 + 4 * (?m + 1)))\<rparr>"
    using hd'(1) by (simp add: h_def)
  ultimately show thesis using that run hd'(3) mo' sl by blast
qed

lemma new_entry_offset_eq:
  assumes "page_phys n" and "sz \<le> 4096"
  shows "new_entry_offset n sz = Some (if min_off n < sz then None else Some (min_off n - sz))"
proof -
  have n: "length n = 4096" "48 + 4 * cnt n \<le> 4096" using assms by (simp_all add: page_phys_def)
  have "map_exec (slot_offset n) [0..<cnt n] = Some (offs n)"
    unfolding offs_def using n by (intro map_exec_eq) (auto simp: page_simps)
  moreover have "cnt n = 0 \<Longrightarrow> min_off n = 4096" by (simp add: min_off_def offs_def)
  ultimately show ?thesis
    using n assms(2) by (cases "cnt n = 0") (simp_all add: new_entry_offset_def page_simps min_off_def Let_def)
qed

text \<open>The free space of a page as a number.\<close>

definition free_of :: "node \<Rightarrow> nat" where "free_of n = unat (nh_free_space (hdr n))"

lemma free_of_eq: "page_phys n \<Longrightarrow> free_of n = min_off n - (48 + 4 * cnt n)"
  by (simp add: free_of_def page_phys_def)

section \<open>Inserting a cell into a list of cells\<close>

lemma cell_keys_append:
  "cell_keys prev (xs @ ys) = cell_keys prev xs @ cell_keys (last (prev # cell_keys prev xs)) ys"
  by (induction prev xs rule: cell_keys.induct) auto

lemma cells_ok_append:
  "cells_ok t prev (xs @ ys) \<longleftrightarrow> cells_ok t prev xs \<and> cells_ok t (last (prev # cell_keys prev xs)) ys"
  by (induction prev xs rule: cell_keys.induct) auto

lemma cell_keys_rebase:
  "(ys \<noteq> [] \<Longrightarrow> cell_plen (snd (hd ys)) = 0) \<Longrightarrow> cell_keys p ys = cell_keys p' ys"
  by (cases ys) (auto simp: cell_key_def)

lemma cells_ok_rebase:
  assumes "cells_ok t p ys" and "ys \<noteq> [] \<Longrightarrow> cell_plen (snd (hd ys)) = 0"
    and "ys \<noteq> [] \<Longrightarrow> p' \<le> hd (cell_keys p ys)"
  shows "cells_ok t p' ys"
  using assms by (cases ys) (auto simp: cell_ok_def cell_key_def)

lemma cells_insert:
  assumes ok: "cells_ok t prev (xs @ ys)" and plain: "ys \<noteq> [] \<Longrightarrow> cell_plen (snd (hd ys)) = 0"
    and c: "cell_plen c = 0" "cell_ok t (last (prev # cell_keys prev xs)) l c"
    and le: "ys \<noteq> [] \<Longrightarrow> cell_key [] c \<le> hd (drop (length xs) (cell_keys prev (xs @ ys)))"
  shows "cells_ok t prev (xs @ (l, c) # ys)"
    and "cell_keys prev (xs @ (l, c) # ys) = take (length xs) (cell_keys prev (xs @ ys)) @ cell_key [] c # drop (length xs) (cell_keys prev (xs @ ys))"
proof -
  let ?q = "last (prev # cell_keys prev xs)"
  have ys: "cells_ok t ?q ys" and xs: "cells_ok t prev xs" using ok by (simp_all add: cells_ok_append)
  have key: "cell_key p c = cell_key [] c" for p using c(1) by (simp add: cell_key_def)
  have rb: "cell_keys ?q ys = cell_keys (cell_key ?q c) ys" by (rule cell_keys_rebase [OF plain])
  have "cells_ok t (cell_key ?q c) ys"
  proof (rule cells_ok_rebase [OF ys plain])
    show "cell_key ?q c \<le> hd (cell_keys ?q ys)" if "ys \<noteq> []"
      using le [OF that] by (simp only: cell_keys_append key [of ?q]) simp
  qed simp
  then show "cells_ok t prev (xs @ (l, c) # ys)"
    using xs c(2) by (simp add: cells_ok_append)
  show "cell_keys prev (xs @ (l, c) # ys) = take (length xs) (cell_keys prev (xs @ ys)) @ cell_key [] c # drop (length xs) (cell_keys prev (xs @ ys))"
    using rb key [of ?q] by (simp add: cell_keys_append)
qed

section \<open>Placing a cell keeps a page well formed\<close>

definition prev_key :: "bytes list \<Rightarrow> nat \<Rightarrow> bytes" where
  "prev_key ks i = (if i = 0 then [] else ks ! (i - 1))"

lemma last_cell_keys_take:
  assumes "ip \<le> cnt n"
  shows "last ([] # cell_keys [] (take ip (slots n))) = prev_key (node_keys n) ip"
proof -
  have "node_keys n = cell_keys [] (take ip (slots n)) @ cell_keys (last ([] # cell_keys [] (take ip (slots n)))) (drop ip (slots n))"
    using cell_keys_append [of "[]" "take ip (slots n)" "drop ip (slots n)"] by (simp add: node_keys_def)
  moreover have l: "length (cell_keys [] (take ip (slots n))) = ip" using assms by simp
  ultimately have eq: "cell_keys [] (take ip (slots n)) = take ip (node_keys n)"
    by (metis append_eq_conv_conj)
  show ?thesis
  proof (cases ip)
    case (Suc j)
    then have "take ip (node_keys n) \<noteq> []" using l eq by (metis length_0_conv nat.distinct(1))
    then have "last ([] # take ip (node_keys n)) = take ip (node_keys n) ! (ip - 1)"
      using assms by (simp add: last_conv_nth min_absorb2 del: take_eq_Nil)
    then show ?thesis unfolding eq using assms Suc by (simp add: prev_key_def)
  qed (simp add: prev_key_def)
qed

lemma place_cell:
  assumes wf: "page_wf n" and ip: "ip \<le> cnt n" and c: "0 < length c" "cell_plen c = 0"
    and fit: "length c + 8 \<le> free_of n"
    and ok: "cell_ok (nh_page_type (hdr n)) (prev_key (node_keys n) ip) (unat k) c"
    and plain: "ip < cnt n \<Longrightarrow> \<not> compressed n"
    and le: "ip < cnt n \<Longrightarrow> cell_key [] c \<le> node_keys n ! ip"
  obtains n' where "publish_slot (write_at n (min_off n - length c) c) ip (cnt n) (min_off n - length c) k = Some n'"
    and "page_wf n'" and "free_of n' = free_of n - (length c + 4)"
    and "hdr n' = (hdr n)\<lparr>nh_count := nh_count (hdr n) + 1, nh_free_space := nh_free_space (hdr n')\<rparr>"
    and "slots n' = take ip (slots n) @ (unat k, c) # drop ip (slots n)"
    and "node_keys n' = take ip (node_keys n) @ cell_key [] c # drop ip (node_keys n)"
    and "compressed n' = compressed n" and "le_u32 (sub_bytes n' 8 4) \<in> {1, 2}"
proof -
  have phys: "page_phys n" using wf by (simp add: page_wf_def)
  have fit': "48 + 4 * (cnt n + 2) + length c \<le> min_off n" using fit by (simp add: free_of_eq [OF phys])
  obtain n' where pub: "publish_slot (write_at n (min_off n - length c) c) ip (cnt n) (min_off n - length c) k = Some n'"
    and phys': "page_phys n'" and cn: "cnt n' = Suc (cnt n)" and mo: "min_off n' = min_off n - length c"
    and h: "hdr n' = (hdr n)\<lparr>nh_count := nh_count (hdr n) + 1,
        nh_free_space := word_of_nat (min_off n - length c - (48 + 4 * (cnt n + 1)))\<rparr>"
    and sl: "slots n' = take ip (slots n) @ (unat k, c) # drop ip (slots n)" and raw: "le_u32 (sub_bytes n' 8 4) \<in> {1, 2}"
    using place_entry [OF phys ip c(1) fit', of k] by blast
  have okn: "cells_ok (nh_page_type (hdr n)) [] (take ip (slots n) @ drop ip (slots n))" using wf by (simp add: page_wf_def)
  have hd: "cell_plen (snd (hd (drop ip (slots n)))) = 0" if "drop ip (slots n) \<noteq> []"
  proof -
    have "ip < cnt n" using that by simp
    moreover from this have "hd (drop ip (slots n)) \<in> set (slots n)" by (simp add: hd_drop_conv_nth)
    ultimately show ?thesis using plain by (force simp: compressed_def)
  qed
  have tl: "drop ip (slots n) \<noteq> [] \<Longrightarrow> cell_key [] c \<le> hd (drop (length (take ip (slots n))) (cell_keys [] (take ip (slots n) @ drop ip (slots n))))"
    using le ip by (simp add: hd_drop_conv_nth node_keys_def [symmetric] min_absorb2)
  have okc: "cell_ok (nh_page_type (hdr n)) (last ([] # cell_keys [] (take ip (slots n)))) (unat k) c"
    using ok last_cell_keys_take [OF ip] by simp
  note ins = cells_insert [OF okn hd c(2) okc tl]
  have "page_wf n'" using phys' ins(1) sl h by (simp add: page_wf_def)
  moreover have "node_keys n' = take ip (node_keys n) @ cell_key [] c # drop ip (node_keys n)"
    using ins(2) ip by (simp add: node_keys_def sl min_absorb2)
  moreover have "compressed n' = compressed n"
    using c(2) by (auto simp: compressed_def sl dest: in_set_takeD in_set_dropD)
      (metis Un_iff append_take_drop_id set_append case_prodI)
  moreover have "free_of n' = free_of n - (length c + 4)"
    using free_of_eq [OF phys'] free_of_eq [OF phys] mo cn by simp
  moreover have "hdr n' = (hdr n)\<lparr>nh_count := nh_count (hdr n) + 1, nh_free_space := nh_free_space (hdr n')\<rparr>"
    by (subst (1 2) h) simp
  ultimately show thesis using that pub sl raw by blast
qed

end
