(* ===== verification/Node_Entries.thy ===== *)
theory Node_Entries
  imports Node_Layout
begin

text \<open>
  What leaf pages and internal pages share: both hold a sorted list of keyed entries, both place one entry at
  a chosen position, and both rebuild a page by appending entries to a blank one. The interface is stated
  once; the lemmas below hold for every kind of entry that keeps it.
\<close>

section \<open>Lists of entries\<close>

definition insert_nth :: "nat \<Rightarrow> 'a \<Rightarrow> 'a list \<Rightarrow> 'a list" where
  "insert_nth i x xs = take i xs @ x # drop i xs"

definition remove_nth :: "nat \<Rightarrow> 'a list \<Rightarrow> 'a list" where
  "remove_nth i xs = take i xs @ drop (Suc i) xs"

lemma zip_insert_nth:
  "length xs = length ys \<Longrightarrow> i \<le> length xs \<Longrightarrow> zip (insert_nth i x xs) (insert_nth i y ys) = insert_nth i (x, y) (zip xs ys)"
  by (simp add: insert_nth_def zip_append take_zip drop_zip)

lemma map_insert_nth: "map f (insert_nth i x xs) = insert_nth i (f x) (map f xs)"
  by (simp add: insert_nth_def take_map drop_map)

lemma insert_nth_end [simp]: "i = length xs \<Longrightarrow> insert_nth i x xs = xs @ [x]"
  by (simp add: insert_nth_def)

lemma set_insert_nth [simp]: "set (insert_nth i x xs) = insert x (set xs)"
proof -
  have "set (take i xs) \<union> set (drop i xs) = set xs" by (metis append_take_drop_id set_append)
  then show ?thesis by (auto simp: insert_nth_def)
qed

lemma sorted_insert_nth:
  assumes "sorted ks" and "ip \<le> length ks" and "prev_key ks ip \<le> key" and "ip < length ks \<Longrightarrow> key \<le> ks ! ip"
  shows "sorted (insert_nth ip key ks)"
proof -
  have "\<forall>x \<in> set (take ip ks). x \<le> key"
  proof
    fix x assume "x \<in> set (take ip ks)"
    then obtain j where "j < ip" "x = ks ! j" using assms(2) by (auto simp: in_set_conv_nth)
    moreover from this have "ks ! j \<le> ks ! (ip - 1)"
      using sorted_nth_mono [OF assms(1), of j "ip - 1"] assms(2) by simp
    ultimately show "x \<le> key"
      using assms(3) by (auto simp: prev_key_def intro: order_trans)
  qed
  moreover have "\<forall>x \<in> set (drop ip ks). key \<le> x"
  proof
    fix x assume "x \<in> set (drop ip ks)"
    then obtain j where "j < length ks - ip" "x = ks ! (ip + j)" by (auto simp: in_set_conv_nth)
    moreover from this have "ks ! ip \<le> x" "ip < length ks"
      using sorted_nth_mono [OF assms(1), of ip "ip + j"] by simp_all
    ultimately show "key \<le> x"
      using assms(4) by (auto intro: order_trans)
  qed
  moreover have "\<forall>x \<in> set (take ip ks). \<forall>y \<in> set (drop ip ks). x \<le> y"
    using assms(1) by (metis append_take_drop_id sorted_append)
  moreover have "sorted (take ip ks)" "sorted (drop ip ks)" using assms(1) by (simp_all add: sorted_wrt_take sorted_wrt_drop)
  ultimately show ?thesis by (auto simp: insert_nth_def sorted_append)
qed

section \<open>Pages\<close>

lemma free_of_le: "page_wf n \<Longrightarrow> free_of n \<le> 4048"
  using min_off_bounds(1) [of n] free_of_eq [of n] by (simp add: page_wf_def)

lemma prev_key_last: "page_wf n \<Longrightarrow> prev_key (node_keys n) (cnt n) = (if node_keys n = [] then [] else last (node_keys n))"
  by (cases "node_keys n = []") (auto simp: prev_key_def last_conv_nth length_0_conv [symmetric] simp del: length_0_conv)

lemma prev_key_le:
  assumes "page_wf n" and "\<And>k. k \<in> set (node_keys n) \<Longrightarrow> k \<le> key"
  shows "prev_key (node_keys n) (cnt n) \<le> key"
  using assms prev_key_last [OF assms(1)] by simp

text \<open>A page that keeps the place of \<open>n\<close> in the tree: its kind, its parent and, for an internal page, its
  leftmost child.\<close>

definition same_place :: "node \<Rightarrow> node \<Rightarrow> bool" where
  "same_place n n' \<longleftrightarrow> nh_page_type (hdr n') = nh_page_type (hdr n) \<and> nh_parent_id (hdr n') = nh_parent_id (hdr n)
     \<and> (nh_page_type (hdr n) = Internal \<longrightarrow> nh_leftmost_child (hdr n') = nh_leftmost_child (hdr n))"

lemma same_place_refl [simp]: "same_place n n"
  by (simp add: same_place_def)

lemma same_place_trans: "same_place n n1 \<Longrightarrow> same_place n1 n2 \<Longrightarrow> same_place n n2"
  by (simp add: same_place_def)

text \<open>What a successful insertion does to a page, and a page that has taken the place of another. Four
  bytes always stay free.\<close>

definition entry_inserted :: "(node \<Rightarrow> (bytes \<times> 'v) list) \<Rightarrow> node \<Rightarrow> node \<Rightarrow> nat \<Rightarrow> bytes \<times> 'v \<Rightarrow> nat \<Rightarrow> bool" where
  "entry_inserted view n n' ip e sz \<longleftrightarrow>
     page_wf n' \<and> same_place n n' \<and> view n' = insert_nth ip e (view n) \<and> free_of n' = free_of n - (sz + 4)
     \<and> compressed n' = compressed n \<and> (page_valid n \<longrightarrow> page_valid n')"

definition page_after :: "(node \<Rightarrow> (bytes \<times> 'v) list) \<Rightarrow> node \<Rightarrow> node \<Rightarrow> (bytes \<times> 'v) list \<Rightarrow> bool" where
  "page_after view n n' es \<longleftrightarrow>
     page_wf n' \<and> same_place n n' \<and> view n' = es \<and> (compressed n' \<longrightarrow> compressed n) \<and> (page_valid n \<longrightarrow> page_valid n')
     \<and> 4 \<le> free_of n'"

text \<open>A blank page that stands in for \<open>n\<close> while it is rebuilt.\<close>

definition blank_for :: "node \<Rightarrow> node \<Rightarrow> bool" where
  "blank_for n rep \<longleftrightarrow> page_valid rep \<and> same_place n rep \<and> cnt rep = 0 \<and> free_of rep = 4048"

lemma blank_plain: "blank_for n rep \<Longrightarrow> \<not> compressed rep \<and> page_wf rep \<and> node_keys rep = []"
  using length_slots [of rep] length_node_keys [of rep] by (auto simp: blank_for_def compressed_def page_valid_def simp del: length_slots length_node_keys)

section \<open>Placing and appending entries\<close>

locale entry_pages =
  fixes kind :: page_type
    and raw :: "node \<Rightarrow> 'e \<Rightarrow> nat \<Rightarrow> unit mutation"
    and append :: "node \<Rightarrow> 'e list \<Rightarrow> unit mutation"
    and view :: "node \<Rightarrow> (bytes \<times> 'v) list"
    and entry :: "'e \<Rightarrow> bytes \<times> 'v"
    and esize :: "'e \<Rightarrow> nat"
    and ok :: "'e \<Rightarrow> bool"
  assumes append_Nil: "append n [] = Some (Inr (), n)"
    and append_Cons: "append n (e # es) = do {
        at \<leftarrow> node_count n;
        (r, n') \<leftarrow> raw n e at;
        (case r of Inl x \<Rightarrow> Some (Inl x, n') | Inr _ \<Rightarrow> append n' es) }"
    and view_keys: "map fst (view n) = node_keys n"
    and raw_spec: "page_wf n \<Longrightarrow> nh_page_type (hdr n) = kind \<Longrightarrow> ip \<le> cnt n \<Longrightarrow> ok e \<Longrightarrow>
        prev_key (node_keys n) ip \<le> fst (entry e) \<Longrightarrow> (ip < cnt n \<Longrightarrow> fst (entry e) \<le> node_keys n ! ip) \<Longrightarrow>
        (ip < cnt n \<Longrightarrow> \<not> compressed n) \<Longrightarrow>
        if esize e > 4044 then raw n e ip = Some (Inl EntryTooLarge, n)
        else if free_of n < esize e + 8 then raw n e ip = Some (Inl PageFull, n)
        else \<exists>n'. raw n e ip = Some (Inr (), n') \<and> entry_inserted view n n' ip (entry e) (esize e)"
begin

definition need :: "'e list \<Rightarrow> nat" where
  "need es = sum_list (map (\<lambda>e. esize e + 4) es)"

lemma need_simps [simp]: "need [] = 0" "need (e # es) = esize e + 4 + need es"
  by (simp_all add: need_def)

lemma length_view: "length (view n) = cnt n"
  using arg_cong [OF view_keys, of length n] by simp

definition appended :: "node \<Rightarrow> node \<Rightarrow> 'e list \<Rightarrow> bool" where
  "appended n n' es \<longleftrightarrow> page_wf n' \<and> same_place n n' \<and> view n' = view n @ map entry es \<and> free_of n' + need es = free_of n
     \<and> compressed n' = compressed n \<and> (page_valid n \<longrightarrow> page_valid n')"

lemma append_spec:
  assumes "page_wf n" and "nh_page_type (hdr n) = kind" and "sorted (node_keys n @ map (fst \<circ> entry) es)" and "list_all ok es"
  shows "if es = [] \<or> need es + 4 \<le> free_of n then \<exists>n'. append n es = Some (Inr (), n') \<and> appended n n' es
    else \<exists>x n'. append n es = Some (Inl x, n')"
  using assms
proof (induction es arbitrary: n)
  case Nil
  then show ?case by (simp add: append_Nil appended_def)
next
  case (Cons e es)
  note wf = Cons.prems(1) and knd = Cons.prems(2)
  have ge: "prev_key (node_keys n) (cnt n) \<le> fst (entry e)"
    using Cons.prems(3) by (intro prev_key_le [OF wf]) (auto simp: sorted_append)
  have cnt: "node_count n = Some (cnt n)" using wf by (simp add: page_simps)
  have raw: "if esize e > 4044 then raw n e (cnt n) = Some (Inl EntryTooLarge, n)
        else if free_of n < esize e + 8 then raw n e (cnt n) = Some (Inl PageFull, n)
        else \<exists>n'. raw n e (cnt n) = Some (Inr (), n') \<and> entry_inserted view n n' (cnt n) (entry e) (esize e)"
    using Cons.prems(4) by (intro raw_spec [OF wf knd order_refl _ ge]) simp_all
  show ?case
  proof (cases "esize e + 8 \<le> free_of n")
    case False
    then obtain x where "raw n e (cnt n) = Some (Inl x, n)" using raw by (auto split: if_splits)
    then show ?thesis using False cnt by (simp add: append_Cons)
  next
    case True
    then have "\<not> esize e > 4044" using free_of_le [OF wf] by linarith
    with True raw obtain n1 where n1: "raw n e (cnt n) = Some (Inr (), n1)"
      and ins: "entry_inserted view n n1 (cnt n) (entry e) (esize e)"
      by (auto split: if_splits)
    have e1: "view n1 = view n @ [entry e]" using ins by (simp add: entry_inserted_def length_view)
    then have k1: "node_keys n1 = node_keys n @ [fst (entry e)]" using view_keys [of n1] view_keys [of n] by simp
    have wf1: "page_wf n1" "nh_page_type (hdr n1) = kind" using ins knd by (simp_all add: entry_inserted_def same_place_def)
    have "sorted (node_keys n1 @ map (fst \<circ> entry) es)" using Cons.prems(3) by (simp add: k1 o_def)
    from Cons.IH [OF wf1 this] Cons.prems(4)
    have ih: "if es = [] \<or> need es + 4 \<le> free_of n1 then \<exists>n'. append n1 es = Some (Inr (), n') \<and> appended n1 n' es
      else \<exists>x n'. append n1 es = Some (Inl x, n')" by simp
    have f1: "free_of n1 = free_of n - (esize e + 4)" using ins by (simp add: entry_inserted_def)
    have cond: "(es = [] \<or> need es + 4 \<le> free_of n1) \<longleftrightarrow> need (e # es) + 4 \<le> free_of n"
      using True f1 by (cases es) auto
    have step: "append n (e # es) = append n1 es" using n1 cnt by (simp add: append_Cons)
    have "appended n n' (e # es)" if "appended n1 n' es" for n'
    proof -
      have "free_of n' + need es = free_of n - (esize e + 4)" using that f1 by (simp add: appended_def)
      then have "free_of n' + need (e # es) = free_of n" using True by simp
      then show ?thesis
        using that ins e1 same_place_trans [of n n1 n'] by (auto simp: appended_def entry_inserted_def)
    qed
    then show ?thesis using ih cond step by (auto split: if_splits)
  qed
qed

text \<open>Appending to a blank page.\<close>

lemma append_blank:
  assumes "blank_for n rep" and "nh_page_type (hdr n) = kind" and "sorted (map (fst \<circ> entry) es)" and "list_all ok es"
  shows "if es = [] \<or> need es + 4 \<le> 4048
    then \<exists>n'. append rep es = Some (Inr (), n') \<and> page_after view n n' (map entry es) \<and> \<not> compressed n'
      \<and> page_valid n' \<and> free_of n' + need es = 4048
    else \<exists>x n'. append rep es = Some (Inl x, n')"
proof -
  note b = blank_plain [OF assms(1)] and d = assms(1) [unfolded blank_for_def]
  have v: "view rep = []" using length_view [of rep] d by simp
  have knd: "nh_page_type (hdr rep) = kind" using d assms(2) by (simp add: same_place_def)
  have spec: "if es = [] \<or> need es + 4 \<le> free_of rep then \<exists>n'. append rep es = Some (Inr (), n') \<and> appended rep n' es
    else \<exists>x n'. append rep es = Some (Inl x, n')"
    using assms b knd by (intro append_spec) simp_all
  have "page_after view n n' (map entry es) \<and> \<not> compressed n' \<and> page_valid n' \<and> free_of n' + need es = 4048"
    if "appended rep n' es" "es = [] \<or> need es + 4 \<le> 4048" for n'
    using that b d v same_place_trans [of n rep n'] by (cases "es = []") (auto simp: appended_def page_after_def)
  with spec d show ?thesis by (auto split: if_splits)
qed

end

section \<open>Inserting with a rebuild\<close>

locale entry_insertion = entry_pages +
  fixes ins :: "node \<Rightarrow> 'a \<Rightarrow> nat \<Rightarrow> unit mutation"
    and own :: "bytes \<times> 'b \<Rightarrow> 'a"
  assumes own_entry: "entry (own x) = x" and own_ok: "ok (own x)"
    and ins_eq: "page_wf n \<Longrightarrow> nh_page_type (hdr n) = kind \<Longrightarrow> ip \<le> cnt n \<Longrightarrow>
        \<exists>rep. blank_for n rep \<and> ins n e ip =
          (if ip < cnt n \<and> compressed n then do {
             (r, n') \<leftarrow> append rep (insert_nth ip e (map own (view n)));
             (case r of Inl x \<Rightarrow> Some (Inl x, n) | Inr _ \<Rightarrow> Some (Inr (), n')) }
           else raw n e ip)"
begin

lemma ins_spec:
  assumes wf: "page_wf n" and knd: "nh_page_type (hdr n) = kind" and ip: "ip \<le> cnt n" and e: "ok e"
    and ge: "prev_key (node_keys n) ip \<le> fst (entry e)" and le: "ip < cnt n \<Longrightarrow> fst (entry e) \<le> node_keys n ! ip"
  shows "(\<exists>x. ins n e ip = Some (Inl x, n))
      \<or> (\<exists>n'. ins n e ip = Some (Inr (), n') \<and> page_after view n n' (insert_nth ip (entry e) (view n)))" (is "?E \<or> ?S")
    and "\<not> compressed n \<Longrightarrow> esize e + 8 \<le> free_of n \<Longrightarrow>
      \<exists>n'. ins n e ip = Some (Inr (), n') \<and> page_after view n n' (insert_nth ip (entry e) (view n))
        \<and> free_of n' = free_of n - (esize e + 4) \<and> \<not> compressed n'"
    and "\<not> compressed n \<Longrightarrow> free_of n < esize e + 8 \<Longrightarrow> \<exists>x \<in> {PageFull, EntryTooLarge}. ins n e ip = Some (Inl x, n)"
proof -
  obtain rep where rep: "blank_for n rep" and eq: "ins n e ip =
      (if ip < cnt n \<and> compressed n then do {
         (r, n') \<leftarrow> append rep (insert_nth ip e (map own (view n)));
         (case r of Inl x \<Rightarrow> Some (Inl x, n) | Inr _ \<Rightarrow> Some (Inr (), n')) }
       else raw n e ip)"
    using ins_eq [OF wf knd ip] by blast
  have after: "page_after view n n' (insert_nth ip (entry e) (view n))"
    if "entry_inserted view n n' ip (entry e) (esize e)" "\<not> free_of n < esize e + 8" for n'
    using that by (auto simp: entry_inserted_def page_after_def)
  have plain: "if esize e > 4044 then ins n e ip = Some (Inl EntryTooLarge, n)
    else if free_of n < esize e + 8 then ins n e ip = Some (Inl PageFull, n)
    else \<exists>n'. ins n e ip = Some (Inr (), n') \<and> page_after view n n' (insert_nth ip (entry e) (view n))
        \<and> free_of n' = free_of n - (esize e + 4) \<and> compressed n' = compressed n"
    if p: "ip < cnt n \<Longrightarrow> \<not> compressed n"
  proof -
    have "ins n e ip = raw n e ip" using eq p by auto
    then show ?thesis
      using raw_spec [OF wf knd ip e ge le p] after by (auto simp: entry_inserted_def split: if_splits)
  qed
  show "?E \<or> ?S"
  proof (cases "ip < cnt n \<and> compressed n")
    case False
    then show ?thesis using plain by (auto split: if_splits)
  next
    case True
    let ?es = "insert_nth ip e (map own (view n))"
    have ks: "map (fst \<circ> entry) ?es = insert_nth ip (fst (entry e)) (node_keys n)"
      by (simp add: map_insert_nth own_entry o_def flip: view_keys)
    have es: "map entry ?es = insert_nth ip (entry e) (view n)" by (simp add: map_insert_nth own_entry o_def)
    have srt: "sorted (map (fst \<circ> entry) ?es)"
      unfolding ks using node_keys_sorted [OF wf] ip ge le by (intro sorted_insert_nth) simp_all
    have "list_all ok ?es" using e own_ok by (auto simp: list_all_iff)
    from append_blank [OF rep knd srt this]
    obtain res n' where run: "append rep ?es = Some (res, n')" and okr: "res = Inr () \<Longrightarrow> page_after view n n' (map entry ?es)"
      by (auto split: if_splits)
    have "ins n e ip = Some (case res of Inl x \<Rightarrow> (Inl x, n) | Inr _ \<Rightarrow> (Inr (), n'))"
      using True eq run by (cases res) simp_all
    then show ?thesis using okr unfolding es by (cases res) auto
  qed
  show "\<exists>n'. ins n e ip = Some (Inr (), n') \<and> page_after view n n' (insert_nth ip (entry e) (view n))
      \<and> free_of n' = free_of n - (esize e + 4) \<and> \<not> compressed n'"
    if "\<not> compressed n" "esize e + 8 \<le> free_of n"
    using plain that free_of_le [OF wf] by (auto split: if_splits)
  show "\<exists>x \<in> {PageFull, EntryTooLarge}. ins n e ip = Some (Inl x, n)"
    if "\<not> compressed n" "free_of n < esize e + 8"
    using plain that by (auto split: if_splits)
qed

end

end
