(* ===== verification/Node_Mutation.thy ===== *)
theory Node_Mutation
  imports Node_Entries
begin

text \<open>
  Leaf mutation: \<open>src/src/btree/node/mutation.rs\<close>. A method with \<open>&mut self\<close> returns its result together
  with the node it leaves behind, so that what an error leaves is part of the model. The specification of
  a leaf is its list of entries; the lemmas give each operation as a function on that list.
\<close>

section \<open>The operations\<close>

definition insert_leaf_value_raw :: "node \<Rightarrow> bytes \<Rightarrow> value_type \<Rightarrow> bytes \<Rightarrow> nat \<Rightarrow> unit mutation" where
  "insert_leaf_value_raw n key vt val insertion_point = do {
     leaf \<leftarrow> node_is_leaf n;
     if \<not> leaf then Some (Inl WrongNodeType, n)
     else do {
       let entry_size = 4 + length key + 1 + length val;
       if entry_size > PAGE_SIZE - HEADER_SIZE - SLOT_SIZE then Some (Inl EntryTooLarge, n)
       else do {
         count \<leftarrow> node_count n;
         let slot_array_end = slot_array_start + (count + 1) * SLOT_SIZE;
         offset \<leftarrow> new_entry_offset n entry_size;
         (case offset of
            None \<Rightarrow> Some (Inl PageFull, n)
          | Some entry_offset \<Rightarrow>
              if slot_array_end + SLOT_SIZE > entry_offset then Some (Inl PageFull, n)
              else do {
                n1 \<leftarrow> copy_from_slice n entry_offset (u16_le 0);
                n2 \<leftarrow> copy_from_slice n1 (entry_offset + 2) (u16_le (word_of_nat (length key)));
                n3 \<leftarrow> copy_from_slice n2 (entry_offset + 2 + 2) key;
                n4 \<leftarrow> copy_from_slice n3 (entry_offset + 2 + 2 + length key) [value_type_code vt];
                n5 \<leftarrow> copy_from_slice n4 (entry_offset + 2 + 2 + length key + 1) val;
                n6 \<leftarrow> publish_slot n5 insertion_point count entry_offset (word_of_nat (length key));
                Some (Inr (), n6)
              })
       }
     }
   }"

text \<open>The owned form of a value, as the rebuilding loops collect it.\<close>

fun owned_value :: "value_ref \<Rightarrow> value_type \<times> bytes" where
  "owned_value (RInline data) = (VInline, data)"
| "owned_value (RBlob pointer) = (VBlobPointer, bp_to_bytes pointer)"
| "owned_value RTombstone = (VTombstone, [])"

fun read_leaf_entries :: "node \<Rightarrow> nat list \<Rightarrow> (insert_error + (bytes \<times> value_type \<times> bytes) list) exec" where
  "read_leaf_entries n [] = Some (Inr [])"
| "read_leaf_entries n (index # rest) =
     try_result (ok_or WrongNodeType (node_key n index)) (\<lambda>entry_key.
     try_result (ok_or WrongNodeType (node_value n index)) (\<lambda>entry_value.
     try_result (read_leaf_entries n rest) (\<lambda>entries.
       Some (Inr ((entry_key, owned_value entry_value) # entries)))))"

fun append_leaf_entries :: "node \<Rightarrow> (bytes \<times> value_type \<times> bytes) list \<Rightarrow> unit mutation" where
  "append_leaf_entries replacement [] = Some (Inr (), replacement)"
| "append_leaf_entries replacement ((key, vt, val) # rest) = do {
     append_at \<leftarrow> node_count replacement;
     (r, replacement') \<leftarrow> insert_leaf_value_raw replacement key vt val append_at;
     (case r of Inl e \<Rightarrow> Some (Inl e, replacement') | Inr _ \<Rightarrow> append_leaf_entries replacement' rest)
   }"

definition insert_leaf_value :: "node \<Rightarrow> bytes \<Rightarrow> value_type \<Rightarrow> bytes \<Rightarrow> nat \<Rightarrow> unit mutation" where
  "insert_leaf_value n key vt val insertion_point = do {
     leaf \<leftarrow> node_is_leaf n;
     count \<leftarrow> node_count n;
     if \<not> leaf \<or> insertion_point > count then Some (Inl WrongNodeType, n)
     else do {
       prefix \<leftarrow> (if insertion_point < count then has_prefix_compression n else Some False);
       if prefix then do {
         parent_id \<leftarrow> node_parent_id n;
         r \<leftarrow> read_leaf_entries n [0..<count];
         (case r of
            Inl e \<Rightarrow> Some (Inl e, n)
          | Inr entries \<Rightarrow> do {
              let entries = take insertion_point entries @ (key, vt, val) # drop insertion_point entries;
              fresh \<leftarrow> new_leaf;
              replacement \<leftarrow> set_parent_id fresh parent_id;
              (r, replacement') \<leftarrow> append_leaf_entries replacement entries;
              (case r of Inl e \<Rightarrow> Some (Inl e, n) | Inr _ \<Rightarrow> Some (Inr (), replacement'))
            })
       }
       else insert_leaf_value_raw n key vt val insertion_point
     }
   }"

definition node_insert :: "node \<Rightarrow> bytes \<Rightarrow> bytes \<Rightarrow> unit mutation" where
  "node_insert n key val = do {
     leaf \<leftarrow> node_is_leaf n;
     if \<not> leaf then Some (Inl WrongNodeType, n)
     else do {
       s \<leftarrow> node_search n key;
       (case s of
          Inr index \<Rightarrow> Some (Inl (DuplicateKey index), n)
        | Inl insertion_point \<Rightarrow> insert_leaf_value n key VInline val insertion_point)
     }
   }"

definition insert_blob :: "node \<Rightarrow> bytes \<Rightarrow> blob_pointer \<Rightarrow> unit mutation" where
  "insert_blob n key pointer = do {
     leaf \<leftarrow> node_is_leaf n;
     if \<not> leaf then Some (Inl WrongNodeType, n)
     else do {
       s \<leftarrow> node_search n key;
       (case s of
          Inr index \<Rightarrow> Some (Inl (DuplicateKey index), n)
        | Inl insertion_point \<Rightarrow> insert_leaf_value n key VBlobPointer (bp_to_bytes pointer) insertion_point)
     }
   }"

text \<open>The loop of \<open>upper_bound\<close>.\<close>

function upper_loop :: "node \<Rightarrow> bytes \<Rightarrow> nat \<Rightarrow> nat exec" where
  "upper_loop n key index = do {
     count \<leftarrow> node_count n;
     if index < count then do {
       k \<leftarrow> node_key n index;
       if k = Some key then upper_loop n key (index + 1) else Some index
     }
     else Some index
   }"
  by pat_completeness auto

termination
  by (relation "measure (\<lambda>(n, key, index). the (node_count n) - index)") auto

declare upper_loop.simps [simp del]

definition upper_bound :: "node \<Rightarrow> bytes \<Rightarrow> nat exec" where
  "upper_bound n key = do {
     s \<leftarrow> node_search n key;
     upper_loop n key (case s of Inr index \<Rightarrow> index | Inl index \<Rightarrow> index)
   }"

definition replace_value :: "node \<Rightarrow> nat \<Rightarrow> bytes \<Rightarrow> unit mutation" where
  "replace_value n index new_value = do {
     leaf \<leftarrow> node_is_leaf n;
     count \<leftarrow> node_count n;
     if \<not> leaf then Some (Inl WrongNodeType, n)
     else if index \<ge> count then Some (Inl (InvalidIndex index), n)
     else do {
       entry_off \<leftarrow> slot_offset n index;
       s \<leftarrow> entry_suffix_len n index;
       let vt_off = entry_off + 4 + unat s;
       let val_start = vt_off + 1;
       old_value_type \<leftarrow> byte_at n vt_off;
       if old_value_type \<noteq> value_type_code VInline then Some (Inl WrongNodeType, n)
       else do {
         val_end \<leftarrow> value_end n index entry_off;
         if val_end < val_start then Some (Inl WrongNodeType, n)
         else do {
           let old_size = val_end - val_start;
           if length new_value \<noteq> old_size then Some (Inl (ValueSizeMismatch old_size (length new_value)), n)
           else do {
             n1 \<leftarrow> copy_from_slice n val_start new_value;
             n2 \<leftarrow> copy_from_slice n1 vt_off [value_type_code VInline];
             Some (Inr (), n2)
           }
         }
       }
     }
   }"

text \<open>The rebuilding loop of \<open>remove_entry\<close>, which looks up where each entry goes.\<close>

fun rebuild_leaf_entries :: "node \<Rightarrow> (bytes \<times> value_type \<times> bytes) list \<Rightarrow> unit mutation" where
  "rebuild_leaf_entries replacement [] = Some (Inr (), replacement)"
| "rebuild_leaf_entries replacement ((key, vt, val) # rest) = do {
     insertion_point \<leftarrow> upper_bound replacement key;
     (r, replacement') \<leftarrow> insert_leaf_value replacement key vt val insertion_point;
     (case r of Inl e \<Rightarrow> Some (Inl e, replacement') | Inr _ \<Rightarrow> rebuild_leaf_entries replacement' rest)
   }"

definition remove_entry :: "node \<Rightarrow> nat \<Rightarrow> unit mutation" where
  "remove_entry n index = do {
     leaf \<leftarrow> node_is_leaf n;
     count \<leftarrow> node_count n;
     if \<not> leaf \<or> index \<ge> count then Some (Inl WrongNodeType, n)
     else do {
       parent_id \<leftarrow> node_parent_id n;
       r \<leftarrow> read_leaf_entries n (filter (\<lambda>i. i \<noteq> index) [0..<count]);
       (case r of
          Inl e \<Rightarrow> Some (Inl e, n)
        | Inr entries \<Rightarrow> do {
            fresh \<leftarrow> new_leaf;
            replacement \<leftarrow> set_parent_id fresh parent_id;
            (r, replacement') \<leftarrow> rebuild_leaf_entries replacement entries;
            (case r of Inl e \<Rightarrow> Some (Inl e, n) | Inr _ \<Rightarrow> Some (Inr (), replacement'))
          })
     }
   }"

text \<open>The loop of \<open>replace_value_resized\<close> that removes further entries of the key. It is not bounded by
  its form; not returning is the value \<open>None\<close>.\<close>

partial_function (option) remove_duplicates :: "node \<Rightarrow> bytes \<Rightarrow> unit mutation" where
  "remove_duplicates n key = do {
     s \<leftarrow> node_search n key;
     (case s of
        Inl _ \<Rightarrow> Some (Inr (), n)
      | Inr duplicate_index \<Rightarrow> do {
          (r, n') \<leftarrow> remove_entry n duplicate_index;
          (case r of Inl e \<Rightarrow> Some (Inl e, n') | Inr _ \<Rightarrow> remove_duplicates n' key)
        })
   }"

definition replace_value_resized :: "node \<Rightarrow> nat \<Rightarrow> bytes \<Rightarrow> unit mutation" where
  "replace_value_resized n index new_value = do {
     leaf \<leftarrow> node_is_leaf n;
     count \<leftarrow> node_count n;
     if \<not> leaf \<or> index \<ge> count then Some (Inl WrongNodeType, n)
     else do {
       k \<leftarrow> node_key n index;
       (case k of
          None \<Rightarrow> Some (Inl WrongNodeType, n)
        | Some key \<Rightarrow> do {
            (r1, n1) \<leftarrow> remove_entry n index;
            (case r1 of
               Inl e \<Rightarrow> Some (Inl e, n1)
             | Inr _ \<Rightarrow> do {
                 (r2, n2) \<leftarrow> remove_duplicates n1 key;
                 (case r2 of
                    Inl e \<Rightarrow> Some (Inl e, n2)
                  | Inr _ \<Rightarrow> do {
                      (r3, n3) \<leftarrow> node_insert n2 key new_value;
                      (case r3 of Inl e \<Rightarrow> Some (Inl e, n) | Inr _ \<Rightarrow> Some (Inr (), n3))
                    })
               })
          })
     }
   }"

definition insert_tombstone :: "node \<Rightarrow> bytes \<Rightarrow> unit mutation" where
  "insert_tombstone n key = do {
     leaf \<leftarrow> node_is_leaf n;
     if \<not> leaf then Some (Inl WrongNodeType, n)
     else do {
       s \<leftarrow> node_search n key;
       (case s of
          Inl insertion_point \<Rightarrow> insert_leaf_value n key VTombstone [] insertion_point
        | Inr index \<Rightarrow> do {
            (r, n1) \<leftarrow> remove_entry n index;
            (case r of
               Inl e \<Rightarrow> Some (Inl e, n1)
             | Inr _ \<Rightarrow> do {
                 s1 \<leftarrow> node_search n1 key;
                 insert_leaf_value n1 key VTombstone [] (case s1 of Inr i \<Rightarrow> i | Inl i \<Rightarrow> i)
               })
          })
     }
   }"

section \<open>Cells of new entries\<close>

definition leaf_cell :: "bytes \<Rightarrow> value_type \<Rightarrow> bytes \<Rightarrow> bytes" where
  "leaf_cell key vt val = u16_le 0 @ u16_le (word_of_nat (length key)) @ key @ value_type_code vt # val"

text \<open>The value a typed payload stands for; a blob payload must hold a whole pointer.\<close>

fun payload_value :: "value_type \<Rightarrow> bytes \<Rightarrow> value_ref" where
  "payload_value VInline val = RInline val"
| "payload_value VBlobPointer val = RBlob (bp_view (take 16 val))"
| "payload_value VTombstone val = RTombstone"

definition payload_ok :: "value_type \<Rightarrow> bytes \<Rightarrow> bool" where
  "payload_ok vt val \<longleftrightarrow> (vt = VBlobPointer \<longrightarrow> 16 \<le> length val)"

lemma payload_owned: "payload_value (fst (owned_value r)) (snd (owned_value r)) = r" "payload_ok (fst (owned_value r)) (snd (owned_value r))"
  using bp_view_to_bytes [of _ "[]"] by (cases r; simp add: payload_ok_def)+

lemma length_leaf_cell [simp]: "length (leaf_cell key vt val) = 5 + length key + length val"
  by (simp add: leaf_cell_def)

lemma leaf_cell_fields:
  assumes "length key < 65536"
  shows "cell_plen (leaf_cell key vt val) = 0" "cell_slen (leaf_cell key vt val) = length key"
    "cell_key prev (leaf_cell key vt val) = key" "leaf_cell key vt val ! (4 + length key) = value_type_code vt"
    "drop (5 + length key) (leaf_cell key vt val) = val"
proof -
  show p: "cell_plen (leaf_cell key vt val) = 0"
    by (simp add: cell_plen_def leaf_cell_def append_field_simps)
  have "unat (word_of_nat (length key) :: u16) = length key" using assms by (simp add: unat_of_nat)
  then show s: "cell_slen (leaf_cell key vt val) = length key"
    by (simp add: cell_slen_def leaf_cell_def append_field_simps)
  show "cell_key prev (leaf_cell key vt val) = key"
    by (simp add: cell_key_def p s) (simp add: leaf_cell_def sub_bytes_def)
  show "leaf_cell key vt val ! (4 + length key) = value_type_code vt"
    by (simp add: leaf_cell_def nth_append)
  show "drop (5 + length key) (leaf_cell key vt val) = val"
    by (simp add: leaf_cell_def)
qed

lemma leaf_cell_value:
  assumes "length key < 65536" and "payload_ok vt val"
  shows "cell_value (leaf_cell key vt val) = payload_value vt val"
  using assms leaf_cell_fields [OF assms(1), where vt = vt and val = val]
  by (cases vt) (simp_all add: cell_value_def Let_def payload_ok_def sub_bytes_def)

lemma leaf_cell_ok:
  assumes "length key < 65536" and "payload_ok vt val" and "prev \<le> key"
  shows "cell_ok Leaf prev (length key) (leaf_cell key vt val)"
  using assms leaf_cell_fields [OF assms(1), where vt = vt and val = val]
  by (cases vt) (simp_all add: cell_ok_def payload_ok_def)

section \<open>Inserting one entry\<close>

definition value_size :: "value_ref \<Rightarrow> nat" where "value_size r = length (snd (owned_value r))"

text \<open>The size of an entry: prefix and suffix length, key, value type and value.\<close>

definition entry_size :: "bytes \<times> value_ref \<Rightarrow> nat" where
  "entry_size e = 5 + length (fst e) + value_size (snd e)"

lemma copy_chain:
  assumes "eo + 5 + length key + length val \<le> length n"
  shows "do { n1 \<leftarrow> copy_from_slice n eo (u16_le 0);
      n2 \<leftarrow> copy_from_slice n1 (eo + 2) (u16_le (word_of_nat (length key)));
      n3 \<leftarrow> copy_from_slice n2 (eo + 2 + 2) key;
      n4 \<leftarrow> copy_from_slice n3 (eo + 2 + 2 + length key) [value_type_code vt];
      n5 \<leftarrow> copy_from_slice n4 (eo + 2 + 2 + length key + 1) val;
      f n5 } = f (write_at n eo (leaf_cell key vt val))"
  using assms by (simp add: page_simps write_at_append leaf_cell_def)

lemma insert_leaf_value_raw_spec:
  assumes wf: "page_wf n" and leaf: "nh_page_type (hdr n) = Leaf" and ip: "ip \<le> cnt n" and pok: "payload_ok vt val"
    and ge: "prev_key (node_keys n) ip \<le> key" and le: "ip < cnt n \<Longrightarrow> key \<le> node_keys n ! ip"
    and plain: "ip < cnt n \<Longrightarrow> \<not> compressed n"
  shows "if 5 + length key + length val > 4044 then insert_leaf_value_raw n key vt val ip = Some (Inl EntryTooLarge, n)
    else if free_of n < 5 + length key + length val + 8 then insert_leaf_value_raw n key vt val ip = Some (Inl PageFull, n)
    else \<exists>n'. insert_leaf_value_raw n key vt val ip = Some (Inr (), n')
        \<and> entry_inserted leaf_entries n n' ip (key, payload_value vt val) (5 + length key + length val)"
proof -
  let ?sz = "5 + length key + length val" and ?c = "leaf_cell key vt val"
  have len: "length n = 4096" and phys: "page_phys n" using wf by (simp_all add: page_wf_def page_phys_def)
  consider "?sz > 4044" | "?sz \<le> 4044" "free_of n < ?sz + 8" | "?sz \<le> 4044" "?sz + 8 \<le> free_of n" by linarith
  then show ?thesis
  proof cases
    case 1
    then show ?thesis using len leaf by (simp add: insert_leaf_value_raw_def page_simps Let_def)
  next
    case 2
    have "min_off n < ?sz \<or> 48 + 4 * (cnt n + 1) + 4 > min_off n - ?sz"
      using 2 free_of_eq [OF phys] by arith
    then show ?thesis
      using 2 len leaf new_entry_offset_eq [OF phys, of ?sz]
      by (auto simp: insert_leaf_value_raw_def page_simps Let_def)
  next
    case 3
    define eo where "eo = min_off n - ?sz"
    have fit: "48 + 4 * (cnt n + 2) + ?sz \<le> min_off n" using 3 free_of_eq [OF phys] by simp
    have kl: "length key < 65536" "unat (word_of_nat (length key) :: u16) = length key"
      using 3 by (simp_all add: unat_of_nat)
    note f = leaf_cell_fields [OF kl(1), where vt = vt and val = val]
    have cok: "cell_ok (nh_page_type (hdr n)) (prev_key (node_keys n) ip) (unat (word_of_nat (length key) :: u16)) ?c"
      using leaf_cell_ok [OF kl(1) pok ge] by (simp add: kl(2) leaf)
    obtain n' where n': "publish_slot (write_at n (min_off n - length ?c) ?c) ip (cnt n) (min_off n - length ?c) (word_of_nat (length key)) = Some n'"
      "page_wf n'" "free_of n' = free_of n - (length ?c + 4)"
      "hdr n' = (hdr n)\<lparr>nh_count := nh_count (hdr n) + 1, nh_free_space := nh_free_space (hdr n')\<rparr>"
      "slots n' = take ip (slots n) @ (unat (word_of_nat (length key) :: u16), ?c) # drop ip (slots n)"
      "node_keys n' = take ip (node_keys n) @ cell_key [] ?c # drop ip (node_keys n)"
      "compressed n' = compressed n" "le_u32 (sub_bytes n' 8 4) \<in> {1, 2}"
      using place_cell [OF wf ip _ f(1) _ cok] plain le 3(2) f(3) by (auto simp: add.assoc)
    have eo': "min_off n - length ?c = eo" by (simp add: eo_def)
    have off: "new_entry_offset n (4 + length key + 1 + length val) = Some (Some eo)"
      using new_entry_offset_eq [OF phys, of ?sz] 3 fit by (simp add: eo_def)
    have room: "\<not> slot_array_start + (cnt n + 1) * SLOT_SIZE + SLOT_SIZE > eo" using fit by (simp add: eo_def)
    have small: "\<not> 4 + length key + 1 + length val > PAGE_SIZE - HEADER_SIZE - SLOT_SIZE" using 3 by simp
    have bnd: "eo + 5 + length key + length val \<le> length n"
      using fit min_off_bounds(1) [OF phys] len by (simp add: eo_def)
    have run: "insert_leaf_value_raw n key vt val ip = Some (Inr (), n')"
      unfolding insert_leaf_value_raw_def node_kind_eq(1) [OF len] bind.bind_lunit leaf Let_def if_not_P [OF small]
        node_count_eq [OF len] off option.case if_not_P [OF room] copy_chain [OF bnd]
      using n'(1) [unfolded eo'] by simp
    have ent: "leaf_entries n' = insert_nth ip (key, payload_value vt val) (leaf_entries n)"
      using zip_insert_nth [of "node_keys n" "map (\<lambda>(k, c). cell_value c) (slots n)" ip key "payload_value vt val"] ip
      by (simp add: leaf_entries_def n'(5,6) f(3) insert_nth_def take_map drop_map leaf_cell_value [OF kl(1) pok])
    have "nh_magic (hdr n') = nh_magic (hdr n)" "nh_version (hdr n') = nh_version (hdr n)"
      by (subst n'(4); simp)+
    then have "page_valid n'" if "page_valid n"
      using that n'(2,8) by (simp add: page_valid_def nh_is_valid_def)
    moreover have "same_place n n'" unfolding same_place_def by (subst (1 2 3) n'(4)) simp
    ultimately show ?thesis
      using 3 run n' ent by (simp add: entry_inserted_def)
  qed
qed

section \<open>Appending and rebuilding\<close>

definition trip_size :: "bytes \<times> value_type \<times> bytes \<Rightarrow> nat" where
  "trip_size = (\<lambda>(key, vt, val). 5 + length key + length val)"

definition trip_entry :: "bytes \<times> value_type \<times> bytes \<Rightarrow> bytes \<times> value_ref" where
  "trip_entry = (\<lambda>(key, vt, val). (key, payload_value vt val))"

definition trip_ok :: "bytes \<times> value_type \<times> bytes \<Rightarrow> bool" where
  "trip_ok = (\<lambda>(key, vt, val). payload_ok vt val)"

lemma trip_simps [simp]:
  "trip_size (key, vt, val) = 5 + length key + length val" "trip_entry (key, vt, val) = (key, payload_value vt val)"
  "trip_ok (key, vt, val) = payload_ok vt val"
  by (simp_all add: trip_size_def trip_entry_def trip_ok_def)

definition own :: "bytes \<times> value_ref \<Rightarrow> bytes \<times> value_type \<times> bytes" where
  "own e = (fst e, owned_value (snd e))"

lemma own_simps [simp]: "trip_entry (own e) = e" "trip_ok (own e)" "trip_size (own e) = entry_size e"
proof -
  obtain k r where e: "e = (k, r)" by (cases e)
  obtain vt val where o': "owned_value r = (vt, val)" by (cases "owned_value r")
  have "payload_value vt val = r" "payload_ok vt val" using payload_owned [of r] o' by simp_all
  then show "trip_entry (own e) = e" "trip_ok (own e)" "trip_size (own e) = entry_size e"
    using o' by (simp_all add: e own_def trip_entry_def trip_ok_def trip_size_def entry_size_def value_size_def)
qed

lemma fst_trip_entry [simp]: "fst (trip_entry t) = fst t"
  by (simp add: trip_entry_def split: prod.split)

lemma fst_trip [simp]: "map (fst \<circ> trip_entry) ts = map fst ts"
  by (simp add: o_def)

text \<open>The raw insertion and the appending loop keep the contract of entry pages.\<close>

interpretation leaf: entry_pages Leaf "\<lambda>n t ip. insert_leaf_value_raw n (fst t) (fst (snd t)) (snd (snd t)) ip" append_leaf_entries
  leaf_entries trip_entry trip_size trip_ok
proof
  show "if 4044 < trip_size t then insert_leaf_value_raw n (fst t) (fst (snd t)) (snd (snd t)) ip = Some (Inl EntryTooLarge, n)
      else if free_of n < trip_size t + 8 then insert_leaf_value_raw n (fst t) (fst (snd t)) (snd (snd t)) ip = Some (Inl PageFull, n)
      else \<exists>n'. insert_leaf_value_raw n (fst t) (fst (snd t)) (snd (snd t)) ip = Some (Inr (), n')
        \<and> entry_inserted leaf_entries n n' ip (trip_entry t) (trip_size t)"
    if "page_wf n" "nh_page_type (hdr n) = Leaf" "ip \<le> cnt n" "trip_ok t" "prev_key (node_keys n) ip \<le> fst (trip_entry t)"
      "ip < cnt n \<Longrightarrow> fst (trip_entry t) \<le> node_keys n ! ip" "ip < cnt n \<Longrightarrow> \<not> compressed n" for n ip t
  proof -
    obtain key vt val where t: "t = (key, vt, val)" by (cases t)
    show ?thesis
      using insert_leaf_value_raw_spec [OF that(1-3) _ _ _ that(7), of vt val key] that(4-6) by (simp add: t)
  qed
qed (auto split: prod.splits)

lemma upper_loop_eq:
  assumes "page_wf n" and "lower_bound (node_keys n) key \<le> i" and "i \<le> cnt n" and "\<And>j. j < i \<Longrightarrow> node_keys n ! j \<le> key"
    and "\<And>j. i \<le> j \<Longrightarrow> j < cnt n \<Longrightarrow> key \<le> node_keys n ! j"
  shows "upper_loop n key i = Some (upper_bound_keys (node_keys n) key)"
  using assms(2-)
proof (induction "cnt n - i" arbitrary: i rule: less_induct)
  case less
  have cnt: "node_count n = Some (cnt n)" using assms(1) by (simp add: page_simps)
  show ?case
  proof (cases "i < cnt n \<and> node_keys n ! i = key")
    case True
    have "upper_loop n key (i + 1) = Some (upper_bound_keys (node_keys n) key)"
      using less.prems True by (intro less.hyps) (auto simp: less_Suc_eq)
    then show ?thesis using True cnt node_key_eq [OF assms(1)] by (subst upper_loop.simps) simp
  next
    case False
    then have "upper_bound_keys (node_keys n) key = i"
      unfolding upper_bound_keys_def using less.prems by (intro length_takeWhile_eqI) (auto dest: antisym)
    then show ?thesis using False cnt node_key_eq [OF assms(1)] by (subst upper_loop.simps) auto
  qed
qed

lemma sorted_lower_bound:
  assumes "sorted ks"
  shows "lower_bound ks key \<le> length ks" "j < lower_bound ks key \<Longrightarrow> ks ! j < key"
    "lower_bound ks key \<le> j \<Longrightarrow> j < length ks \<Longrightarrow> key \<le> ks ! j"
proof -
  show le: "lower_bound ks key \<le> length ks" by (simp add: lower_bound_def length_takeWhile_le)
  show "ks ! j < key" if "j < lower_bound ks key"
    using that takeWhile_nth [of j "\<lambda>k. k < key" ks] nth_mem [of j "takeWhile (\<lambda>k. k < key) ks"]
    by (auto simp: lower_bound_def dest: set_takeWhileD)
  show "key \<le> ks ! j" if "lower_bound ks key \<le> j" "j < length ks"
  proof -
    have "\<not> ks ! lower_bound ks key < key"
      using that nth_length_takeWhile [of "\<lambda>k. k < key" ks] by (simp add: lower_bound_def)
    then show ?thesis using sorted_nth_mono [OF assms that] by simp
  qed
qed

lemma upper_bound_eq:
  assumes "page_wf n"
  shows "upper_bound n key = Some (upper_bound_keys (node_keys n) key)"
proof -
  note lb = sorted_lower_bound [OF node_keys_sorted [OF assms], where key = key, simplified]
  have "upper_loop n key (lower_bound (node_keys n) key) = Some (upper_bound_keys (node_keys n) key)"
    using lb by (intro upper_loop_eq [OF assms]) (auto intro: less_imp_le)
  then show ?thesis
    using node_search_eq [OF assms, of key] by (simp add: upper_bound_def search_spec_def Let_def)
qed

lemma upper_bound_keys_all: "(\<And>k. k \<in> set ks \<Longrightarrow> k \<le> key) \<Longrightarrow> upper_bound_keys ks key = length ks"
  unfolding upper_bound_keys_def by (rule length_takeWhile_eqI) simp_all

lemma insert_at_end:
  assumes "page_wf n" and "nh_page_type (hdr n) = Leaf"
  shows "insert_leaf_value n key vt val (cnt n) = insert_leaf_value_raw n key vt val (cnt n)"
  using assms by (simp add: insert_leaf_value_def page_simps)

lemma rebuild_leaf_entries_eq:
  assumes "page_wf n" and "nh_page_type (hdr n) = Leaf" and "sorted (node_keys n @ map fst ts)" and "list_all trip_ok ts"
  shows "rebuild_leaf_entries n ts = append_leaf_entries n ts"
  using assms
proof (induction ts arbitrary: n)
  case Nil
  then show ?case by simp
next
  case (Cons t ts)
  obtain key vt val where t: "t = (key, vt, val)" by (cases t)
  note wf = Cons.prems(1) and leaf = Cons.prems(2)
  have below: "k \<le> key" if "k \<in> set (node_keys n)" for k using Cons.prems(3) that by (auto simp: t sorted_append)
  have ub: "upper_bound n key = Some (cnt n)"
    using upper_bound_eq [OF wf, of key] upper_bound_keys_all [of "node_keys n" key] below by simp
  have pok: "payload_ok vt val" using Cons.prems(4) by (simp add: t trip_ok_def)
  note raw = insert_leaf_value_raw_spec [OF wf leaf order_refl pok prev_key_le [OF wf below]]
  have "rebuild_leaf_entries n1 ts = append_leaf_entries n1 ts"
    if "insert_leaf_value_raw n key vt val (cnt n) = Some (Inr u, n1)" for u n1
  proof -
    have ins: "entry_inserted leaf_entries n n1 (cnt n) (trip_entry t) (trip_size t)"
      using raw that by (auto simp: t trip_size_def trip_entry_def split: if_splits)
    then have "leaf_entries n1 = leaf_entries n @ [trip_entry t]" by (simp add: entry_inserted_def)
    then have "node_keys n1 = node_keys n @ [key]" using map_fst_entries(1) [of n1] by (simp add: t del: map_fst_entries) (simp add: t)
    then show ?thesis
      using Cons.prems ins by (intro Cons.IH) (simp_all add: t entry_inserted_def same_place_def)
  qed
  then show ?case
    using ub insert_at_end [OF wf leaf, of key vt val] wf
    by (cases "insert_leaf_value_raw n key vt val (cnt n)") (auto simp: t page_simps split: sum.split)
qed

section \<open>The operations on the list of entries\<close>

abbreviation leaf_after :: "node \<Rightarrow> node \<Rightarrow> (bytes \<times> value_ref) list \<Rightarrow> bool" where
  "leaf_after \<equiv> page_after leaf_entries"

text \<open>A rebuilt leaf holds its entries and nothing else.\<close>

definition space :: "(bytes \<times> value_ref) list \<Rightarrow> nat" where
  "space es = sum_list (map (\<lambda>e. entry_size e + 4) es)"

definition rebuilt :: "node \<Rightarrow> node \<Rightarrow> (bytes \<times> value_ref) list \<Rightarrow> bool" where
  "rebuilt n n' es \<longleftrightarrow> leaf_after n n' es \<and> nh_page_type (hdr n') = Leaf \<and> \<not> compressed n' \<and> page_valid n'
     \<and> free_of n' + space es = 4048"

lemma space_simps [simp]: "space [] = 0" "space (e # es) = entry_size e + 4 + space es" "space (xs @ ys) = space xs + space ys"
  by (simp_all add: space_def)

lemma need_own: "leaf.need (map own es) = space es"
  by (induction es) simp_all

lemma fresh_leaf:
  assumes "nh_page_type (hdr n) = Leaf"
  obtains f rep where "new_leaf = Some f" "set_parent_id f (nh_parent_id (hdr n)) = Some rep" "blank_for n rep"
proof -
  obtain f where f: "node_new Leaf = Some f" by (simp add: node_new_eq)
  note v = node_new_views [OF f]
  have wf: "page_wf f" using v(4) by (simp add: page_valid_def)
  let ?h = "(hdr f)\<lparr>nh_parent_id := nh_parent_id (hdr n)\<rparr>"
  let ?rep = "write_at f 0 (nh_to_bytes ?h)"
  have sp: "set_parent_id f (nh_parent_id (hdr n)) = Some ?rep"
    using wf by (simp add: set_parent_id_def page_simps)
  note r = page_wf_set_header [OF wf, of ?h, simplified]
  have "page_valid ?rep" using page_valid_set_header [OF v(4), of ?h] by simp
  moreover have "cnt ?rep = 0" using length_slots [of ?rep] r(2) v(3) by (simp del: length_slots)
  ultimately show thesis
    using that [of f ?rep] f sp r v(1) assms by (simp add: new_leaf_def nh_new_def free_of_def blank_for_def same_place_def)
qed

lemma read_leaf_entries_eq:
  assumes "page_wf n" and "nh_page_type (hdr n) = Leaf"
  shows "list_all (\<lambda>i. i < cnt n) is \<Longrightarrow> read_leaf_entries n is = Some (Inr (map (\<lambda>i. own (leaf_entries n ! i)) is))"
  using node_key_eq [OF assms(1)] node_value_eq [OF assms]
  by (induction "is") (auto simp: own_def leaf_entries_nth)

text \<open>The insertion with its rebuild of compressed leaves keeps the contract too.\<close>

interpretation leaf: entry_insertion Leaf "\<lambda>n t ip. insert_leaf_value_raw n (fst t) (fst (snd t)) (snd (snd t)) ip" append_leaf_entries
  leaf_entries trip_entry trip_size trip_ok "\<lambda>n t ip. insert_leaf_value n (fst t) (fst (snd t)) (snd (snd t)) ip" own
proof
  fix n ip and t :: "bytes \<times> value_type \<times> bytes"
  assume wf: "page_wf n" and lf: "nh_page_type (hdr n) = Leaf" and ip: "ip \<le> cnt n"
  obtain f rep where r: "new_leaf = Some f" "set_parent_id f (nh_parent_id (hdr n)) = Some rep" "blank_for n rep"
    by (rule fresh_leaf [OF lf])
  have "map (\<lambda>i. own (leaf_entries n ! i)) [0..<cnt n] = map own (leaf_entries n)"
    by (rule nth_equalityI) simp_all
  then have rd: "read_leaf_entries n [0..<cnt n] = Some (Inr (map own (leaf_entries n)))"
    using read_leaf_entries_eq [OF wf lf, of "[0..<cnt n]"] by (simp add: list_all_iff)
  have "insert_leaf_value n (fst t) (fst (snd t)) (snd (snd t)) ip =
      (if ip < cnt n \<and> compressed n then do {
         (res, n') \<leftarrow> append_leaf_entries rep (insert_nth ip t (map own (leaf_entries n)));
         (case res of Inl x \<Rightarrow> Some (Inl x, n) | Inr _ \<Rightarrow> Some (Inr (), n')) }
       else insert_leaf_value_raw n (fst t) (fst (snd t)) (snd (snd t)) ip)"
    using wf lf ip has_prefix_compression_eq [OF wf]
    by (auto simp: insert_leaf_value_def page_simps Let_def rd r(1,2) insert_nth_def)
  with r(3) show "\<exists>rep. blank_for n rep \<and> insert_leaf_value n (fst t) (fst (snd t)) (snd (snd t)) ip =
      (if ip < cnt n \<and> compressed n then do {
         (res, n') \<leftarrow> append_leaf_entries rep (insert_nth ip t (map own (leaf_entries n)));
         (case res of Inl x \<Rightarrow> Some (Inl x, n) | Inr _ \<Rightarrow> Some (Inr (), n')) }
       else insert_leaf_value_raw n (fst t) (fst (snd t)) (snd (snd t)) ip)" by blast
qed simp_all

lemma insert_leaf_value_spec:
  assumes "page_wf n" and "nh_page_type (hdr n) = Leaf" and "ip \<le> cnt n" and "payload_ok vt val"
    and "prev_key (node_keys n) ip \<le> key" and "ip < cnt n \<Longrightarrow> key \<le> node_keys n ! ip"
  shows "(\<exists>e. insert_leaf_value n key vt val ip = Some (Inl e, n))
    \<or> (\<exists>n'. insert_leaf_value n key vt val ip = Some (Inr (), n') \<and> leaf_after n n' (insert_nth ip (key, payload_value vt val) (leaf_entries n)))"
    and "\<not> compressed n \<Longrightarrow> 5 + length key + length val + 8 \<le> free_of n \<Longrightarrow>
      \<exists>n'. insert_leaf_value n key vt val ip = Some (Inr (), n') \<and> leaf_after n n' (insert_nth ip (key, payload_value vt val) (leaf_entries n))
        \<and> free_of n' = free_of n - (5 + length key + length val + 4) \<and> \<not> compressed n'"
    and "\<not> compressed n \<Longrightarrow> free_of n < 5 + length key + length val + 8 \<Longrightarrow> \<exists>e \<in> {PageFull, EntryTooLarge}. insert_leaf_value n key vt val ip = Some (Inl e, n)"
  using leaf.ins_spec [of n ip "(key, vt, val)"] assms by simp_all

lemma lower_bound_position:
  assumes "page_wf n"
  shows "lower_bound (node_keys n) key \<le> cnt n" "prev_key (node_keys n) (lower_bound (node_keys n) key) \<le> key"
    "lower_bound (node_keys n) key < cnt n \<Longrightarrow> key \<le> node_keys n ! lower_bound (node_keys n) key"
  using sorted_lower_bound [OF node_keys_sorted [OF assms], where key = key]
  by (auto simp: prev_key_def intro: less_imp_le)

text \<open>The two inserting operations, for any payload: what the match on the search result does.\<close>

lemma search_and_insert:
  fixes key :: bytes
  assumes wf: "page_wf n" and leaf: "nh_page_type (hdr n) = Leaf" and pok: "payload_ok vt val"
  defines "op \<equiv> do { s \<leftarrow> node_search n key;
      (case s of Inr index \<Rightarrow> Some (Inl (DuplicateKey index), n)
       | Inl insertion_point \<Rightarrow> insert_leaf_value n key vt val insertion_point) }"
    and "p \<equiv> lower_bound (node_keys n) key"
  shows "key \<in> set (node_keys n) \<Longrightarrow> op = Some (Inl (DuplicateKey p), n)"
    and "key \<notin> set (node_keys n) \<Longrightarrow> (\<exists>e. op = Some (Inl e, n))
      \<or> (\<exists>n'. op = Some (Inr (), n') \<and> leaf_after n n' (insert_nth p (key, payload_value vt val) (leaf_entries n)))"
    and "key \<notin> set (node_keys n) \<Longrightarrow> \<not> compressed n \<Longrightarrow> 5 + length key + length val + 8 \<le> free_of n \<Longrightarrow>
      \<exists>n'. op = Some (Inr (), n') \<and> leaf_after n n' (insert_nth p (key, payload_value vt val) (leaf_entries n))"
    and "key \<notin> set (node_keys n) \<Longrightarrow> \<not> compressed n \<Longrightarrow> free_of n < 5 + length key + length val + 8 \<Longrightarrow>
      \<exists>e \<in> {PageFull, EntryTooLarge}. op = Some (Inl e, n)"
proof -
  have s: "node_search n key = Some (if key \<in> set (node_keys n) then Inr p else Inl p)"
    using node_search_eq [OF wf, of key] by (simp add: search_spec_def Let_def p_def)
  show "op = Some (Inl (DuplicateKey p), n)" if "key \<in> set (node_keys n)" using s that by (simp add: op_def)
  have op: "op = insert_leaf_value n key vt val p" if "key \<notin> set (node_keys n)" using s that by (simp add: op_def)
  note spec = insert_leaf_value_spec [OF wf leaf lower_bound_position(1) [OF wf] pok lower_bound_position(2,3) [OF wf], where key = key,
      folded p_def]
  show "(\<exists>e. op = Some (Inl e, n))
      \<or> (\<exists>n'. op = Some (Inr (), n') \<and> leaf_after n n' (insert_nth p (key, payload_value vt val) (leaf_entries n)))"
    if "key \<notin> set (node_keys n)" unfolding op [OF that] using spec(1) by blast
  show "\<exists>n'. op = Some (Inr (), n') \<and> leaf_after n n' (insert_nth p (key, payload_value vt val) (leaf_entries n))"
    if "key \<notin> set (node_keys n)" "\<not> compressed n" "5 + length key + length val + 8 \<le> free_of n"
    unfolding op [OF that(1)] using spec(2) that by blast
  show "\<exists>e \<in> {PageFull, EntryTooLarge}. op = Some (Inl e, n)"
    if "key \<notin> set (node_keys n)" "\<not> compressed n" "free_of n < 5 + length key + length val + 8"
    unfolding op [OF that(1)] using spec(3) that by blast
qed

lemma insert_ops_eq:
  assumes "page_wf n" and "nh_page_type (hdr n) = Leaf"
  shows "node_insert n key val = do { s \<leftarrow> node_search n key;
      (case s of Inr index \<Rightarrow> Some (Inl (DuplicateKey index), n) | Inl insertion_point \<Rightarrow> insert_leaf_value n key VInline val insertion_point) }"
    and "insert_blob n key p = do { s \<leftarrow> node_search n key;
      (case s of Inr index \<Rightarrow> Some (Inl (DuplicateKey index), n) | Inl insertion_point \<Rightarrow> insert_leaf_value n key VBlobPointer (bp_to_bytes p) insertion_point) }"
  using assms by (simp_all add: node_insert_def insert_blob_def page_simps)

section \<open>Removing entries\<close>

lemma sorted_remove_nth: "sorted xs \<Longrightarrow> sorted (remove_nth i xs)"
proof -
  assume "sorted xs"
  then have "sorted (take i xs @ drop i xs)" by simp
  moreover have "set (drop (Suc i) xs) \<subseteq> set (drop i xs)" by (simp add: set_drop_subset_set_drop)
  ultimately show ?thesis
    using \<open>sorted xs\<close> by (simp only: remove_nth_def sorted_append) (auto simp: sorted_wrt_drop)
qed

lemma map_remove_nth: "map f (remove_nth i xs) = remove_nth i (map f xs)"
  by (simp add: remove_nth_def take_map drop_map)

lemma map_nth_others:
  assumes "i < length xs"
  shows "map (\<lambda>j. xs ! j) (filter (\<lambda>j. j \<noteq> i) [0..<length xs]) = remove_nth i xs"
proof -
  have "[0..<length xs] = [0..<i] @ i # [Suc i..<length xs]"
    using assms upt_add_eq_append [of 0 i "length xs - i"] upt_conv_Cons [of i "length xs"] by simp
  then have "filter (\<lambda>j. j \<noteq> i) [0..<length xs] = [0..<i] @ [Suc i..<length xs]"
    by (simp add: filter_id_conv)
  moreover have "map ((!) xs) [0..<i] = take i xs" "map ((!) xs) [Suc i..<length xs] = drop (Suc i) xs"
    using assms by (auto intro!: nth_equalityI)
  ultimately show ?thesis by (simp add: remove_nth_def)
qed

lemma remove_entry_spec:
  assumes wf: "page_wf n" and leaf: "nh_page_type (hdr n) = Leaf" and i: "i < cnt n"
  defines "es \<equiv> remove_nth i (leaf_entries n)"
  shows "if es = [] \<or> space es + 4 \<le> 4048 then \<exists>n'. remove_entry n i = Some (Inr (), n') \<and> rebuilt n n' es
    else \<exists>e. remove_entry n i = Some (Inl e, n)"
proof -
  let ?is = "filter (\<lambda>j. j \<noteq> i) [0..<cnt n]"
  have "map (\<lambda>j. own (leaf_entries n ! j)) ?is = map own es"
    using arg_cong [OF map_nth_others [of i "leaf_entries n"], of "map own"] i by (simp add: es_def o_def)
  then have rd: "read_leaf_entries n ?is = Some (Inr (map own es))"
    using read_leaf_entries_eq [OF wf leaf, of ?is] by (simp add: list_all_iff)
  obtain f rep where r: "new_leaf = Some f" "set_parent_id f (nh_parent_id (hdr n)) = Some rep" "blank_for n rep"
    by (rule fresh_leaf [OF leaf])
  have b: "nh_page_type (hdr rep) = Leaf" using r(3) leaf by (simp add: blank_for_def same_place_def)
  have srt: "sorted (map fst (map own es))"
    using sorted_remove_nth [OF node_keys_sorted [OF wf], of i]
    by (simp add: es_def own_def o_def map_remove_nth)
  have tok: "list_all trip_ok (map own es)" by (simp add: list.pred_map o_def list.pred_True)
  have rb: "rebuild_leaf_entries rep (map own es) = append_leaf_entries rep (map own es)"
    using blank_plain [OF r(3)] b srt tok by (intro rebuild_leaf_entries_eq) simp_all
  have es: "map trip_entry (map own es) = es" by (simp add: o_def)
  have unf: "remove_entry n i = do { (res, rep') \<leftarrow> append_leaf_entries rep (map own es);
      (case res of Inl e \<Rightarrow> Some (Inl e, n) | Inr _ \<Rightarrow> Some (Inr (), rep')) }"
    using wf leaf i by (simp add: remove_entry_def page_simps rd r(1,2) rb)
  have srt': "sorted (map (fst \<circ> trip_entry) (map own es))" unfolding fst_trip by (rule srt)
  show ?thesis
    using leaf.append_blank [OF r(3) leaf srt' tok, unfolded es need_own] leaf
    by (auto simp: unf rebuilt_def page_after_def same_place_def split: if_splits)
qed

end
