(* ===== verification/Node_Replace.thy ===== *)
theory Node_Replace
  imports Node_Mutation
begin

text \<open>
  What the mutations of a leaf do to its list of entries: the space that entries take, removing every entry
  of a key, replacing a value and writing a tombstone (\<open>src/src/btree/node/mutation.rs\<close>).
\<close>

section \<open>The space of the entries\<close>

lemma cells_space:
  assumes "page_phys n"
  shows "(\<Sum>i<cnt n. length (cell n i)) + 4 * cnt n + free_of n \<le> 4048"
proof -
  let ?I = "\<lambda>i. {soff n i..<eend n i}"
  note b = page_phys_bounds [OF assms]
  have inj: "soff n i \<noteq> soff n j" if "i < cnt n" "j < cnt n" "i \<noteq> j" for i j
    using assms that by (auto simp: page_phys_def distinct_conv_nth)
  have disj: "?I i \<inter> ?I j = {}" if "i < cnt n" "j < cnt n" "i \<noteq> j" for i j
    using inj [OF that] eend_le_soff [of j n i] eend_le_soff [of i n j] that by (cases "soff n i < soff n j") auto
  have "(\<Sum>i<cnt n. length (cell n i)) = (\<Sum>i<cnt n. card (?I i))" using b(5) by simp
  also have "\<dots> = card (\<Union>i<cnt n. ?I i)" using disj by (intro card_UN_disjoint [symmetric]) auto
  also have "\<dots> \<le> card {min_off n..<4096}"
  proof (rule card_mono)
    show "(\<Union>i<cnt n. ?I i) \<subseteq> {min_off n..<4096}"
      using b(3) min_off_bounds(3) [OF assms] by (force simp: set_offs)
  qed simp
  finally show ?thesis using min_off_bounds(1,2) [OF assms] free_of_eq [OF assms] by simp
qed

lemma plain_entry_size:
  assumes "page_wf n" and "nh_page_type (hdr n) = Leaf" and "\<not> compressed n" and "i < cnt n"
  shows "entry_size (leaf_entries n ! i) \<le> length (cell n i)"
proof -
  let ?c = "cell n i"
  note e = page_wf_entry [OF assms(1,4)]
  have "(sklen n i, ?c) \<in> set (slots n)" using assms(4) nth_slots [OF assms(4)] nth_mem [of i "slots n"] by simp
  then have p: "cell_plen ?c = 0" using assms(3) by (auto simp: compressed_def)
  have k: "length (node_keys n ! i) = cell_slen ?c" using entry_readers(4) [OF assms(1,4)] e(2) p by (simp add: cell_key_def)
  have "5 + cell_slen ?c + value_size (cell_value ?c) \<le> length ?c"
    using e(1) assms(2) by (auto simp: cell_ok_def cell_value_def value_size_def Let_def)
  then show ?thesis using assms(4) k by (simp add: leaf_entries_nth entry_size_def)
qed

lemma space_sum: "space es = (\<Sum>i<length es. entry_size (es ! i)) + 4 * length es"
  unfolding space_def by (simp add: sum_list_sum_nth atLeast0LessThan sum.distrib)

text \<open>A leaf without compressed keys has room for its entries and its free space.\<close>

lemma plain_space:
  assumes "page_wf n" and "nh_page_type (hdr n) = Leaf" and "\<not> compressed n"
  shows "space (leaf_entries n) + free_of n \<le> 4048"
proof -
  have "(\<Sum>i<cnt n. entry_size (leaf_entries n ! i)) \<le> (\<Sum>i<cnt n. length (cell n i))"
    using plain_entry_size [OF assms] by (intro sum_mono) simp
  then show ?thesis using cells_space [of n] assms(1) by (simp add: space_sum page_wf_def)
qed

lemma space_insert_nth: "i \<le> length es \<Longrightarrow> space (insert_nth i e es) = entry_size e + 4 + space es"
  using space_simps(3) [of "take i es" "drop i es"] by (simp add: insert_nth_def)

lemma space_remove_nth: "i < length es \<Longrightarrow> space (remove_nth i es) + entry_size (es ! i) + 4 = space es"
proof -
  assume "i < length es"
  then have "space (take i es @ es ! i # drop (Suc i) es) = space es" by (simp only: id_take_nth_drop [symmetric])
  then show ?thesis by (simp add: remove_nth_def)
qed

lemma space_filter: "space (filter P es) \<le> space es"
  by (induction es) simp_all

section \<open>Removing the entries of a key\<close>

lemma rebuilt_trans: "rebuilt n n1 es1 \<Longrightarrow> rebuilt n1 n2 es2 \<Longrightarrow> rebuilt n n2 es2"
  using same_place_trans [of n n1 n2] by (simp add: rebuilt_def page_after_def)

lemma rebuilt_leaf:
  assumes "rebuilt n n' es"
  shows "page_wf n'" "nh_page_type (hdr n') = Leaf" "\<not> compressed n'" "leaf_entries n' = es" "node_keys n' = map fst es"
    "cnt n' = length es" "free_of n' + space es = 4048" "nh_parent_id (hdr n') = nh_parent_id (hdr n)"
  using assms length_entries(1) [of n'] map_fst_entries(1) [of n'] by (auto simp: rebuilt_def page_after_def same_place_def)

text \<open>On a leaf without compressed keys a removal always succeeds.\<close>

lemma remove_entry_plain:
  assumes "page_wf n" and "nh_page_type (hdr n) = Leaf" and "\<not> compressed n" and "i < cnt n"
  shows "\<exists>n'. remove_entry n i = Some (Inr (), n') \<and> rebuilt n n' (remove_nth i (leaf_entries n))"
  using remove_entry_spec [OF assms(1,2,4)] plain_space [OF assms(1-3)] space_remove_nth [of i "leaf_entries n"] assms(4)
  by (auto split: if_splits)

lemma filter_remove_nth: "i < length xs \<Longrightarrow> \<not> P (xs ! i) \<Longrightarrow> filter P (remove_nth i xs) = filter P xs"
proof -
  assume i: "i < length xs" and p: "\<not> P (xs ! i)"
  have "filter P xs = filter P (take i xs @ xs ! i # drop (Suc i) xs)" using i by (simp only: id_take_nth_drop [symmetric])
  then show ?thesis using p by (simp add: remove_nth_def)
qed

lemma lower_bound_nth: "sorted ks \<Longrightarrow> key \<in> set ks \<Longrightarrow> lower_bound ks key < length ks \<and> ks ! lower_bound ks key = key"
proof -
  assume srt: "sorted ks" and "key \<in> set ks"
  then obtain j where j: "j < length ks" "ks ! j = key" by (auto simp: in_set_conv_nth)
  have le: "lower_bound ks key \<le> j" using sorted_lower_bound(2) [OF srt, of j key] j by force
  then have "ks ! lower_bound ks key \<le> key" using sorted_nth_mono [OF srt, of "lower_bound ks key" j] j by simp
  moreover have "key \<le> ks ! lower_bound ks key" using sorted_lower_bound(3) [OF srt order_refl, of key] le j by simp
  ultimately show ?thesis using le j by simp
qed

abbreviation others :: "bytes \<Rightarrow> (bytes \<times> 'v) list \<Rightarrow> (bytes \<times> 'v) list" where
  "others key \<equiv> filter (\<lambda>e. fst e \<noteq> key)"

lemma others_absent: "key \<notin> fst ` set es \<Longrightarrow> others key es = es"
  by (auto simp: filter_id_conv)

lemma keys_of_entries: "set (node_keys n) = fst ` set (leaf_entries n)"
  by (simp flip: map_fst_entries(1) del: map_fst_entries)

lemma remove_duplicates_spec:
  assumes "page_wf n" and "nh_page_type (hdr n) = Leaf" and "\<not> compressed n"
  shows "\<exists>n'. remove_duplicates n key = Some (Inr (), n')
    \<and> (if key \<in> set (node_keys n) then rebuilt n n' (others key (leaf_entries n)) else n' = n)"
  using assms
proof (induction "cnt n" arbitrary: n rule: less_induct)
  case less
  let ?p = "lower_bound (node_keys n) key"
  have s: "node_search n key = Some (if key \<in> set (node_keys n) then Inr ?p else Inl ?p)"
    using node_search_eq [OF less.prems(1), of key] by (simp add: search_spec_def Let_def)
  show ?case
  proof (cases "key \<in> set (node_keys n)")
    case False
    then show ?thesis using s by (simp add: remove_duplicates.simps)
  next
    case True
    then have p: "?p < cnt n" "node_keys n ! ?p = key"
      using lower_bound_nth [OF node_keys_sorted [OF less.prems(1)]] by auto
    obtain n1 where n1: "remove_entry n ?p = Some (Inr (), n1)" and r1: "rebuilt n n1 (remove_nth ?p (leaf_entries n))"
      using remove_entry_plain [OF less.prems p(1)] by blast
    note v = rebuilt_leaf [OF r1]
    have flt: "others key (remove_nth ?p (leaf_entries n)) = others key (leaf_entries n)"
      using p by (intro filter_remove_nth) (simp_all add: leaf_entries_nth)
    have "cnt n1 < cnt n" using p v(6) by (simp add: remove_nth_def)
    from less.hyps [OF this v(1-3)] obtain n2 where n2: "remove_duplicates n1 key = Some (Inr (), n2)"
      and r2: "if key \<in> set (node_keys n1) then rebuilt n1 n2 (others key (leaf_entries n1)) else n2 = n1" by blast
    have "rebuilt n n2 (others key (leaf_entries n))"
    proof (cases "key \<in> set (node_keys n1)")
      case True
      then show ?thesis using r2 rebuilt_trans [OF r1] flt v(4) by simp
    next
      case False
      then show ?thesis using r1 r2 flt others_absent [of key "leaf_entries n1"] v(4) by (simp add: keys_of_entries)
    qed
    moreover have "remove_duplicates n key = Some (Inr (), n2)"
      using s True n1 n2 by (subst remove_duplicates.simps) simp
    ultimately show ?thesis using True by simp
  qed
qed

section \<open>Replacing a value by one of another size\<close>

text \<open>The entries with the entry of a key written anew, at the place of the key.\<close>

definition put_entry :: "bytes \<Rightarrow> 'v \<Rightarrow> (bytes \<times> 'v) list \<Rightarrow> (bytes \<times> 'v) list" where
  "put_entry key v es = (let rest = others key es in insert_nth (lower_bound (map fst rest) key) (key, v) rest)"

lemma node_insert_plain:
  assumes wf: "page_wf n" and leaf: "nh_page_type (hdr n) = Leaf" and plain: "\<not> compressed n" and new: "key \<notin> set (node_keys n)"
  shows "if 5 + length key + length val + 8 \<le> free_of n
    then \<exists>n'. node_insert n key val = Some (Inr (), n')
      \<and> leaf_after n n' (insert_nth (lower_bound (node_keys n) key) (key, RInline val) (leaf_entries n))
    else \<exists>e \<in> {PageFull, EntryTooLarge}. node_insert n key val = Some (Inl e, n)"
proof -
  have pok: "payload_ok VInline val" by (simp add: payload_ok_def)
  note sp = search_and_insert(3,4) [OF wf leaf pok, where key = key, folded insert_ops_eq(1) [OF wf leaf], simplified payload_value.simps]
  show ?thesis using sp [OF new plain] by (simp add: not_le)
qed

lemma after_removal:
  assumes wf: "page_wf n" and leaf: "nh_page_type (hdr n) = Leaf" and i: "i < cnt n"
    and rm: "remove_entry n i = Some (Inr (), n1)"
  obtains n2 where "remove_duplicates n1 (node_keys n ! i) = Some (Inr (), n2)" "rebuilt n n2 (others (node_keys n ! i) (leaf_entries n))"
proof -
  let ?key = "node_keys n ! i" and ?es = "leaf_entries n"
  have r1: "rebuilt n n1 (remove_nth i ?es)" using remove_entry_spec [OF wf leaf i] rm by (auto split: if_splits)
  note v = rebuilt_leaf [OF r1]
  have flt: "others ?key (remove_nth i ?es) = others ?key ?es"
    using i by (intro filter_remove_nth) (simp_all add: leaf_entries_nth)
  obtain n2 where n2: "remove_duplicates n1 ?key = Some (Inr (), n2)"
    and r2: "if ?key \<in> set (node_keys n1) then rebuilt n1 n2 (others ?key (leaf_entries n1)) else n2 = n1"
    using remove_duplicates_spec [OF v(1-3)] by blast
  have "rebuilt n n2 (others ?key ?es)"
  proof (cases "?key \<in> set (node_keys n1)")
    case True
    then show ?thesis using r2 rebuilt_trans [OF r1] flt v(4) by simp
  next
    case False
    then show ?thesis using r1 r2 flt others_absent [of ?key "leaf_entries n1"] v(4) by (simp add: keys_of_entries)
  qed
  with n2 that show thesis by blast
qed

lemma leaf_after_rebuilt: "rebuilt n n1 es1 \<Longrightarrow> leaf_after n1 n2 es2 \<Longrightarrow> leaf_after n n2 es2"
  using same_place_trans [of n n1 n2] by (auto simp: rebuilt_def page_after_def)

lemma replace_value_resized_spec:
  assumes wf: "page_wf n" and leaf: "nh_page_type (hdr n) = Leaf" and i: "i < cnt n"
  defines "key \<equiv> node_keys n ! i"
  shows "(\<exists>e. remove_entry n i = Some (Inl e, n) \<and> replace_value_resized n i val = Some (Inl e, n))
    \<or> (\<exists>n1. remove_entry n i = Some (Inr (), n1) \<and>
        (if 5 + length key + length val + 8 + space (others key (leaf_entries n)) \<le> 4048
         then \<exists>n'. replace_value_resized n i val = Some (Inr (), n') \<and> leaf_after n n' (put_entry key (RInline val) (leaf_entries n))
         else \<exists>e \<in> {PageFull, EntryTooLarge}. replace_value_resized n i val = Some (Inl e, n)))"
proof -
  let ?rest = "others key (leaf_entries n)"
  have k: "node_key n i = Some (Some key)" using node_key_eq [OF wf i] by (simp add: key_def)
  have unf: "replace_value_resized n i val = do { (r1, n1) \<leftarrow> remove_entry n i; (case r1 of Inl e \<Rightarrow> Some (Inl e, n1)
      | Inr _ \<Rightarrow> do { (r2, n2) \<leftarrow> remove_duplicates n1 key; (case r2 of Inl e \<Rightarrow> Some (Inl e, n2)
        | Inr _ \<Rightarrow> do { (r3, n3) \<leftarrow> node_insert n2 key val; (case r3 of Inl e \<Rightarrow> Some (Inl e, n) | Inr _ \<Rightarrow> Some (Inr (), n3)) }) }) }"
    using wf leaf i k by (simp add: replace_value_resized_def page_simps)
  show ?thesis
  proof (cases "\<exists>n1. remove_entry n i = Some (Inr (), n1)")
    case False
    then obtain e where "remove_entry n i = Some (Inl e, n)"
      using remove_entry_spec [OF wf leaf i] by (auto split: if_splits)
    then show ?thesis by (simp add: unf)
  next
    case True
    then obtain n1 where rm: "remove_entry n i = Some (Inr (), n1)" by blast
    obtain n2 where n2: "remove_duplicates n1 key = Some (Inr (), n2)" and r2: "rebuilt n n2 ?rest"
      using after_removal [OF wf leaf i rm] unfolding key_def by blast
    note v = rebuilt_leaf [OF r2]
    have new: "key \<notin> set (node_keys n2)" by (auto simp: v(5))
    have run: "replace_value_resized n i val =
        do { (r3, n3) \<leftarrow> node_insert n2 key val; (case r3 of Inl e \<Rightarrow> Some (Inl e, n) | Inr _ \<Rightarrow> Some (Inr (), n3)) }"
      by (simp add: unf rm n2)
    have room: "(5 + length key + length val + 8 \<le> free_of n2) = (5 + length key + length val + 8 + space ?rest \<le> 4048)"
      using v(7) by linarith
    have put: "insert_nth (lower_bound (node_keys n2) key) (key, RInline val) (leaf_entries n2) = put_entry key (RInline val) (leaf_entries n)"
      by (simp add: put_entry_def v(4,5) Let_def)
    show ?thesis
      using node_insert_plain [OF v(1-3) new, of val] leaf_after_rebuilt [OF r2] rm unfolding room put
      by (auto simp: run split: if_splits)
  qed
qed

section \<open>Tombstones\<close>

lemma lower_bound_remove:
  assumes "sorted ks" and "key \<in> set ks"
  shows "lower_bound (remove_nth (lower_bound ks key) ks) key = lower_bound ks key"
proof -
  let ?p = "lower_bound ks key"
  note lb = sorted_lower_bound [OF assms(1), where key = key]
  have "?p < length ks" using lower_bound_nth [OF assms] by simp
  then show ?thesis
    unfolding lower_bound_def [of "remove_nth ?p ks"] using lb
    by (intro length_takeWhile_eqI) (auto simp: remove_nth_def nth_append not_less)
qed

lemma insert_remove_nth: "i < length xs \<Longrightarrow> insert_nth i x (remove_nth i xs) = xs[i := x]"
  by (simp add: insert_nth_def remove_nth_def upd_conv_take_nth_drop)

lemma insert_tombstone_present:
  assumes wf: "page_wf n" and leaf: "nh_page_type (hdr n) = Leaf" and plain: "\<not> compressed n" and free: "4 \<le> free_of n"
    and key: "key \<in> set (node_keys n)"
  shows "\<exists>n'. insert_tombstone n key = Some (Inr (), n')
    \<and> leaf_after n n' ((leaf_entries n)[lower_bound (node_keys n) key := (key, RTombstone)])"
proof -
  let ?p = "lower_bound (node_keys n) key" and ?es = "leaf_entries n"
  have p: "?p < cnt n" "node_keys n ! ?p = key" using lower_bound_nth [OF node_keys_sorted [OF wf] key] by simp_all
  have s: "node_search n key = Some (Inr ?p)" using node_search_eq [OF wf, of key] key by (simp add: search_spec_def Let_def)
  obtain n1 where n1: "remove_entry n ?p = Some (Inr (), n1)" and r1: "rebuilt n n1 (remove_nth ?p ?es)"
    using remove_entry_plain [OF wf leaf plain p(1)] by blast
  note v = rebuilt_leaf [OF r1]
  have p1: "lower_bound (node_keys n1) key = ?p"
    using lower_bound_remove [OF node_keys_sorted [OF wf] key] by (simp add: v(5) map_remove_nth)
  have s1: "node_search n1 key = Some (if key \<in> set (node_keys n1) then Inr ?p else Inl ?p)"
    using node_search_eq [OF v(1), of key] by (simp add: search_spec_def Let_def p1)
  have run: "insert_tombstone n key = insert_leaf_value n1 key VTombstone [] ?p"
    using wf leaf s n1 s1 by (simp add: insert_tombstone_def page_simps)
  have "space (remove_nth ?p ?es) + entry_size (?es ! ?p) + 4 = space ?es" using p by (intro space_remove_nth) simp
  moreover have "entry_size (?es ! ?p) \<ge> 5 + length key" using p by (simp add: leaf_entries_nth entry_size_def)
  ultimately have room: "5 + length key + length [] + 8 \<le> free_of n1"
    using plain_space [OF wf leaf plain] v(7) free by (simp only: list.size)
  have pok: "payload_ok VTombstone []" by (simp add: payload_ok_def)
  have "\<exists>n'. insert_leaf_value n1 key VTombstone [] ?p = Some (Inr (), n')
    \<and> leaf_after n1 n' (insert_nth ?p (key, payload_value VTombstone []) (leaf_entries n1))"
    using insert_leaf_value_spec(2) [OF v(1,2) lower_bound_position(1) [OF v(1)] pok lower_bound_position(2,3) [OF v(1)] v(3) room]
    unfolding p1 by blast
  then show ?thesis
    using leaf_after_rebuilt [OF r1] insert_remove_nth [of ?p ?es] p(1) by (auto simp: run v(4))
qed

section \<open>Replacing a value in place\<close>

lemma overwrite_cell:
  assumes phys: "page_phys n" and i: "i < cnt n" and c': "length c' = length (cell n i)"
  defines "n' \<equiv> write_at n (soff n i) c'"
  shows "hdr n' = hdr n" "page_phys n'" "slots n' = (slots n)[i := (sklen n i, c')]" "le_u32 (sub_bytes n' 8 4) = le_u32 (sub_bytes n 8 4)"
proof -
  note b = page_phys_bounds [OF phys i]
  have fit: "soff n i + length c' \<le> length n" "soff n i + length c' = eend n i" using b c' by simp_all
  show h: "hdr n' = hdr n" using b(1) fit by (simp add: n'_def hdr_write_outside)
  have w: "slot_words n' (cnt n) = slot_words n (cnt n)" using b(1) fit by (simp add: n'_def slot_words_outside)
  have cn: "cnt n' = cnt n" by (simp add: cnt_def h)
  have os: "offs n' = offs n" by (simp add: offs_words cn w)
  then have so: "soff n' j = soff n j" if "j < cnt n" for j using that nth_offs [of j n'] nth_offs [of j n] cn by simp
  have seg: "segment n' (offs n) (soff n j) = (if j = i then c' else cell n j)" if "j < cnt n" for j
  proof (cases "j = i")
    case True
    have "next_off (offs n) (soff n i) - soff n i = length c'" using b c' by (simp add: next_off_def eend_def)
    then show ?thesis using True fit by (simp add: segment_def n'_def)
  next
    case False
    then have ne: "soff n j \<noteq> soff n i" using phys that i by (auto simp: page_phys_def distinct_conv_nth)
    have "sub_bytes n' (soff n j) (eend n j - soff n j) = sub_bytes n (soff n j) (eend n j - soff n j)"
    proof (cases "soff n j < soff n i")
      case True
      then show ?thesis
        using eend_le_soff [OF i] page_phys_bounds(2) [OF phys that] fit by (simp add: n'_def sub_bytes_write_before)
    next
      case False
      then show ?thesis
        using eend_le_soff [OF that, of i] ne fit by (simp add: n'_def sub_bytes_write_after)
    qed
    then show ?thesis using False by (simp add: segment_def next_off_def cell_def eend_def)
  qed
  have "slots n' = map (\<lambda>(x, k). (k, segment n' (offs n) x)) (slot_words n (cnt n))" by (simp add: slots_segment os cn w)
  also have "\<dots> = (slots n)[i := (sklen n i, c')]"
    using i seg by (intro nth_equalityI) (auto simp: slot_words_def nth_list_update nth_slots)
  finally show "slots n' = (slots n)[i := (sklen n i, c')]" .
  show "page_phys n'" using phys so fit by (simp add: page_phys_def cn os h min_off_def n'_def [symmetric]) (simp add: n'_def)
  show "le_u32 (sub_bytes n' 8 4) = le_u32 (sub_bytes n 8 4)" using b(1) fit by (simp add: n'_def sub_bytes_write_before)
qed

lemma cells_update:
  assumes "cells_ok t p cs" and "i < length cs" and "cs ! i = (l, c)"
    and key: "\<And>prev. cell_key prev c' = cell_key prev c" and ok: "\<And>prev. cell_ok t prev l c \<Longrightarrow> cell_ok t prev l c'"
  shows "cells_ok t p (cs[i := (l, c')])" "cell_keys p (cs[i := (l, c')]) = cell_keys p cs"
  using assms(1-3)
proof (induction p cs arbitrary: i rule: cell_keys.induct)
  case (2 p l1 c1 cs)
  { case 1 then show ?case using "2.IH"(1) ok key by (cases i) auto }
  { case 2 then show ?case using "2.IH"(2) key by (cases i) auto }
qed simp_all

text \<open>A cell whose inline value is exchanged for another of its length.\<close>

lemma value_cell:
  assumes ok: "4 + cell_slen c < length c" "c ! (4 + cell_slen c) = 0" and len: "length val = length c - (5 + cell_slen c)"
  defines "c' \<equiv> take (5 + cell_slen c) c @ val"
  shows "length c' = length c" "cell_plen c' = cell_plen c" "cell_slen c' = cell_slen c" "cell_key prev c' = cell_key prev c"
    "cell_ok Leaf prev l c \<Longrightarrow> cell_ok Leaf prev l c'" "cell_value c' = RInline val" "c' = take (4 + cell_slen c) c @ 0 # val"
proof -
  let ?s = "cell_slen c"
  show lc: "length c' = length c" using len ok(1) by (simp add: c'_def)
  have fields: "sub_bytes c' a l = sub_bytes c a l" if "a + l \<le> 4 + ?s" for a l
    using that ok(1) by (simp add: c'_def sub_bytes_def take_drop min_def)
  show p: "cell_plen c' = cell_plen c" and s: "cell_slen c' = ?s"
    using fields [of 0 2] fields [of 2 2] by (simp_all add: cell_plen_def cell_slen_def)
  show key: "cell_key prev c' = cell_key prev c" for prev using fields [of 4 ?s] by (simp add: cell_key_def p s)
  have b: "c' ! (4 + ?s) = c ! (4 + ?s)" using ok(1) by (simp add: c'_def nth_append)
  show "cell_ok Leaf prev l c \<Longrightarrow> cell_ok Leaf prev l c'"
    by (simp only: cell_ok_def p s key b lc page_type.case)
  have "drop (Suc (4 + ?s)) c' = val" using ok(1) by (simp add: c'_def)
  then show "cell_value c' = RInline val" using ok b by (simp add: cell_value_def s Let_def)
  show "c' = take (4 + ?s) c @ 0 # val" using ok take_Suc_conv_app_nth [of "4 + ?s" c] by (simp add: c'_def)
qed

lemma compressed_plens: "compressed n \<longleftrightarrow> (\<exists>p \<in> set (map (\<lambda>(k, c). cell_plen c) (slots n)). p \<noteq> 0)"
  by (force simp: compressed_def)

lemma write_at_self: "a + l \<le> length n \<Longrightarrow> write_at n a (sub_bytes n a l) = n"
  by (simp add: write_at_def sub_bytes_def) (metis append_take_drop_id drop_drop add.commute)

text \<open>The two writes of the code overwrite the cell.\<close>

lemma write_value_bytes:
  assumes "page_wf n" and "i < cnt n" and "4 + cell_slen (cell n i) < length (cell n i)"
    and "length val = length (cell n i) - (5 + cell_slen (cell n i))"
  shows "write_at (write_at n (soff n i + 4 + cell_slen (cell n i) + 1) val) (soff n i + 4 + cell_slen (cell n i)) [0]
    = write_at n (soff n i) (take (4 + cell_slen (cell n i)) (cell n i) @ 0 # val)"
proof -
  let ?c = "cell n i" and ?q = "soff n i" and ?s = "cell_slen (cell n i)"
  have fit: "?q + (5 + ?s) + length val \<le> length n"
    using page_wf_entry(3,6) [OF assms(1,2)] entry_readers(5) [OF assms(1,2)] assms(3,4) by simp
  have head: "take (4 + ?s) ?c = sub_bytes n ?q (4 + ?s)"
    using assms(3) cell_sub [of 0 "4 + ?s" n i] by (simp add: sub_bytes_def)
  have "write_at (write_at n (?q + 4 + ?s + 1) val) (?q + 4 + ?s) [0] = write_at n (?q + (4 + ?s)) (0 # val)"
    using fit write_at_prepend [of "?q + 4 + ?s + 1" "?q + 4 + ?s" "[0]" val n] by (simp add: add.assoc)
  also have "\<dots> = write_at (write_at n ?q (take (4 + ?s) ?c)) (?q + (4 + ?s)) (0 # val)"
    using fit write_at_self [of ?q "4 + ?s" n] by (simp add: head)
  also have "\<dots> = write_at n ?q (take (4 + ?s) ?c @ 0 # val)" using assms(3) fit by (intro write_at_append) simp_all
  finally show ?thesis .
qed

lemma replace_value_spec:
  assumes wf: "page_wf n" and leaf: "nh_page_type (hdr n) = Leaf" and i: "i < cnt n"
    and old: "leaf_entries n ! i = (key, RInline old)" and len: "length val = length old"
  shows "\<exists>n'. replace_value n i val = Some (Inr (), n') \<and> hdr n' = hdr n \<and> page_wf n' \<and> (page_valid n \<longrightarrow> page_valid n')
    \<and> compressed n' = compressed n \<and> leaf_entries n' = (leaf_entries n)[i := (key, RInline val)]"
proof -
  let ?c = "cell n i" and ?q = "soff n i"
  let ?s = "cell_slen ?c"
  let ?c' = "take (5 + ?s) ?c @ val"
  let ?n' = "write_at n ?q ?c'"
  have phys: "page_phys n" and len4: "length n = 4096" using wf by (simp_all add: page_wf_def page_phys_def)
  note e = page_wf_entry [OF wf i] and r = entry_readers [OF wf i]
  have "cell_value ?c = RInline old" using old i by (simp add: leaf_entries_nth)
  then have ok: "4 + ?s < length ?c" "?c ! (4 + ?s) = 0" "drop (5 + ?s) ?c = old"
    using e(1) leaf by (auto simp: cell_ok_def cell_value_def Let_def split: if_splits)
  have lv: "length val = length ?c - (5 + ?s)" using ok(3) len by (metis length_drop)
  note vc = value_cell [OF ok(1,2) lv]
  note ow = overwrite_cell [OF phys i vc(1)]
  have cs: "cells_ok Leaf [] (slots n)" using wf leaf by (simp add: page_wf_def)
  have up: "cells_ok Leaf [] (slots ?n')" "node_keys ?n' = node_keys n"
    using cells_update [OF cs _ _ vc(4,5), of i "sklen n i"] i nth_slots [OF i] by (simp_all add: ow(3) node_keys_def)
  have wf': "page_wf ?n'" using ow(1,2) up(1) leaf by (simp add: page_wf_def)
  have "byte_at n (?q + 4 + ?s) = Some 0"
    using ok cell_nth [of "4 + ?s" n i] e(3,6) r(5) by (simp add: page_simps add.assoc)
  then have run: "replace_value n i val = Some (Inr (), ?n')"
    using leaf i r(2,3) value_end_eq [OF wf i] len4 lv ok(1) r(5) [symmetric] write_value_bytes [OF wf i ok(1) lv, folded vc(7)] e(6)
    by (simp add: replace_value_def page_simps Let_def)
  have k: "node_keys n ! i = key" using old i by (simp add: leaf_entries_nth)
  have "map (\<lambda>(k, c). cell_value c) (slots ?n') = (map (\<lambda>(k, c). cell_value c) (slots n))[i := RInline val]"
    using ow(3) vc(6) by (simp add: map_update)
  then have "leaf_entries ?n' = (leaf_entries n)[i := (key, RInline val)]"
    using k i by (intro nth_equalityI) (auto simp: leaf_entries_def up(2) nth_list_update)
  moreover have "map (\<lambda>(k, c). cell_plen c) (slots ?n') = map (\<lambda>(k, c). cell_plen c) (slots n)"
    using i nth_slots [OF i] by (simp add: ow(3) map_update vc(2) list_update_same_conv)
  then have "compressed ?n' = compressed n" by (simp only: compressed_plens)
  moreover have "page_valid ?n'" if "page_valid n" using that wf' ow(1,4) by (simp add: page_valid_def)
  ultimately show ?thesis using run ow(1) wf' by blast
qed

end
