(* ===== verification/Node_Child.thy ===== *)
theory Node_Child
  imports Node_Replace
begin

text \<open>
  Internal pages: inserting a separator with the child on its right, \<open>src/src/btree/node/internal_mutation.rs\<close>.
  The specification of an internal page is its leftmost child and its list of separators and children.
\<close>

section \<open>The operations\<close>

definition insert_child_raw :: "node \<Rightarrow> bytes \<Rightarrow> u64 \<Rightarrow> nat \<Rightarrow> unit mutation" where
  "insert_child_raw n key child insertion_point = do {
     internal \<leftarrow> node_is_internal n;
     count \<leftarrow> node_count n;
     if \<not> internal \<or> insertion_point > count then Some (Inl WrongNodeType, n)
     else do {
       let entry_size = 4 + length key + 8;
       if entry_size > PAGE_SIZE - HEADER_SIZE - SLOT_SIZE then Some (Inl EntryTooLarge, n)
       else do {
         let slot_array_end = slot_array_start + (count + 1) * SLOT_SIZE;
         offset \<leftarrow> new_entry_offset n entry_size;
         (case offset of
            None \<Rightarrow> Some (Inl PageFull, n)
          | Some entry_offset \<Rightarrow>
              if slot_array_end + SLOT_SIZE > entry_offset then Some (Inl PageFull, n)
              else do {
                n1 \<leftarrow> copy_from_slice n entry_offset (u16_le 0);
                n2 \<leftarrow> copy_from_slice n1 (entry_offset + 2) (u16_le (word_of_nat (length key)));
                n3 \<leftarrow> copy_from_slice n2 (entry_offset + 2 + 2) key;
                n4 \<leftarrow> copy_from_slice n3 (entry_offset + 2 + 2 + length key) (u64_le child);
                n5 \<leftarrow> publish_slot n4 insertion_point count entry_offset (word_of_nat (length key));
                Some (Inr (), n5)
              })
       }
     }
   }"

fun read_child_entries :: "node \<Rightarrow> nat list \<Rightarrow> (insert_error + (bytes \<times> u64) list) exec" where
  "read_child_entries n [] = Some (Inr [])"
| "read_child_entries n (index # rest) =
     try_result (ok_or WrongNodeType (node_key n index)) (\<lambda>entry_key.
     try_result (ok_or WrongNodeType (child_id n index)) (\<lambda>entry_child.
     try_result (read_child_entries n rest) (\<lambda>entries. Some (Inr ((entry_key, entry_child) # entries)))))"

fun append_child_entries :: "node \<Rightarrow> (bytes \<times> u64) list \<Rightarrow> unit mutation" where
  "append_child_entries replacement [] = Some (Inr (), replacement)"
| "append_child_entries replacement ((key, child) # rest) = do {
     append_at \<leftarrow> node_count replacement;
     (r, replacement') \<leftarrow> insert_child_raw replacement key child append_at;
     (case r of Inl e \<Rightarrow> Some (Inl e, replacement') | Inr _ \<Rightarrow> append_child_entries replacement' rest)
   }"

text \<open>The part of \<open>insert_child\<close> after the search: a compressed page is rebuilt when the separator goes into
  its middle.\<close>

definition insert_child_at :: "node \<Rightarrow> bytes \<Rightarrow> u64 \<Rightarrow> nat \<Rightarrow> unit mutation" where
  "insert_child_at n key child insertion_point = do {
     count \<leftarrow> node_count n;
     prefix \<leftarrow> (if insertion_point < count then has_prefix_compression n else Some False);
     if prefix then do {
       parent_id \<leftarrow> node_parent_id n;
       leftmost \<leftarrow> leftmost_child n;
       r \<leftarrow> read_child_entries n [0..<count];
       (case r of
          Inl e \<Rightarrow> Some (Inl e, n)
        | Inr entries \<Rightarrow> do {
            let entries = take insertion_point entries @ (key, child) # drop insertion_point entries;
            fresh \<leftarrow> new_internal;
            fresh' \<leftarrow> set_parent_id fresh parent_id;
            replacement \<leftarrow> set_leftmost_child fresh' leftmost;
            (r, replacement') \<leftarrow> append_child_entries replacement entries;
            (case r of Inl e \<Rightarrow> Some (Inl e, n) | Inr _ \<Rightarrow> Some (Inr (), replacement'))
          })
     }
     else insert_child_raw n key child insertion_point
   }"

definition insert_child :: "node \<Rightarrow> bytes \<Rightarrow> u64 \<Rightarrow> unit mutation" where
  "insert_child n key child = do {
     internal \<leftarrow> node_is_internal n;
     if \<not> internal then Some (Inl WrongNodeType, n)
     else do {
       s \<leftarrow> node_search n key;
       insert_child_at n key child (case s of Inr index \<Rightarrow> index | Inl index \<Rightarrow> index)
     }
   }"

section \<open>Cells of separators\<close>

definition child_cell :: "bytes \<Rightarrow> u64 \<Rightarrow> bytes" where
  "child_cell key child = u16_le 0 @ u16_le (word_of_nat (length key)) @ key @ u64_le child"

lemma length_child_cell [simp]: "length (child_cell key child) = 12 + length key"
  by (simp add: child_cell_def)

lemma child_cell_fields:
  assumes "length key < 65536"
  shows "cell_plen (child_cell key child) = 0" "cell_slen (child_cell key child) = length key"
    "cell_key prev (child_cell key child) = key" "cell_child (child_cell key child) = child"
proof -
  show p: "cell_plen (child_cell key child) = 0"
    by (simp add: cell_plen_def child_cell_def append_field_simps)
  have "unat (word_of_nat (length key) :: u16) = length key" using assms by (simp add: unat_of_nat)
  then show s: "cell_slen (child_cell key child) = length key"
    by (simp add: cell_slen_def child_cell_def append_field_simps)
  show "cell_key prev (child_cell key child) = key"
    by (simp add: cell_key_def p s) (simp add: child_cell_def sub_bytes_def)
  show "cell_child (child_cell key child) = child"
    by (simp add: cell_child_def s) (simp add: child_cell_def sub_bytes_def)
qed

lemma child_cell_ok:
  assumes "length key < 65536" and "prev \<le> key"
  shows "cell_ok Internal prev (length key) (child_cell key child)"
  using assms child_cell_fields [OF assms(1), where child = child] by (simp add: cell_ok_def)

lemma copy_child_chain:
  assumes "eo + 12 + length key \<le> length n"
  shows "do { n1 \<leftarrow> copy_from_slice n eo (u16_le 0);
      n2 \<leftarrow> copy_from_slice n1 (eo + 2) (u16_le (word_of_nat (length key)));
      n3 \<leftarrow> copy_from_slice n2 (eo + 2 + 2) key;
      n4 \<leftarrow> copy_from_slice n3 (eo + 2 + 2 + length key) (u64_le child);
      f n4 } = f (write_at n eo (child_cell key child))"
  using assms by (simp add: page_simps write_at_append child_cell_def)

section \<open>Inserting one separator\<close>

lemma insert_child_raw_spec:
  assumes wf: "page_wf n" and inner: "nh_page_type (hdr n) = Internal" and ip: "ip \<le> cnt n"
    and ge: "prev_key (node_keys n) ip \<le> key" and le: "ip < cnt n \<Longrightarrow> key \<le> node_keys n ! ip"
    and plain: "ip < cnt n \<Longrightarrow> \<not> compressed n"
  shows "if 12 + length key > 4044 then insert_child_raw n key child ip = Some (Inl EntryTooLarge, n)
    else if free_of n < 12 + length key + 8 then insert_child_raw n key child ip = Some (Inl PageFull, n)
    else \<exists>n'. insert_child_raw n key child ip = Some (Inr (), n')
        \<and> entry_inserted child_entries n n' ip (key, child) (12 + length key)"
proof -
  let ?sz = "12 + length key" and ?c = "child_cell key child"
  have len: "length n = 4096" and phys: "page_phys n" using wf by (simp_all add: page_wf_def page_phys_def)
  consider "?sz > 4044" | "?sz \<le> 4044" "free_of n < ?sz + 8" | "?sz \<le> 4044" "?sz + 8 \<le> free_of n" by linarith
  then show ?thesis
  proof cases
    case 1
    then show ?thesis using len inner ip by (simp add: insert_child_raw_def page_simps Let_def)
  next
    case 2
    have "min_off n < ?sz \<or> 48 + 4 * (cnt n + 1) + 4 > min_off n - ?sz"
      using 2 free_of_eq [OF phys] by arith
    then show ?thesis
      using 2 len inner ip new_entry_offset_eq [OF phys, of ?sz]
      by (auto simp: insert_child_raw_def page_simps Let_def)
  next
    case 3
    define eo where "eo = min_off n - ?sz"
    have fit: "48 + 4 * (cnt n + 2) + ?sz \<le> min_off n" using 3 free_of_eq [OF phys] by simp
    have kl: "length key < 65536" "unat (word_of_nat (length key) :: u16) = length key"
      using 3 by (simp_all add: unat_of_nat)
    note f = child_cell_fields [OF kl(1), where child = child]
    have cok: "cell_ok (nh_page_type (hdr n)) (prev_key (node_keys n) ip) (unat (word_of_nat (length key) :: u16)) ?c"
      using child_cell_ok [OF kl(1) ge] by (simp add: kl(2) inner)
    obtain n' where n': "publish_slot (write_at n (min_off n - length ?c) ?c) ip (cnt n) (min_off n - length ?c) (word_of_nat (length key)) = Some n'"
      "page_wf n'" "free_of n' = free_of n - (length ?c + 4)"
      "hdr n' = (hdr n)\<lparr>nh_count := nh_count (hdr n) + 1, nh_free_space := nh_free_space (hdr n')\<rparr>"
      "slots n' = take ip (slots n) @ (unat (word_of_nat (length key) :: u16), ?c) # drop ip (slots n)"
      "node_keys n' = take ip (node_keys n) @ cell_key [] ?c # drop ip (node_keys n)"
      "compressed n' = compressed n" "le_u32 (sub_bytes n' 8 4) \<in> {1, 2}"
      using place_cell [OF wf ip _ f(1) _ cok] plain le 3(2) f(3) by (auto simp: add.assoc)
    have eo': "min_off n - length ?c = eo" by (simp add: eo_def)
    have off: "new_entry_offset n (4 + length key + 8) = Some (Some eo)"
      using new_entry_offset_eq [OF phys, of ?sz] 3 fit by (simp add: eo_def add.commute add.left_commute)
    have room: "\<not> slot_array_start + (cnt n + 1) * SLOT_SIZE + SLOT_SIZE > eo" using fit by (simp add: eo_def)
    have small: "\<not> 4 + length key + 8 > PAGE_SIZE - HEADER_SIZE - SLOT_SIZE" using 3 by simp
    have guard: "\<not> (\<not> True \<or> cnt n < ip)" using ip by simp
    have bnd: "eo + 12 + length key \<le> length n"
      using fit min_off_bounds(1) [OF phys] len by (simp add: eo_def)
    have run: "insert_child_raw n key child ip = Some (Inr (), n')"
      unfolding insert_child_raw_def node_kind_eq(2) [OF len] bind.bind_lunit inner Let_def node_count_eq [OF len]
        simp_thms(6) if_not_P [OF guard] if_not_P [OF small] off option.case if_not_P [OF room] copy_child_chain [OF bnd]
      using n'(1) [unfolded eo'] by simp
    have ent: "child_entries n' = insert_nth ip (key, child) (child_entries n)"
      using zip_insert_nth [of "node_keys n" "map (\<lambda>(k, c). cell_child c) (slots n)" ip key child] ip
      by (simp add: child_entries_def n'(5,6) f(3,4) insert_nth_def take_map drop_map)
    have "nh_magic (hdr n') = nh_magic (hdr n)" "nh_version (hdr n') = nh_version (hdr n)"
      by (subst n'(4); simp)+
    then have "page_valid n'" if "page_valid n"
      using that n'(2,8) by (simp add: page_valid_def nh_is_valid_def)
    moreover have "same_place n n'" unfolding same_place_def by (subst (1 2 3) n'(4)) simp
    ultimately show ?thesis
      using 3 run n' ent by (simp add: entry_inserted_def)
  qed
qed

section \<open>The contract of entry pages\<close>

definition child_size :: "bytes \<times> u64 \<Rightarrow> nat" where "child_size e = 12 + length (fst e)"

interpretation inner: entry_pages Internal "\<lambda>n e ip. insert_child_raw n (fst e) (snd e) ip" append_child_entries
  child_entries "\<lambda>e. e" child_size "\<lambda>_. True"
proof
  show "if 4044 < child_size e then insert_child_raw n (fst e) (snd e) ip = Some (Inl EntryTooLarge, n)
      else if free_of n < child_size e + 8 then insert_child_raw n (fst e) (snd e) ip = Some (Inl PageFull, n)
      else \<exists>n'. insert_child_raw n (fst e) (snd e) ip = Some (Inr (), n') \<and> entry_inserted child_entries n n' ip e (child_size e)"
    if "page_wf n" "nh_page_type (hdr n) = Internal" "ip \<le> cnt n" "prev_key (node_keys n) ip \<le> fst e"
      "ip < cnt n \<Longrightarrow> fst e \<le> node_keys n ! ip" "ip < cnt n \<Longrightarrow> \<not> compressed n" for n ip and e :: "bytes \<times> u64"
    by (rule insert_child_raw_spec [where child = "snd e" and key = "fst e", unfolded prod.collapse, folded child_size_def]) (fact that)+
qed (auto split: prod.splits)

lemma fresh_internal:
  assumes "nh_page_type (hdr n) = Internal"
  obtains f f' rep where "new_internal = Some f" "set_parent_id f (nh_parent_id (hdr n)) = Some f'"
    "set_leftmost_child f' (nh_leftmost_child (hdr n)) = Some rep" "blank_for n rep"
proof -
  obtain f where f: "node_new Internal = Some f" by (simp add: node_new_eq)
  note v = node_new_views [OF f]
  have wf: "page_wf f" using v(4) by (simp add: page_valid_def)
  let ?h1 = "(hdr f)\<lparr>nh_parent_id := nh_parent_id (hdr n)\<rparr>"
  let ?f' = "write_at f 0 (nh_to_bytes ?h1)"
  note r1 = page_wf_set_header [OF wf, of ?h1, simplified]
  have v1: "page_valid ?f'" using page_valid_set_header [OF v(4), of ?h1] by simp
  let ?h2 = "(hdr ?f')\<lparr>nh_leftmost_child := nh_leftmost_child (hdr n)\<rparr>"
  let ?rep = "write_at ?f' 0 (nh_to_bytes ?h2)"
  note r2 = page_wf_set_header [OF r1(1), of ?h2, simplified]
  have v2: "page_valid ?rep" using page_valid_set_header [OF v1, of ?h2] by simp
  have s1: "set_parent_id f (nh_parent_id (hdr n)) = Some ?f'"
    using wf by (simp add: set_parent_id_def page_simps)
  have s2: "set_leftmost_child ?f' (nh_leftmost_child (hdr n)) = Some ?rep"
    using r1(1) by (simp add: set_leftmost_child_def page_simps)
  have "cnt ?rep = 0" using length_slots [of ?rep] r2(2) r1(2) v(3) by (simp del: length_slots)
  then show thesis
    using that [of f ?f' ?rep] f s1 s2 v2 r1 r2 v(1) wf assms
    by (simp add: new_internal_def nh_new_def free_of_def blank_for_def same_place_def)
qed

lemma read_child_entries_eq:
  assumes "page_wf n" and "nh_page_type (hdr n) = Internal"
  shows "list_all (\<lambda>i. i < cnt n) is \<Longrightarrow> read_child_entries n is = Some (Inr (map (\<lambda>i. child_entries n ! i) is))"
  using node_key_eq [OF assms(1)] child_id_eq [OF assms]
  by (induction "is") (auto simp: child_entries_nth)

interpretation inner: entry_insertion Internal "\<lambda>n e ip. insert_child_raw n (fst e) (snd e) ip" append_child_entries
  child_entries "\<lambda>e. e" child_size "\<lambda>_. True" "\<lambda>n e ip. insert_child_at n (fst e) (snd e) ip" "\<lambda>e. e"
proof
  fix n ip and e :: "bytes \<times> u64"
  assume wf: "page_wf n" and inner: "nh_page_type (hdr n) = Internal" and ip: "ip \<le> cnt n"
  obtain f f' rep where r: "new_internal = Some f" "set_parent_id f (nh_parent_id (hdr n)) = Some f'"
    "set_leftmost_child f' (nh_leftmost_child (hdr n)) = Some rep" "blank_for n rep"
    by (rule fresh_internal [OF inner])
  have "map (\<lambda>i. child_entries n ! i) [0..<cnt n] = child_entries n"
    by (rule nth_equalityI) simp_all
  then have rd: "read_child_entries n [0..<cnt n] = Some (Inr (child_entries n))"
    using read_child_entries_eq [OF wf inner, of "[0..<cnt n]"] by (simp add: list_all_iff)
  have "insert_child_at n (fst e) (snd e) ip =
      (if ip < cnt n \<and> compressed n then do {
         (res, n') \<leftarrow> append_child_entries rep (insert_nth ip e (map (\<lambda>e. e) (child_entries n)));
         (case res of Inl x \<Rightarrow> Some (Inl x, n) | Inr _ \<Rightarrow> Some (Inr (), n')) }
       else insert_child_raw n (fst e) (snd e) ip)"
    using wf has_prefix_compression_eq [OF wf]
    by (auto simp: insert_child_at_def page_simps Let_def rd r(1-3) insert_nth_def)
  with r(4) show "\<exists>rep. blank_for n rep \<and> insert_child_at n (fst e) (snd e) ip =
      (if ip < cnt n \<and> compressed n then do {
         (res, n') \<leftarrow> append_child_entries rep (insert_nth ip e (map (\<lambda>e. e) (child_entries n)));
         (case res of Inl x \<Rightarrow> Some (Inl x, n) | Inr _ \<Rightarrow> Some (Inr (), n')) }
       else insert_child_raw n (fst e) (snd e) ip)" by blast
qed simp_all

abbreviation inner_after :: "node \<Rightarrow> node \<Rightarrow> (bytes \<times> u64) list \<Rightarrow> bool" where
  "inner_after \<equiv> page_after child_entries"

lemma insert_child_spec:
  fixes key :: bytes
  assumes wf: "page_wf n" and inner: "nh_page_type (hdr n) = Internal"
  defines "p \<equiv> lower_bound (node_keys n) key"
  shows "(\<exists>e. insert_child n key child = Some (Inl e, n))
    \<or> (\<exists>n'. insert_child n key child = Some (Inr (), n') \<and> inner_after n n' (insert_nth p (key, child) (child_entries n)))"
    and "\<not> compressed n \<Longrightarrow> 12 + length key + 8 \<le> free_of n \<Longrightarrow>
      \<exists>n'. insert_child n key child = Some (Inr (), n') \<and> inner_after n n' (insert_nth p (key, child) (child_entries n))
        \<and> free_of n' = free_of n - (12 + length key + 4) \<and> \<not> compressed n'"
    and "\<not> compressed n \<Longrightarrow> free_of n < 12 + length key + 8 \<Longrightarrow> \<exists>e \<in> {PageFull, EntryTooLarge}. insert_child n key child = Some (Inl e, n)"
proof -
  have "node_search n key = Some (if key \<in> set (node_keys n) then Inr p else Inl p)"
    using node_search_eq [OF wf, of key] by (simp add: search_spec_def Let_def p_def)
  then have run: "insert_child n key child = insert_child_at n key child p"
    using wf inner by (simp add: insert_child_def page_simps)
  note sp = inner.ins_spec [OF wf inner, of p "(key, child)"] and pos = lower_bound_position [OF wf, of key, folded p_def]
  show "(\<exists>e. insert_child n key child = Some (Inl e, n))
    \<or> (\<exists>n'. insert_child n key child = Some (Inr (), n') \<and> inner_after n n' (insert_nth p (key, child) (child_entries n)))"
    using sp(1) pos by (simp add: run)
  show "\<exists>n'. insert_child n key child = Some (Inr (), n') \<and> inner_after n n' (insert_nth p (key, child) (child_entries n))
      \<and> free_of n' = free_of n - (12 + length key + 4) \<and> \<not> compressed n'"
    if "\<not> compressed n" "12 + length key + 8 \<le> free_of n"
    using sp(2) pos that by (simp add: run child_size_def)
  show "\<exists>e \<in> {PageFull, EntryTooLarge}. insert_child n key child = Some (Inl e, n)"
    if "\<not> compressed n" "free_of n < 12 + length key + 8"
    using sp(3) pos that by (simp add: run child_size_def)
qed

end
