(* ===== verification/Node_Split.thy ===== *)
theory Node_Split
  imports Node_Child
begin

text \<open>
  Splitting a page, \<open>src/src/btree/node/split.rs\<close>. Both halves are rebuilt on fresh pages; the page itself is
  replaced only after both are complete, so an error leaves it as it was.
\<close>

section \<open>The operation\<close>

datatype split_error = TooFewKeys | SplitCorruption | SplitInsertFailed

text \<open>The copying loops, over the indices of the entries that move.\<close>

fun split_leaf_loop :: "node \<Rightarrow> nat list \<Rightarrow> node \<Rightarrow> (split_error + node) exec" where
  "split_leaf_loop n [] half = Some (Inr half)"
| "split_leaf_loop n (index # rest) half =
     try_result (ok_or SplitCorruption (node_key n index)) (\<lambda>key.
     try_result (ok_or SplitCorruption (node_value n index)) (\<lambda>v. do {
       insertion_point \<leftarrow> upper_bound half key;
       (r, half') \<leftarrow> (case v of
          RInline data \<Rightarrow> insert_leaf_value half key VInline data insertion_point
        | RBlob pointer \<Rightarrow> insert_leaf_value half key VBlobPointer (bp_to_bytes pointer) insertion_point
        | RTombstone \<Rightarrow> insert_leaf_value half key VTombstone [] insertion_point);
       (case r of Inl _ \<Rightarrow> Some (Inl SplitInsertFailed) | Inr _ \<Rightarrow> split_leaf_loop n rest half')
     }))"

fun split_child_loop :: "node \<Rightarrow> nat list \<Rightarrow> node \<Rightarrow> (split_error + node) exec" where
  "split_child_loop n [] half = Some (Inr half)"
| "split_child_loop n (index # rest) half =
     try_result (ok_or SplitCorruption (node_key n index)) (\<lambda>key.
     try_result (ok_or SplitCorruption (child_id n index)) (\<lambda>child. do {
       (r, half') \<leftarrow> insert_child half key child;
       (case r of Inl _ \<Rightarrow> Some (Inl SplitInsertFailed) | Inr _ \<Rightarrow> split_child_loop n rest half')
     }))"

definition split_right :: "node \<Rightarrow> nat \<Rightarrow> nat \<Rightarrow> (split_error + node) exec" where
  "split_right n mid count = do {
     leaf \<leftarrow> node_is_leaf n;
     if leaf then do {
       right \<leftarrow> new_leaf;
       split_leaf_loop n [mid..<count] right
     }
     else do {
       right \<leftarrow> new_internal;
       try_result (ok_or SplitCorruption (child_id n mid)) (\<lambda>right_leftmost. do {
         right' \<leftarrow> set_leftmost_child right right_leftmost;
         split_child_loop n [mid + 1..<count] right'
       })
     }
   }"

definition split_left :: "node \<Rightarrow> nat \<Rightarrow> (split_error + node) exec" where
  "split_left n mid = do {
     leaf \<leftarrow> node_is_leaf n;
     parent_id \<leftarrow> node_parent_id n;
     if leaf then do {
       left \<leftarrow> new_leaf;
       left' \<leftarrow> set_parent_id left parent_id;
       split_leaf_loop n [0..<mid] left'
     }
     else do {
       leftmost \<leftarrow> leftmost_child n;
       left \<leftarrow> new_internal;
       left' \<leftarrow> set_parent_id left parent_id;
       left'' \<leftarrow> set_leftmost_child left' leftmost;
       split_child_loop n [0..<mid] left''
     }
   }"

definition node_split :: "node \<Rightarrow> ((split_error + bytes \<times> node) \<times> node) exec" where
  "node_split n = do {
     count \<leftarrow> node_count n;
     if count < 2 then Some (Inl TooFewKeys, n)
     else do {
       let mid = count div 2;
       k \<leftarrow> node_key n mid;
       (case k of
          None \<Rightarrow> Some (Inl SplitCorruption, n)
        | Some median_key \<Rightarrow> do {
            r \<leftarrow> split_right n mid count;
            (case r of
               Inl e \<Rightarrow> Some (Inl e, n)
             | Inr right \<Rightarrow> do {
                 l \<leftarrow> split_left n mid;
                 (case l of Inl e \<Rightarrow> Some (Inl e, n) | Inr left \<Rightarrow> Some (Inr (median_key, right), left))
               })
          })
     }
   }"

section \<open>The copying loops\<close>

text \<open>What a loop that appends gives, with every error as a failed insertion.\<close>

definition copied :: "unit mutation \<Rightarrow> (split_error + node) exec" where
  "copied m = map_option (\<lambda>(r, n). case r of Inl _ \<Rightarrow> Inl SplitInsertFailed | Inr _ \<Rightarrow> Inr n) m"

lemma copied_simps [simp]: "copied (Some (Inl e, n)) = Some (Inl SplitInsertFailed)" "copied (Some (Inr u, n)) = Some (Inr n)" "copied None = None"
  by (simp_all add: copied_def)

lemma split_leaf_loop_rebuild:
  assumes "page_wf n" and "nh_page_type (hdr n) = Leaf" and "list_all (\<lambda>i. i < cnt n) is"
  shows "split_leaf_loop n is half = copied (rebuild_leaf_entries half (map (\<lambda>i. own (leaf_entries n ! i)) is))"
  using assms(3)
proof (induction "is" arbitrary: half)
  case (Cons i "is")
  then have i: "i < cnt n" by simp
  let ?k = "node_keys n ! i" and ?v = "cell_value (cell n i)"
  obtain vt val where o': "owned_value ?v = (vt, val)" by (cases "owned_value ?v")
  have v: "(case ?v of RInline data \<Rightarrow> insert_leaf_value half ?k VInline data p
        | RBlob pointer \<Rightarrow> insert_leaf_value half ?k VBlobPointer (bp_to_bytes pointer) p
        | RTombstone \<Rightarrow> insert_leaf_value half ?k VTombstone [] p) = insert_leaf_value half ?k vt val p" for p
    using o' by (cases ?v) auto
  have "own (leaf_entries n ! i) = (?k, vt, val)" using i o' by (simp add: own_def leaf_entries_nth)
  then show ?case
    using Cons node_key_eq [OF assms(1) i] node_value_eq [OF assms(1,2) i]
    by (cases "upper_bound half ?k"; cases "insert_leaf_value half ?k vt val (the (upper_bound half ?k))")
      (auto simp: v split: sum.split)
qed simp

lemma split_leaf_loop_eq:
  assumes "page_wf n" and "nh_page_type (hdr n) = Leaf" and "is = [a..<b]" and "b \<le> cnt n"
    and "blank_for m half" and "nh_page_type (hdr m) = Leaf"
  shows "split_leaf_loop n is half = copied (append_leaf_entries half (map own (take (b - a) (drop a (leaf_entries n)))))"
proof -
  let ?es = "take (b - a) (drop a (leaf_entries n))"
  have es: "map (\<lambda>i. own (leaf_entries n ! i)) is = map own ?es"
    using assms(3,4) by (intro nth_equalityI) simp_all
  have "sorted (map fst (leaf_entries n))" using node_keys_sorted [OF assms(1)] by simp
  then have srt: "sorted (map fst (map own ?es))"
    by (simp add: o_def own_def take_map [symmetric] drop_map [symmetric] sorted_wrt_take sorted_wrt_drop)
  have tok: "list_all trip_ok (map own ?es)" by (simp add: list.pred_map o_def list.pred_True)
  have "nh_page_type (hdr half) = Leaf" using assms(5,6) by (simp add: blank_for_def same_place_def)
  then have "rebuild_leaf_entries half (map own ?es) = append_leaf_entries half (map own ?es)"
    using blank_plain [OF assms(5)] srt tok by (intro rebuild_leaf_entries_eq) simp_all
  moreover have "list_all (\<lambda>i. i < cnt n) is" using assms(3,4) by (auto simp: list_all_iff)
  ultimately show ?thesis using split_leaf_loop_rebuild [OF assms(1,2)] by (simp add: es)
qed

lemma lower_bound_all: "(\<And>k. k \<in> set ks \<Longrightarrow> k < key) \<Longrightarrow> lower_bound ks key = length ks"
  unfolding lower_bound_def by (rule length_takeWhile_eqI) simp_all

lemma insert_child_end:
  assumes "page_wf n" and "nh_page_type (hdr n) = Internal" and "\<And>k. k \<in> set (node_keys n) \<Longrightarrow> k < key"
  shows "insert_child n key child = insert_child_raw n key child (cnt n)"
proof -
  have lb: "lower_bound (node_keys n) key = cnt n" using lower_bound_all [OF assms(3)] by simp
  have "node_search n key = Some (if key \<in> set (node_keys n) then Inr (cnt n) else Inl (cnt n))"
    using node_search_eq [OF assms(1), of key] by (simp add: search_spec_def Let_def lb)
  then show ?thesis
    using assms(1,2) by (simp add: insert_child_def insert_child_at_def page_simps)
qed

text \<open>Separators are distinct, so that each of them goes to the end of the half under construction.\<close>

lemma split_child_loop_append:
  assumes "page_wf n" and "nh_page_type (hdr n) = Internal" and "list_all (\<lambda>i. i < cnt n) is"
    and "page_wf half" and "nh_page_type (hdr half) = Internal"
    and "sorted_wrt (<) (node_keys half @ map ((!) (node_keys n)) is)"
  shows "split_child_loop n is half = copied (append_child_entries half (map ((!) (child_entries n)) is))"
  using assms(3-)
proof (induction "is" arbitrary: half)
  case (Cons i "is")
  then have i: "i < cnt n" by simp
  let ?k = "node_keys n ! i" and ?c = "cell_child (cell n i)"
  have lt: "\<And>k. k \<in> set (node_keys half) \<Longrightarrow> k < ?k" using Cons.prems(4) by (auto simp: sorted_wrt_append)
  note ic = insert_child_end [OF Cons.prems(2,3) lt, where child = ?c]
  have e: "child_entries n ! i = (?k, ?c)" using i by (rule child_entries_nth)
  have rest: "split_child_loop n is half' = copied (append_child_entries half' (map ((!) (child_entries n)) is))"
    if run: "insert_child_raw half ?k ?c (cnt half) = Some (Inr u, half')" for u half'
  proof -
    have ge: "prev_key (node_keys half) (cnt half) \<le> ?k" using lt by (intro prev_key_le [OF Cons.prems(2)]) (auto intro: less_imp_le)
    have ins: "entry_inserted child_entries half half' (cnt half) (?k, ?c) (12 + length ?k)"
      using insert_child_raw_spec [OF Cons.prems(2,3) order_refl ge, where child = ?c] run by (auto split: if_splits)
    then have "child_entries half' = child_entries half @ [(?k, ?c)]" by (simp add: entry_inserted_def)
    then have "map fst (child_entries half') = node_keys half @ [?k]" by simp
    then have ks: "node_keys half' = node_keys half @ [?k]" by simp
    show ?thesis
      using Cons.prems ins by (intro Cons.IH) (simp_all add: ks entry_inserted_def same_place_def)
  qed
  show ?case
    using node_key_eq [OF assms(1) i] child_id_eq [OF assms(1,2) i] Cons.prems(2) rest
    by (cases "insert_child_raw half ?k ?c (cnt half)") (auto simp: e ic page_simps split: sum.split)
qed simp

lemma split_child_loop_eq:
  assumes "page_wf n" and "nh_page_type (hdr n) = Internal" and "distinct (node_keys n)" and "is = [a..<b]" and "b \<le> cnt n"
    and "blank_for m half" and "nh_page_type (hdr m) = Internal"
  shows "split_child_loop n is half = copied (append_child_entries half (take (b - a) (drop a (child_entries n))))"
proof -
  have es: "map ((!) (child_entries n)) is = take (b - a) (drop a (child_entries n))"
    "map ((!) (node_keys n)) is = take (b - a) (drop a (node_keys n))"
    using assms(4,5) by (auto intro!: nth_equalityI)
  have "sorted_wrt (<) (node_keys n)" using node_keys_sorted [OF assms(1)] assms(3) by (simp add: strict_sorted_iff)
  then have "sorted_wrt (<) (node_keys half @ map ((!) (node_keys n)) is)"
    using blank_plain [OF assms(6)] by (simp add: es sorted_wrt_take sorted_wrt_drop)
  moreover have "nh_page_type (hdr half) = Internal" using assms(6,7) by (simp add: blank_for_def same_place_def)
  moreover have "list_all (\<lambda>i. i < cnt n) is" using assms(4,5) by (auto simp: list_all_iff)
  ultimately show ?thesis
    using split_child_loop_append [OF assms(1,2), of "is" half] blank_plain [OF assms(6)] unfolding es by blast
qed

section \<open>What a split does\<close>

lemma blank_self:
  assumes "node_new t = Some f"
  shows "blank_for f f" "nh_page_type (hdr f) = t" "nh_parent_id (hdr f) = 0"
  using node_new_views [OF assms] by (auto simp: blank_for_def nh_new_def free_of_def cnt_def)

lemma leaf_halves:
  assumes wf: "page_wf n" and leaf: "nh_page_type (hdr n) = Leaf" and mid: "mid \<le> cnt n"
  shows "split_right n mid (cnt n) = Some (Inl SplitInsertFailed)
      \<or> (\<exists>f right. new_leaf = Some f \<and> split_right n mid (cnt n) = Some (Inr right) \<and> page_after leaf_entries f right (drop mid (leaf_entries n)) \<and> \<not> compressed right)" (is ?R)
    and "split_left n mid = Some (Inl SplitInsertFailed)
      \<or> (\<exists>left. split_left n mid = Some (Inr left) \<and> page_after leaf_entries n left (take mid (leaf_entries n)) \<and> \<not> compressed left \<and> page_valid left)" (is ?L)
    and "\<not> compressed n \<Longrightarrow> 0 < mid \<Longrightarrow> mid < cnt n \<Longrightarrow>
      split_right n mid (cnt n) \<noteq> Some (Inl SplitInsertFailed) \<and> split_left n mid \<noteq> Some (Inl SplitInsertFailed)"
proof -
  let ?es = "leaf_entries n"
  obtain f where f: "node_new Leaf = Some f" by (simp add: node_new_eq)
  note b = blank_self [OF f]
  obtain f' rep where r: "new_leaf = Some f'" "set_parent_id f' (nh_parent_id (hdr n)) = Some rep" "blank_for n rep"
    by (rule fresh_leaf [OF leaf])
  have R: "split_right n mid (cnt n) = copied (append_leaf_entries f (map own (drop mid ?es)))"
    using split_leaf_loop_eq [OF wf leaf refl order_refl b(1,2), of mid] wf leaf f by (simp add: split_right_def page_simps new_leaf_def)
  have L: "split_left n mid = copied (append_leaf_entries rep (map own (take mid ?es)))"
    using split_leaf_loop_eq [OF wf leaf refl mid r(3) leaf, of 0] wf leaf by (simp add: split_left_def page_simps r(1,2))
  have srt: "sorted (map (fst \<circ> trip_entry) (map own (drop mid ?es)))" "sorted (map (fst \<circ> trip_entry) (map own (take mid ?es)))"
    using node_keys_sorted [OF wf] by (simp_all add: o_def own_def take_map [symmetric] drop_map [symmetric] sorted_wrt_take sorted_wrt_drop)
  have tok: "list_all trip_ok (map own es)" for es by (simp add: list.pred_map o_def list.pred_True)
  have ent: "map trip_entry (map own es) = es" for es by (simp add: o_def)
  note ar = leaf.append_blank [OF b(1,2) srt(1) tok, unfolded ent need_own]
    and al = leaf.append_blank [OF r(3) leaf srt(2) tok, unfolded ent need_own]
  show ?R using ar f by (auto simp: R new_leaf_def split: if_splits)
  show ?L using al by (auto simp: L split: if_splits)
  show "split_right n mid (cnt n) \<noteq> Some (Inl SplitInsertFailed) \<and> split_left n mid \<noteq> Some (Inl SplitInsertFailed)"
    if "\<not> compressed n" "0 < mid" "mid < cnt n"
  proof -
    have sp: "space (take mid ?es) + space (drop mid ?es) \<le> 4048"
      using plain_space [OF wf leaf that(1)] space_simps(3) [of "take mid ?es" "drop mid ?es"] by simp
    have pos: "4 \<le> space es" if "es \<noteq> []" for es using that by (cases es) simp_all
    have "?es \<noteq> []" using that length_entries(1) [of n] by (auto simp del: length_entries)
    then have "4 \<le> space (take mid ?es)" "4 \<le> space (drop mid ?es)" using that by (auto intro!: pos)
    then have fit: "space (drop mid ?es) + 4 \<le> 4048" "space (take mid ?es) + 4 \<le> 4048" using sp by simp_all
    then show ?thesis using ar al by (auto simp: R L)
  qed
qed

lemma child_space:
  assumes "page_wf n" and "nh_page_type (hdr n) = Internal" and "\<not> compressed n"
  shows "inner.need (child_entries n) + free_of n \<le> 4048"
proof -
  have "child_size (child_entries n ! i) \<le> length (cell n i)" if i: "i < cnt n" for i
  proof -
    note e = page_wf_entry [OF assms(1) i]
    have "(sklen n i, cell n i) \<in> set (slots n)" using i nth_slots [OF i] nth_mem [of i "slots n"] by simp
    then have "cell_plen (cell n i) = 0" using assms(3) by (auto simp: compressed_def)
    then have "length (node_keys n ! i) = cell_slen (cell n i)" using entry_readers(4) [OF assms(1) i] e(2) by (simp add: cell_key_def)
    then show ?thesis using e(1) assms(2) i by (simp add: cell_ok_def child_size_def child_entries_nth)
  qed
  then have "(\<Sum>i<cnt n. child_size (child_entries n ! i)) \<le> (\<Sum>i<cnt n. length (cell n i))" by (intro sum_mono) simp
  moreover have "inner.need (child_entries n) = (\<Sum>i<cnt n. child_size (child_entries n ! i)) + 4 * cnt n"
    unfolding inner.need_def by (simp add: sum_list_sum_nth atLeast0LessThan sum.distrib)
  ultimately show ?thesis using cells_space [of n] assms(1) by (simp add: page_wf_def)
qed

lemma need_append: "inner.need (xs @ ys) = inner.need xs + inner.need ys"
  by (simp add: inner.need_def)

lemma inner_halves:
  assumes wf: "page_wf n" and inner: "nh_page_type (hdr n) = Internal" and dis: "distinct (node_keys n)" and mid: "mid < cnt n"
  shows "split_right n mid (cnt n) = Some (Inl SplitInsertFailed)
      \<or> (\<exists>f right. nh_page_type (hdr f) = Internal \<and> nh_parent_id (hdr f) = 0 \<and> nh_leftmost_child (hdr f) = snd (child_entries n ! mid) \<and> page_valid f
        \<and> split_right n mid (cnt n) = Some (Inr right) \<and> page_after child_entries f right (drop (mid + 1) (child_entries n)) \<and> \<not> compressed right)" (is ?R)
    and "split_left n mid = Some (Inl SplitInsertFailed)
      \<or> (\<exists>left. split_left n mid = Some (Inr left) \<and> page_after child_entries n left (take mid (child_entries n)) \<and> \<not> compressed left \<and> page_valid left)" (is ?L)
    and "\<not> compressed n \<Longrightarrow>
      split_right n mid (cnt n) \<noteq> Some (Inl SplitInsertFailed) \<and> split_left n mid \<noteq> Some (Inl SplitInsertFailed)"
proof -
  let ?es = "child_entries n"
  obtain f0 where f0: "node_new Internal = Some f0" by (simp add: node_new_eq)
  note v = node_new_views [OF f0]
  let ?h = "(hdr f0)\<lparr>nh_leftmost_child := snd (?es ! mid)\<rparr>"
  define f where "f = write_at f0 0 (nh_to_bytes ?h)"
  have wf0: "page_wf f0" using v(4) by (simp add: page_valid_def)
  note h = page_wf_set_header [OF wf0, of ?h, simplified, folded f_def]
  have pv: "page_valid f" using page_valid_set_header [OF v(4), of ?h] by (simp add: f_def)
  have sl: "set_leftmost_child f0 (snd (?es ! mid)) = Some f" using wf0 by (simp add: set_leftmost_child_def page_simps f_def)
  have "cnt f = 0" using length_slots [of f] h(2) v(3) by (simp del: length_slots)
  then have b: "blank_for f f" "nh_page_type (hdr f) = Internal" "nh_parent_id (hdr f) = 0" "nh_leftmost_child (hdr f) = snd (?es ! mid)"
    using h v(1) pv wf0 by (simp_all add: blank_for_def free_of_def nh_new_def f_def)
  obtain f1 f1' rep where r: "new_internal = Some f1" "set_parent_id f1 (nh_parent_id (hdr n)) = Some f1'"
    "set_leftmost_child f1' (nh_leftmost_child (hdr n)) = Some rep" "blank_for n rep"
    by (rule fresh_internal [OF inner])
  have cid: "child_id n mid = Some (Some (snd (?es ! mid)))" using child_id_eq [OF wf inner mid] child_entries_nth [OF mid] by simp
  have R: "split_right n mid (cnt n) = copied (append_child_entries f (drop (mid + 1) ?es))"
    using split_child_loop_eq [OF wf inner dis refl order_refl b(1,2), of "mid + 1"] wf inner f0 sl cid
    by (simp add: split_right_def page_simps new_internal_def)
  have L: "split_left n mid = copied (append_child_entries rep (take mid ?es))"
    using split_child_loop_eq [OF wf inner dis refl _ r(4) inner, of mid 0] wf inner mid by (simp add: split_left_def page_simps r(1-3))
  have srt: "sorted (map (fst \<circ> (\<lambda>e. e)) (drop (mid + 1) ?es))" "sorted (map (fst \<circ> (\<lambda>e. e)) (take mid ?es))"
    using node_keys_sorted [OF wf] by (simp_all add: o_def take_map [symmetric] drop_map [symmetric] sorted_wrt_take sorted_wrt_drop)
  have tok: "list_all (\<lambda>_. True) es" for es :: "(bytes \<times> u64) list" by (simp add: list.pred_True)
  note ar = inner.append_blank [OF b(1,2) srt(1) tok, unfolded list.map_ident]
    and al = inner.append_blank [OF r(4) inner srt(2) tok, unfolded list.map_ident]
  show ?R using ar b pv by (auto simp: R split: if_splits)
  show ?L using al by (auto simp: L split: if_splits)
  show "split_right n mid (cnt n) \<noteq> Some (Inl SplitInsertFailed) \<and> split_left n mid \<noteq> Some (Inl SplitInsertFailed)"
    if "\<not> compressed n"
  proof -
    have "?es = take mid ?es @ ?es ! mid # drop (mid + 1) ?es" using mid id_take_nth_drop [of mid ?es] by simp
    then have "inner.need ?es = inner.need (take mid ?es) + (child_size (?es ! mid) + 4 + inner.need (drop (mid + 1) ?es))"
      by (metis need_append inner.need_simps(2))
    moreover have "12 \<le> child_size (?es ! mid)" by (simp add: child_size_def)
    ultimately have "inner.need (take mid ?es) + 4 \<le> 4048" "inner.need (drop (mid + 1) ?es) + 4 \<le> 4048"
      using child_space [OF wf inner that] by simp_all
    then show ?thesis using ar al by (auto simp: R L)
  qed
qed

text \<open>The page that a split moves the upper entries to.\<close>

definition new_half :: "(node \<Rightarrow> (bytes \<times> 'v) list) \<Rightarrow> page_type \<Rightarrow> node \<Rightarrow> (bytes \<times> 'v) list \<Rightarrow> bool" where
  "new_half view t right es \<longleftrightarrow> page_valid right \<and> page_wf right \<and> nh_page_type (hdr right) = t \<and> nh_parent_id (hdr right) = 0
     \<and> view right = es \<and> \<not> compressed right \<and> 4 \<le> free_of right"

definition kept_half :: "(node \<Rightarrow> (bytes \<times> 'v) list) \<Rightarrow> node \<Rightarrow> node \<Rightarrow> (bytes \<times> 'v) list \<Rightarrow> bool" where
  "kept_half view n left es \<longleftrightarrow> page_after view n left es \<and> page_valid left \<and> \<not> compressed left"

lemma node_split_few: "page_wf n \<Longrightarrow> cnt n < 2 \<Longrightarrow> node_split n = Some (Inl TooFewKeys, n)"
  by (simp add: node_split_def page_simps)

lemma node_split_unfold:
  assumes "page_wf n" and "2 \<le> cnt n"
  shows "node_split n = do {
     r \<leftarrow> split_right n (cnt n div 2) (cnt n);
     (case r of Inl e \<Rightarrow> Some (Inl e, n)
      | Inr right \<Rightarrow> do {
          l \<leftarrow> split_left n (cnt n div 2);
          (case l of Inl e \<Rightarrow> Some (Inl e, n) | Inr left \<Rightarrow> Some (Inr (node_keys n ! (cnt n div 2), right), left)) }) }"
  using assms node_key_eq [OF assms(1), of "cnt n div 2"] by (simp add: node_split_def page_simps Let_def)

lemma node_split_leaf:
  assumes wf: "page_wf n" and leaf: "nh_page_type (hdr n) = Leaf" and two: "2 \<le> cnt n"
  defines "mid \<equiv> cnt n div 2"
  shows "node_split n = Some (Inl SplitInsertFailed, n)
      \<or> (\<exists>left right. node_split n = Some (Inr (node_keys n ! mid, right), left)
          \<and> kept_half leaf_entries n left (take mid (leaf_entries n)) \<and> new_half leaf_entries Leaf right (drop mid (leaf_entries n)))"
    and "\<not> compressed n \<Longrightarrow> node_split n \<noteq> Some (Inl SplitInsertFailed, n)"
proof -
  have mid: "0 < mid" "mid < cnt n" "mid \<le> cnt n" using two by (simp_all add: mid_def)
  note u = node_split_unfold [OF wf two, folded mid_def] and h = leaf_halves [OF wf leaf mid(3)]
  obtain f where f: "node_new Leaf = Some f" "page_valid f" by (metis node_new_eq node_new_views(4))
  have right: "new_half leaf_entries Leaf right es" if "page_after leaf_entries f right es" "\<not> compressed right" for right es
    using that blank_self [OF f(1)] f(2) by (auto simp: new_half_def page_after_def same_place_def)
  show "node_split n = Some (Inl SplitInsertFailed, n)
      \<or> (\<exists>left right. node_split n = Some (Inr (node_keys n ! mid, right), left)
          \<and> kept_half leaf_entries n left (take mid (leaf_entries n)) \<and> new_half leaf_entries Leaf right (drop mid (leaf_entries n)))"
    using h(1,2) right f(1) by (auto simp: u kept_half_def new_leaf_def)
  show "node_split n \<noteq> Some (Inl SplitInsertFailed, n)" if "\<not> compressed n"
    using h(1,2) h(3) [OF that mid(1,2)] by (auto simp: u)
qed

lemma node_split_inner:
  assumes wf: "page_wf n" and inner: "nh_page_type (hdr n) = Internal" and dis: "distinct (node_keys n)" and two: "2 \<le> cnt n"
  defines "mid \<equiv> cnt n div 2"
  shows "node_split n = Some (Inl SplitInsertFailed, n)
      \<or> (\<exists>left right. node_split n = Some (Inr (node_keys n ! mid, right), left)
          \<and> kept_half child_entries n left (take mid (child_entries n)) \<and> new_half child_entries Internal right (drop (mid + 1) (child_entries n))
          \<and> nh_leftmost_child (hdr right) = snd (child_entries n ! mid))"
    and "\<not> compressed n \<Longrightarrow> node_split n \<noteq> Some (Inl SplitInsertFailed, n)"
proof -
  have mid: "0 < mid" "mid < cnt n" using two by (simp_all add: mid_def)
  note u = node_split_unfold [OF wf two, folded mid_def] and h = inner_halves [OF wf inner dis mid(2)]
  have right: "new_half child_entries Internal right es \<and> nh_leftmost_child (hdr right) = nh_leftmost_child (hdr f)"
    if "page_after child_entries f right es" "\<not> compressed right" "nh_page_type (hdr f) = Internal" "nh_parent_id (hdr f) = 0" "page_valid f"
    for f right es
    using that by (auto simp: new_half_def page_after_def same_place_def)
  show "node_split n = Some (Inl SplitInsertFailed, n)
      \<or> (\<exists>left right. node_split n = Some (Inr (node_keys n ! mid, right), left)
          \<and> kept_half child_entries n left (take mid (child_entries n)) \<and> new_half child_entries Internal right (drop (mid + 1) (child_entries n))
          \<and> nh_leftmost_child (hdr right) = snd (child_entries n ! mid))"
    using h(1,2) right by (fastforce simp: u kept_half_def)
  show "node_split n \<noteq> Some (Inl SplitInsertFailed, n)" if "\<not> compressed n"
    using h(1,2) h(3) [OF that] by (auto simp: u)
qed

end
