(* ===== verification/Node_Properties.thy ===== *)
theory Node_Properties
  imports Node_Split
begin

text \<open>
  What a page promises the tree: searches, routing, insertion with its exact space condition, replacement and
  splitting, stated over the entries that the bytes of a page decode to.
\<close>

section \<open>The insertion of an entry that fits\<close>

lemma node_insert_fits:
  assumes wf: "page_wf n" and leaf: "nh_page_type (hdr n) = Leaf" and plain: "\<not> compressed n" and new: "key \<notin> set (node_keys n)"
    and room: "5 + length key + length val + 8 \<le> free_of n"
  shows "\<exists>n'. node_insert n key val = Some (Inr (), n') \<and> leaf_after n n' (insert_nth (lower_bound (node_keys n) key) (key, RInline val) (leaf_entries n))
    \<and> free_of n' = free_of n - (5 + length key + length val + 4) \<and> \<not> compressed n'"
proof -
  have pok: "payload_ok VInline val" by (simp add: payload_ok_def)
  note lb = lower_bound_position [OF wf, of key]
  have run: "node_insert n key val = insert_leaf_value n key VInline val (lower_bound (node_keys n) key)"
    using insert_ops_eq(1) [OF wf leaf, of key val] node_search_eq [OF wf, of key] new by (simp add: search_spec_def)
  show ?thesis using insert_leaf_value_spec(2) [OF wf leaf lb(1) pok lb(2,3) plain room] by (simp add: run)
qed

section \<open>Pages to apply the properties to\<close>

lemma sample_leaf:
  obtains n where "new_leaf = Some n" "page_valid n" "page_wf n" "nh_page_type (hdr n) = Leaf" "\<not> compressed n" "free_of n = 4048"
    "leaf_entries n = []" "node_keys n = []"
proof -
  obtain n where n: "node_new Leaf = Some n" by (simp add: node_new_eq)
  note b = blank_self [OF n]
  show thesis using that [of n] n b blank_plain [OF b(1)] length_entries(1) [of n]
    by (simp add: new_leaf_def blank_for_def del: length_entries)
qed

lemma sample_internal:
  obtains n where "new_internal = Some n" "page_valid n" "page_wf n" "nh_page_type (hdr n) = Internal" "\<not> compressed n" "free_of n = 4048"
    "child_entries n = []" "node_keys n = []"
proof -
  obtain n where n: "node_new Internal = Some n" by (simp add: node_new_eq)
  note b = blank_self [OF n]
  show thesis using that [of n] n b blank_plain [OF b(1)] length_entries(2) [of n]
    by (simp add: new_internal_def blank_for_def del: length_entries)
qed

text \<open>Leaves with one and two entries.\<close>

lemma sample_entries:
  obtains n n2 where "page_wf n" "nh_page_type (hdr n) = Leaf" "\<not> compressed n" "leaf_entries n = [([1], RInline [2])]" "node_keys n = [[1]]"
    "page_valid n2" "nh_page_type (hdr n2) = Leaf" "\<not> compressed n2" "leaf_entries n2 = [([1], RInline [2]), ([3], RInline [4])]"
proof -
  obtain f where f: "page_valid f" "page_wf f" "nh_page_type (hdr f) = Leaf" "\<not> compressed f" "free_of f = 4048" "leaf_entries f = []" "node_keys f = []"
    by (rule sample_leaf)
  obtain n where n: "leaf_after f n (insert_nth (lower_bound (node_keys f) [1]) ([1], RInline [2]) (leaf_entries f))" "free_of n = 4037" "\<not> compressed n"
    using node_insert_fits [OF f(2-4), of "[1]" "[2]"] f by auto
  have e: "leaf_entries n = [([1], RInline [2])]" using n(1) f by (simp add: page_after_def insert_nth_def lower_bound_def)
  have k: "node_keys n = [[1]]" using map_fst_entries(1) [of n] e by simp
  have w: "page_wf n" "nh_page_type (hdr n) = Leaf" "page_valid n" using n(1) f by (auto simp: page_after_def same_place_def)
  obtain n2 where n2: "leaf_after n n2 (insert_nth (lower_bound (node_keys n) [3]) ([3], RInline [4]) (leaf_entries n))" "\<not> compressed n2"
    using node_insert_fits [OF w(1,2) n(3), of "[3]" "[4]"] n(2) k by auto
  have "leaf_entries n2 = [([1], RInline [2]), ([3], RInline [4])]" using n2(1) e k by (simp add: page_after_def insert_nth_def lower_bound_def)
  then show thesis using that [of n n2] w n(3) e k n2 by (auto simp: page_after_def same_place_def)
qed

section \<open>Properties\<close>

text \<open>C24. The search of a page, a binary search over keys that may be stored relative to their predecessor, agrees
  with a linear scan: it returns the first index of the key when the key is there, and the only index that
  keeps the keys in order otherwise. It never panics on a well-formed page.\<close>

theorem node_search_correct:
  assumes "page_wf n"
  shows "node_search n key = Some (if key \<in> set (node_keys n)
      then Inr (length (takeWhile (\<lambda>k. k < key) (node_keys n))) else Inl (length (takeWhile (\<lambda>k. k < key) (node_keys n))))"
    (is "_ = Some (if _ then Inr ?p else Inl ?p)")
  using node_search_eq [OF assms, of key] by (simp add: search_spec_def lower_bound_def Let_def)

theorem node_search_correct_witness:
  "\<exists>n. page_wf n \<and> node_keys n = [[1]] \<and> node_search n [1] = Some (Inr 0) \<and> node_search n [5] = Some (Inl 1)"
proof -
  obtain n where n: "page_wf n" "node_keys n = [[1]]" by (rule sample_entries) blast
  from node_search_correct [OF n(1), of "[1]"] node_search_correct [OF n(1), of "[5]"] n show ?thesis by auto
qed

text \<open>C20. The insertion into a leaf succeeds exactly when the entry fits: on a leaf without compressed keys and
  without the key, an entry of \<open>5 + |key| + |value|\<close> bytes is inserted when that and eight bytes more are free.
  Then the entry stands at its place in key order, every other entry is kept, the page stays valid, and the
  free space shrinks by the entry and its slot. Otherwise the page is unchanged and the error is \<open>PageFull\<close>
  or \<open>EntryTooLarge\<close>.\<close>

theorem node_insert_exact:
  assumes "page_valid n" and "nh_page_type (hdr n) = Leaf" and "\<not> compressed n" and "key \<notin> set (node_keys n)"
  shows "if 5 + length key + length val + 8 \<le> free_of n
    then \<exists>n' i. node_insert n key val = Some (Inr (), n') \<and> page_valid n' \<and> i \<le> length (leaf_entries n)
      \<and> leaf_entries n' = take i (leaf_entries n) @ (key, RInline val) # drop i (leaf_entries n) \<and> sorted (node_keys n')
      \<and> free_of n' = free_of n - (5 + length key + length val + 4)
    else \<exists>e \<in> {PageFull, EntryTooLarge}. node_insert n key val = Some (Inl e, n)"
proof -
  let ?p = "lower_bound (node_keys n) key"
  have wf: "page_wf n" using assms(1) by (simp add: page_valid_def)
  show ?thesis
  proof (cases "5 + length key + length val + 8 \<le> free_of n")
    case True
    obtain n' where n': "node_insert n key val = Some (Inr (), n')" "leaf_after n n' (insert_nth ?p (key, RInline val) (leaf_entries n))"
      "free_of n' = free_of n - (5 + length key + length val + 4)"
      using node_insert_fits [OF wf assms(2-4) True] by blast
    have "page_wf n'" "page_valid n'" "leaf_entries n' = take ?p (leaf_entries n) @ (key, RInline val) # drop ?p (leaf_entries n)"
      using n'(2) assms(1) by (simp_all add: page_after_def insert_nth_def)
    moreover have "sorted (node_keys n')" by (rule node_keys_sorted [OF \<open>page_wf n'\<close>])
    moreover have "?p \<le> length (leaf_entries n)" using lower_bound_position(1) [OF wf] by simp
    ultimately show ?thesis using True n'(1,3) by (simp only: if_True) blast
  next
    case False
    then show ?thesis using node_insert_plain [OF wf assms(2-4), of val] by simp
  qed
qed

theorem node_insert_exact_witness:
  "\<exists>n n'. new_leaf = Some n \<and> page_valid n \<and> node_insert n [1] [2] = Some (Inr (), n') \<and> leaf_entries n' = [([1], RInline [2])] \<and> free_of n' = 4037"
proof -
  obtain n where n: "new_leaf = Some n" "page_valid n" "nh_page_type (hdr n) = Leaf" "\<not> compressed n" "free_of n = 4048"
    "leaf_entries n = []" "node_keys n = []" by (rule sample_leaf)
  have new: "[1] \<notin> set (node_keys n)" using n by simp
  from node_insert_exact [OF n(2-4) new, of "[2]"] n show ?thesis by auto
qed

text \<open>C21. The split of a leaf loses nothing: a leaf without compressed keys and with at least two entries splits. The
  separator is the first key of the right half; the left half keeps the entries before it and the place of the
  page, the right half is a valid new leaf with the others.\<close>

theorem node_split_complete:
  assumes "page_valid n" and "nh_page_type (hdr n) = Leaf" and "\<not> compressed n" and "2 \<le> length (leaf_entries n)"
  shows "\<exists>sep left right. node_split n = Some (Inr (sep, right), left) \<and> page_valid left \<and> page_valid right
    \<and> leaf_entries left @ leaf_entries right = leaf_entries n \<and> leaf_entries left \<noteq> [] \<and> leaf_entries right \<noteq> []
    \<and> sep = fst (hd (leaf_entries right)) \<and> nh_parent_id (hdr left) = nh_parent_id (hdr n)"
proof -
  let ?m = "cnt n div 2"
  have wf: "page_wf n" using assms(1) by (simp add: page_valid_def)
  have two: "2 \<le> cnt n" using assms(4) by simp
  obtain left right where h: "node_split n = Some (Inr (node_keys n ! ?m, right), left)"
    "kept_half leaf_entries n left (take ?m (leaf_entries n))" "new_half leaf_entries Leaf right (drop ?m (leaf_entries n))"
    using node_split_leaf [OF wf assms(2) two] assms(3) by blast
  have m: "0 < ?m" "?m < length (leaf_entries n)" using two by simp_all
  have "node_keys n ! ?m = fst (leaf_entries n ! ?m)" using m leaf_entries_nth [of ?m n] by simp
  then have sep: "node_keys n ! ?m = fst (hd (drop ?m (leaf_entries n)))" using m by (simp add: hd_drop_conv_nth)
  have l: "page_valid left" "leaf_entries left = take ?m (leaf_entries n)" "nh_parent_id (hdr left) = nh_parent_id (hdr n)"
    using h(2) by (simp_all add: kept_half_def page_after_def same_place_def)
  have r: "page_valid right" "leaf_entries right = drop ?m (leaf_entries n)" using h(3) by (simp_all add: new_half_def)
  have ne: "take ?m (leaf_entries n) \<noteq> []" "drop ?m (leaf_entries n) \<noteq> []" using m by (cases "leaf_entries n"; simp)+
  show ?thesis
    by (rule exI [of _ "node_keys n ! ?m"], rule exI [of _ left], rule exI [of _ right]) (simp only: h(1) l r ne sep append_take_drop_id simp_thms)
qed

theorem node_split_complete_witness:
  "\<exists>n sep left right. page_valid n \<and> leaf_entries n = [([1], RInline [2]), ([3], RInline [4])] \<and> node_split n = Some (Inr (sep, right), left)
    \<and> leaf_entries left @ leaf_entries right = leaf_entries n"
proof -
  obtain n where n: "page_valid n" "nh_page_type (hdr n) = Leaf" "\<not> compressed n" "leaf_entries n = [([1], RInline [2]), ([3], RInline [4])]"
    by (rule sample_entries) blast
  have two: "2 \<le> length (leaf_entries n)" by (simp only: n(4)) simp
  from node_split_complete [OF n(1-3) two] n(1,4) show ?thesis by blast
qed

text \<open>C22. Replacing a value by one of another size is all or nothing. On a leaf without compressed keys it succeeds
  exactly when the new entry fits beside the entries of the other keys; then the key has the new value. When it
  does not fit the page is unchanged and the error is \<open>PageFull\<close> or \<open>EntryTooLarge\<close>.\<close>

theorem node_replace_atomic:
  assumes "page_wf n" and "nh_page_type (hdr n) = Leaf" and "\<not> compressed n" and "i < length (leaf_entries n)" and "fst (leaf_entries n ! i) = key"
  shows "if 5 + length key + length val + 8 + space (filter (\<lambda>e. fst e \<noteq> key) (leaf_entries n)) \<le> 4048
    then \<exists>n'. replace_value_resized n i val = Some (Inr (), n') \<and> page_wf n' \<and> leaf_entries n' = put_entry key (RInline val) (leaf_entries n)
    else \<exists>e \<in> {PageFull, EntryTooLarge}. replace_value_resized n i val = Some (Inl e, n)"
proof -
  have i: "i < cnt n" using assms(4) by simp
  have k: "node_keys n ! i = key" using assms(5) leaf_entries_nth [OF i] by simp
  show ?thesis
    using replace_value_resized_spec [OF assms(1,2) i, of val] remove_entry_plain [OF assms(1-3) i] unfolding k
    by (auto simp: page_after_def split: if_splits)
qed

theorem node_replace_atomic_witness:
  "\<exists>n n'. leaf_entries n = [([1], RInline [2])] \<and> replace_value_resized n 0 [7, 8] = Some (Inr (), n')
    \<and> leaf_entries n' = put_entry [1] (RInline [7, 8]) [([1], RInline [2])]"
proof -
  obtain n where n: "page_wf n" "nh_page_type (hdr n) = Leaf" "\<not> compressed n" "leaf_entries n = [([1], RInline [2])]"
    by (rule sample_entries) blast
  from node_replace_atomic [OF n(1-3), of 0 "[1]" "[7, 8]"] n(4) show ?thesis by (auto simp: space_def)
qed

text \<open>C25. The longest separator. A fresh internal page takes a separator exactly when its key has at most 4028
  bytes. Keys of up to \<open>MAX_KEY_SIZE\<close>, which is 4032, are accepted as fitting a promoted separator, so the four
  longest lengths can be stored in a leaf but never be promoted.\<close>

theorem separator_size_exact:
  assumes "new_internal = Some n"
  shows "(\<exists>n'. insert_child n key child = Some (Inr (), n')) \<longleftrightarrow> length key + 4 \<le> MAX_KEY_SIZE"
proof -
  obtain m where m: "new_internal = Some m" "page_wf m" "nh_page_type (hdr m) = Internal" "\<not> compressed m" "free_of m = 4048"
    by (rule sample_internal) blast
  have "m = n" using m(1) assms by (rule option.inject [THEN iffD1, OF trans [OF sym]])
  then have n: "page_wf n" "nh_page_type (hdr n) = Internal" "\<not> compressed n" "free_of n = 4048" using m(2-5) by simp_all
  show ?thesis
  proof (cases "length key \<le> 4028")
    case True
    then show ?thesis using insert_child_spec(2) [OF n(1,2), of key child] n by (auto simp: MAX_KEY_SIZE_def)
  next
    case False
    then show ?thesis using insert_child_spec(3) [OF n(1,2), of key child] n by (auto simp: MAX_KEY_SIZE_def)
  qed
qed

theorem separator_size_exact_witness:
  "\<exists>n. new_internal = Some n \<and> \<not> (\<exists>n'. insert_child n (replicate MAX_KEY_SIZE 0) 7 = Some (Inr (), n'))"
proof -
  obtain n where n: "new_internal = Some n" by (rule sample_internal) blast
  from separator_size_exact [OF n, of "replicate MAX_KEY_SIZE 0" 7] n show ?thesis by (auto simp: MAX_KEY_SIZE_def)
qed

end
