(* ===== verification/Tree_State.thy ===== *)
theory Tree_State
  imports Node_Split Page_Allocator
begin

text \<open>
  The state of a B-tree, its descent and its lookup: \<open>src/src/btree/tree.rs\<close> and \<open>find_leaf\<close> of
  \<open>src/src/btree/tree/routing.rs\<close>. A tree
  is a sparse vector of pages (\<open>None\<close> for a page that is not loaded), the root, the set of dirty pages and
  the allocator of page identifiers. Shared page buffers are values here: the copy-on-write of \<open>Arc\<close> keeps
  a clone apart from the original. The text of a corruption error is a constructor.
\<close>

section \<open>The state\<close>

type_synonym page_id = u32

datatype lookup_result = Found bytes | Blob blob_pointer | Deleted | NotFound

datatype corruption =
    LeafPageMissing | LeafValueMalformed | DirtyKeyMalformed | DirtyValueMalformed
  | DescentCycle | RoutingMalformed | ChildIdWidth
  | RangeLeafCycle | RangePageMissing | ChildMalformed | NextLeafCycle | RangeLeafUnreachable | RangeParentMissing
  | ParentCycle | ChildIdExceedsWidth | SplitLeafUnreachable page_id | SplitInternalUnreachable page_id
  | RangeLeafPageMissing | RangeKeyMalformed | RangeValueMalformed

datatype btree_error =
    BDuplicateKey
  | BInsertFailed insert_error
  | BSplitFailed split_error
  | BPageIdExhausted
  | BMissingPage page_id
  | BCorruption corruption

record btree =
  bt_nodes :: "node option list"
  bt_root :: page_id
  bt_dirty :: "page_id set"
  bt_alloc :: page_allocator

definition bt_new :: "btree exec" where
  "bt_new = do {
     root \<leftarrow> new_leaf;
     Some \<lparr>bt_nodes = [Some root], bt_root = 0, bt_dirty = {0}, bt_alloc = pa_new\<rparr>
   }"

definition bt_from_nodes_with_allocator :: "node list \<Rightarrow> page_id \<Rightarrow> page_allocator \<Rightarrow> btree" where
  "bt_from_nodes_with_allocator nodes root page_allocator =
     \<lparr>bt_nodes = map Some nodes, bt_root = root, bt_dirty = {},
      bt_alloc = pa_advance_next_id page_allocator (word_of_nat (length nodes))\<rparr>"

definition bt_from_nodes :: "node list \<Rightarrow> page_id \<Rightarrow> btree" where
  "bt_from_nodes nodes root = bt_from_nodes_with_allocator nodes root pa_new"

definition bt_from_sparse_with_allocator :: "nat \<Rightarrow> page_id \<Rightarrow> page_allocator \<Rightarrow> btree" where
  "bt_from_sparse_with_allocator page_count root page_allocator =
     \<lparr>bt_nodes = replicate page_count None, bt_root = root, bt_dirty = {},
      bt_alloc = pa_advance_next_id page_allocator (word_of_nat page_count)\<rparr>"

definition bt_with_page_allocator :: "btree \<Rightarrow> page_allocator \<Rightarrow> btree" where
  "bt_with_page_allocator t page_allocator =
     t\<lparr>bt_alloc := pa_advance_next_id page_allocator (word_of_nat (length (bt_nodes t)))\<rparr>"

definition bt_take_page_allocator :: "btree \<Rightarrow> page_allocator \<times> btree" where
  "bt_take_page_allocator t = (bt_alloc t, t\<lparr>bt_alloc := pa_new\<rparr>)"

text \<open>Growing the vector to hold an index, and writing a page at it.\<close>

definition grow :: "nat \<Rightarrow> node option list \<Rightarrow> node option list" where
  "grow i nodes = (if i \<ge> length nodes then nodes @ replicate (i + 1 - length nodes) None else nodes)"

definition add_node :: "btree \<Rightarrow> node \<Rightarrow> page_id \<Rightarrow> btree" where
  "add_node t node page_id =
     (let idx = unat page_id
      in t\<lparr>bt_nodes := (grow idx (bt_nodes t))[idx := Some node], bt_dirty := bt_dirty t - {page_id}\<rparr>)"

definition root_id :: "btree \<Rightarrow> page_id" where "root_id t = bt_root t"

definition bt_node_count :: "btree \<Rightarrow> nat" where
  "bt_node_count t = length (filter (\<lambda>n. n \<noteq> None) (bt_nodes t))"

definition dirty_page_ids :: "btree \<Rightarrow> page_id list" where
  "dirty_page_ids t = sorted_list_of_set (bt_dirty t)"

definition clear_dirty :: "btree \<Rightarrow> btree" where
  "clear_dirty t = t\<lparr>bt_dirty := {}\<rparr>"

definition tree_node :: "btree \<Rightarrow> page_id \<Rightarrow> node option" where
  "tree_node t pid = (if unat pid < length (bt_nodes t) then bt_nodes t ! unat pid else None)"

text \<open>A result of a tree operation with the tree it leaves behind, and the \<open>?\<close> operator on it.\<close>

type_synonym 'a tree_op = "((btree_error + 'a) \<times> btree) exec"

definition and_then :: "'a tree_op \<Rightarrow> ('a \<Rightarrow> btree \<Rightarrow> 'b tree_op) \<Rightarrow> 'b tree_op" where
  "and_then m f = do { (r, t) \<leftarrow> m; (case r of Inl e \<Rightarrow> Some (Inl e, t) | Inr a \<Rightarrow> f a t) }"

text \<open>An operation on the page behind \<open>node_mut(id).ok_or(MissingPage(id))?\<close>: the page is marked dirty
  whatever the operation returns.\<close>

definition store_node :: "btree \<Rightarrow> page_id \<Rightarrow> node \<Rightarrow> btree" where
  "store_node t pid n = t\<lparr>bt_nodes := (bt_nodes t)[unat pid := Some n], bt_dirty := insert pid (bt_dirty t)\<rparr>"

definition node_mut :: "btree \<Rightarrow> page_id \<Rightarrow> (node \<Rightarrow> ('a \<times> node) exec) \<Rightarrow> 'a tree_op" where
  "node_mut t pid change =
     (case tree_node t pid of
        None \<Rightarrow> Some (Inl (BMissingPage pid), t)
      | Some n \<Rightarrow> do { (r, n') \<leftarrow> change n; Some (Inr r, store_node t pid n') })"

fun lookup_of :: "value_ref \<Rightarrow> lookup_result" where
  "lookup_of (RInline v) = Found v"
| "lookup_of (RBlob p) = Blob p"
| "lookup_of RTombstone = Deleted"

text \<open>The two loops of \<open>dirty_leaf_entries\<close>.\<close>

fun dirty_entries_of :: "node \<Rightarrow> bytes \<Rightarrow> bytes \<Rightarrow> nat list \<Rightarrow> (bytes \<times> lookup_result) list \<Rightarrow> (btree_error + (bytes \<times> lookup_result) list) exec" where
  "dirty_entries_of n lo hi [] entries = Some (Inr entries)"
| "dirty_entries_of n lo hi (index # rest) entries =
     try_result (ok_or (BCorruption DirtyKeyMalformed) (node_key n index)) (\<lambda>key.
       if key < lo \<or> key \<ge> hi then dirty_entries_of n lo hi rest entries
       else try_result (ok_or (BCorruption DirtyValueMalformed) (node_value n index)) (\<lambda>v.
         dirty_entries_of n lo hi rest (entries @ [(key, lookup_of v)])))"

fun dirty_entries_in :: "btree \<Rightarrow> bytes \<Rightarrow> bytes \<Rightarrow> page_id list \<Rightarrow> (bytes \<times> lookup_result) list \<Rightarrow> (btree_error + (bytes \<times> lookup_result) list) exec" where
  "dirty_entries_in t lo hi [] entries = Some (Inr entries)"
| "dirty_entries_in t lo hi (pid # rest) entries =
     (case tree_node t pid of
        None \<Rightarrow> Some (Inl (BMissingPage pid))
      | Some n \<Rightarrow> do {
          leaf \<leftarrow> node_is_leaf n;
          if \<not> leaf then dirty_entries_in t lo hi rest entries
          else do {
            count \<leftarrow> node_count n;
            try_result (dirty_entries_of n lo hi [0..<count] entries) (\<lambda>entries'.
              dirty_entries_in t lo hi rest entries')
          }
        })"

definition dirty_leaf_entries :: "btree \<Rightarrow> bytes \<Rightarrow> bytes \<Rightarrow> (btree_error + (bytes \<times> lookup_result) list) exec" where
  "dirty_leaf_entries t lo hi = dirty_entries_in t lo hi (sorted_list_of_set (bt_dirty t)) []"

section \<open>Descent\<close>

definition MAX_ROUTING_DEPTH :: nat where "MAX_ROUTING_DEPTH = 128"

text \<open>\<open>u32::try_from\<close> of a child identifier.\<close>

definition to_page_id :: "u64 \<Rightarrow> page_id option" where
  "to_page_id c = (if unat c < 2 ^ 32 then Some (ucast c) else None)"

function find_leaf_from :: "btree \<Rightarrow> bytes \<Rightarrow> page_id \<Rightarrow> nat \<Rightarrow> (btree_error + page_id) exec" where
  "find_leaf_from t key current depth =
     (if depth \<ge> MAX_ROUTING_DEPTH then Some (Inl (BCorruption DescentCycle))
      else (case tree_node t current of
        None \<Rightarrow> Some (Inl (BMissingPage current))
      | Some n \<Rightarrow> do {
          leaf \<leftarrow> node_is_leaf n;
          if leaf then Some (Inr current)
          else try_result (ok_or (BCorruption RoutingMalformed) (child_for_key n key)) (\<lambda>child.
            (case to_page_id child of
               None \<Rightarrow> Some (Inl (BCorruption ChildIdWidth))
             | Some next \<Rightarrow> find_leaf_from t key next (depth + 1)))
        }))"
  by pat_completeness auto

termination
  by (relation "measure (\<lambda>(t, key, current, depth). MAX_ROUTING_DEPTH - depth)") auto

declare find_leaf_from.simps [simp del]

definition find_leaf :: "btree \<Rightarrow> bytes \<Rightarrow> (btree_error + page_id) exec" where
  "find_leaf t key = find_leaf_from t key (bt_root t) 0"

definition bt_lookup :: "btree \<Rightarrow> bytes \<Rightarrow> (btree_error + lookup_result) exec" where
  "bt_lookup t key =
     try_result (find_leaf t key) (\<lambda>leaf_id.
       (case tree_node t leaf_id of
          None \<Rightarrow> Some (Inl (BCorruption LeafPageMissing))
        | Some n \<Rightarrow> do {
            s \<leftarrow> node_search n key;
            (case s of
               Inr idx \<Rightarrow> try_result (ok_or (BCorruption LeafValueMalformed) (node_value n idx)) (\<lambda>v. Some (Inr (lookup_of v)))
             | Inl _ \<Rightarrow> Some (Inr NotFound))
          }))"

end
