(* ===== verification/Tree_Routing.thy ===== *)
theory Tree_Routing
  imports Tree_State
begin

text \<open>
  Checked navigation between leaves, \<open>src/src/btree/tree/routing.rs\<close>, and the forward range cursor,
  \<open>src/src/btree/tree/range.rs\<close>.
\<close>

section \<open>Checked navigation between leaves\<close>

text \<open>The children of an internal page, leftmost first, each of them a page identifier.\<close>

fun read_children :: "node \<Rightarrow> nat list \<Rightarrow> (btree_error + page_id list) exec" where
  "read_children n [] = Some (Inr [])"
| "read_children n (index # rest) =
     try_result (ok_or (BCorruption ChildMalformed) (child_id n index)) (\<lambda>child.
       (case to_page_id child of
          None \<Rightarrow> Some (Inl (BCorruption ChildIdWidth))
        | Some c \<Rightarrow> try_result (read_children n rest) (\<lambda>cs. Some (Inr (c # cs)))))"

definition all_children :: "node \<Rightarrow> (btree_error + page_id list) exec" where
  "all_children n = do {
     leftmost \<leftarrow> leftmost_child n;
     (case to_page_id leftmost of
        None \<Rightarrow> Some (Inl (BCorruption ChildIdWidth))
      | Some c \<Rightarrow> do {
          count \<leftarrow> node_count n;
          try_result (read_children n [0..<count]) (\<lambda>cs. Some (Inr (c # cs)))
        })
   }"

text \<open>Identifiers are finite, and every level takes one more of them off the pages still allowed.\<close>

lemma card_active: "x \<notin> A \<Longrightarrow> card (- insert x A) < card (- A)" for A :: "page_id set"
  by (rule psubset_card_mono) auto

text \<open>The search for a leaf from the root. The set of pages on the current path is extended on entry and
  restored on every exit, so it is passed down by value; the path is returned by the call that finds the
  leaf.\<close>

function find_path :: "btree \<Rightarrow> page_id \<Rightarrow> page_id set \<Rightarrow> page_id \<Rightarrow> (btree_error + (page_id \<times> nat) list option) exec"
  and find_path_in :: "btree \<Rightarrow> page_id \<Rightarrow> page_id set \<Rightarrow> page_id \<Rightarrow> (nat \<times> page_id) list \<Rightarrow> (btree_error + (page_id \<times> nat) list option) exec"
where
  "find_path t target active current =
     (if current \<in> active then Some (Inl (BCorruption RangeLeafCycle))
      else (case tree_node t current of
        None \<Rightarrow> Some (Inl (BCorruption RangePageMissing))
      | Some n \<Rightarrow> do {
          leaf \<leftarrow> node_is_leaf n;
          if leaf then Some (Inr (if current = target then Some [] else None))
          else try_result (all_children n) (\<lambda>cs. find_path_in t target (insert current active) current (enumerate 0 cs))
        }))"
| "find_path_in t target active parent [] = Some (Inr None)"
| "find_path_in t target active parent ((pos, child) # rest) =
     try_result (find_path t target active child) (\<lambda>r.
       (case r of
          Some path \<Rightarrow> Some (Inr (Some ((parent, pos) # path)))
        | None \<Rightarrow> find_path_in t target active parent rest))"
  by pat_completeness auto

termination
  by (relation "measures [\<lambda>p. case p of Inl (t, target, active, current) \<Rightarrow> card (- active) | Inr (t, target, active, parent, cs) \<Rightarrow> card (- active),
      \<lambda>p. case p of Inl _ \<Rightarrow> 0 | Inr (t, target, active, parent, cs) \<Rightarrow> Suc (length cs)]") (auto simp: card_active)

function leftmost_leaf :: "btree \<Rightarrow> page_id set \<Rightarrow> page_id \<Rightarrow> (btree_error + page_id option) exec" where
  "leftmost_leaf t visited current =
     (if current \<in> visited then Some (Inl (BCorruption NextLeafCycle))
      else (case tree_node t current of
        None \<Rightarrow> Some (Inl (BCorruption RangePageMissing))
      | Some n \<Rightarrow> do {
          leaf \<leftarrow> node_is_leaf n;
          if leaf then Some (Inr (Some current))
          else do {
            next \<leftarrow> leftmost_child n;
            (case to_page_id next of
               None \<Rightarrow> Some (Inl (BCorruption ChildIdWidth))
             | Some c \<Rightarrow> leftmost_leaf t (insert current visited) c)
          }
        }))"
  by pat_completeness auto

termination
  by (relation "measure (\<lambda>(t, visited, current). card (- visited))") (auto simp: card_active)

definition leftmost_leaf_checked :: "btree \<Rightarrow> page_id \<Rightarrow> (btree_error + page_id option) exec" where
  "leftmost_leaf_checked t current = leftmost_leaf t {} current"

text \<open>The position of a child among the separators.\<close>

fun find_child :: "node \<Rightarrow> u64 \<Rightarrow> nat list \<Rightarrow> nat option exec" where
  "find_child n child [] = Some None"
| "find_child n child (index # rest) = do {
     c \<leftarrow> child_id n index;
     if c = Some child then Some (Some index) else find_child n child rest
   }"

definition child_position :: "node \<Rightarrow> page_id \<Rightarrow> nat option exec" where
  "child_position parent current = do {
     leftmost \<leftarrow> leftmost_child parent;
     if leftmost = ucast current then Some (Some 0)
     else do {
       count \<leftarrow> node_count parent;
       i \<leftarrow> find_child parent (ucast current) [0..<count];
       Some (map_option Suc i)
     }
   }"

function hint_loop :: "btree \<Rightarrow> page_id \<Rightarrow> page_id \<Rightarrow> page_id set \<Rightarrow> page_id \<Rightarrow> page_id option option exec" where
  "hint_loop t target parent_hint visited current =
     (if current \<in> visited then Some None
      else try_option (if current = target then Some (Some parent_hint)
                       else (case tree_node t current of
                               None \<Rightarrow> Some None
                             | Some n \<Rightarrow> do { p \<leftarrow> node_parent_id n; Some (Some p) })) (\<lambda>parent_id.
        if parent_id = 0 then Some (if current = bt_root t then Some None else None)
        else (case tree_node t parent_id of
          None \<Rightarrow> Some None
        | Some parent \<Rightarrow> do {
            internal \<leftarrow> node_is_internal parent;
            if \<not> internal then Some None
            else try_option (child_position parent current) (\<lambda>pos. do {
              count \<leftarrow> node_count parent;
              if pos < count then
                try_option (child_id parent pos) (\<lambda>next_child.
                  (case to_page_id next_child of
                     None \<Rightarrow> Some None
                   | Some c \<Rightarrow> do {
                       r \<leftarrow> leftmost_leaf_checked t c;
                       Some (case r of Inl _ \<Rightarrow> None | Inr leaf \<Rightarrow> Some leaf)
                     }))
              else hint_loop t target parent_hint (insert current visited) parent_id
            })
          })))"
  by pat_completeness auto

termination
  by (relation "measure (\<lambda>(t, target, hint, visited, current). card (- visited))") (auto simp: card_active)

declare find_path.simps [simp del] leftmost_leaf.simps [simp del] hint_loop.simps [simp del]

definition next_leaf_from_parent_hint :: "btree \<Rightarrow> page_id \<Rightarrow> page_id \<Rightarrow> page_id option option exec" where
  "next_leaf_from_parent_hint t target parent_hint = hint_loop t target parent_hint {} target"

fun next_on_path :: "btree \<Rightarrow> (page_id \<times> nat) list \<Rightarrow> (btree_error + page_id option) exec" where
  "next_on_path t [] = Some (Inr None)"
| "next_on_path t ((parent_id, pos) # rest) =
     (case tree_node t parent_id of
        None \<Rightarrow> Some (Inl (BCorruption RangeParentMissing))
      | Some parent \<Rightarrow> do {
          count \<leftarrow> node_count parent;
          if pos < count then
            try_result (ok_or (BCorruption ChildMalformed) (child_id parent pos)) (\<lambda>next_child.
              (case to_page_id next_child of
                 None \<Rightarrow> Some (Inl (BCorruption ChildIdWidth))
               | Some c \<Rightarrow> leftmost_leaf_checked t c))
          else next_on_path t rest
        })"

definition next_leaf_checked :: "btree \<Rightarrow> page_id \<Rightarrow> page_id \<Rightarrow> (btree_error + page_id option) exec" where
  "next_leaf_checked t target parent_hint = do {
     h \<leftarrow> next_leaf_from_parent_hint t target parent_hint;
     (case h of
        Some next_leaf \<Rightarrow> Some (Inr next_leaf)
      | None \<Rightarrow>
          try_result (find_path t target {} (bt_root t)) (\<lambda>found.
            (case found of
               None \<Rightarrow> Some (Inl (BCorruption RangeLeafUnreachable))
             | Some path \<Rightarrow> next_on_path t (rev path))))
   }"

section \<open>The range cursor\<close>

record cursor_state =
  rc_start :: bytes
  rc_end :: bytes
  rc_node :: page_id
  rc_index :: nat
  rc_done :: bool

definition rc_new :: "btree \<Rightarrow> bytes \<Rightarrow> bytes \<Rightarrow> (btree_error + cursor_state) exec" where
  "rc_new t start stop =
     try_result (find_leaf t start) (\<lambda>leaf_id.
       (case tree_node t leaf_id of
          None \<Rightarrow> Some (Inl (BCorruption RangeLeafPageMissing))
        | Some n \<Rightarrow> do {
            s \<leftarrow> node_search n start;
            Some (Inr \<lparr>rc_start = start, rc_end = stop, rc_node = leaf_id,
              rc_index = (case s of Inr idx \<Rightarrow> idx | Inl idx \<Rightarrow> idx), rc_done = False\<rparr>)
          }))"

text \<open>The loop of \<open>next\<close>. It is not bounded by its form; not returning is the value \<open>None\<close>.\<close>

partial_function (option) rc_loop :: "btree \<Rightarrow> cursor_state \<Rightarrow> ((btree_error + bytes \<times> lookup_result) option \<times> cursor_state) exec" where
  "rc_loop t c =
     (case tree_node t (rc_node c) of
        None \<Rightarrow> Some (Some (Inl (BCorruption RangePageMissing)), c\<lparr>rc_done := True\<rparr>)
      | Some n \<Rightarrow> do {
          count \<leftarrow> node_count n;
          if rc_index c < count then do {
            k \<leftarrow> node_key n (rc_index c);
            (case k of
               None \<Rightarrow> Some (Some (Inl (BCorruption RangeKeyMalformed)), c\<lparr>rc_done := True\<rparr>)
             | Some key \<Rightarrow>
                 if key \<ge> rc_end c then Some (None, c\<lparr>rc_done := True\<rparr>)
                 else do {
                   let c' = c\<lparr>rc_index := rc_index c + 1\<rparr>;
                   previous \<leftarrow> (if rc_index c' > 1 then node_key n (rc_index c' - 2) else Some None);
                   if previous = Some key then rc_loop t c'
                   else do {
                     v \<leftarrow> node_value n (rc_index c' - 1);
                     (case v of
                        None \<Rightarrow> Some (Some (Inl (BCorruption RangeValueMalformed)), c'\<lparr>rc_done := True\<rparr>)
                      | Some (RInline val) \<Rightarrow>
                          if key \<ge> rc_start c then Some (Some (Inr (key, Found val)), c') else rc_loop t c'
                      | Some (RBlob pointer) \<Rightarrow>
                          if key \<ge> rc_start c then Some (Some (Inr (key, Blob pointer)), c') else rc_loop t c'
                      | Some RTombstone \<Rightarrow> rc_loop t c')
                   }
                 })
          }
          else do {
            parent_hint \<leftarrow> node_parent_id n;
            r \<leftarrow> next_leaf_checked t (rc_node c) parent_hint;
            (case r of
               Inl e \<Rightarrow> Some (Some (Inl e), c\<lparr>rc_done := True\<rparr>)
             | Inr None \<Rightarrow> Some (None, c\<lparr>rc_done := True\<rparr>)
             | Inr (Some next_leaf) \<Rightarrow> rc_loop t (c\<lparr>rc_node := next_leaf, rc_index := 0\<rparr>))
          }
        })"

definition rc_next :: "btree \<Rightarrow> cursor_state \<Rightarrow> ((btree_error + bytes \<times> lookup_result) option \<times> cursor_state) exec" where
  "rc_next t c = (if rc_done c then Some (None, c) else rc_loop t c)"

text \<open>A scan borrows its tree next to the cursor.\<close>

record scan_state =
  rs_tree :: btree
  rs_cursor :: cursor_state

definition rs_new :: "btree \<Rightarrow> bytes \<Rightarrow> bytes \<Rightarrow> (btree_error + scan_state) exec" where
  "rs_new t start stop = try_result (rc_new t start stop) (\<lambda>c. Some (Inr \<lparr>rs_tree = t, rs_cursor = c\<rparr>))"

definition rs_next :: "scan_state \<Rightarrow> ((btree_error + bytes \<times> lookup_result) option \<times> scan_state) exec" where
  "rs_next s = do { (r, c) \<leftarrow> rc_next (rs_tree s) (rs_cursor s); Some (r, s\<lparr>rs_cursor := c\<rparr>) }"

definition range_scan :: "btree \<Rightarrow> bytes \<Rightarrow> bytes \<Rightarrow> (btree_error + scan_state) exec" where
  "range_scan t start stop = rs_new t start stop"

definition range_cursor :: "btree \<Rightarrow> bytes \<Rightarrow> bytes \<Rightarrow> (btree_error + cursor_state) exec" where
  "range_cursor t start stop = rc_new t start stop"

end
