(* ===== verification/Tree_Mutation.thy ===== *)
theory Tree_Mutation
  imports Tree_Routing
begin

text \<open>
  Split propagation and the logical mutations of a tree, \<open>src/src/btree/tree/split.rs\<close> and
  \<open>src/src/btree/tree/mutation.rs\<close>. Every operation returns its result with the tree it leaves behind; the
  rollback of a failed operation is written out as the code does it.
\<close>

section \<open>Allocation and parents\<close>

definition alloc_node :: "btree \<Rightarrow> node \<Rightarrow> page_id tree_op" where
  "alloc_node t node =
     (let (pid, a) = pa_alloc (bt_alloc t); t = t\<lparr>bt_alloc := a\<rparr>
      in (case to_page_id pid of
            None \<Rightarrow> Some (Inl BPageIdExhausted, t)
          | Some p \<Rightarrow> Some (Inr p, t\<lparr>bt_nodes := (grow (unat p) (bt_nodes t))[unat p := Some node],
              bt_dirty := insert p (bt_dirty t)\<rparr>)))"

text \<open>The search for the parent of a page from the root; the set of active pages is restored on every exit.\<close>

function find_parent :: "btree \<Rightarrow> page_id \<Rightarrow> page_id set \<Rightarrow> page_id \<Rightarrow> (btree_error + page_id option) exec"
  and find_parent_in :: "btree \<Rightarrow> page_id \<Rightarrow> page_id set \<Rightarrow> page_id \<Rightarrow> node \<Rightarrow> nat list \<Rightarrow> (btree_error + page_id option) exec"
where
  "find_parent t target active current =
     (if current = target then Some (Inr None)
      else if current \<in> active then Some (Inl (BCorruption ParentCycle))
      else (case tree_node t current of
        None \<Rightarrow> Some (Inl (BMissingPage current))
      | Some n \<Rightarrow> do {
          leaf \<leftarrow> node_is_leaf n;
          if leaf then Some (Inr None)
          else do {
            leftmost \<leftarrow> leftmost_child n;
            (case to_page_id leftmost of
               None \<Rightarrow> Some (Inl (BCorruption ChildIdExceedsWidth))
             | Some c \<Rightarrow>
                 if c = target then Some (Inr (Some current))
                 else try_result (find_parent t target (insert current active) c) (\<lambda>r.
                   (case r of
                      Some parent \<Rightarrow> Some (Inr (Some parent))
                    | None \<Rightarrow> do {
                        count \<leftarrow> node_count n;
                        find_parent_in t target (insert current active) current n [0..<count]
                      })))
          }
        }))"
| "find_parent_in t target active current n [] = Some (Inr None)"
| "find_parent_in t target active current n (i # rest) =
     try_result (ok_or (BCorruption ChildMalformed) (child_id n i)) (\<lambda>child.
       (case to_page_id child of
          None \<Rightarrow> Some (Inl (BCorruption ChildIdExceedsWidth))
        | Some c \<Rightarrow>
            if c = target then Some (Inr (Some current))
            else try_result (find_parent t target active c) (\<lambda>r.
              (case r of
                 Some parent \<Rightarrow> Some (Inr (Some parent))
               | None \<Rightarrow> find_parent_in t target active current n rest))))"
  by pat_completeness auto

termination
  by (relation "measures [\<lambda>p. case p of Inl (t, target, active, current) \<Rightarrow> card (- active) | Inr (t, target, active, current, n, ix) \<Rightarrow> card (- active),
      \<lambda>p. case p of Inl _ \<Rightarrow> 0 | Inr (t, target, active, current, n, ix) \<Rightarrow> Suc (length ix)]") (auto simp: card_active)

declare find_parent.simps [simp del]

definition references_child :: "node \<Rightarrow> page_id \<Rightarrow> bool exec" where
  "references_child parent child = do {
     leftmost \<leftarrow> leftmost_child parent;
     if leftmost = ucast child then Some True
     else do {
       count \<leftarrow> node_count parent;
       i \<leftarrow> find_child parent (ucast child) [0..<count];
       Some (i \<noteq> None)
     }
   }"

text \<open>The parent that a page records, when that page points back to it.\<close>

definition recorded_parent :: "btree \<Rightarrow> page_id \<Rightarrow> page_id option exec" where
  "recorded_parent t pid =
     (case tree_node t pid of
        None \<Rightarrow> Some None
      | Some n \<Rightarrow> do {
          p \<leftarrow> node_parent_id n;
          if p = 0 then Some None
          else (case tree_node t p of
             None \<Rightarrow> Some None
           | Some parent \<Rightarrow> do { r \<leftarrow> references_child parent pid; Some (if r then Some p else None) })
        })"

definition parent_of :: "btree \<Rightarrow> page_id \<Rightarrow> (btree_error + page_id option) exec" where
  "parent_of t pid =
     (if pid = bt_root t then Some (Inr None)
      else do {
        r \<leftarrow> recorded_parent t pid;
        (case r of Some p \<Rightarrow> Some (Inr (Some p)) | None \<Rightarrow> find_parent t pid {} (bt_root t))
      })"

text \<open>\<open>parent_of(id)?.ok_or_else(..)?\<close>.\<close>

definition parent_or :: "corruption \<Rightarrow> page_id \<Rightarrow> btree \<Rightarrow> page_id tree_op" where
  "parent_or e pid t = do {
     r \<leftarrow> parent_of t pid;
     Some (case r of Inl e' \<Rightarrow> (Inl e', t) | Inr None \<Rightarrow> (Inl (BCorruption e), t) | Inr (Some p) \<Rightarrow> (Inr p, t))
   }"

text \<open>A page operation whose error becomes an error of the tree.\<close>

definition node_try :: "('e \<Rightarrow> btree_error) \<Rightarrow> btree \<Rightarrow> page_id \<Rightarrow> (node \<Rightarrow> (('e + 'a) \<times> node) exec) \<Rightarrow> 'a tree_op" where
  "node_try err t pid change =
     and_then (node_mut t pid change) (\<lambda>r t'. Some (case r of Inl e \<Rightarrow> (Inl (err e), t') | Inr a \<Rightarrow> (Inr a, t')))"

definition set_parent :: "btree \<Rightarrow> page_id \<Rightarrow> page_id \<Rightarrow> unit tree_op" where
  "set_parent t pid parent = node_mut t pid (\<lambda>n. do { n' \<leftarrow> set_parent_id n parent; Some ((), n') })"

definition create_new_root :: "btree \<Rightarrow> page_id \<Rightarrow> bytes \<Rightarrow> page_id \<Rightarrow> unit tree_op" where
  "create_new_root t left_id key right_id = do {
     fresh \<leftarrow> new_internal;
     fresh' \<leftarrow> set_leftmost_child fresh (ucast left_id);
     (r, new_root) \<leftarrow> insert_child fresh' key (ucast right_id);
     (case r of
        Inl e \<Rightarrow> Some (Inl (BInsertFailed e), t)
      | Inr _ \<Rightarrow>
          and_then (alloc_node t new_root) (\<lambda>new_root_id t.
          and_then (set_parent t left_id new_root_id) (\<lambda>_ t.
          and_then (set_parent t right_id new_root_id) (\<lambda>_ t.
            Some (Inr (), t\<lparr>bt_root := new_root_id\<rparr>)))))
   }"

section \<open>Splitting internal pages\<close>

fun raw_children :: "node \<Rightarrow> nat list \<Rightarrow> (btree_error + u64 list) exec" where
  "raw_children n [] = Some (Inr [])"
| "raw_children n (index # rest) =
     try_result (ok_or (BCorruption ChildMalformed) (child_id n index)) (\<lambda>child.
     try_result (raw_children n rest) (\<lambda>cs. Some (Inr (child # cs))))"

fun set_children_parent :: "btree \<Rightarrow> page_id \<Rightarrow> u64 list \<Rightarrow> unit tree_op" where
  "set_children_parent t parent [] = Some (Inr (), t)"
| "set_children_parent t parent (child # rest) =
     (case to_page_id child of
        None \<Rightarrow> Some (Inl (BCorruption ChildIdExceedsWidth), t)
      | Some c \<Rightarrow>
          (case tree_node t c of
             None \<Rightarrow> set_children_parent t parent rest
           | Some _ \<Rightarrow> and_then (set_parent t c parent) (\<lambda>_ t. set_children_parent t parent rest)))"

definition set_direct_children_parent :: "btree \<Rightarrow> page_id \<Rightarrow> page_id \<Rightarrow> unit tree_op" where
  "set_direct_children_parent t pid parent =
     (case tree_node t pid of
        None \<Rightarrow> Some (Inl (BMissingPage pid), t)
      | Some n \<Rightarrow> do {
          leaf \<leftarrow> node_is_leaf n;
          if leaf then Some (Inr (), t)
          else do {
            leftmost \<leftarrow> leftmost_child n;
            count \<leftarrow> node_count n;
            r \<leftarrow> raw_children n [0..<count];
            (case r of
               Inl e \<Rightarrow> Some (Inl e, t)
             | Inr cs \<Rightarrow> set_children_parent t parent (leftmost # cs))
          }
        })"

text \<open>\<open>split_internal\<close> up to the insertion into the parent: the result is the parent, the separator and the
  new page that are still to be linked, or \<open>None\<close> when a new root has linked them.\<close>

definition split_internal_page :: "btree \<Rightarrow> page_id \<Rightarrow> bytes \<Rightarrow> page_id \<Rightarrow> (page_id \<times> bytes \<times> page_id) option tree_op" where
  "split_internal_page t pid key right_child_id =
     and_then (node_try BSplitFailed t pid node_split) (\<lambda>(median_key, right_node) t.
     and_then (alloc_node t right_node) (\<lambda>right_id t.
     and_then (set_direct_children_parent t right_id right_id) (\<lambda>_ t.
       let target_id = (if key \<ge> median_key then right_id else pid) in
     and_then (node_try BInsertFailed t target_id (\<lambda>n. insert_child n key (ucast right_child_id))) (\<lambda>_ t.
     and_then (set_parent t right_child_id target_id) (\<lambda>_ t.
       if pid = bt_root t then
         and_then (create_new_root t pid median_key right_id) (\<lambda>_ t. Some (Inr None, t))
       else
         and_then (parent_or (SplitInternalUnreachable pid) pid t) (\<lambda>parent_id t.
         and_then (set_parent t right_id parent_id) (\<lambda>_ t.
           Some (Inr (Some (parent_id, median_key, right_id)), t))))))))"

text \<open>\<open>insert_into_internal\<close> and \<open>split_internal\<close> call each other; the recursion climbs towards the root and
  is not bounded by its form.\<close>

partial_function (option) insert_into_internal :: "btree \<Rightarrow> page_id \<Rightarrow> bytes \<Rightarrow> page_id \<Rightarrow> unit tree_op" where
  "insert_into_internal t parent_id key right_child_id = do {
     (r, t1) \<leftarrow> node_mut t parent_id (\<lambda>n. insert_child n key (ucast right_child_id));
     (case r of
        Inl e \<Rightarrow> Some (Inl e, t1)
      | Inr (Inr _) \<Rightarrow> Some (Inr (), t1)
      | Inr (Inl e) \<Rightarrow>
          if e = PageFull then do {
            (r2, t2) \<leftarrow> split_internal_page t1 parent_id key right_child_id;
            (case r2 of
               Inl e2 \<Rightarrow> Some (Inl e2, t2)
             | Inr None \<Rightarrow> Some (Inr (), t2)
             | Inr (Some (p, k, c)) \<Rightarrow> insert_into_internal t2 p k c)
          }
          else Some (Inl (BInsertFailed e), t1))
   }"

definition split_internal :: "btree \<Rightarrow> page_id \<Rightarrow> bytes \<Rightarrow> page_id \<Rightarrow> unit tree_op" where
  "split_internal t pid key right_child_id =
     and_then (split_internal_page t pid key right_child_id) (\<lambda>pending t.
       (case pending of None \<Rightarrow> Some (Inr (), t) | Some (p, k, c) \<Rightarrow> insert_into_internal t p k c))"

section \<open>Splitting leaves\<close>

text \<open>\<open>split_and_insert_leaf\<close> and \<open>split_and_insert_blob_leaf\<close> differ in the insertion alone.\<close>

definition split_and_insert :: "(node \<Rightarrow> unit mutation) \<Rightarrow> btree \<Rightarrow> page_id \<Rightarrow> bytes \<Rightarrow> unit tree_op" where
  "split_and_insert ins t leaf_id key =
     and_then (node_try BSplitFailed t leaf_id node_split) (\<lambda>(median_key, right_node) t.
     and_then (alloc_node t right_node) (\<lambda>right_id t.
       let target_id = (if key \<ge> median_key then right_id else leaf_id) in
     and_then (node_try BInsertFailed t target_id ins) (\<lambda>_ t.
       if leaf_id = bt_root t then create_new_root t leaf_id median_key right_id
       else
         and_then (parent_or (SplitLeafUnreachable leaf_id) leaf_id t) (\<lambda>parent_id t.
         and_then (set_parent t right_id parent_id) (\<lambda>_ t.
           insert_into_internal t parent_id median_key right_id)))))"

definition split_and_insert_leaf :: "btree \<Rightarrow> page_id \<Rightarrow> bytes \<Rightarrow> bytes \<Rightarrow> unit tree_op" where
  "split_and_insert_leaf t leaf_id key val = split_and_insert (\<lambda>n. node_insert n key val) t leaf_id key"

definition split_and_insert_blob_leaf :: "btree \<Rightarrow> page_id \<Rightarrow> bytes \<Rightarrow> blob_pointer \<Rightarrow> unit tree_op" where
  "split_and_insert_blob_leaf t leaf_id key ptr = split_and_insert (\<lambda>n. insert_blob n key ptr) t leaf_id key"

definition replace_full_entry_with_split :: "btree \<Rightarrow> page_id \<Rightarrow> nat \<Rightarrow> bytes \<Rightarrow> bytes \<Rightarrow> unit tree_op" where
  "replace_full_entry_with_split t leaf_id index key val =
     and_then (node_try BInsertFailed t leaf_id (\<lambda>n. do {
       (r, n1) \<leftarrow> remove_entry n index;
       (case r of Inl e \<Rightarrow> Some (Inl e, n1) | Inr _ \<Rightarrow> remove_duplicates n1 key)
     })) (\<lambda>_ t.
     and_then (node_mut t leaf_id (\<lambda>n. node_insert n key val)) (\<lambda>r t.
       (case r of
          Inr _ \<Rightarrow> Some (Inr (), t)
        | Inl e \<Rightarrow> if e = PageFull then split_and_insert_leaf t leaf_id key val else Some (Inl (BInsertFailed e), t))))"

section \<open>The mutations\<close>

text \<open>Restoring the snapshot when an operation failed.\<close>

definition rollback :: "btree \<Rightarrow> unit tree_op \<Rightarrow> unit tree_op" where
  "rollback snapshot m = do {
     (r, t) \<leftarrow> m;
     Some (r, case r of
        Inl _ \<Rightarrow> t\<lparr>bt_nodes := bt_nodes snapshot, bt_root := bt_root snapshot, bt_dirty := bt_dirty snapshot, bt_alloc := bt_alloc snapshot\<rparr>
      | Inr _ \<Rightarrow> t)
   }"

definition bt_insert :: "btree \<Rightarrow> bytes \<Rightarrow> bytes \<Rightarrow> unit tree_op" where
  "bt_insert t key val = do {
     f \<leftarrow> find_leaf t key;
     (case f of
        Inl e \<Rightarrow> Some (Inl e, t)
      | Inr leaf_id \<Rightarrow>
          and_then (node_mut t leaf_id (\<lambda>n. node_insert n key val)) (\<lambda>r t.
            (case r of
               Inr _ \<Rightarrow> Some (Inr (), t)
             | Inl PageFull \<Rightarrow> rollback t (split_and_insert_leaf t leaf_id key val)
             | Inl (DuplicateKey _) \<Rightarrow> Some (Inl BDuplicateKey, t)
             | Inl e \<Rightarrow> Some (Inl (BInsertFailed e), t))))
   }"

text \<open>The index of a key in a leaf, \<open>node(id).and_then(|n| n.search(key).ok())\<close>, and whether the entry is an
  inline value of a given length.\<close>

definition existing_index :: "btree \<Rightarrow> page_id \<Rightarrow> bytes \<Rightarrow> nat option exec" where
  "existing_index t leaf_id key =
     (case tree_node t leaf_id of
        None \<Rightarrow> Some None
      | Some n \<Rightarrow> do { s \<leftarrow> node_search n key; Some (case s of Inr i \<Rightarrow> Some i | Inl _ \<Rightarrow> None) })"

definition same_size_inline :: "btree \<Rightarrow> page_id \<Rightarrow> nat \<Rightarrow> nat \<Rightarrow> bool exec" where
  "same_size_inline t leaf_id index len =
     (case tree_node t leaf_id of
        None \<Rightarrow> Some False
      | Some n \<Rightarrow> do { v \<leftarrow> node_value n index; Some (case v of Some (RInline old) \<Rightarrow> length old = len | _ \<Rightarrow> False) })"

definition bt_upsert :: "btree \<Rightarrow> bytes \<Rightarrow> bytes \<Rightarrow> unit tree_op" where
  "bt_upsert t key val = do {
     f \<leftarrow> find_leaf t key;
     (case f of
        Inl e \<Rightarrow> Some (Inl e, t)
      | Inr leaf_id \<Rightarrow> do {
          existing \<leftarrow> existing_index t leaf_id key;
          (case existing of
             None \<Rightarrow> bt_insert t key val
           | Some index \<Rightarrow> do {
               same \<leftarrow> same_size_inline t leaf_id index (length val);
               if same then node_try BInsertFailed t leaf_id (\<lambda>n. replace_value n index val)
               else (case tree_node t leaf_id of
                  None \<Rightarrow> Some (Inl (BMissingPage leaf_id), t)
                | Some _ \<Rightarrow>
                    rollback t (and_then (node_mut t leaf_id (\<lambda>n. replace_value_resized n index val)) (\<lambda>r t.
                      (case r of
                         Inr _ \<Rightarrow> Some (Inr (), t)
                       | Inl PageFull \<Rightarrow> replace_full_entry_with_split t leaf_id index key val
                       | Inl e \<Rightarrow> Some (Inl (BInsertFailed e), t)))))
             })
        })
   }"

definition bt_delete :: "btree \<Rightarrow> bytes \<Rightarrow> bool tree_op" where
  "bt_delete t key = do {
     f \<leftarrow> find_leaf t key;
     (case f of
        Inl e \<Rightarrow> Some (Inl e, t)
      | Inr leaf_id \<Rightarrow>
          node_try BInsertFailed t leaf_id (\<lambda>n. do {
            s \<leftarrow> node_search n key;
            (case s of
               Inl _ \<Rightarrow> Some (Inr False, n)
             | Inr index \<Rightarrow> do {
                 v \<leftarrow> node_value n index;
                 if v = Some RTombstone then Some (Inr False, n)
                 else do {
                   (r, n') \<leftarrow> insert_tombstone n key;
                   Some (case r of Inl e \<Rightarrow> Inl e | Inr _ \<Rightarrow> Inr True, n')
                 }
               })
          }))
   }"

text \<open>The insertion of a blob pointer into a leaf, with the split and its rollback.\<close>

definition insert_blob_at :: "btree \<Rightarrow> page_id \<Rightarrow> bytes \<Rightarrow> blob_pointer \<Rightarrow> unit tree_op" where
  "insert_blob_at t leaf_id key ptr =
     and_then (node_mut t leaf_id (\<lambda>n. insert_blob n key ptr)) (\<lambda>r t.
       (case r of
          Inr _ \<Rightarrow> Some (Inr (), t)
        | Inl e \<Rightarrow> if e = PageFull then rollback t (split_and_insert_blob_leaf t leaf_id key ptr)
                   else Some (Inl (BInsertFailed e), t)))"

definition bt_insert_blob :: "btree \<Rightarrow> bytes \<Rightarrow> blob_pointer \<Rightarrow> unit tree_op" where
  "bt_insert_blob t key ptr = do {
     f \<leftarrow> find_leaf t key;
     (case f of Inl e \<Rightarrow> Some (Inl e, t) | Inr leaf_id \<Rightarrow> insert_blob_at t leaf_id key ptr)
   }"

definition bt_upsert_blob :: "btree \<Rightarrow> bytes \<Rightarrow> blob_pointer \<Rightarrow> unit tree_op" where
  "bt_upsert_blob t key ptr = do {
     f \<leftarrow> find_leaf t key;
     (case f of
        Inl e \<Rightarrow> Some (Inl e, t)
      | Inr leaf_id \<Rightarrow> do {
          existing \<leftarrow> existing_index t leaf_id key;
          (case existing of
             None \<Rightarrow> insert_blob_at t leaf_id key ptr
           | Some index \<Rightarrow>
               rollback t (and_then (node_try BInsertFailed t leaf_id (\<lambda>n. remove_entry n index)) (\<lambda>_ t.
                 and_then (node_mut t leaf_id (\<lambda>n. insert_blob n key ptr)) (\<lambda>r t.
                   (case r of
                      Inr _ \<Rightarrow> Some (Inr (), t)
                    | Inl e \<Rightarrow> if e = PageFull then split_and_insert_blob_leaf t leaf_id key ptr
                               else Some (Inl (BInsertFailed e), t))))))
        })
   }"

end
