(* ===== verification/Tree_Shape.thy ===== *)
theory Tree_Shape
  imports Tree_Mutation
begin

text \<open>
  The specification of a tree: a shape with the page identifiers, the separators and the entries, the order
  that searches rely on, and the relation that says that the pages of a state hold a shape. A context is a
  shape with a hole, innermost frame first; the mutations change a shape at the hole.
\<close>

section \<open>Shapes\<close>

datatype stree = SL page_id "(bytes \<times> value_ref) list" | SN page_id "bytes list" "stree list"

fun rid :: "stree \<Rightarrow> page_id" where
  "rid (SL p es) = p"
| "rid (SN p ks cs) = p"

fun ents :: "stree \<Rightarrow> (bytes \<times> value_ref) list" where
  "ents (SL p es) = es"
| "ents (SN p ks cs) = concat (map ents cs)"

fun ids :: "stree \<Rightarrow> page_id list" where
  "ids (SL p es) = [p]"
| "ids (SN p ks cs) = p # concat (map ids cs)"

text \<open>A bound on the right of a range, \<open>None\<close> for no bound.\<close>

definition below :: "bytes \<Rightarrow> bytes option \<Rightarrow> bool" where
  "below k hi \<longleftrightarrow> (case hi of None \<Rightarrow> True | Some b \<Rightarrow> k < b)"

lemma below_simps [simp]: "below k None" "below k (Some b) \<longleftrightarrow> k < b"
  by (simp_all add: below_def)

lemma below_trans: "k < k' \<Longrightarrow> below k' hi \<Longrightarrow> below k hi"
  by (cases hi) auto

text \<open>A search tree of height \<open>h\<close> over the range from \<open>lo\<close> to \<open>hi\<close>: the leaves are all at the same depth, the
  separators lie strictly inside the range, and keys equal to a separator are on its right.\<close>

fun bst :: "nat \<Rightarrow> bytes \<Rightarrow> bytes option \<Rightarrow> stree \<Rightarrow> bool"
  and bsts :: "nat \<Rightarrow> bytes \<Rightarrow> bytes option \<Rightarrow> bytes list \<Rightarrow> stree list \<Rightarrow> bool"
where
  "bst h lo hi (SL p es) \<longleftrightarrow> h = 0 \<and> sorted_wrt (<) (map fst es) \<and> (\<forall>k \<in> fst ` set es. lo \<le> k \<and> below k hi)"
| "bst 0 lo hi (SN p ks cs) \<longleftrightarrow> False"
| "bst (Suc h) lo hi (SN p ks cs) \<longleftrightarrow> bsts h lo hi ks cs"
| "bsts h lo hi [] [c] \<longleftrightarrow> bst h lo hi c"
| "bsts h lo hi (k # ks) (c # cs) \<longleftrightarrow> lo < k \<and> below k hi \<and> bst h lo (Some k) c \<and> bsts h k hi ks cs"
| "bsts h lo hi [] [] \<longleftrightarrow> False"
| "bsts h lo hi [] (c # c' # cs) \<longleftrightarrow> False"
| "bsts h lo hi (k # ks) [] \<longleftrightarrow> False"

lemma bsts_length: "bsts h lo hi ks cs \<Longrightarrow> length cs = Suc (length ks)"
  by (induction ks arbitrary: lo cs) (auto elim: bsts.elims)

text \<open>Splitting the children at a separator.\<close>

lemma bsts_append:
  assumes "length cs1 = Suc (length ks1)"
  shows "bsts h lo hi (ks1 @ k # ks2) (cs1 @ cs2) \<longleftrightarrow>
    lo < k \<and> below k hi \<and> bsts h lo (Some k) ks1 cs1 \<and> bsts h k hi ks2 cs2"
  using assms
proof (induction ks1 arbitrary: lo cs1)
  case Nil
  then obtain c where "cs1 = [c]" by (cases cs1) auto
  then show ?case by auto
next
  case (Cons k1 ks1)
  then obtain c cs1' where c: "cs1 = c # cs1'" "length cs1' = Suc (length ks1)" by (cases cs1) auto
  have "below k hi \<Longrightarrow> k1 < k \<Longrightarrow> below k1 hi" by (rule below_trans)
  then show ?case using Cons.IH [OF c(2), of k1] by (auto simp: c(1))
qed

section \<open>Contexts\<close>

datatype path_frame = Frame page_id "bytes list" "stree list" "bytes list" "stree list"

fun fpid :: "path_frame \<Rightarrow> page_id" where "fpid (Frame p ks1 cs1 ks2 cs2) = p"

fun plug :: "path_frame \<Rightarrow> stree \<Rightarrow> stree" where
  "plug (Frame p ks1 cs1 ks2 cs2) c = SN p (ks1 @ ks2) (cs1 @ c # cs2)"

fun fill :: "path_frame list \<Rightarrow> stree \<Rightarrow> stree" where
  "fill [] c = c"
| "fill (f # fs) c = fill fs (plug f c)"

text \<open>The separators of a frame, given the range of its page, give the range of the hole.\<close>

fun lefts :: "nat \<Rightarrow> bytes \<Rightarrow> bytes list \<Rightarrow> stree list \<Rightarrow> bytes \<Rightarrow> bool" where
  "lefts h lo [] [] lo' \<longleftrightarrow> lo' = lo"
| "lefts h lo (k # ks) (c # cs) lo' \<longleftrightarrow> lo < k \<and> bst h lo (Some k) c \<and> lefts h k ks cs lo'"
| "lefts h lo _ _ lo' \<longleftrightarrow> False"

fun rights :: "nat \<Rightarrow> bytes option \<Rightarrow> bytes list \<Rightarrow> stree list \<Rightarrow> bytes option \<Rightarrow> bool" where
  "rights h hi' [] cs hi \<longleftrightarrow> cs = [] \<and> hi' = hi"
| "rights h hi' (k # ks) cs hi \<longleftrightarrow> hi' = Some k \<and> below k hi \<and> bsts h k hi ks cs"

lemma lefts_length: "lefts h lo ks cs lo' \<Longrightarrow> length cs = length ks"
  by (induction h lo ks cs lo' rule: lefts.induct) auto

lemma rights_length: "rights h hi' ks cs hi \<Longrightarrow> length cs = length ks"
  by (cases ks) (auto dest: bsts_length)

lemma lefts_le: "lefts h lo ks cs lo' \<Longrightarrow> lo \<le> lo' \<and> sorted_wrt (<) ks \<and> (\<forall>k \<in> set ks. lo < k \<and> k \<le> lo')"
  by (induction h lo ks cs lo' rule: lefts.induct) (force simp: less_imp_le)+

lemma bsts_focus:
  assumes "lefts h lo ks1 cs1 lo'" and "rights h hi' ks2 cs2 hi" and "below lo' hi'"
  shows "bsts h lo hi (ks1 @ ks2) (cs1 @ c # cs2) \<longleftrightarrow> bst h lo' hi' c"
  using assms
proof (induction h lo ks1 cs1 lo' rule: lefts.induct)
  case (1 h lo lo')
  then show ?case by (cases ks2) auto
next
  case (2 h lo k ks c1 cs lo')
  have "below k hi"
  proof -
    have "below k hi'" using 2 lefts_le [of h k ks cs lo'] by (cases hi') auto
    then show ?thesis using "2.prems"(2) by (cases ks2) (auto intro: below_trans)
  qed
  then show ?case using 2 by auto
qed auto

text \<open>A context that accepts a subtree of height \<open>h\<close> over the range from \<open>lo\<close> to \<open>hi\<close> and has height \<open>H\<close> with it.\<close>

fun accepts :: "path_frame list \<Rightarrow> nat \<Rightarrow> bytes \<Rightarrow> bytes option \<Rightarrow> nat \<Rightarrow> bool" where
  "accepts [] h lo' hi' H \<longleftrightarrow> h = H \<and> lo' = [] \<and> hi' = None"
| "accepts (Frame p ks1 cs1 ks2 cs2 # fs) h lo' hi' H \<longleftrightarrow>
     below lo' hi' \<and> (\<exists>lo hi. lefts h lo ks1 cs1 lo' \<and> rights h hi' ks2 cs2 hi \<and> accepts fs (Suc h) lo hi H)"

lemma accepts_bst: "accepts fs h lo hi H \<Longrightarrow> bst h lo hi c \<Longrightarrow> bst H [] None (fill fs c)"
proof (induction fs arbitrary: h lo hi c)
  case (Cons f fs)
  obtain p ks1 cs1 ks2 cs2 where f: "f = Frame p ks1 cs1 ks2 cs2" by (cases f)
  from Cons.prems obtain lo0 hi0 where b: "below lo hi" "lefts h lo0 ks1 cs1 lo" "rights h hi ks2 cs2 hi0" "accepts fs (Suc h) lo0 hi0 H"
    by (auto simp: f)
  then show ?case using Cons.IH [OF b(4)] bsts_focus [OF b(2,3,1)] Cons.prems(2) by (simp add: f)
qed simp

lemma accepts_height: "accepts fs h lo hi H \<Longrightarrow> H = h + length fs"
proof (induction fs arbitrary: h lo hi)
  case (Cons f fs)
  then show ?case by (cases f) fastforce
qed simp

section \<open>Routing in a shape\<close>

text \<open>The child that a key belongs to, by the number of separators up to the key.\<close>

lemma focus_key:
  assumes "bsts h lo hi ks cs" and "lo \<le> key" and "below key hi" and "below lo hi"
  shows "\<exists>ks1 cs1 ks2 cs2 c lo' hi'. ks = ks1 @ ks2 \<and> cs = cs1 @ c # cs2 \<and> lefts h lo ks1 cs1 lo' \<and> rights h hi' ks2 cs2 hi
    \<and> below lo' hi' \<and> bst h lo' hi' c \<and> lo' \<le> key \<and> below key hi' \<and> upper_bound_keys ks key = length cs1"
  using assms
proof (induction ks arbitrary: lo cs)
  case Nil
  then obtain c where "cs = [c]" by (auto elim: bsts.elims)
  with Nil show ?case by (intro exI [of _ "[]"] exI [of _ c] exI [of _ lo] exI [of _ hi]) (auto simp: upper_bound_keys_def)
next
  case (Cons k ks)
  then obtain c cs' where c: "cs = c # cs'" "lo < k" "below k hi" "bst h lo (Some k) c" "bsts h k hi ks cs'"
    by (cases cs) auto
  show ?case
  proof (cases "key < k")
    case True
    then show ?thesis using c Cons.prems
      by (intro exI [of _ "[]"] exI [of _ "k # ks"] exI [of _ cs'] exI [of _ c] exI [of _ lo] exI [of _ "Some k"])
        (auto simp: upper_bound_keys_def)
  next
    case False
    then have le: "k \<le> key" by simp
    obtain ks1 cs1 ks2 cs2 c' lo' hi' where ih: "ks = ks1 @ ks2" "cs' = cs1 @ c' # cs2" "lefts h k ks1 cs1 lo'" "rights h hi' ks2 cs2 hi"
      "below lo' hi'" "bst h lo' hi' c'" "lo' \<le> key" "below key hi'" "upper_bound_keys ks key = length cs1"
      using Cons.IH [OF c(5) le Cons.prems(3) c(3)] by blast
    show ?thesis
      using ih c False
      by (intro exI [of _ "k # ks1"] exI [of _ "c # cs1"] exI [of _ ks2] exI [of _ cs2] exI [of _ c'] exI [of _ lo'] exI [of _ hi'])
        (auto simp: upper_bound_keys_def)
  qed
qed

section \<open>The pages of a shape\<close>

text \<open>Pages as this version of the code writes them: valid, keys not compressed, four bytes free.\<close>

definition good_page :: "node \<Rightarrow> bool" where
  "good_page n \<longleftrightarrow> page_valid n \<and> \<not> compressed n \<and> 4 \<le> free_of n"

definition child_words :: "node \<Rightarrow> u64 list" where
  "child_words n = nh_leftmost_child (hdr n) # map snd (child_entries n)"

definition leaf_page :: "node \<Rightarrow> (bytes \<times> value_ref) list \<Rightarrow> bool" where
  "leaf_page n es \<longleftrightarrow> good_page n \<and> nh_page_type (hdr n) = Leaf \<and> leaf_entries n = es"

definition inner_page :: "node \<Rightarrow> bytes list \<Rightarrow> page_id list \<Rightarrow> bool" where
  "inner_page n ks cs \<longleftrightarrow> good_page n \<and> nh_page_type (hdr n) = Internal \<and> node_keys n = ks \<and> child_words n = map ucast cs"

fun rep :: "btree \<Rightarrow> stree \<Rightarrow> bool" where
  "rep t (SL p es) \<longleftrightarrow> (\<exists>n. tree_node t p = Some n \<and> leaf_page n es)"
| "rep t (SN p ks cs) \<longleftrightarrow> (\<exists>n. tree_node t p = Some n \<and> inner_page n ks (map rid cs)) \<and> (\<forall>c \<in> set cs. rep t c)"

lemma good_page_wf [simp]: "good_page n \<Longrightarrow> page_wf n"
  by (simp add: good_page_def page_valid_def)

lemma leaf_pageD: "leaf_page n es \<Longrightarrow> page_wf n \<and> nh_page_type (hdr n) = Leaf \<and> \<not> compressed n \<and> 4 \<le> free_of n \<and> leaf_entries n = es
    \<and> node_keys n = map fst es \<and> page_valid n"
  using map_fst_entries(1) [of n] by (auto simp: leaf_page_def good_page_def page_valid_def)

lemma inner_pageD: "inner_page n ks cs \<Longrightarrow> page_wf n \<and> nh_page_type (hdr n) = Internal \<and> \<not> compressed n \<and> 4 \<le> free_of n \<and> node_keys n = ks
    \<and> cnt n = length ks \<and> length cs = Suc (length ks) \<and> page_valid n"
  using length_node_keys [of n]
  by (auto simp: inner_page_def good_page_def page_valid_def child_words_def Cons_eq_map_conv dest!: arg_cong [of _ _ length])

text \<open>Identifiers as words of a child pointer.\<close>

lemma unat_ucast_page: "unat (ucast (p :: page_id) :: u64) = unat p"
  using unat_less_pow [of p] by (simp add: unsigned_ucast_eq take_bit_nat_eq_self)

lemma to_page_id_eq: "to_page_id w = Some p \<longleftrightarrow> w = ucast p"
proof
  assume "to_page_id w = Some p"
  then have "unat w < 2 ^ 32" "p = ucast w" by (simp_all add: to_page_id_def split: if_splits)
  then have "unat p = unat w" by (simp add: unsigned_ucast_eq take_bit_nat_eq_self)
  then show "w = ucast p" by (simp add: word_unat_eq_iff unat_ucast_page)
next
  assume w: "w = ucast p"
  then have u: "unat w = unat p" by (simp add: unat_ucast_page)
  have "unat (ucast w :: page_id) = unat p" using unat_less_pow [of p] by (simp add: unsigned_ucast_eq u take_bit_nat_eq_self)
  then show "to_page_id w = Some p" using unat_less_pow [of p] by (simp add: to_page_id_def u word_unat_eq_iff)
qed

lemma to_page_id_ucast [simp]: "to_page_id (ucast (p :: page_id)) = Some p"
  by (simp add: to_page_id_eq)

lemma ucast_page_inj [simp]: "(ucast (p :: page_id) :: u64) = ucast q \<longleftrightarrow> p = q"
  by (metis option.inject to_page_id_ucast)

text \<open>The readers of an internal page, in terms of its separators and children.\<close>

lemma inner_page_children:
  assumes "inner_page n ks cs" and "i < length ks"
  shows "child_id n i = Some (Some (ucast (cs ! Suc i)))"
proof -
  note d = inner_pageD [OF assms(1)]
  have "child_words n ! Suc i = ucast (cs ! Suc i)" using assms d by (auto simp: inner_page_def)
  then have "snd (child_entries n ! i) = ucast (cs ! Suc i)" using assms(2) d by (simp add: child_words_def)
  then show ?thesis using child_id_eq [of n i] child_entries_nth [of i n] assms(2) d by simp
qed

lemma inner_page_leftmost:
  assumes "inner_page n ks cs"
  shows "leftmost_child n = Some (ucast (cs ! 0))" "nh_leftmost_child (hdr n) = ucast (cs ! 0)"
proof -
  note d = inner_pageD [OF assms]
  have "child_words n ! 0 = ucast (cs ! 0)" using assms d by (simp only: inner_page_def) (simp add: nth_map)
  then show "nh_leftmost_child (hdr n) = ucast (cs ! 0)" by (simp add: child_words_def)
  then show "leftmost_child n = Some (ucast (cs ! 0))" using d by (simp add: page_simps)
qed

lemma inner_page_route:
  assumes "inner_page n ks cs"
  shows "child_for_key n key = Some (Some (ucast (cs ! upper_bound_keys ks key)))"
proof -
  note d = inner_pageD [OF assms]
  have ub: "upper_bound_keys ks key \<le> length ks" by (simp add: upper_bound_keys_def length_takeWhile_le)
  show ?thesis
  proof (cases "upper_bound_keys ks key")
    case 0
    then show ?thesis using child_for_key_eq [of n key] d inner_page_leftmost(2) [OF assms] by simp
  next
    case (Suc i)
    then have "snd (child_entries n ! i) = ucast (cs ! Suc i)"
      using inner_page_children [OF assms, of i] child_id_eq [of n i] child_entries_nth [of i n] ub d by simp
    then show ?thesis using child_for_key_eq [of n key] d Suc by simp
  qed
qed

end
