(* ===== verification/Tree_Lookup.thy ===== *)
theory Tree_Lookup
  imports Tree_Shape
begin

text \<open>
  Descent and lookup on a well-formed tree: the descent ends in the leaf whose range holds the key, and the
  lookup returns what the ordered list of entries says.
\<close>

section \<open>The entries of a shape\<close>

definition keys_of :: "(bytes \<times> 'v) list \<Rightarrow> bytes set" where
  "keys_of es = fst ` set es"

lemma keys_of_simps [simp]: "keys_of [] = {}" "keys_of (e # es) = insert (fst e) (keys_of es)" "keys_of (xs @ ys) = keys_of xs \<union> keys_of ys"
  by (simp_all add: keys_of_def image_Un)

lemma keys_of_map: "set (map fst es) = keys_of es"
  by (simp add: keys_of_def)

lemma bst_keys:
  "bst h lo hi s \<Longrightarrow> (\<forall>k \<in> keys_of (ents s). lo \<le> k \<and> below k hi) \<and> sorted_wrt (<) (map fst (ents s))"
  "bsts h lo hi ks cs \<Longrightarrow> (\<forall>k \<in> keys_of (concat (map ents cs)). lo \<le> k \<and> below k hi)
    \<and> sorted_wrt (<) (map fst (concat (map ents cs)))"
proof (induction h lo hi s and h lo hi ks cs rule: bst_bsts.induct)
  case (5 h lo hi k ks c cs)
  then have c: "\<forall>x \<in> keys_of (ents c). lo \<le> x \<and> x < k" and cs: "\<forall>x \<in> keys_of (concat (map ents cs)). k \<le> x \<and> below x hi"
    and l: "lo < k" "below k hi" and s: "sorted_wrt (<) (map fst (ents c))" "sorted_wrt (<) (map fst (concat (map ents cs)))"
    by simp_all
  have "\<forall>x \<in> keys_of (ents c). below x hi" using c l(2) by (meson below_trans)
  moreover have "\<forall>x \<in> keys_of (concat (map ents cs)). lo \<le> x" using cs l(1) by (meson less_imp_le order_trans)
  ultimately have range: "\<forall>x \<in> keys_of (ents c) \<union> keys_of (concat (map ents cs)). lo \<le> x \<and> below x hi"
    using c cs by blast
  have "\<forall>x \<in> keys_of (ents c). \<forall>y \<in> keys_of (concat (map ents cs)). x < y" using c cs by (meson less_le_trans)
  then have "sorted_wrt (<) (map fst (ents c) @ map fst (concat (map ents cs)))"
    using s by (simp only: sorted_wrt_append keys_of_map)
  with range show ?case by (simp only: list.map concat.simps map_append keys_of_simps)
qed (auto simp: keys_of_def)

fun pre :: "path_frame list \<Rightarrow> (bytes \<times> value_ref) list" where
  "pre [] = []"
| "pre (Frame p ks1 cs1 ks2 cs2 # fs) = pre fs @ concat (map ents cs1)"

fun post :: "path_frame list \<Rightarrow> (bytes \<times> value_ref) list" where
  "post [] = []"
| "post (Frame p ks1 cs1 ks2 cs2 # fs) = concat (map ents cs2) @ post fs"

lemma ents_fill: "ents (fill fs c) = pre fs @ ents c @ post fs"
proof (induction fs arbitrary: c)
  case (Cons f fs)
  then show ?case by (cases f) simp
qed simp

lemma lefts_keys: "lefts h lo ks cs lo' \<Longrightarrow> k \<in> keys_of (concat (map ents cs)) \<Longrightarrow> lo \<le> k \<and> k < lo'"
proof (induction h lo ks cs lo' rule: lefts.induct)
  case (2 h lo k' ks c cs lo')
  then have l: "lo < k'" "bst h lo (Some k') c" "lefts h k' ks cs lo'" by simp_all
  show ?case
  proof (cases "k \<in> keys_of (ents c)")
    case True
    then have "lo \<le> k" "k < k'" using bst_keys(1) [OF l(2)] by simp_all
    then show ?thesis using lefts_le [OF l(3)] by (meson less_le_trans)
  next
    case False
    then have "k' \<le> k \<and> k < lo'" using 2 l by simp
    then show ?thesis using l(1) by (meson less_imp_le order_trans)
  qed
qed simp_all

lemma rights_keys:
  assumes "rights h hi' ks cs hi" and "k \<in> keys_of (concat (map ents cs))"
  shows "\<not> below k hi' \<and> below k hi"
proof (cases ks)
  case Nil
  then show ?thesis using assms by simp
next
  case (Cons k' ks')
  then have "hi' = Some k'" "bsts h k' hi ks' cs" using assms(1) by simp_all
  then show ?thesis using bst_keys(2) [of h k' hi ks' cs] assms(2) by (simp add: not_less)
qed

lemma context_keys:
  assumes "accepts fs h lo hi H"
  shows "k \<in> keys_of (pre fs) \<Longrightarrow> k < lo" and "k \<in> keys_of (post fs) \<Longrightarrow> \<not> below k hi"
  using assms
proof (induction fs arbitrary: h lo hi)
  case (Cons f fs)
  obtain p ks1 cs1 ks2 cs2 where f: "f = Frame p ks1 cs1 ks2 cs2" by (cases f)
  { case 1
    then obtain lo0 hi0 where b: "lefts h lo0 ks1 cs1 lo" "accepts fs (Suc h) lo0 hi0 H" by (auto simp: f)
    have "k < lo0 \<or> k \<in> keys_of (concat (map ents cs1))" using 1(1) Cons.IH(1) [OF _ b(2)] by (simp add: f) blast
    then show ?case using lefts_le [OF b(1)] lefts_keys [OF b(1)] by (meson less_le_trans) }
  { case 2
    then obtain lo0 hi0 where b: "rights h hi ks2 cs2 hi0" "accepts fs (Suc h) lo0 hi0 H" by (auto simp: f)
    have "\<not> below k hi0 \<or> k \<in> keys_of (concat (map ents cs2))" using 2(1) Cons.IH(2) [OF _ b(2)] by (simp add: f) blast
    moreover have "below k hi \<Longrightarrow> below k hi0" using b(1) by (cases ks2) (auto intro: below_trans)
    ultimately show ?case using rights_keys [OF b(1)] by blast }
qed simp_all

text \<open>A key in the range of the hole is looked up in the hole.\<close>

lemma map_of_fill:
  assumes "accepts fs h lo hi H" and "lo \<le> key" and "below key hi"
  shows "map_of (ents (fill fs c)) key = map_of (ents c) key"
proof -
  have "key \<notin> keys_of (pre fs)" "key \<notin> keys_of (post fs)"
    using context_keys [OF assms(1), of key] assms(2,3) by auto
  then have "map_of (pre fs) key = None" "map_of (post fs) key = None" by (simp_all add: map_of_eq_None_iff keys_of_def)
  then show ?thesis by (simp add: ents_fill map_add_def split: option.split)
qed

section \<open>Well-formed trees\<close>

definition alloc_ok :: "btree \<Rightarrow> bool" where
  "alloc_ok t \<longleftrightarrow> pa_inv (bt_alloc t) \<and> length (bt_nodes t) \<le> unat (pa_next_id (bt_alloc t))
     \<and> (\<forall>p. ucast p \<in> set (pa_free_list (bt_alloc t)) \<longrightarrow> tree_node t p = None)"

text \<open>The state \<open>t\<close> holds the shape \<open>s\<close> of height \<open>H\<close>: all pages are loaded, and no other page is.\<close>

definition tree_of :: "btree \<Rightarrow> stree \<Rightarrow> nat \<Rightarrow> bool" where
  "tree_of t s H \<longleftrightarrow> bst H [] None s \<and> rep t s \<and> distinct (ids s) \<and> bt_root t = rid s
     \<and> (\<forall>p. tree_node t p \<noteq> None \<longrightarrow> p \<in> set (ids s)) \<and> alloc_ok t"

lemma rep_fill: "rep t (fill fs c) \<Longrightarrow> rep t c"
proof (induction fs arbitrary: c)
  case (Cons f fs)
  then show ?case by (cases f) force
qed simp

section \<open>Descent\<close>

lemma find_leaf_descend:
  assumes "rep t s" and "bst h lo hi s" and "accepts fs0 h lo hi H" and "lo \<le> key" and "below key hi" and "below lo hi" and "d + h < 128"
  shows "\<exists>fs p es lo' hi'. fill fs0 s = fill fs (SL p es) \<and> accepts fs 0 lo' hi' H \<and> bst 0 lo' hi' (SL p es)
    \<and> lo' \<le> key \<and> below key hi' \<and> below lo' hi' \<and> rep t (SL p es) \<and> find_leaf_from t key (rid s) d = Some (Inr p)"
  using assms
proof (induction h arbitrary: s lo hi fs0 d)
  case 0
  then obtain p es where s: "s = SL p es" by (cases s) auto
  with 0 obtain n where n: "tree_node t p = Some n" "leaf_page n es" by auto
  then have "find_leaf_from t key p d = Some (Inr p)"
    using 0 leaf_pageD [OF n(2)] by (subst find_leaf_from.simps) (simp add: MAX_ROUTING_DEPTH_def page_simps)
  with 0 s show ?case by (intro exI [of _ fs0] exI [of _ p] exI [of _ es] exI [of _ lo] exI [of _ hi]) simp
next
  case (Suc h)
  then obtain p ks cs where s: "s = SN p ks cs" "bsts h lo hi ks cs" by (cases s) auto
  obtain ks1 cs1 ks2 cs2 c lo' hi' where f: "ks = ks1 @ ks2" "cs = cs1 @ c # cs2" "lefts h lo ks1 cs1 lo'" "rights h hi' ks2 cs2 hi"
    "below lo' hi'" "bst h lo' hi' c" "lo' \<le> key" "below key hi'" "upper_bound_keys ks key = length cs1"
    using focus_key [OF s(2) Suc.prems(4-6)] by blast
  obtain n where n: "tree_node t p = Some n" "inner_page n ks (map rid cs)" using Suc.prems(1) s(1) by auto
  have acc: "accepts (Frame p ks1 cs1 ks2 cs2 # fs0) h lo' hi' H" using f Suc.prems(3) by auto
  have "map rid cs ! upper_bound_keys ks key = rid c" by (simp add: f(2,9) nth_append)
  then have step: "find_leaf_from t key (rid s) d = find_leaf_from t key (rid c) (d + 1)"
    using Suc.prems(7) n inner_pageD [OF n(2)] inner_page_route [OF n(2), of key]
    by (subst find_leaf_from.simps) (simp add: s(1) MAX_ROUTING_DEPTH_def page_simps)
  have "rep t c" using Suc.prems(1) by (simp add: s(1) f(2))
  from Suc.IH [OF this f(6) acc f(7,8,5)] Suc.prems(7) step show ?case
    by (simp add: s(1) f(1,2))
qed

lemma find_leaf_tree:
  assumes "tree_of t s H" and "H < 128"
  obtains fs p es lo hi where "s = fill fs (SL p es)" "accepts fs 0 lo hi H" "bst 0 lo hi (SL p es)" "lo \<le> key" "below key hi" "below lo hi"
    "rep t (SL p es)" "find_leaf t key = Some (Inr p)"
proof -
  have "rep t s" "bst H [] None s" "bt_root t = rid s" using assms(1) by (simp_all add: tree_of_def)
  then show thesis
    using find_leaf_descend [of t s H "[]" None "[]" H key 0] assms(2) that by (auto simp: find_leaf_def)
qed

section \<open>Lookup\<close>

definition lookup_spec :: "(bytes \<times> value_ref) list \<Rightarrow> bytes \<Rightarrow> lookup_result" where
  "lookup_spec es key = (case map_of es key of None \<Rightarrow> NotFound | Some v \<Rightarrow> lookup_of v)"

lemma leaf_search:
  assumes "leaf_page n es" and "sorted_wrt (<) (map fst es)"
  shows "node_search n key = Some (case position (\<lambda>e. fst e = key) es of Some i \<Rightarrow> Inr i | None \<Rightarrow> Inl (lower_bound (map fst es) key))"
    and "i < length es \<Longrightarrow> node_value n i = Some (Some (snd (es ! i)))"
    and "position (\<lambda>e. fst e = key) es = Some i \<Longrightarrow> lower_bound (map fst es) key = i"
proof -
  note d = leaf_pageD [OF assms(1)]
  have srt: "sorted (map fst es)" "distinct (map fst es)" using assms(2) by (simp_all add: strict_sorted_iff)
  show lb: "lower_bound (map fst es) key = i" if "position (\<lambda>e. fst e = key) es = Some i" for i
  proof -
    from position_Some [OF that] have i: "i < length es" "fst (es ! i) = key" by auto
    then have "key \<in> set (map fst es)" by (metis length_map nth_map nth_mem)
    from lower_bound_nth [OF srt(1) this] show ?thesis
      using i nth_eq_iff_index_eq [OF srt(2), of "lower_bound (map fst es) key" i] by simp
  qed
  have "key \<in> set (map fst es) \<longleftrightarrow> position (\<lambda>e. fst e = key) es \<noteq> None" by (auto simp: position_None)
  then show "node_search n key = Some (case position (\<lambda>e. fst e = key) es of Some i \<Rightarrow> Inr i | None \<Rightarrow> Inl (lower_bound (map fst es) key))"
    using node_search_eq [of n key] d lb by (auto simp: search_spec_def Let_def split: option.split)
  show "node_value n i = Some (Some (snd (es ! i)))" if "i < length es"
    using node_value_eq [of n i] arg_cong [OF leaf_entries_nth [of i n], of snd] d that length_entries(1) [of n] by simp
qed

lemma map_of_position:
  "map_of es key = (case position (\<lambda>e. fst e = key) es of Some i \<Rightarrow> Some (snd (es ! i)) | None \<Rightarrow> None)"
  by (induction es) (auto split: option.split)

lemma bt_lookup_tree:
  assumes "tree_of t s H" and "H < 128"
  shows "bt_lookup t key = Some (Inr (lookup_spec (ents s) key))"
proof -
  obtain fs p es lo hi where l: "s = fill fs (SL p es)" "accepts fs 0 lo hi H" "bst 0 lo hi (SL p es)" "lo \<le> key" "below key hi"
    "rep t (SL p es)" "find_leaf t key = Some (Inr p)"
    using find_leaf_tree [OF assms] by metis
  obtain n where n: "tree_node t p = Some n" "leaf_page n es" using l(6) by auto
  have srt: "sorted_wrt (<) (map fst es)" using l(3) by simp
  have "map_of (ents s) key = map_of es key" using map_of_fill [OF l(2,4,5)] l(1) by simp
  then show ?thesis
    using leaf_search [OF n(2) srt] n(1) l(7) position_Some [of "\<lambda>e. fst e = key" es]
    by (auto simp: bt_lookup_def lookup_spec_def map_of_position split: option.split)
qed

end
