(* ===== verification/Tree_Pages.thy ===== *)
theory Tree_Pages
  imports Tree_Lookup "HOL-Library.Multiset"
begin

text \<open>
  How a shape depends on the pages of a state: writing a page, changing a parent hint, allocating a page, and
  the unique parent of a page.
\<close>

section \<open>Reading and writing pages\<close>

lemma tree_node_bound: "tree_node t p = Some n \<Longrightarrow> unat p < length (bt_nodes t)"
  by (simp add: tree_node_def split: if_splits)

lemma tree_node_store:
  assumes "tree_node t p = Some n0"
  shows "tree_node (store_node t p n) q = (if q = p then Some n else tree_node t q)"
proof (cases "q = p")
  case True
  then show ?thesis using tree_node_bound [OF assms] by (simp add: tree_node_def store_node_def)
next
  case False
  then have "unat q \<noteq> unat p" by (simp add: word_unat_eq_iff)
  then show ?thesis using False by (simp add: tree_node_def store_node_def)
qed

lemma store_node_simps [simp]:
  "bt_root (store_node t p n) = bt_root t" "bt_alloc (store_node t p n) = bt_alloc t"
  "length (bt_nodes (store_node t p n)) = length (bt_nodes t)"
  by (simp_all add: store_node_def)

lemma node_mut_eq: "tree_node t p = Some n \<Longrightarrow> change n = Some (r, n') \<Longrightarrow> node_mut t p change = Some (Inr r, store_node t p n')"
  by (simp add: node_mut_def)

text \<open>Pages that hold the same: only their headers differ, in fields that a shape does not look at.\<close>

definition same_views :: "node \<Rightarrow> node \<Rightarrow> bool" where
  "same_views n n' \<longleftrightarrow> good_page n \<longrightarrow> good_page n' \<and> nh_page_type (hdr n') = nh_page_type (hdr n) \<and> leaf_entries n' = leaf_entries n
     \<and> node_keys n' = node_keys n \<and> child_words n' = child_words n"

lemma same_views_refl [simp]: "same_views n n"
  by (simp add: same_views_def)

lemma same_views_trans: "same_views n n1 \<Longrightarrow> same_views n1 n2 \<Longrightarrow> same_views n n2"
  by (simp add: same_views_def)

lemma same_views_pages: "same_views n n' \<Longrightarrow> leaf_page n es \<Longrightarrow> leaf_page n' es" "same_views n n' \<Longrightarrow> inner_page n ks cs \<Longrightarrow> inner_page n' ks cs"
  by (simp_all add: same_views_def leaf_page_def inner_page_def)

lemma set_parent_id_views:
  assumes "good_page n"
  shows "\<exists>n'. set_parent_id n p = Some n' \<and> same_views n n' \<and> good_page n'"
proof -
  let ?h = "(hdr n)\<lparr>nh_parent_id := p\<rparr>"
  let ?n' = "write_at n 0 (nh_to_bytes ?h)"
  have wf: "page_wf n" using assms by simp
  note v = page_wf_set_header [OF wf, of ?h, simplified]
  have "page_valid ?n'" using assms page_valid_set_header [of n ?h] by (simp add: good_page_def)
  moreover have "hdr ?n' = ?h" using wf by simp
  ultimately have "good_page ?n'"
    using assms v by (simp add: good_page_def free_of_def compressed_def)
  moreover have "same_views n ?n'"
    using v \<open>hdr ?n' = ?h\<close> \<open>good_page ?n'\<close> by (simp add: same_views_def leaf_entries_def node_keys_def child_words_def child_entries_def)
  ultimately show ?thesis using wf by (simp add: set_parent_id_def page_simps)
qed

section \<open>States that differ in hints\<close>

definition hint_eq :: "btree \<Rightarrow> btree \<Rightarrow> bool" where
  "hint_eq t t' \<longleftrightarrow> bt_root t' = bt_root t \<and> bt_alloc t' = bt_alloc t \<and> length (bt_nodes t') = length (bt_nodes t)
     \<and> (\<forall>p. rel_option same_views (tree_node t p) (tree_node t' p))"

lemma hint_eq_refl [simp]: "hint_eq t t"
  by (simp add: hint_eq_def option.rel_refl)

lemma rel_same_views_trans: "rel_option same_views a b \<Longrightarrow> rel_option same_views b c \<Longrightarrow> rel_option same_views a c"
  by (cases a; cases b; cases c) (auto intro: same_views_trans)

lemma hint_eq_trans: "hint_eq t t1 \<Longrightarrow> hint_eq t1 t2 \<Longrightarrow> hint_eq t t2"
  unfolding hint_eq_def using rel_same_views_trans by metis

text \<open>Every loaded page is good.\<close>

definition good_pages :: "btree \<Rightarrow> bool" where
  "good_pages t \<longleftrightarrow> (\<forall>p n. tree_node t p = Some n \<longrightarrow> good_page n)"

lemma good_pages_hint: "hint_eq t t' \<Longrightarrow> good_pages t \<Longrightarrow> good_pages t'"
  unfolding good_pages_def hint_eq_def same_views_def
  by (metis (no_types, lifting) option_rel_Some2)

lemma set_parent_hint:
  assumes "good_pages t" and "tree_node t p \<noteq> None"
  shows "\<exists>t'. set_parent t p q = Some (Inr (), t') \<and> hint_eq t t' \<and> good_pages t'"
proof -
  obtain n where n: "tree_node t p = Some n" using assms(2) by blast
  then obtain n' where n': "set_parent_id n q = Some n'" "same_views n n'" "good_page n'"
    using set_parent_id_views [of n q] assms(1) by (auto simp: good_pages_def)
  have "hint_eq t (store_node t p n')"
    using n n'(2) by (auto simp: hint_eq_def tree_node_store option.rel_refl)
  moreover have "good_pages (store_node t p n')"
    using assms(1) n n'(3) by (auto simp: good_pages_def tree_node_store)
  ultimately show ?thesis using n n'(1) by (simp add: set_parent_def node_mut_def)
qed

lemma hint_eq_node: "hint_eq t t' \<Longrightarrow> tree_node t p = Some n \<Longrightarrow> \<exists>n'. tree_node t' p = Some n' \<and> same_views n n'"
  unfolding hint_eq_def by (metis option_rel_Some1)

lemma hint_eq_None: "hint_eq t t' \<Longrightarrow> tree_node t' p = None \<longleftrightarrow> tree_node t p = None"
  unfolding hint_eq_def by (metis option.rel_sel)

section \<open>Shapes and contexts\<close>

definition keeps :: "btree \<Rightarrow> btree \<Rightarrow> page_id set \<Rightarrow> bool" where
  "keeps t t' A \<longleftrightarrow> (\<forall>p \<in> A. \<forall>n. tree_node t p = Some n \<longrightarrow> (\<exists>n'. tree_node t' p = Some n' \<and> same_views n n'))"

lemma keepsI [intro]: "(\<And>p. p \<in> A \<Longrightarrow> tree_node t' p = tree_node t p) \<Longrightarrow> keeps t t' A"
  by (auto simp: keeps_def)

lemma keeps_subset: "keeps t t' A \<Longrightarrow> B \<subseteq> A \<Longrightarrow> keeps t t' B"
  by (auto simp: keeps_def)

lemma keeps_hint: "hint_eq t t' \<Longrightarrow> keeps t t' A"
  by (auto simp: keeps_def dest: hint_eq_node)

lemma rid_in_ids [simp]: "rid s \<in> set (ids s)"
  by (cases s) auto

lemma rep_keeps: "rep t s \<Longrightarrow> keeps t t' (set (ids s)) \<Longrightarrow> rep t' s"
proof (induction s)
  case (SL p es)
  then show ?case using same_views_pages(1) by (fastforce simp: keeps_def)
next
  case (SN p ks cs)
  then obtain n where n: "tree_node t p = Some n" "inner_page n ks (map rid cs)" by auto
  moreover obtain n' where "tree_node t' p = Some n'" "same_views n n'" using SN.prems(2) n(1) by (auto simp: keeps_def)
  moreover have "rep t' c" if "c \<in> set cs" for c
    using SN that by (intro SN.IH keeps_subset [OF SN.prems(2)]) auto
  ultimately show ?case using same_views_pages(2) by auto
qed

fun crep :: "btree \<Rightarrow> path_frame list \<Rightarrow> page_id \<Rightarrow> bool" where
  "crep t [] r \<longleftrightarrow> True"
| "crep t (Frame p ks1 cs1 ks2 cs2 # fs) r \<longleftrightarrow>
     (\<exists>n. tree_node t p = Some n \<and> inner_page n (ks1 @ ks2) (map rid cs1 @ r # map rid cs2))
     \<and> (\<forall>c \<in> set cs1 \<union> set cs2. rep t c) \<and> crep t fs p"

lemma rep_fill_iff: "rep t (fill fs c) \<longleftrightarrow> rep t c \<and> crep t fs (rid c)"
proof (induction fs arbitrary: c)
  case (Cons f fs)
  then show ?case by (cases f) auto
qed simp

fun cids :: "path_frame list \<Rightarrow> page_id list" where
  "cids [] = []"
| "cids (Frame p ks1 cs1 ks2 cs2 # fs) = p # concat (map ids cs1) @ concat (map ids cs2) @ cids fs"

lemma mset_ids_fill: "mset (ids (fill fs c)) = mset (ids c @ cids fs)"
proof (induction fs arbitrary: c)
  case (Cons f fs)
  then show ?case by (cases f) simp
qed simp

lemma ids_fill: "distinct (ids (fill fs c)) \<longleftrightarrow> distinct (ids c @ cids fs)" "set (ids (fill fs c)) = set (ids c @ cids fs)"
  using mset_eq_imp_distinct_iff [OF mset_ids_fill] mset_eq_setD [OF mset_ids_fill] by blast+

lemma crep_keeps: "crep t fs r \<Longrightarrow> keeps t t' (set (cids fs)) \<Longrightarrow> crep t' fs r"
proof (induction fs arbitrary: r)
  case (Cons f fs)
  obtain p ks1 cs1 ks2 cs2 where f: "f = Frame p ks1 cs1 ks2 cs2" by (cases f)
  obtain n where n: "tree_node t p = Some n" "inner_page n (ks1 @ ks2) (map rid cs1 @ r # map rid cs2)" using Cons.prems(1) by (auto simp: f)
  moreover obtain n' where "tree_node t' p = Some n'" "same_views n n'" using Cons.prems(2) n(1) by (auto simp: keeps_def f)
  moreover have "rep t' c" if "c \<in> set cs1 \<union> set cs2" for c
  proof (rule rep_keeps)
    show "rep t c" using Cons.prems(1) that by (auto simp: f)
    show "keeps t t' (set (ids c))" by (rule keeps_subset [OF Cons.prems(2)]) (use that in \<open>auto simp: f\<close>)
  qed
  moreover have "crep t' fs p"
  proof (rule Cons.IH)
    show "crep t fs p" using Cons.prems(1) by (simp add: f)
    show "keeps t t' (set (cids fs))" by (rule keeps_subset [OF Cons.prems(2)]) (auto simp: f)
  qed
  ultimately show ?case using same_views_pages(2) by (auto simp: f)
qed simp

lemma rid_fill: "rid (fill fs c) = (if fs = [] then rid c else fpid (last fs))"
proof (induction fs arbitrary: c)
  case (Cons f fs)
  then show ?case by (cases f) simp
qed simp

lemma fpid_in_cids: "f \<in> set fs \<Longrightarrow> fpid f \<in> set (cids fs)"
proof (induction fs)
  case (Cons g fs)
  then show ?case by (cases g) auto
qed simp

end
