(* ===== verification/Tree_Parents.thy ===== *)
theory Tree_Parents
  imports Tree_Pages
begin

text \<open>
  Allocating pages, and finding the parent of a page: the recorded hint is used only when the page it names
  points back, and the search from the root finds the parent otherwise.
\<close>

section \<open>Allocation\<close>

lemma tree_node_grow:
  assumes "unat p < length ns"
  shows "(if unat q < length (ns[unat p := Some n]) then ns[unat p := Some n] ! unat q else None) =
    (if q = p then Some n else if unat q < length ns then ns ! unat q else None)"
proof (cases "q = p")
  case False
  then have "unat q \<noteq> unat p" by (simp add: word_unat_eq_iff)
  with False show ?thesis by simp
qed (use assms in simp)

lemma nth_grow: "(if i < length (grow j ns) then grow j ns ! i else None) = (if i < length ns then ns ! i else None)"
  by (auto simp: grow_def nth_append)

lemma length_grow [simp]: "length (grow j ns) = max (length ns) (Suc j)"
  by (auto simp: grow_def)

lemma alloc_node_spec:
  assumes ok: "alloc_ok t"
  shows "(\<exists>t'. alloc_node t n = Some (Inl BPageIdExhausted, t'))
    \<or> (\<exists>p t'. alloc_node t n = Some (Inr p, t') \<and> p \<noteq> 0 \<and> tree_node t p = None \<and> bt_root t' = bt_root t \<and> alloc_ok t'
        \<and> (\<forall>q. tree_node t' q = (if q = p then Some n else tree_node t q)))"
proof -
  obtain pid a where al: "pa_alloc (bt_alloc t) = (pid, a)" by force
  show ?thesis
  proof (cases "to_page_id pid")
    case None
    then show ?thesis by (simp add: alloc_node_def al)
  next
    case (Some p)
    define t' where "t' = t\<lparr>bt_alloc := a, bt_nodes := (grow (unat p) (bt_nodes t))[unat p := Some n], bt_dirty := insert p (bt_dirty t)\<rparr>"
    have run: "alloc_node t n = Some (Inr p, t')" by (simp add: alloc_node_def al Some t'_def)
    have pid: "pid = ucast p" "unat pid = unat p" "unat p < 2 ^ 32"
      using Some unat_less_pow [of p] by (simp_all add: to_page_id_eq unat_ucast_page)
    have can: "pa_can_alloc (bt_alloc t)"
    proof (rule ccontr)
      assume "\<not> pa_can_alloc (bt_alloc t)"
      then have e: "pa_free_list (bt_alloc t) = []" "\<not> pa_next_id (bt_alloc t) < - 1" by (simp_all add: pa_can_alloc_def)
      then have "pid = pa_next_id (bt_alloc t)" using al by (simp add: pa_alloc_frontier)
      with e(2) have "2 ^ 64 - 1 \<le> unat pid" by (simp add: word_less_nat_alt unat_minus_one_word_eq)
      then show False using pid by simp
    qed
    have inv: "pa_inv (bt_alloc t)" and len: "length (bt_nodes t) \<le> unat (pa_next_id (bt_alloc t))"
      and free: "\<And>q. ucast q \<in> set (pa_free_list (bt_alloc t)) \<Longrightarrow> tree_node t q = None" using ok by (simp_all add: alloc_ok_def)
    note al' = pa_alloc_inv [OF inv can al]
    have lt: "unat p < unat (pa_next_id a)" using al'(6) pid(2) by (simp add: word_less_nat_alt)
    consider (reuse) xs where "pa_free_list (bt_alloc t) = xs @ [pid]" "pa_free_list a = xs" "pa_next_id a = pa_next_id (bt_alloc t)"
      | (fresh) "pa_free_list (bt_alloc t) = []" "pid = pa_next_id (bt_alloc t)" "pa_free_list a = []"
      using al by (cases "pa_free_list (bt_alloc t)" rule: rev_cases) (auto simp: pa_alloc_reuse pa_alloc_frontier)
    then have rest: "set (pa_free_list a) \<subseteq> set (pa_free_list (bt_alloc t)) - {pid} \<and> tree_node t p = None
      \<and> length (bt_nodes t) \<le> unat (pa_next_id a)"
    proof cases
      case reuse
      then show ?thesis using inv free [of p] len pid(1) by (auto simp: pa_inv_def)
    next
      case fresh
      then have "length (bt_nodes t) \<le> unat p" using len pid(2) by simp
      then show ?thesis using lt fresh by (simp add: tree_node_def)
    qed
    have g: "unat p < length (grow (unat p) (bt_nodes t))" by simp
    have nodes: "bt_nodes t' = (grow (unat p) (bt_nodes t))[unat p := Some n]" by (simp add: t'_def)
    have node: "tree_node t' q = (if q = p then Some n else tree_node t q)" for q
      by (simp only: tree_node_def nodes tree_node_grow [OF g] nth_grow)
    have "alloc_ok t'"
      unfolding alloc_ok_def node using al'(1) rest free pid(1) lt by (auto simp: t'_def)
    moreover have "p \<noteq> 0" using al'(2) pid(1) by auto
    ultimately show ?thesis using run rest node by (auto simp: t'_def)
  qed
qed

section \<open>Edges\<close>

fun edges :: "stree \<Rightarrow> (page_id \<times> page_id) list" where
  "edges (SL p es) = []"
| "edges (SN p ks cs) = map (\<lambda>c. (p, rid c)) cs @ concat (map edges cs)"

lemma mset_edges: "add_mset (rid s) (mset (map snd (edges s))) = mset (ids s)"
proof (induction s)
  case (SN p ks cs)
  have "mset (map rid cs) + mset (map snd (concat (map edges cs))) = mset (concat (map ids cs))"
    using SN by (induction cs) (auto simp: algebra_simps)
  then show ?case by (simp add: o_def)
qed simp

lemma edge_child: "(p, c) \<in> set (edges s) \<Longrightarrow> c \<in> set (ids s)"
  using mset_eq_setD [of "rid s # map snd (edges s)" "ids s"] mset_edges [of s] by (force simp: image_iff)

text \<open>A page of a shape that is internal has an edge for each of its child words.\<close>

lemma word_edge:
  assumes "rep t s" and "p \<in> set (ids s)" and "tree_node t p = Some n" and "nh_page_type (hdr n) = Internal" and "ucast c \<in> set (child_words n)"
  shows "(p, c) \<in> set (edges s)"
  using assms(1,2)
proof (induction s)
  case (SL q es)
  then show ?case using assms(3,4) by (auto simp: leaf_page_def)
next
  case (SN q ks cs)
  show ?case
  proof (cases "p = q")
    case True
    then have "child_words n = map ucast (map rid cs)" using SN.prems(1) assms(3) by (simp add: inner_page_def)
    then obtain d where "d \<in> set cs" "(ucast c :: u64) = ucast (rid d)" using assms(5) by auto
    then show ?thesis using True by auto
  next
    case False
    then obtain d where "d \<in> set cs" "p \<in> set (ids d)" using SN.prems(2) by auto
    then show ?thesis using SN by fastforce
  qed
qed

lemma distinct_edges: "distinct (ids s) \<Longrightarrow> distinct (map snd (edges s)) \<and> rid s \<notin> snd ` set (edges s)"
  using mset_eq_imp_distinct_iff [of "rid s # map snd (edges s)" "ids s"] mset_edges [of s] by simp

lemma edge_unique: "distinct (ids s) \<Longrightarrow> (p, c) \<in> set (edges s) \<Longrightarrow> (p', c) \<in> set (edges s) \<Longrightarrow> p = p'"
  using distinct_edges [of s] eq_key_imp_eq_value [of "map prod.swap (edges s)" c p p']
  by (force simp: o_def image_iff)

lemma edge_fill: "(p, c) \<in> set (edges s) \<Longrightarrow> (p, c) \<in> set (edges (fill fs s))"
proof (induction fs arbitrary: s)
  case (Cons f fs)
  then show ?case by (cases f) auto
qed simp

section \<open>The search for a parent\<close>

text \<open>The parent of a page in a shape, and in a list of children below a page.\<close>

lemma find_parent_leaf:
  "rep t (SL p es) \<Longrightarrow> p \<notin> active \<Longrightarrow> find_parent t target active p = Some (Inr None)"
  using leaf_pageD by (subst find_parent.simps) (auto simp: page_simps)

definition found_in :: "(page_id \<times> page_id) set \<Rightarrow> page_id \<Rightarrow> page_id option \<Rightarrow> bool" where
  "found_in E target r \<longleftrightarrow> (case r of Some p \<Rightarrow> (p, target) \<in> E | None \<Rightarrow> target \<notin> snd ` E)"

lemma found_in_None: "found_in A target None \<Longrightarrow> found_in B target r \<Longrightarrow> found_in (A \<union> B) target r"
  by (auto simp: found_in_def image_Un split: option.splits)

lemma found_in_Some: "found_in A target (Some p) \<Longrightarrow> found_in (A \<union> B) target (Some p)"
  by (simp add: found_in_def)

definition edges_below :: "page_id \<Rightarrow> stree list \<Rightarrow> (page_id \<times> page_id) set" where
  "edges_below p cs = set (map (\<lambda>c. (p, rid c)) cs @ concat (map edges cs))"

lemma edges_below_Cons: "edges_below p (c # cs) = insert (p, rid c) (set (edges c) \<union> edges_below p cs)"
  by (auto simp: edges_below_def)

text \<open>One child, then the others.\<close>

lemma found_step:
  assumes "found_in (set (edges c)) target r" and "found_in (edges_below p cs) target r'" and "rid c \<noteq> target"
  shows "found_in (edges_below p (c # cs)) target (case r of Some q \<Rightarrow> Some q | None \<Rightarrow> r')"
proof -
  have "found_in (set (edges c) \<union> edges_below p cs) target (case r of Some q \<Rightarrow> Some q | None \<Rightarrow> r')"
    using assms(1,2) found_in_None found_in_Some by (cases r) auto
  then show ?thesis using assms(3) by (cases r; cases r') (auto simp: edges_below_Cons found_in_def)
qed

lemma find_parent_children:
  assumes page: "inner_page n ks (map rid cs)"
    and sub: "\<And>c. c \<in> set cs \<Longrightarrow> \<exists>r. find_parent t target active (rid c) = Some (Inr r) \<and> found_in (set (edges c)) target r"
  shows "j \<le> length ks \<Longrightarrow> \<exists>r. find_parent_in t target active p n [j..<length ks] = Some (Inr r)
    \<and> found_in (edges_below p (drop (Suc j) cs)) target r"
proof (induction "length ks - j" arbitrary: j)
  case 0
  then have "drop (Suc j) cs = []" using inner_pageD [OF page] by simp
  with 0 show ?case by (simp add: found_in_def edges_below_def)
next
  case (Suc m)
  then have j: "j < length ks" "m = length ks - Suc j" "Suc j \<le> length ks" by simp_all
  then have len: "Suc j < length cs" using inner_pageD [OF page] by simp
  define c where "c = cs ! Suc j"
  have dr: "drop (Suc j) cs = c # drop (Suc (Suc j)) cs" using len by (simp add: c_def Cons_nth_drop_Suc)
  have cid: "child_id n j = Some (Some (ucast (rid c)))" using inner_page_children [OF page j(1)] len by (simp add: c_def)
  obtain r where r: "find_parent t target active (rid c) = Some (Inr r)" "found_in (set (edges c)) target r"
    using sub [of c] len by (auto simp: c_def)
  obtain r' where r': "find_parent_in t target active p n [Suc j..<length ks] = Some (Inr r')"
    "found_in (edges_below p (drop (Suc (Suc j)) cs)) target r'"
    using Suc.hyps(1) [OF j(2,3)] by blast
  have up: "[j..<length ks] = j # [Suc j..<length ks]" using j(1) by (rule upt_conv_Cons)
  show ?case
  proof (cases "rid c = target")
    case True
    then show ?thesis using cid unfolding up dr by (auto simp: edges_below_Cons found_in_def)
  next
    case False
    then have "find_parent_in t target active p n [j..<length ks] = Some (Inr (case r of Some q \<Rightarrow> Some q | None \<Rightarrow> r'))"
      using cid r(1) r'(1) unfolding up by (cases r) simp_all
    then show ?thesis using found_step [OF r(2) r'(2) False] unfolding dr by blast
  qed
qed

lemma find_parent_spec:
  assumes "rep t s" and "distinct (ids s)" and "set (ids s) \<inter> active = {}" and "target \<noteq> rid s"
  shows "\<exists>r. find_parent t target active (rid s) = Some (Inr r) \<and> found_in (set (edges s)) target r"
  using assms
proof (induction s arbitrary: active)
  case (SL p es)
  then show ?case using find_parent_leaf [of t p es active target] by (auto simp: found_in_def)
next
  case (SN p ks cs)
  obtain n where n: "tree_node t p = Some n" "inner_page n ks (map rid cs)" using SN.prems(1) by auto
  note d = inner_pageD [OF n(2)]
  obtain c0 cs' where cs: "cs = c0 # cs'" using d by (cases cs) auto
  have sub: "\<exists>r. find_parent t target (insert p active) (rid c) = Some (Inr r) \<and> found_in (set (edges c)) target r" if c: "c \<in> set cs" for c
  proof (cases "target = rid c")
    case True
    have "distinct (ids c)" using SN.prems(2) c by (auto simp: distinct_concat_iff)
    then have "rid c \<notin> snd ` set (edges c)" using distinct_edges by blast
    moreover have "find_parent t target (insert p active) (rid c) = Some (Inr None)" using True by (subst find_parent.simps) simp
    ultimately show ?thesis using True by (simp add: found_in_def)
  next
    case False
    have "distinct (ids c)" "p \<notin> set (ids c)" "set (ids c) \<inter> active = {}" using SN.prems(2,3) c by (auto simp: distinct_concat_iff)
    then show ?thesis using SN.IH [OF c] SN.prems(1) c False by auto
  qed
  obtain r0 where r0: "find_parent t target (insert p active) (rid c0) = Some (Inr r0)" "found_in (set (edges c0)) target r0" using sub [of c0] cs by auto
  obtain r1 where r1: "find_parent_in t target (insert p active) p n [0..<length ks] = Some (Inr r1)"
    "found_in (edges_below p cs') target r1"
    using find_parent_children [OF n(2) sub, of 0 p] cs by auto
  have "edges_below p cs = set (edges (SN p ks cs))" by (simp add: edges_below_def)
  moreover have "find_parent t target active p = (if rid c0 = target then Some (Inr (Some p))
      else Some (Inr (case r0 of Some q \<Rightarrow> Some q | None \<Rightarrow> r1)))"
    using SN.prems(3,4) n(1) d inner_page_leftmost(1) [OF n(2)] r0(1) r1(1)
    by (subst find_parent.simps) (auto simp: page_simps cs split: option.split)
  moreover have "found_in (edges_below p cs) target (Some p)" if "rid c0 = target"
    using that by (simp add: cs edges_below_Cons found_in_def)
  ultimately show ?case
    using found_step [OF r0(2) r1(2)] by (cases "rid c0 = target") (simp_all add: cs)
qed

section \<open>The recorded parent\<close>

lemma find_child_inner:
  assumes "inner_page n ks cs"
  shows "j \<le> length ks \<Longrightarrow> find_child n (ucast c) [j..<length ks] = Some (map_option (\<lambda>i. i + j) (position (\<lambda>x. x = c) (drop (Suc j) cs)))"
proof (induction "length ks - j" arbitrary: j)
  case 0
  then show ?case using inner_pageD [OF assms] by simp
next
  case (Suc m)
  then have j: "j < length ks" "m = length ks - Suc j" "Suc j \<le> length ks" by simp_all
  have len: "Suc j < length cs" using inner_pageD [OF assms] j(1) by simp
  have dr: "drop (Suc j) cs = cs ! Suc j # drop (Suc (Suc j)) cs" using len by (simp add: Cons_nth_drop_Suc)
  have up: "[j..<length ks] = j # [Suc j..<length ks]" using j(1) by (rule upt_conv_Cons)
  show ?case
    using inner_page_children [OF assms j(1)] Suc.hyps(1) [OF j(2,3)] unfolding up dr
    by (simp add: option.map_comp o_def)
qed

lemma child_position_inner:
  assumes "inner_page n ks cs"
  shows "child_position n c = Some (position (\<lambda>x. x = c) cs)"
proof -
  note d = inner_pageD [OF assms]
  obtain c0 cs' where cs: "cs = c0 # cs'" using d by (cases cs) auto
  show ?thesis
    using inner_page_leftmost(1) [OF assms] find_child_inner [OF assms, of 0 c] d
    by (simp add: child_position_def page_simps cs option.map_comp o_def option.map_ident)
qed

lemma references_child_inner:
  assumes "inner_page n ks cs"
  shows "references_child n c = Some (c \<in> set cs)"
proof -
  note d = inner_pageD [OF assms]
  obtain c0 cs' where cs: "cs = c0 # cs'" using d by (cases cs) auto
  have "(position (\<lambda>x. x = c) cs' \<noteq> None) = (c \<in> set cs')" by (auto simp: position_None)
  then show ?thesis
    using inner_page_leftmost(1) [OF assms] find_child_inner [OF assms, of 0 c] d
    by (simp add: references_child_def page_simps cs eq_commute [of c c0])
qed

lemma references_child_leaf:
  assumes "leaf_page n es"
  shows "\<exists>b. references_child n c = Some b"
proof -
  note d = leaf_pageD [OF assms]
  have "find_child n w is = Some None" for w "is"
    by (induction "is") (use d in \<open>simp_all add: child_id_def page_simps\<close>)
  then have "references_child n c = Some (nh_leftmost_child (hdr n) = ucast c)" using d by (simp add: references_child_def page_simps)
  then show ?thesis by blast
qed

text \<open>Every page of a shape is a leaf page or an internal page.\<close>

lemma rep_page:
  assumes "rep t s" and "p \<in> set (ids s)"
  shows "\<exists>n. tree_node t p = Some n \<and> ((\<exists>es. leaf_page n es) \<or> (\<exists>ks cs. inner_page n ks cs))"
  using assms
proof (induction s)
  case (SN q ks cs)
  then show ?case by (cases "p = q") auto
qed auto

lemma leaf_not_inner: "leaf_page n es \<Longrightarrow> \<not> inner_page n ks cs"
  by (simp add: leaf_page_def inner_page_def)

text \<open>A loaded page that refers to a child of a shape is its parent there, or a leaf.\<close>

lemma referring_page:
  assumes rep: "rep t s" "rep t R" and dist: "distinct (ids s @ ids R)" and p: "p \<in> set (ids s @ ids R)" "tree_node t p = Some m"
    and e: "(q, c) \<in> set (edges s)"
  shows "(\<exists>es. leaf_page m es) \<or> (\<exists>ks cs. inner_page m ks cs \<and> (c \<in> set cs \<longrightarrow> p = q))"
proof -
  have page: "(\<exists>es. leaf_page m es) \<or> (\<exists>ks cs. inner_page m ks cs)"
    using rep_page [OF rep(1), of p] rep_page [OF rep(2), of p] p by auto
  have "p = q" if i: "inner_page m ks cs" "c \<in> set cs" for ks cs
  proof (cases "p \<in> set (ids s)")
    case True
    then have "(p, c) \<in> set (edges s)" using word_edge [OF rep(1) True p(2), of c] i by (auto simp: inner_page_def)
    then show ?thesis using edge_unique [of s p c q] e dist by simp
  next
    case False
    then have R: "p \<in> set (ids R)" using p(1) by simp
    then have "c \<in> set (ids R)" using word_edge [OF rep(2) R p(2), of c] i by (auto simp: inner_page_def dest: edge_child)
    then show ?thesis using edge_child [OF e] dist by auto
  qed
  then show ?thesis using page by blast
qed

lemma recorded_parent_spec:
  assumes rep: "rep t s" "rep t R" and dist: "distinct (ids s @ ids R)"
    and loaded: "\<And>p. tree_node t p \<noteq> None \<Longrightarrow> p \<in> set (ids s @ ids R)" and e: "(q, c) \<in> set (edges s)"
  shows "\<exists>r. recorded_parent t c = Some r \<and> (\<forall>p. r = Some p \<longrightarrow> p = q \<or> (\<exists>n es. tree_node t p = Some n \<and> leaf_page n es))"
proof -
  obtain n where n: "tree_node t c = Some n" "page_wf n"
    using rep_page [OF rep(1) edge_child [OF e]] leaf_pageD inner_pageD by fastforce
  show ?thesis
  proof (cases "nh_parent_id (hdr n) = 0 \<or> tree_node t (nh_parent_id (hdr n)) = None")
    case True
    then show ?thesis using n by (auto simp: recorded_parent_def page_simps)
  next
    case False
    then obtain m where m: "tree_node t (nh_parent_id (hdr n)) = Some m" by auto
    let ?p = "nh_parent_id (hdr n)"
    have unf: "recorded_parent t c = do { r \<leftarrow> references_child m c; Some (if r then Some ?p else None) }"
      using n False m by (simp add: recorded_parent_def page_simps)
    have p: "?p \<in> set (ids s @ ids R)" using loaded [of ?p] m by simp
    from referring_page [OF rep dist p m e] show ?thesis
    proof (elim disjE exE conjE)
      fix es assume "leaf_page m es"
      then show ?thesis using references_child_leaf [of m es c] m by (auto simp: unf)
    next
      fix ks cs assume "inner_page m ks cs" "c \<in> set cs \<longrightarrow> ?p = q"
      then show ?thesis using references_child_inner [of m ks cs c] by (auto simp: unf)
    qed
  qed
qed

text \<open>The parent that the code finds for the page in the hole of a context. A stale hint can name a leaf; the
  insertion of a child into it fails.\<close>

lemma parent_of_hole:
  assumes rep: "rep t (fill (f # fs) L)" "rep t R" and dist: "distinct (ids (fill (f # fs) L) @ ids R)"
    and loaded: "\<And>p. tree_node t p \<noteq> None \<Longrightarrow> p \<in> set (ids (fill (f # fs) L) @ ids R)" and root: "bt_root t = rid (fill (f # fs) L)"
  shows "\<exists>p. parent_of t (rid L) = Some (Inr (Some p)) \<and> (p = fpid f \<or> (\<exists>n es. tree_node t p = Some n \<and> leaf_page n es))"
    and "rid L \<noteq> bt_root t"
proof -
  let ?s = "fill (f # fs) L"
  have e: "(fpid f, rid L) \<in> set (edges ?s)"
    using edge_fill [of "fpid f" "rid L" "plug f L" fs] by (cases f) auto
  have ds: "distinct (ids ?s)" using dist by simp
  have nr: "rid L \<noteq> rid ?s" using distinct_edges [OF ds] e by force
  then show "rid L \<noteq> bt_root t" using root by simp
  obtain r where r: "find_parent t (rid L) {} (rid ?s) = Some (Inr r)" "found_in (set (edges ?s)) (rid L) r"
    using find_parent_spec [OF rep(1) ds _ nr, of "{}"] by auto
  have "r = Some (fpid f)"
  proof (cases r)
    case None
    then show ?thesis using r(2) e by (force simp: found_in_def)
  next
    case (Some q)
    then show ?thesis using r(2) edge_unique [OF ds e] by (simp add: found_in_def)
  qed
  then show "\<exists>p. parent_of t (rid L) = Some (Inr (Some p)) \<and> (p = fpid f \<or> (\<exists>n es. tree_node t p = Some n \<and> leaf_page n es))"
    using recorded_parent_spec [OF rep dist loaded e] r(1) nr root by (auto simp: parent_of_def split: option.splits)
qed

end
