(* ===== verification/Tree_Growth.thy ===== *)
theory Tree_Growth
  imports Tree_Parents
begin

text \<open>
  Split propagation on a well-formed tree. A pending state holds a subtree in the hole of a context, and on
  its right a subtree that no page refers to yet, with the separator between them. Each level either takes
  the separator in, or splits and passes a separator on; the root grows by one level.
\<close>

section \<open>Internal pages with one more separator\<close>

lemma lower_bound_middle: "(\<And>x. x \<in> set ks1 \<Longrightarrow> x < k) \<Longrightarrow> (\<And>x. x \<in> set ks2 \<Longrightarrow> k < x) \<Longrightarrow> lower_bound (ks1 @ ks2) k = length ks1"
  unfolding lower_bound_def by (induction ks1) (auto simp: takeWhile_eq_Nil_iff dest: less_asym hd_in_set)

lemma insert_child_page:
  assumes page: "inner_page n (ks1 @ ks2) (cs1 @ l # cs2)" and len: "length cs1 = length ks1"
    and lt: "\<And>x. x \<in> set ks1 \<Longrightarrow> x < k" and gt: "\<And>x. x \<in> set ks2 \<Longrightarrow> k < x"
  shows "(\<exists>e. insert_child n k (ucast r) = Some (Inl e, n))
    \<or> (\<exists>n'. insert_child n k (ucast r) = Some (Inr (), n') \<and> inner_page n' (ks1 @ k # ks2) (cs1 @ l # r # cs2))"
proof -
  note d = inner_pageD [OF page]
  have p: "lower_bound (node_keys n) k = length ks1" using lower_bound_middle [of ks1 k ks2] lt gt d by simp
  have "inner_page n' (ks1 @ k # ks2) (cs1 @ l # r # cs2)"
    if "inner_after n n' (insert_nth (length ks1) (k, ucast r) (child_entries n))" for n'
  proof -
    have v: "child_entries n' = insert_nth (length ks1) (k, ucast r) (child_entries n)" and s: "same_place n n'"
      and g: "page_wf n'" "4 \<le> free_of n'" "\<not> compressed n'" "page_valid n'"
      using that d by (auto simp: page_after_def)
    have "node_keys n' = insert_nth (length ks1) k (node_keys n)"
      using arg_cong [OF v, of "map fst"] by (simp add: map_insert_nth)
    then have "node_keys n' = ks1 @ k # ks2" using d by (simp add: insert_nth_def)
    moreover have "child_words n' = insert_nth (Suc (length ks1)) (ucast r) (child_words n)"
      using v s d by (simp add: child_words_def map_insert_nth same_place_def) (simp add: insert_nth_def)
    then have "child_words n' = map ucast (cs1 @ l # r # cs2)" using page len by (simp add: inner_page_def insert_nth_def)
    ultimately show ?thesis using g s d by (simp add: inner_page_def good_page_def same_place_def)
  qed
  then show ?thesis using insert_child_spec(1) [of n k "ucast r"] d unfolding p by blast
qed

lemma split_inner_page:
  assumes page: "inner_page n ks cs" and dis: "distinct ks"
  shows "(\<exists>e. node_split n = Some (Inl e, n))
    \<or> (\<exists>left right mid. mid < length ks \<and> node_split n = Some (Inr (ks ! mid, right), left)
        \<and> inner_page left (take mid ks) (take (Suc mid) cs) \<and> inner_page right (drop (Suc mid) ks) (drop (Suc mid) cs))"
proof (cases "cnt n < 2")
  case True
  then show ?thesis using node_split_few [of n] inner_pageD [OF page] by auto
next
  case False
  note d = inner_pageD [OF page]
  let ?mid = "cnt n div 2"
  have mid: "?mid < length ks" "2 \<le> cnt n" using False d by auto
  have wl: "child_words n = map ucast cs" using page by (simp add: inner_page_def)
  then have w: "map snd (child_entries n) = map ucast (tl cs)" "nh_leftmost_child (hdr n) = ucast (hd cs)"
    by (cases cs; simp add: child_words_def)+
  obtain c0 cs' where cs: "cs = c0 # cs'" using d by (cases cs) auto
  have keys: "map fst (child_entries n) = ks" using d by simp
  have L: "inner_page left (take ?mid ks) (take (Suc ?mid) cs)" if "kept_half child_entries n left (take ?mid (child_entries n))" for left
  proof -
    have l: "child_entries left = take ?mid (child_entries n)" "same_place n left" "good_page left"
      using that by (auto simp: kept_half_def page_after_def good_page_def)
    have "node_keys left = take ?mid ks" using arg_cong [OF l(1), of "map fst"] d by (simp add: take_map [symmetric])
    moreover have "child_words left = map ucast (take (Suc ?mid) cs)"
      using w l d arg_cong [OF l(1), of "map snd"] by (simp add: cs child_words_def same_place_def take_map [symmetric])
    ultimately show ?thesis using l d by (simp add: inner_page_def same_place_def)
  qed
  have R: "inner_page right (drop (Suc ?mid) ks) (drop (Suc ?mid) cs)"
    if "new_half child_entries Internal right (drop (?mid + 1) (child_entries n))" "nh_leftmost_child (hdr right) = snd (child_entries n ! ?mid)" for right
  proof -
    have r: "child_entries right = drop (Suc ?mid) (child_entries n)" "good_page right" "nh_page_type (hdr right) = Internal"
      using that by (auto simp: new_half_def good_page_def)
    have "node_keys right = drop (Suc ?mid) ks" using arg_cong [OF r(1), of "map fst"] d by (simp add: drop_map [symmetric])
    moreover have m: "?mid < length cs'" using mid d by (simp add: cs)
    have "snd (child_entries n ! ?mid) = ucast (cs' ! ?mid)"
      using arg_cong [OF w(1), of "\<lambda>xs. xs ! ?mid"] mid d m by (simp add: cs)
    then have "child_words right = map ucast (drop ?mid cs')"
      using w(1) that(2) arg_cong [OF r(1), of "map snd"] m
      by (simp add: cs child_words_def drop_map [symmetric] Cons_nth_drop_Suc [symmetric])
    ultimately show ?thesis using r by (simp add: inner_page_def cs)
  qed
  have k: "node_keys n ! ?mid = ks ! ?mid" using d by simp
  obtain left right where sp: "node_split n = Some (Inr (ks ! ?mid, right), left)" "kept_half child_entries n left (take ?mid (child_entries n))"
    "new_half child_entries Internal right (drop (?mid + 1) (child_entries n))" "nh_leftmost_child (hdr right) = snd (child_entries n ! ?mid)"
    using node_split_inner [of n] d mid(2) dis unfolding k by blast
  show ?thesis using sp(1) L [OF sp(2)] R [OF sp(3,4)] mid(1) by blast
qed

section \<open>Pending states\<close>

definition pages_are :: "btree \<Rightarrow> page_id list \<Rightarrow> bool" where
  "pages_are t ps \<longleftrightarrow> distinct ps \<and> (\<forall>p. tree_node t p \<noteq> None \<longrightarrow> p \<in> set ps)"

definition pend :: "btree \<Rightarrow> path_frame list \<Rightarrow> nat \<Rightarrow> bytes \<Rightarrow> bytes option \<Rightarrow> stree \<Rightarrow> bytes \<Rightarrow> stree \<Rightarrow> nat \<Rightarrow> bool" where
  "pend t fs h lo hi L k R H \<longleftrightarrow> accepts fs h lo hi H \<and> bst h lo (Some k) L \<and> bst h k hi R \<and> lo < k \<and> below k hi
     \<and> rep t L \<and> rep t R \<and> crep t fs (rid L) \<and> pages_are t (ids L @ ids R @ cids fs) \<and> bt_root t = rid (fill fs L) \<and> alloc_ok t"

lemma pages_are_hint: "hint_eq t t' \<Longrightarrow> pages_are t ps \<Longrightarrow> pages_are t' ps"
  by (simp add: pages_are_def hint_eq_None)

lemma alloc_ok_hint: "hint_eq t t' \<Longrightarrow> alloc_ok t \<Longrightarrow> alloc_ok t'"
  using hint_eq_None [of t t'] by (simp add: alloc_ok_def hint_eq_def)

lemma pend_hint: "hint_eq t t' \<Longrightarrow> pend t fs h lo hi L k R H \<Longrightarrow> pend t' fs h lo hi L k R H"
  using rep_keeps [OF _ keeps_hint, of t L t'] rep_keeps [OF _ keeps_hint, of t R t'] crep_keeps [OF _ keeps_hint, of t fs "rid L" t']
    pages_are_hint [of t t'] alloc_ok_hint [of t t']
  by (auto simp: pend_def hint_eq_def)

lemma tree_of_hint: "hint_eq t t' \<Longrightarrow> tree_of t s H \<Longrightarrow> tree_of t' s H"
  using rep_keeps [OF _ keeps_hint, of t s t'] hint_eq_None [of t t'] alloc_ok_hint [of t t']
  by (auto simp: tree_of_def hint_eq_def)

lemma rep_good: "rep t s \<Longrightarrow> p \<in> set (ids s) \<Longrightarrow> tree_node t p = Some n \<Longrightarrow> good_page n"
  using rep_page [of t s p] by (auto simp: leaf_page_def inner_page_def)

lemma tree_of_good: "tree_of t s H \<Longrightarrow> good_pages t"
  using rep_good [of t s] by (auto simp: tree_of_def good_pages_def)

lemma pend_tree:
  assumes "pend t fs h lo hi L k R H"
  shows "rep t (fill fs L)" "distinct (ids (fill fs L) @ ids R)" "\<And>p. tree_node t p \<noteq> None \<Longrightarrow> p \<in> set (ids (fill fs L) @ ids R)"
  using assms ids_fill [of fs L] by (auto simp: pend_def pages_are_def rep_fill_iff)

lemma pend_good: "pend t fs h lo hi L k R H \<Longrightarrow> good_pages t"
  using pend_tree [of t fs h lo hi L k R H] rep_good [of t "fill fs L"] rep_good [of t R]
  by (fastforce simp: good_pages_def pend_def)

lemma rep_loaded: "rep t s \<Longrightarrow> p \<in> set (ids s) \<Longrightarrow> tree_node t p \<noteq> None"
  using rep_page [of t s p] by auto

section \<open>A new root\<close>

lemma new_root_page:
  obtains f f' where "new_internal = Some f" "set_leftmost_child f (ucast l) = Some f'" "inner_page f' [] [l]"
proof -
  obtain f where f: "node_new Internal = Some f" by (simp add: node_new_eq)
  note v = node_new_views [OF f] and b = blank_self [OF f]
  have wf: "page_wf f" using v(4) by (simp add: page_valid_def)
  let ?h = "(hdr f)\<lparr>nh_leftmost_child := ucast l\<rparr>"
  let ?f' = "write_at f 0 (nh_to_bytes ?h)"
  note h = page_wf_set_header [OF wf, of ?h, simplified]
  have "page_valid ?f'" using page_valid_set_header [OF v(4), of ?h] by simp
  moreover have "cnt ?f' = 0" using h(4) b(1) by (simp add: blank_for_def)
  moreover have "free_of ?f' = 4048" using h(3) b(1) wf by (simp add: blank_for_def free_of_def)
  moreover have "\<not> compressed ?f'" using h(2) v(3) by (simp add: compressed_def)
  ultimately have "inner_page ?f' [] [l]"
    using h b(2) wf length_node_keys [of ?f'] length_entries(2) [of ?f']
    by (simp add: inner_page_def good_page_def child_words_def del: length_node_keys length_entries)
  moreover have "set_leftmost_child f (ucast l) = Some ?f'" using wf by (simp add: set_leftmost_child_def page_simps)
  ultimately show thesis using that f by (simp add: new_internal_def)
qed

lemma and_then_simps [simp]:
  "and_then None g = None" "and_then (Some (Inl e, t)) g = Some (Inl e, t)" "and_then (Some (Inr a, t)) g = g a t"
  by (simp_all add: and_then_def)

lemma tree_node_root [simp]: "tree_node (t\<lparr>bt_root := q\<rparr>) p = tree_node t p"
  by (simp add: tree_node_def)

lemma adopt_children:
  assumes "pend t [] h lo hi L k R H" and n: "inner_page n [k] [rid L, rid R]" and q: "tree_node t q = None" and ok: "alloc_ok t1"
    and node: "\<forall>p. tree_node t1 p = (if p = q then Some n else tree_node t p)"
  shows "tree_of (t1\<lparr>bt_root := q\<rparr>) (SN q [k] [L, R]) (Suc H)" "rep t1 L" "rep t1 R"
proof -
  let ?t = "t1\<lparr>bt_root := q\<rparr>"
  have p: "h = H" "bst H [] (Some k) L" "bst H k None R" "[] < k" "rep t L" "rep t R" "pages_are t (ids L @ ids R)"
    using assms(1) by (auto simp: pend_def)
  have qn: "q \<notin> set (ids L @ ids R)" using rep_loaded [OF p(5), of q] rep_loaded [OF p(6), of q] q by auto
  have "keeps t t1 (set (ids L))" "keeps t t1 (set (ids R))" using node qn by (auto intro!: keepsI)
  then show reps: "rep t1 L" "rep t1 R" using rep_keeps [OF p(5)] rep_keeps [OF p(6)] by blast+
  have "keeps t1 ?t A" for A by (rule keepsI) simp
  then have "rep ?t L" "rep ?t R" using reps rep_keeps by blast+
  moreover have "tree_node ?t q = Some n" using node by simp
  moreover have "alloc_ok ?t" using ok by (simp add: alloc_ok_def)
  ultimately show "tree_of ?t (SN q [k] [L, R]) (Suc H)" using p n qn node by (auto simp: tree_of_def pages_are_def)
qed

lemma set_two_parents:
  assumes "good_pages t" and "tree_node t a \<noteq> None" and "tree_node t b \<noteq> None"
  obtains t2 t3 where "set_parent t a p = Some (Inr (), t2)" "set_parent t2 b q = Some (Inr (), t3)" "hint_eq t t3"
proof -
  obtain t2 where t2: "set_parent t a p = Some (Inr (), t2)" "hint_eq t t2" "good_pages t2"
    using set_parent_hint [OF assms(1,2), of p] by blast
  have "tree_node t2 b \<noteq> None" using hint_eq_None [OF t2(2), of b] assms(3) by simp
  then obtain t3 where "set_parent t2 b q = Some (Inr (), t3)" "hint_eq t2 t3"
    using set_parent_hint [OF t2(3), of b q] by blast
  with t2 show thesis using that hint_eq_trans by blast
qed

lemma create_new_root_spec:
  assumes "pend t [] h lo hi L k R H"
  shows "\<exists>r t'. create_new_root t (rid L) k (rid R) = Some (r, t') \<and> (r = Inr () \<longrightarrow> (\<exists>s. tree_of t' s (Suc H) \<and> ents s = ents L @ ents R))"
proof -
  have ok: "alloc_ok t" using assms by (simp add: pend_def)
  obtain f f' where f: "new_internal = Some f" "set_leftmost_child f (ucast (rid L)) = Some f'" "inner_page f' [] [rid L]"
    using new_root_page by blast
  from insert_child_page [of f' "[]" "[]" "[]" "rid L" "[]" k "rid R"] f(3)
  consider (err) e where "insert_child f' k (ucast (rid R)) = Some (Inl e, f')"
    | (err2) n t' where "insert_child f' k (ucast (rid R)) = Some (Inr (), n)" "alloc_node t n = Some (Inl BPageIdExhausted, t')"
    | (new) n q t1 where "insert_child f' k (ucast (rid R)) = Some (Inr (), n)" "inner_page n [k] [rid L, rid R]"
        "alloc_node t n = Some (Inr q, t1)" "tree_node t q = None" "alloc_ok t1" "\<forall>p. tree_node t1 p = (if p = q then Some n else tree_node t p)"
    using alloc_node_spec [OF ok] by (metis append_Nil append_Nil2 empty_iff list.set(1) list.size(3))
  then show ?thesis
  proof cases
    case err
    then show ?thesis by (simp add: create_new_root_def f(1,2))
  next
    case err2
    then show ?thesis by (simp add: create_new_root_def f(1,2))
  next
    case new
    let ?s = "SN q [k] [L, R]"
    note a = adopt_children [OF assms new(2,4-6)]
    have "good_pages t1" using tree_of_good [OF a(1)] by (simp add: good_pages_def)
    then obtain t2 t3 where t3: "set_parent t1 (rid L) q = Some (Inr (), t2)" "set_parent t2 (rid R) q = Some (Inr (), t3)" "hint_eq t1 t3"
      using set_two_parents [OF _ rep_loaded [OF a(2) rid_in_ids] rep_loaded [OF a(3) rid_in_ids]] by blast
    have "hint_eq (t1\<lparr>bt_root := q\<rparr>) (t3\<lparr>bt_root := q\<rparr>)" using t3(3) by (simp add: hint_eq_def)
    then have "tree_of (t3\<lparr>bt_root := q\<rparr>) ?s (Suc H)" using tree_of_hint a(1) by blast
    moreover have "create_new_root t (rid L) k (rid R) = Some (Inr (), t3\<lparr>bt_root := q\<rparr>)"
      using new(1,3) t3 by (simp add: create_new_root_def f(1,2))
    ultimately show ?thesis by (auto intro!: exI [of _ ?s])
  qed
qed

end
