(* ===== verification/Tree_Propagate.thy ===== *)
theory Tree_Propagate
  imports Tree_Growth
begin

text \<open>
  One level of split propagation, and the climb to the root.
\<close>

section \<open>The page above the hole\<close>

lemma bsts_keys_sorted: "bsts h lo hi ks cs \<Longrightarrow> sorted_wrt (<) ks \<and> (\<forall>x \<in> set ks. lo < x \<and> below x hi)"
proof (induction ks arbitrary: lo cs)
  case (Cons k ks)
  then obtain c cs' where c: "lo < k" "below k hi" "bsts h k hi ks cs'" by (cases cs) auto
  from Cons.IH [OF c(3)] c(1,2) show ?case by auto
qed simp

text \<open>The range of the page above the hole, and its children once the pending subtree is among them.\<close>

lemma pend_frame:
  assumes "pend t (Frame p ks1 cs1 ks2 cs2 # fs) h lo hi L k R H"
  obtains lo0 hi0 n where "bsts h lo0 hi0 (ks1 @ k # ks2) (cs1 @ L # R # cs2)" "accepts fs (Suc h) lo0 hi0 H"
    "\<And>x. x \<in> set ks1 \<Longrightarrow> x < k" "\<And>x. x \<in> set ks2 \<Longrightarrow> k < x" "length cs1 = length ks1" "length cs2 = length ks2"
    "tree_node t p = Some n" "inner_page n (ks1 @ ks2) (map rid cs1 @ rid L # map rid cs2)" "distinct (ks1 @ ks2)"
proof -
  have P: "below lo hi" "bst h lo (Some k) L" "bst h k hi R" "lo < k" "below k hi" using assms by (auto simp: pend_def)
  obtain lo0 hi0 where b: "lefts h lo0 ks1 cs1 lo" "rights h hi ks2 cs2 hi0" "accepts fs (Suc h) lo0 hi0 H"
    using assms by (auto simp: pend_def)
  obtain n where n: "tree_node t p = Some n" "inner_page n (ks1 @ ks2) (map rid cs1 @ rid L # map rid cs2)" using assms by (auto simp: pend_def)
  note le = lefts_le [OF b(1)]
  have k1: "x < k" if "x \<in> set ks1" for x using le that P(4) by (auto intro: le_less_trans)
  have r2: "sorted_wrt (<) ks2 \<and> (\<forall>x \<in> set ks2. k < x) \<and> below k hi0"
  proof (cases ks2)
    case (Cons k2 ks)
    then have "hi = Some k2" "below k2 hi0" "bsts h k2 hi0 ks cs2" using b(2) by simp_all
    then show ?thesis using bsts_keys_sorted [of h k2 hi0 ks cs2] P(5) Cons by (auto intro: below_trans less_trans)
  qed (use b(2) P(5) in simp)
  have left: "bsts h lo0 (Some k) ks1 (cs1 @ [L])"
    using bsts_focus [OF b(1), of "Some k" "[]" "[]" "Some k" L] P(2,4) by simp
  have right: "bsts h k hi0 ks2 (R # cs2)"
    using bsts_focus [of h k "[]" "[]" k hi ks2 cs2 hi0 R] b(2) P(3,5) by simp
  have len: "length (cs1 @ [L]) = Suc (length ks1)" using lefts_length [OF b(1)] by simp
  have "lo0 < k" using le P(4) by (auto intro: le_less_trans)
  then have grown: "bsts h lo0 hi0 (ks1 @ k # ks2) (cs1 @ L # R # cs2)"
    using bsts_append [OF len, of h lo0 hi0 k ks2 "R # cs2"] left right r2 by simp
  have "sorted_wrt (<) (ks1 @ ks2)" using le r2 k1 by (force simp: sorted_wrt_append intro: less_trans)
  then have "distinct (ks1 @ ks2)" by (simp add: strict_sorted_iff)
  then show thesis
    using that grown b(3) k1 r2 lefts_length [OF b(1)] rights_length [OF b(2)] n by blast
qed

text \<open>A state that differs from a pending one in the page above the hole.\<close>

lemma pend_reps:
  assumes "pend t (Frame p ks1 cs1 ks2 cs2 # fs) h lo hi L k R H" and "keeps t t' (- {p})"
  shows "\<forall>c \<in> set (cs1 @ L # R # cs2). rep t' c" "crep t' fs p"
proof -
  have P: "rep t L" "rep t R" "\<forall>c \<in> set cs1 \<union> set cs2. rep t c" "crep t fs p" using assms(1) by (auto simp: pend_def)
  have "distinct (ids L @ ids R @ p # concat (map ids cs1) @ concat (map ids cs2) @ cids fs)"
    using assms(1) by (simp add: pend_def pages_are_def)
  then have out: "p \<notin> set (ids L)" "p \<notin> set (ids R)" "\<forall>c \<in> set cs1 \<union> set cs2. p \<notin> set (ids c)" "p \<notin> set (cids fs)" by auto
  have *: "rep t' c" if "rep t c" "p \<notin> set (ids c)" for c
    by (rule rep_keeps [OF that(1) keeps_subset [OF assms(2)]]) (use that(2) in auto)
  then show "\<forall>c \<in> set (cs1 @ L # R # cs2). rep t' c" using P out by auto
  show "crep t' fs p" by (rule crep_keeps [OF P(4) keeps_subset [OF assms(2)]]) (use out(4) in auto)
qed

section \<open>The separator fits\<close>

lemma pend_fits:
  assumes pend: "pend t (Frame p ks1 cs1 ks2 cs2 # fs) h lo hi L k R H"
    and n': "tree_node t' p = Some n'" "inner_page n' (ks1 @ k # ks2) (map rid (cs1 @ L # R # cs2))"
    and rest: "keeps t t' (- {p})" "\<And>q. q \<noteq> p \<Longrightarrow> tree_node t' q \<noteq> None \<Longrightarrow> tree_node t q \<noteq> None" "bt_root t' = bt_root t" "alloc_ok t'"
  shows "tree_of t' (fill fs (SN p (ks1 @ k # ks2) (cs1 @ L # R # cs2))) H"
proof -
  let ?c = "SN p (ks1 @ k # ks2) (cs1 @ L # R # cs2)"
  obtain lo0 hi0 where g: "bsts h lo0 hi0 (ks1 @ k # ks2) (cs1 @ L # R # cs2)" "accepts fs (Suc h) lo0 hi0 H"
    using pend_frame [OF pend] by metis
  note reps = pend_reps [OF pend rest(1)]
  have d: "distinct (ids L @ ids R @ p # concat (map ids cs1) @ concat (map ids cs2) @ cids fs)"
    "\<And>q. tree_node t q \<noteq> None \<Longrightarrow> q \<in> set (ids L @ ids R @ p # concat (map ids cs1) @ concat (map ids cs2) @ cids fs)"
    using pend by (auto simp: pend_def pages_are_def)
  have "bst (Suc h) lo0 hi0 ?c" using g(1) by simp
  then have "bst H [] None (fill fs ?c)" using accepts_bst [OF g(2)] by blast
  moreover have "rep t' (fill fs ?c)" unfolding rep_fill_iff using reps n' by auto
  moreover have "distinct (ids (fill fs ?c))" unfolding ids_fill using d(1) by auto
  moreover have "bt_root t' = rid (fill fs ?c)" using pend rest(3) by (simp add: pend_def rid_fill)
  moreover have "q \<in> set (ids (fill fs ?c))" if "tree_node t' q \<noteq> None" for q
    using d(2) [of q] rest(2) [of q] that unfolding ids_fill by (cases "q = p") auto
  ultimately show ?thesis using rest(4) by (simp add: tree_of_def)
qed

section \<open>The page splits\<close>

text \<open>The two halves of the page above the hole, once one of them has taken the pending subtree.\<close>

lemma pend_split:
  assumes pend: "pend t (Frame p ks1 cs1 ks2 cs2 # fs) h lo hi L k R H"
    and seq: "ks1 @ k # ks2 = ka @ m # kb" "cs1 @ L # R # cs2 = ca @ cb" "length ca = Suc (length ka)"
    and pages: "tree_node t' p = Some na" "inner_page na ka (map rid ca)" "tree_node t' q = Some nb" "inner_page nb kb (map rid cb)"
    and q: "tree_node t q = None"
    and rest: "keeps t t' (- {p})" "\<And>x. x \<noteq> p \<Longrightarrow> x \<noteq> q \<Longrightarrow> tree_node t' x \<noteq> None \<Longrightarrow> tree_node t x \<noteq> None" "bt_root t' = bt_root t" "alloc_ok t'"
  shows "\<exists>lo0 hi0. pend t' fs (Suc h) lo0 hi0 (SN p ka ca) m (SN q kb cb) H"
proof -
  obtain lo0 hi0 where g: "bsts h lo0 hi0 (ks1 @ k # ks2) (cs1 @ L # R # cs2)" "accepts fs (Suc h) lo0 hi0 H"
    using pend_frame [OF pend] by metis
  note reps = pend_reps [OF pend rest(1)]
  let ?old = "ids L @ ids R @ p # concat (map ids cs1) @ concat (map ids cs2) @ cids fs"
  have d: "distinct ?old" "\<And>x. tree_node t x \<noteq> None \<Longrightarrow> x \<in> set ?old"
    using pend by (auto simp: pend_def pages_are_def)
  have "rep t R" using pend by (simp add: pend_def)
  then have "x \<noteq> q" if "x \<in> set (ids (fill (Frame p ks1 cs1 ks2 cs2 # fs) L) @ ids R)" for x
    using rep_loaded [OF pend_tree(1) [OF pend], of x] rep_loaded [of t R x] q that by auto
  then have qn: "q \<notin> set ?old" using ids_fill(2) [of "Frame p ks1 cs1 ks2 cs2 # fs" L] by auto
  have "mset (ids (SN p ka ca) @ ids (SN q kb cb) @ cids fs) = add_mset q (mset ?old)"
    using arg_cong [OF seq(2), of "\<lambda>cs. mset (concat (map ids cs))"] by (simp add: ac_simps)
  then have new: "mset (ids (SN p ka ca) @ ids (SN q kb cb) @ cids fs) = mset (q # ?old)" by simp
  have split: "lo0 < m" "below m hi0" "bsts h lo0 (Some m) ka ca" "bsts h m hi0 kb cb"
    using g(1) bsts_append [OF seq(3), of h lo0 hi0 m kb cb] unfolding seq by simp_all
  have "pages_are t' (ids (SN p ka ca) @ ids (SN q kb cb) @ cids fs)"
    unfolding pages_are_def
  proof (intro conjI allI impI)
    show "distinct (ids (SN p ka ca) @ ids (SN q kb cb) @ cids fs)"
      using mset_eq_imp_distinct_iff [OF new] d(1) qn by simp
    show "x \<in> set (ids (SN p ka ca) @ ids (SN q kb cb) @ cids fs)" if "tree_node t' x \<noteq> None" for x
      using mset_eq_setD [OF new] d(2) [of x] rest(2) [of x] that by (cases "x = p \<or> x = q") auto
  qed
  moreover have "rep t' (SN p ka ca)" "rep t' (SN q kb cb)" using reps(1) pages unfolding seq by auto
  moreover have "bt_root t' = rid (fill fs (SN p ka ca))" using pend rest(3) by (simp add: pend_def rid_fill)
  ultimately show ?thesis using g(2) split reps(2) rest(4) by (auto simp: pend_def)
qed

section \<open>States that differ in a few pages\<close>

definition only_at :: "btree \<Rightarrow> btree \<Rightarrow> page_id set \<Rightarrow> bool" where
  "only_at t t' A \<longleftrightarrow> (\<forall>p. p \<notin> A \<longrightarrow> rel_option same_views (tree_node t p) (tree_node t' p)) \<and> bt_root t' = bt_root t
     \<and> alloc_ok t' \<and> good_pages t'"

lemma only_atD:
  assumes "only_at t t' A"
  shows "keeps t t' (- A)" "\<And>p. p \<notin> A \<Longrightarrow> tree_node t' p \<noteq> None \<Longrightarrow> tree_node t p \<noteq> None"
    "bt_root t' = bt_root t" "alloc_ok t'" "good_pages t'"
proof -
  have A: "rel_option same_views (tree_node t p) (tree_node t' p)" if "p \<notin> A" for p using assms that by (simp add: only_at_def)
  show "keeps t t' (- A)" unfolding keeps_def
  proof (intro ballI allI impI)
    fix p n assume "p \<in> - A" "tree_node t p = Some n"
    then show "\<exists>n'. tree_node t' p = Some n' \<and> same_views n n'" using A [of p] by (auto simp: option_rel_Some1)
  qed
  show "tree_node t p \<noteq> None" if "p \<notin> A" "tree_node t' p \<noteq> None" for p using A [OF that(1)] that(2) by (cases "tree_node t p") auto
qed (use assms in \<open>auto simp: only_at_def\<close>)

lemma only_at_hint: "only_at t t' A \<Longrightarrow> hint_eq t' t'' \<Longrightarrow> only_at t t'' A"
  using alloc_ok_hint [of t' t''] good_pages_hint [of t' t''] rel_same_views_trans
  unfolding only_at_def hint_eq_def by metis

lemma only_at_refl: "alloc_ok t \<Longrightarrow> good_pages t \<Longrightarrow> only_at t t A"
  by (simp add: only_at_def option.rel_refl)

lemma alloc_ok_store: "tree_node t p = Some n0 \<Longrightarrow> alloc_ok t \<Longrightarrow> alloc_ok (store_node t p n)"
  by (auto simp: alloc_ok_def tree_node_store)

lemma only_at_store: "only_at t t' A \<Longrightarrow> p \<in> A \<Longrightarrow> tree_node t' p = Some n0 \<Longrightarrow> good_page n \<Longrightarrow> only_at t (store_node t' p n) A"
  by (auto simp: only_at_def alloc_ok_store tree_node_store good_pages_def)

lemma only_at_alloc:
  assumes "only_at t t' A" and "\<forall>x. tree_node t'' x = (if x = q then Some n else tree_node t' x)" and "bt_root t'' = bt_root t'"
    and "alloc_ok t''" and "good_page n"
  shows "only_at t t'' (insert q A)"
  using assms by (auto simp: only_at_def good_pages_def)

section \<open>Adopting children\<close>

lemma set_children_parent_hint:
  assumes "good_pages t"
  shows "\<exists>t'. set_children_parent t p (map ucast (cs :: page_id list)) = Some (Inr (), t') \<and> hint_eq t t' \<and> good_pages t'"
  using assms
proof (induction cs arbitrary: t)
  case (Cons c cs)
  show ?case
  proof (cases "tree_node t c")
    case None
    then show ?thesis using Cons by simp
  next
    case (Some n)
    then obtain t1 where "set_parent t c p = Some (Inr (), t1)" "hint_eq t t1" "good_pages t1"
      using set_parent_hint [OF Cons.prems, of c p] by auto
    then show ?thesis using Cons.IH [of t1] Some hint_eq_trans [of t t1] by auto
  qed
qed simp

lemma raw_children_eq: "inner_page n ks cs \<Longrightarrow> set is \<subseteq> {..<length ks} \<Longrightarrow> raw_children n is = Some (Inr (map (\<lambda>i. ucast (cs ! Suc i)) is))"
  by (induction "is") (simp_all add: inner_page_children ok_or_def try_result_def)

lemma set_direct_children_hint:
  assumes "good_pages t" and n: "tree_node t q = Some n" "inner_page n ks cs"
  shows "\<exists>t'. set_direct_children_parent t q p = Some (Inr (), t') \<and> hint_eq t t'"
proof -
  note d = inner_pageD [OF n(2)]
  have cs: "cs = cs ! 0 # map (\<lambda>i. cs ! Suc i) [0..<length ks]" using d by (intro nth_equalityI) (auto simp: nth_Cons split: nat.split)
  have "set_direct_children_parent t q p = set_children_parent t p (map ucast cs)"
    using d raw_children_eq [OF n(2), of "[0..<length ks]"] inner_page_leftmost(1) [OF n(2)] n(1)
    by (subst cs) (simp add: atLeast0LessThan set_direct_children_parent_def page_simps comp_def)
  then show ?thesis using set_children_parent_hint [OF assms(1), of p cs] by auto
qed

section \<open>Splitting a page and linking the new half\<close>

lemma node_try_eq:
  assumes "tree_node t p = Some n"
  shows "change n = Some (Inr a, n') \<Longrightarrow> node_try err t p change = Some (Inr a, store_node t p n')"
    and "change n = Some (Inl e, n') \<Longrightarrow> node_try err t p change = Some (Inl (err e), store_node t p n')"
  using assms by (simp_all add: node_try_def node_mut_eq)

text \<open>The steps of \<open>split_internal_page\<close> from the insertion on, and the steps before: two pages share the entries
  of the split one.\<close>

definition split_tail :: "btree \<Rightarrow> page_id \<Rightarrow> bytes \<Rightarrow> page_id \<Rightarrow> bytes \<Rightarrow> page_id \<Rightarrow> (page_id \<times> bytes \<times> page_id) option tree_op" where
  "split_tail t p m q k c =
     (let target_id = (if k \<ge> m then q else p) in
      and_then (node_try BInsertFailed t target_id (\<lambda>n. insert_child n k (ucast c))) (\<lambda>_ t.
      and_then (set_parent t c target_id) (\<lambda>_ t.
        if p = bt_root t then and_then (create_new_root t p m q) (\<lambda>_ t. Some (Inr None, t))
        else
          and_then (parent_or (SplitInternalUnreachable p) p t) (\<lambda>parent_id t.
          and_then (set_parent t q parent_id) (\<lambda>_ t. Some (Inr (Some (parent_id, m, q)), t))))))"

lemma split_in_two:
  assumes n: "tree_node t p = Some n" "inner_page n ks cs" "distinct ks" and ok: "alloc_ok t" "good_pages t"
  shows "(\<exists>e t'. \<forall>k c. split_internal_page t p k c = Some (Inl e, t'))
    \<or> (\<exists>mid q t3 na nb. mid < length ks \<and> tree_node t q = None \<and> only_at t t3 {p, q}
        \<and> tree_node t3 p = Some na \<and> inner_page na (take mid ks) (take (Suc mid) cs)
        \<and> tree_node t3 q = Some nb \<and> inner_page nb (drop (Suc mid) ks) (drop (Suc mid) cs)
        \<and> (\<forall>k c. split_internal_page t p k c = split_tail t3 p (ks ! mid) q k c))"
proof (cases "\<exists>e. node_split n = Some (Inl e, n)")
  case True
  then show ?thesis using node_try_eq(2) [OF n(1), of node_split] by (auto simp: split_internal_page_def)
next
  case False
  then obtain left right mid where sp: "mid < length ks" "node_split n = Some (Inr (ks ! mid, right), left)"
    "inner_page left (take mid ks) (take (Suc mid) cs)" "inner_page right (drop (Suc mid) ks) (drop (Suc mid) cs)"
    using split_inner_page [OF n(2,3)] by blast
  let ?t1 = "store_node t p left"
  have try1: "node_try BSplitFailed t p node_split = Some (Inr (ks ! mid, right), ?t1)" using node_try_eq(1) [OF n(1), of node_split] sp(2) by simp
  have g: "good_page left" "good_page right" using sp(3,4) by (simp_all add: inner_page_def)
  have o1: "only_at t ?t1 {p}" using only_at_store [OF only_at_refl [OF ok] _ n(1) g(1), of "{p}"] by simp
  show ?thesis
  proof (cases "\<exists>t'. alloc_node ?t1 right = Some (Inl BPageIdExhausted, t')")
    case True
    then show ?thesis using try1 by (auto simp: split_internal_page_def)
  next
    case False
    then obtain q t2 where al: "alloc_node ?t1 right = Some (Inr q, t2)" "tree_node ?t1 q = None" "bt_root t2 = bt_root ?t1" "alloc_ok t2"
      "\<forall>x. tree_node t2 x = (if x = q then Some right else tree_node ?t1 x)"
      using alloc_node_spec [of ?t1 right] only_atD(4) [OF o1] by blast
    have q: "tree_node t q = None" "q \<noteq> p" using al(2) n(1) by (auto simp: tree_node_store split: if_splits)
    have o2: "only_at t t2 {p, q}" using only_at_alloc [OF o1 al(5,3,4) g(2)] by (simp add: insert_commute)
    have t2: "tree_node t2 q = Some right" "tree_node t2 p = Some left" using al(5) q(2) n(1) by (simp_all add: tree_node_store)
    obtain t3 where t3: "set_direct_children_parent t2 q q = Some (Inr (), t3)" "hint_eq t2 t3"
      using set_direct_children_hint [OF only_atD(5) [OF o2] t2(1) sp(4)] by blast
    obtain na nb where "tree_node t3 p = Some na" "same_views left na" "tree_node t3 q = Some nb" "same_views right nb"
      using hint_eq_node [OF t3(2)] t2 by blast
    then show ?thesis using only_at_hint [OF o2 t3(2)] q sp(1) same_views_pages(2) sp(3,4) try1 al(1) t3(1)
      by (intro disjI2 exI [of _ mid] exI [of _ q] exI [of _ t3] exI [of _ na] exI [of _ nb]) (auto simp: split_internal_page_def split_tail_def)
  qed
qed

text \<open>Inserting a pending child into one of two pages.\<close>

lemma target_takes:
  assumes o: "only_at t t3 {p, q}" and x: "x = p \<or> x = q" "tree_node t3 x = Some n"
    and page: "inner_page n (a @ b) (ca @ l # cb)" "length ca = length a" "\<And>y. y \<in> set a \<Longrightarrow> y < k" "\<And>y. y \<in> set b \<Longrightarrow> k < y"
  shows "(\<exists>e t'. node_try BInsertFailed t3 x (\<lambda>n. insert_child n k (ucast r)) = Some (Inl e, t'))
    \<or> (\<exists>n' t4. node_try BInsertFailed t3 x (\<lambda>n. insert_child n k (ucast r)) = Some (Inr (), t4) \<and> only_at t t4 {p, q}
        \<and> tree_node t4 x = Some n' \<and> inner_page n' (a @ k # b) (ca @ l # r # cb) \<and> (\<forall>y. y \<noteq> x \<longrightarrow> tree_node t4 y = tree_node t3 y))"
proof -
  consider (err) e where "insert_child n k (ucast r) = Some (Inl e, n)"
    | (ok) n' where "insert_child n k (ucast r) = Some (Inr (), n')" "inner_page n' (a @ k # b) (ca @ l # r # cb)"
    using insert_child_page [OF page(1,2)] page(3,4) by metis
  then show ?thesis
  proof cases
    case err
    then show ?thesis using node_try_eq(2) [OF x(2), of "\<lambda>n. insert_child n k (ucast r)"] by blast
  next
    case ok
    then have "good_page n'" by (simp add: inner_page_def)
    then have "only_at t (store_node t3 x n') {p, q}" using only_at_store [OF o _ x(2)] x(1) by blast
    then show ?thesis using node_try_eq(1) [OF x(2), of "\<lambda>n. insert_child n k (ucast r)"] ok tree_node_store [OF x(2)] by auto
  qed
qed

lemma halves_take:
  assumes pend: "pend t (Frame p ks1 cs1 ks2 cs2 # fs) h lo hi L k R H"
    and mid: "mid < length (ks1 @ ks2)" and q: "tree_node t q = None" and o: "only_at t t3 {p, q}"
    and pa: "tree_node t3 p = Some na" "inner_page na (take mid (ks1 @ ks2)) (take (Suc mid) (map rid (cs1 @ L # cs2)))"
    and pb: "tree_node t3 q = Some nb" "inner_page nb (drop (Suc mid) (ks1 @ ks2)) (drop (Suc mid) (map rid (cs1 @ L # cs2)))"
  defines "attempt \<equiv> node_try BInsertFailed t3 (if k \<ge> (ks1 @ ks2) ! mid then q else p) (\<lambda>n. insert_child n k (ucast (rid R)))"
  shows "(\<exists>e t'. attempt = Some (Inl e, t'))
    \<or> (\<exists>t4 ka kb ca cb lo0 hi0. attempt = Some (Inr (), t4) \<and> pend t4 fs (Suc h) lo0 hi0 (SN p ka ca) ((ks1 @ ks2) ! mid) (SN q kb cb) H
        \<and> ca @ cb = cs1 @ L # R # cs2)"
proof -
  let ?m = "(ks1 @ ks2) ! mid"
  have F: "\<And>x. x \<in> set ks1 \<Longrightarrow> x < k" "\<And>x. x \<in> set ks2 \<Longrightarrow> k < x" "length cs1 = length ks1" "length cs2 = length ks2" "tree_node t p \<noteq> None"
    by (rule pend_frame [OF pend], simp)+
  have qp: "q \<noteq> p" using q F(5) by auto
  have finish: "\<exists>lo0 hi0. pend t4 fs (Suc h) lo0 hi0 (SN p ka ca) ?m (SN q kb cb) H"
    if "only_at t t4 {p, q}" "ks1 @ k # ks2 = ka @ ?m # kb" "cs1 @ L # R # cs2 = ca @ cb" "length ca = Suc (length ka)"
      "tree_node t4 p = Some na'" "inner_page na' ka (map rid ca)" "tree_node t4 q = Some nb'" "inner_page nb' kb (map rid cb)"
    for t4 ka kb ca cb na' nb'
  proof (rule pend_split [OF pend that(2-8) q _ _ only_atD(3,4) [OF that(1)]])
    show "keeps t t4 (- {p})" using only_atD(1) [OF that(1)] q by (auto simp: keeps_def)
    show "tree_node t x \<noteq> None" if "x \<noteq> p" "x \<noteq> q" "tree_node t4 x \<noteq> None" for x
      using only_atD(2) [OF \<open>only_at t t4 {p, q}\<close>, of x] that by simp
  qed
  show ?thesis
  proof (cases "mid < length ks1")
    case True
    let ?a = "take mid ks1" and ?b = "drop (Suc mid) ks1"
    have ks1: "ks1 = ?a @ ?m # ?b" using True id_take_nth_drop [OF True] by (simp add: nth_append)
    have m: "?m \<le> k" using F(1) [of ?m] True by (simp add: nth_append less_imp_le)
    have page: "inner_page nb (?b @ ks2) (map rid (drop (Suc mid) cs1) @ rid L # map rid cs2)" using pb(2) True F(3) by (simp add: drop_map)
    have lt: "y < k" if "y \<in> set ?b" for y using F(1) [of y] that by (auto dest: in_set_dropD)
    have att: "attempt = node_try BInsertFailed t3 q (\<lambda>n. insert_child n k (ucast (rid R)))" using m by (simp add: attempt_def)
    consider e t' where "attempt = Some (Inl e, t')"
      | n' t4 where "attempt = Some (Inr (), t4)" "only_at t t4 {p, q}" "tree_node t4 q = Some n'"
          "inner_page n' (?b @ k # ks2) (map rid (drop (Suc mid) cs1 @ L # R # cs2))" "tree_node t4 p = Some na"
      using target_takes [OF o _ pb(1) page _ lt F(2), of "rid R"] pa(1) qp F(3) unfolding att by fastforce
    then show ?thesis
    proof cases
      case 2
      have "inner_page na ?a (map rid (take (Suc mid) cs1))" using pa(2) True F(3) by (simp add: take_map)
      then show ?thesis using finish [OF 2(2) _ _ _ 2(5) _ 2(3,4), of ?a "take (Suc mid) cs1"] ks1 True F(3) 2(1) by fastforce
    qed blast
  next
    case False
    then obtain j where j: "mid = length ks1 + j" by (metis add_diff_inverse_nat)
    have jl: "j < length ks2" using mid j by simp
    let ?a = "take j ks2" and ?b = "drop (Suc j) ks2"
    have m: "?m = ks2 ! j" by (simp add: j nth_append)
    have ks2: "ks2 = ?a @ ?m # ?b" using id_take_nth_drop [OF jl] m by simp
    have "\<not> ?m \<le> k" using F(2) [of ?m] jl m by (simp add: not_le)
    then have att: "attempt = node_try BInsertFailed t3 p (\<lambda>n. insert_child n k (ucast (rid R)))" by (simp add: attempt_def)
    have page: "inner_page na (ks1 @ ?a) (map rid cs1 @ rid L # map rid (take j cs2))" using pa(2) F(3) by (simp add: j take_map Suc_diff_le)
    have gt: "k < y" if "y \<in> set ?a" for y using F(2) [of y] that by (auto dest: in_set_takeD)
    consider e t' where "attempt = Some (Inl e, t')"
      | n' t4 where "attempt = Some (Inr (), t4)" "only_at t t4 {p, q}" "tree_node t4 p = Some n'"
          "inner_page n' (ks1 @ k # ?a) (map rid (cs1 @ L # R # take j cs2))" "tree_node t4 q = Some nb"
      using target_takes [OF o _ pa(1) page _ F(1) gt, of "rid R"] pb(1) qp F(3) unfolding att by fastforce
    then show ?thesis
    proof cases
      case 2
      have "inner_page nb ?b (map rid (drop j cs2))" using pb(2) F(3) by (simp add: j drop_map Suc_diff_le)
      then show ?thesis using finish [OF 2(2) _ _ _ 2(3,4) 2(5), of ?b "drop j cs2"] ks2 jl F(3,4) 2(1) by fastforce
    qed blast
  qed
qed

section \<open>Linking the new half\<close>

lemma link_parent:
  assumes pend: "pend t (f # fs) h lo hi L k R H"
  shows "rid L \<noteq> bt_root t \<and> (\<exists>pp t'. parent_or e (rid L) t = Some (Inr pp, t) \<and> set_parent t (rid R) pp = Some (Inr (), t')
    \<and> pend t' (f # fs) h lo hi L k R H \<and> (pp = fpid f \<or> (\<exists>n es. tree_node t' pp = Some n \<and> leaf_page n es)))"
proof -
  note T = pend_tree [OF pend]
  have R: "rep t R" and root: "bt_root t = rid (fill (f # fs) L)" using pend by (simp_all add: pend_def)
  note hole = parent_of_hole [OF T(1) R T(2,3) root]
  then obtain pp where pp: "parent_of t (rid L) = Some (Inr (Some pp))" "pp = fpid f \<or> (\<exists>n es. tree_node t pp = Some n \<and> leaf_page n es)" by blast
  obtain t' where t': "set_parent t (rid R) pp = Some (Inr (), t')" "hint_eq t t'"
    using set_parent_hint [OF pend_good [OF pend] rep_loaded [OF R rid_in_ids], of pp] by blast
  have "pp = fpid f \<or> (\<exists>n es. tree_node t' pp = Some n \<and> leaf_page n es)"
    using pp(2) hint_eq_node [OF t'(2), of pp] same_views_pages(1) by blast
  then show ?thesis using hole(2) pp(1) t'(1) pend_hint [OF t'(2) pend] by (simp add: parent_or_def)
qed

lemma split_internal_page_pend:
  assumes pend: "pend t (Frame p ks1 cs1 ks2 cs2 # fs) h lo hi L k R H"
  shows "(\<exists>e t'. split_internal_page t p k (rid R) = Some (Inl e, t'))
    \<or> (\<exists>t' s. split_internal_page t p k (rid R) = Some (Inr None, t') \<and> fs = [] \<and> tree_of t' s (Suc H)
         \<and> ents s = concat (map ents (cs1 @ L # R # cs2)))
    \<or> (\<exists>t' pp m L' R' f fs' lo0 hi0. split_internal_page t p k (rid R) = Some (Inr (Some (pp, m, rid R')), t') \<and> fs = f # fs'
         \<and> pend t' (f # fs') (Suc h) lo0 hi0 L' m R' H \<and> ents L' @ ents R' = concat (map ents (cs1 @ L # R # cs2))
         \<and> (pp = fpid f \<or> (\<exists>n es. tree_node t' pp = Some n \<and> leaf_page n es)))"
proof -
  obtain n where n: "tree_node t p = Some n" "inner_page n (ks1 @ ks2) (map rid (cs1 @ L # cs2))" "distinct (ks1 @ ks2)"
    using pend_frame [OF pend] by (metis list.simps(9) map_append)
  have ok: "alloc_ok t" using pend by (simp add: pend_def)
  from split_in_two [OF n ok pend_good [OF pend]] consider (err) e t' where "split_internal_page t p k (rid R) = Some (Inl e, t')"
    | (two) mid q t3 na nb where "mid < length (ks1 @ ks2)" "tree_node t q = None" "only_at t t3 {p, q}"
      "tree_node t3 p = Some na" "inner_page na (take mid (ks1 @ ks2)) (take (Suc mid) (map rid (cs1 @ L # cs2)))"
      "tree_node t3 q = Some nb" "inner_page nb (drop (Suc mid) (ks1 @ ks2)) (drop (Suc mid) (map rid (cs1 @ L # cs2)))"
      "split_internal_page t p k (rid R) = split_tail t3 p ((ks1 @ ks2) ! mid) q k (rid R)"
    by blast
  then show ?thesis
  proof cases
    case two
    let ?m = "(ks1 @ ks2) ! mid"
    let ?x = "if k \<ge> ?m then q else p"
    from halves_take [OF pend two(1-7)] consider (err) e t' where "node_try BInsertFailed t3 ?x (\<lambda>n. insert_child n k (ucast (rid R))) = Some (Inl e, t')"
      | (ok) t4 ka kb ca cb lo0 hi0 where "node_try BInsertFailed t3 ?x (\<lambda>n. insert_child n k (ucast (rid R))) = Some (Inr (), t4)"
          "pend t4 fs (Suc h) lo0 hi0 (SN p ka ca) ?m (SN q kb cb) H" "ca @ cb = cs1 @ L # R # cs2" by blast
    then show ?thesis
    proof cases
      case err
      then show ?thesis using two(8) by (simp add: split_tail_def Let_def)
    next
      case ok
      let ?L = "SN p ka ca" and ?R = "SN q kb cb"
      have ents: "ents ?L @ ents ?R = concat (map ents (cs1 @ L # R # cs2))" by (simp flip: ok(3))
      have "R \<in> set (ca @ cb)" by (simp add: ok(3))
      then have "rep t4 R" using ok(2) by (auto simp: pend_def)
      then obtain t5 where t5: "set_parent t4 (rid R) ?x = Some (Inr (), t5)" "hint_eq t4 t5"
        using set_parent_hint [OF pend_good [OF ok(2)] rep_loaded [OF _ rid_in_ids]] by blast
      note p5 = pend_hint [OF t5(2) ok(2)]
      show ?thesis
      proof (cases fs)
        case Nil
        then have "p = bt_root t5" using p5 by (simp add: pend_def)
        moreover obtain r t6 where "create_new_root t5 p ?m q = Some (r, t6)" "r = Inr () \<longrightarrow> (\<exists>s. tree_of t6 s (Suc H) \<and> ents s = ents ?L @ ents ?R)"
          using create_new_root_spec [of t5 "Suc h" lo0 hi0 ?L ?m ?R H] p5 Nil by auto
        ultimately show ?thesis using two(8) ok(1) t5(1) Nil ents by (cases r) (auto simp: split_tail_def Let_def)
      next
        case (Cons f fs')
        note lk = link_parent [OF p5 [unfolded Cons], of "SplitInternalUnreachable p"]
        then obtain pp t6 where "p \<noteq> bt_root t5" "parent_or (SplitInternalUnreachable p) p t5 = Some (Inr pp, t5)" "set_parent t5 q pp = Some (Inr (), t6)"
          and P: "pend t6 (f # fs') (Suc h) lo0 hi0 ?L ?m ?R H" "pp = fpid f \<or> (\<exists>n es. tree_node t6 pp = Some n \<and> leaf_page n es)" by auto
        then have "split_internal_page t p k (rid R) = Some (Inr (Some (pp, ?m, rid ?R)), t6)" using two(8) ok(1) t5(1) by (simp add: split_tail_def Let_def)
        then show ?thesis using P ents Cons by blast
      qed
    qed
  qed blast
qed

section \<open>The climb to the root\<close>

lemma insert_child_leaf: "leaf_page n es \<Longrightarrow> insert_child n k c = Some (Inl WrongNodeType, n)"
  using leaf_pageD [of n es] by (simp add: insert_child_def page_simps)

lemma store_same_hint: "tree_node t p = Some n \<Longrightarrow> hint_eq t (store_node t p n)"
  by (simp add: hint_eq_def tree_node_store option.rel_refl)

text \<open>The climb returns whatever the pages hold, and on success the tree has the given entries.\<close>

definition yields :: "unit tree_op \<Rightarrow> (bytes \<times> value_ref) list \<Rightarrow> nat \<Rightarrow> bool" where
  "yields m es H \<longleftrightarrow> (\<exists>r t'. m = Some (r, t') \<and> (r = Inr () \<longrightarrow> (\<exists>s H'. tree_of t' s H' \<and> H' \<le> Suc H \<and> ents s = es)))"

lemma yields_Inl [simp]: "yields (Some (Inl e, t)) es H"
  by (simp add: yields_def)

lemma yieldsI: "tree_of t s H' \<Longrightarrow> H' \<le> Suc H \<Longrightarrow> ents s = es \<Longrightarrow> yields (Some (Inr (), t)) es H"
  by (auto simp: yields_def)

definition parent_page :: "btree \<Rightarrow> path_frame \<Rightarrow> page_id \<Rightarrow> bool" where
  "parent_page t f pp \<longleftrightarrow> pp = fpid f \<or> (\<exists>n es. tree_node t pp = Some n \<and> leaf_page n es)"

lemma climb_step:
  assumes pend: "pend t (Frame p ks1 cs1 ks2 cs2 # fs) h lo hi L k R H"
    and IH: "\<And>t' f fs' h' lo hi L' m R' pp. fs = f # fs' \<Longrightarrow> pend t' (f # fs') h' lo hi L' m R' H \<Longrightarrow> parent_page t' f pp \<Longrightarrow>
       yields (insert_into_internal t' pp m (rid R')) (pre (f # fs') @ (ents L' @ ents R') @ post (f # fs')) H"
  shows "yields (insert_into_internal t p k (rid R)) (pre fs @ concat (map ents (cs1 @ L # R # cs2)) @ post fs) H"
proof -
  note step = insert_into_internal.simps [of t p k "rid R"]
  obtain n where n: "tree_node t p = Some n" "inner_page n (ks1 @ ks2) (map rid cs1 @ rid L # map rid cs2)"
    and F: "\<And>x. x \<in> set ks1 \<Longrightarrow> x < k" "\<And>x. x \<in> set ks2 \<Longrightarrow> k < x" "length (map rid cs1) = length ks1"
    by (rule pend_frame [OF pend]) simp
  have o: "only_at t t {p}" using pend pend_good [OF pend] by (intro only_at_refl) (simp_all add: pend_def)
  from insert_child_page [OF n(2) F(3,1,2), of "rid R"]
  consider (err) e where "insert_child n k (ucast (rid R)) = Some (Inl e, n)"
    | (ok) n' where "insert_child n k (ucast (rid R)) = Some (Inr (), n')" "inner_page n' (ks1 @ k # ks2) (map rid (cs1 @ L # R # cs2))"
    by auto
  then show ?thesis
  proof cases
    case ok
    let ?t = "store_node t p n'" and ?s = "SN p (ks1 @ k # ks2) (cs1 @ L # R # cs2)"
    have o': "only_at t ?t {p}" using only_at_store [OF o _ n(1)] ok(2) by (simp add: inner_page_def)
    have "tree_of ?t (fill fs ?s) H"
    proof (rule pend_fits [OF pend _ ok(2) only_atD(1) [OF o'] _ only_atD(3,4) [OF o']])
      show "tree_node ?t p = Some n'" using tree_node_store [OF n(1)] by simp
      show "tree_node t q \<noteq> None" if "q \<noteq> p" "tree_node ?t q \<noteq> None" for q using only_atD(2) [OF o', of q] that by simp
    qed
    then show ?thesis using step node_mut_eq [OF n(1), of "\<lambda>n. insert_child n k (ucast (rid R))"] ok(1) ents_fill [of fs ?s]
      by (auto intro!: yieldsI)
  next
    case err
    let ?t = "store_node t p n"
    have mut: "insert_into_internal t p k (rid R) = (if e = PageFull then do {
        (r2, t2) \<leftarrow> split_internal_page ?t p k (rid R);
        (case r2 of Inl e2 \<Rightarrow> Some (Inl e2, t2) | Inr None \<Rightarrow> Some (Inr (), t2) | Inr (Some (p, k, c)) \<Rightarrow> insert_into_internal t2 p k c) }
      else Some (Inl (BInsertFailed e), ?t))"
      using step node_mut_eq [OF n(1), of "\<lambda>n. insert_child n k (ucast (rid R))"] err by simp
    from split_internal_page_pend [OF pend_hint [OF store_same_hint [OF n(1)] pend]]
    consider (bad) e t' where "split_internal_page ?t p k (rid R) = Some (Inl e, t')"
      | (root) t' s where "split_internal_page ?t p k (rid R) = Some (Inr None, t')" "fs = []" "tree_of t' s (Suc H)"
         "ents s = concat (map ents (cs1 @ L # R # cs2))"
      | (up) t' pp m L' R' f fs' lo0 hi0 where "split_internal_page ?t p k (rid R) = Some (Inr (Some (pp, m, rid R')), t')" "fs = f # fs'"
         "pend t' (f # fs') (Suc h) lo0 hi0 L' m R' H" "ents L' @ ents R' = concat (map ents (cs1 @ L # R # cs2))" "parent_page t' f pp"
      unfolding parent_page_def by blast
    then show ?thesis
    proof cases
      case bad
      then show ?thesis using mut by simp
    next
      case root
      then show ?thesis using mut yieldsI [OF root(3)] by simp
    next
      case up
      then show ?thesis using mut IH [OF up(2,3,5)] by simp
    qed
  qed
qed

lemma climb_wrong_page: "tree_node t pp = Some n \<Longrightarrow> leaf_page n es' \<Longrightarrow> yields (insert_into_internal t pp k q) es H"
  by (subst insert_into_internal.simps) (simp add: node_mut_eq insert_child_leaf)

lemma insert_into_internal_pend:
  assumes "pend t (f # fs) h lo hi L k R H" and "parent_page t f pp"
  shows "yields (insert_into_internal t pp k (rid R)) (pre (f # fs) @ (ents L @ ents R) @ post (f # fs)) H"
  using assms
proof (induction fs arbitrary: t f pp h lo hi L k R)
  case Nil
  then show ?case using climb_step [of t _ _ _ _ _ "[]"] climb_wrong_page by (cases f) (fastforce simp: parent_page_def)
next
  case (Cons f' fs)
  then show ?case using climb_step [of t _ _ _ _ _ "f' # fs"] climb_wrong_page by (cases f) (fastforce simp: parent_page_def)
qed

end
