(* ===== verification/Tree_Leaves.thy ===== *)
theory Tree_Leaves
  imports Tree_Propagate
begin

text \<open>
  Changes of a leaf in its tree: rewriting the page, and splitting it when an insertion does not fit.
\<close>

section \<open>Writing an entry\<close>

lemma lower_bound_append:
  "(\<And>x. x \<in> set ks1 \<Longrightarrow> x < key) \<Longrightarrow> lower_bound (ks1 @ ks) key = length ks1 + lower_bound ks key"
  "(\<And>x. x \<in> set ks2 \<Longrightarrow> key < x) \<Longrightarrow> lower_bound (ks @ ks2) key = lower_bound ks key"
proof -
  show "lower_bound (ks1 @ ks) key = length ks1 + lower_bound ks key" if "\<And>x. x \<in> set ks1 \<Longrightarrow> x < key"
    using that by (simp add: lower_bound_def takeWhile_append)
  show "lower_bound (ks @ ks2) key = lower_bound ks key" if *: "\<And>x. x \<in> set ks2 \<Longrightarrow> key < x"
  proof -
    have "takeWhile (\<lambda>x. x < key) ks2 = []" using * by (cases ks2) (auto dest: less_asym)
    then have "takeWhile (\<lambda>x. x < key) (ks @ ks2) = takeWhile (\<lambda>x. x < key) ks" by (induction ks) simp_all
    then show ?thesis by (simp add: lower_bound_def)
  qed
qed

lemma others_append: "(\<And>x. x \<in> keys_of xs \<Longrightarrow> x \<noteq> key) \<Longrightarrow> others key xs = xs"
  by (force simp: filter_id_conv keys_of_def)

text \<open>An entry is written where its key belongs, whatever lies outside of its range.\<close>

lemma put_entry_append:
  assumes "\<And>x. x \<in> keys_of P \<Longrightarrow> x < key" and "\<And>x. x \<in> keys_of Q \<Longrightarrow> key < x"
  shows "put_entry key v (P @ es @ Q) = P @ put_entry key v es @ Q"
proof -
  have o: "others key P = P" "others key Q = Q" using assms by (auto intro!: others_append)
  have lb: "lower_bound (map fst (P @ r @ Q)) key = length P + lower_bound (map fst r) key" for r :: "(bytes \<times> 'a) list"
    using lower_bound_append(1) [of "map fst P" key "map fst (r @ Q)"] lower_bound_append(2) [of "map fst Q" key "map fst r"] assms
    unfolding keys_of_map [symmetric] by simp
  have le: "lower_bound (map fst r) key \<le> length r" for r :: "(bytes \<times> 'a) list"
    by (metis length_map length_takeWhile_le lower_bound_def)
  show ?thesis using le [of "others key es"] lb [of "others key es"] by (simp add: put_entry_def Let_def o insert_nth_def)
qed

lemma put_entry_others: "put_entry key v (others key es) = put_entry key v es"
  by (simp add: put_entry_def)

lemma sorted_wrt_fst_filter: "sorted_wrt R (map fst es) \<Longrightarrow> sorted_wrt R (map fst (filter P es))"
  by (simp add: sorted_wrt_map sorted_wrt_filter)

text \<open>The entries around a key.\<close>

lemma split_at_key:
  assumes "sorted_wrt (<) (map fst es)"
  obtains a b where "others key es = a @ b" "\<And>x. x \<in> keys_of a \<Longrightarrow> x < key" "\<And>x. x \<in> keys_of b \<Longrightarrow> key < x"
    "\<And>v. put_entry key v es = a @ (key, v) # b" "sorted_wrt (<) (map fst (a @ b))"
proof -
  let ?r = "others key es"
  let ?a = "takeWhile (\<lambda>e. fst e < key) ?r" and ?b = "dropWhile (\<lambda>e. fst e < key) ?r"
  have srt: "sorted_wrt (<) (map fst ?r)" by (rule sorted_wrt_fst_filter [OF assms])
  have a: "x < key" if "x \<in> keys_of ?a" for x using that by (auto simp: keys_of_def dest: set_takeWhileD)
  have b: "key < x" if "x \<in> keys_of ?b" for x
  proof (cases ?b)
    case (Cons e es')
    then have "\<not> fst e < key" using hd_dropWhile [of "\<lambda>e. fst e < key" ?r] by simp
    moreover have "e \<in> set ?r" using set_dropWhileD [of e "\<lambda>e. fst e < key" ?r] by (simp only: Cons list.set_intros)
    ultimately have k: "key < fst e" by auto
    have "sorted_wrt (<) (map fst (?a @ ?b))" using srt by simp
    then have "\<forall>e' \<in> set es'. fst e < fst e'" by (simp add: Cons sorted_wrt_append del: takeWhile_dropWhile_id)
    then show ?thesis using that k less_trans [OF k] by (auto simp: Cons keys_of_def)
  next
    case Nil
    with that show ?thesis by (simp only: keys_of_simps empty_iff)
  qed
  have "put_entry key v (?a @ [] @ ?b) = ?a @ put_entry key v [] @ ?b" for v by (rule put_entry_append) (use a b in auto)
  then have put: "put_entry key v ?r = ?a @ (key, v) # ?b" for v by (simp add: put_entry_def insert_nth_def lower_bound_def)
  show thesis using that [of ?a ?b] a b put put_entry_others [of key _ es] srt by simp
qed

lemma put_entry_sorted: "sorted_wrt (<) (map fst es) \<Longrightarrow> sorted_wrt (<) (map fst (put_entry key v es))"
  by (rule split_at_key [of es key]) (auto simp: sorted_wrt_append keys_of_map [symmetric] keys_of_def)

lemma keys_of_put [simp]: "sorted_wrt (<) (map fst es) \<Longrightarrow> keys_of (put_entry key v es) = insert key (keys_of es)"
proof (rule split_at_key [of es key])
  fix a b assume r: "others key es = a @ b" and p: "\<And>v. put_entry key v es = a @ (key, v) # b"
  have "keys_of (others key es) = keys_of es - {key}" by (auto simp: keys_of_def)
  then show "keys_of (put_entry key v es) = insert key (keys_of es)" by (auto simp: p r)
qed

lemma map_of_put: "sorted_wrt (<) (map fst es) \<Longrightarrow> map_of (put_entry key v es) = (map_of es)(key \<mapsto> v)"
proof (rule split_at_key [of es key])
  fix a b assume r: "others key es = a @ b" and p: "\<And>v. put_entry key v es = a @ (key, v) # b" and a: "\<And>x. x \<in> keys_of a \<Longrightarrow> x < key"
  have o: "map_of (others key es) k = map_of es k" if "k \<noteq> key" for k using that by (induction es) auto
  have n: "map_of a key = None" using a by (force simp: map_of_eq_None_iff keys_of_def)
  show "map_of (put_entry key v es) = (map_of es)(key \<mapsto> v)"
  proof
    fix k show "map_of (put_entry key v es) k = ((map_of es)(key \<mapsto> v)) k"
      using o [of k] n by (cases "k = key") (auto simp: p r map_add_def split: option.splits)
  qed
qed


section \<open>A leaf rewritten in its place\<close>

lemma leaf_page_after: "leaf_page n es \<Longrightarrow> leaf_after n n' es' \<Longrightarrow> leaf_page n' es'"
  by (auto simp: leaf_page_def good_page_def page_after_def same_place_def)

lemma leaf_page_rebuilt: "leaf_page n es \<Longrightarrow> rebuilt n n' es' \<Longrightarrow> leaf_page n' es'"
  by (auto simp: rebuilt_def intro: leaf_page_after)

text \<open>A leaf and its place in a tree: the context, the range of its keys, the page.\<close>

definition leaf_at :: "btree \<Rightarrow> path_frame list \<Rightarrow> page_id \<Rightarrow> (bytes \<times> value_ref) list \<Rightarrow> bytes \<Rightarrow> bytes option \<Rightarrow> nat \<Rightarrow> bool" where
  "leaf_at t fs p es lo hi H \<longleftrightarrow> tree_of t (fill fs (SL p es)) H \<and> accepts fs 0 lo hi H \<and> bst 0 lo hi (SL p es) \<and> below lo hi"

lemma leaf_at_sorted: "leaf_at t fs p es lo hi H \<Longrightarrow> sorted_wrt (<) (map fst es)"
  by (simp add: leaf_at_def)

lemma leaf_at_page: "leaf_at t fs p es lo hi H \<Longrightarrow> \<exists>n. tree_node t p = Some n \<and> leaf_page n es"
  by (auto simp: leaf_at_def tree_of_def dest!: rep_fill)

text \<open>An entry written into the leaf is written into the tree.\<close>

lemma leaf_at_put:
  assumes "leaf_at t fs p es lo hi H" and "lo \<le> key" and "below key hi"
  shows "pre fs @ put_entry key v es @ post fs = put_entry key v (pre fs @ es @ post fs)"
proof -
  have acc: "accepts fs 0 lo hi H" using assms(1) by (simp add: leaf_at_def)
  have "key < x" if "x \<in> keys_of (post fs)" for x
    using context_keys(2) [OF acc that] assms(3) by (cases hi) auto
  then show ?thesis using put_entry_append [of "pre fs" key "post fs"] context_keys(1) [OF acc] assms(2) less_le_trans by metis
qed

lemma leaf_at_store:
  assumes at: "leaf_at t fs p es lo hi H" and n': "leaf_page n' es'" and es': "bst 0 lo hi (SL p es')"
  shows "leaf_at (store_node t p n') fs p es' lo hi H"
proof -
  obtain n where n: "tree_node t p = Some n" using leaf_at_page [OF at] by blast
  have T: "bst H [] None (fill fs (SL p es))" "crep t fs p" "distinct (ids (fill fs (SL p es)))" "bt_root t = rid (fill fs (SL p es))"
    "\<And>q. tree_node t q \<noteq> None \<Longrightarrow> q \<in> set (ids (fill fs (SL p es)))" "alloc_ok t" "accepts fs 0 lo hi H"
    using at by (auto simp: leaf_at_def tree_of_def rep_fill_iff)
  let ?t = "store_node t p n'"
  have "p \<notin> set (cids fs)" using T(3) unfolding ids_fill by simp
  then have "crep ?t fs p" by (intro crep_keeps [OF T(2)] keepsI) (auto simp: tree_node_store [OF n])
  then have "rep ?t (fill fs (SL p es'))" unfolding rep_fill_iff using n' by (simp add: tree_node_store [OF n])
  moreover have "bst H [] None (fill fs (SL p es'))" using accepts_bst [OF T(7)] es' by blast
  moreover have "distinct (ids (fill fs (SL p es')))" using T(3) unfolding ids_fill by simp
  moreover have "bt_root ?t = rid (fill fs (SL p es'))" using T(4) by (simp add: rid_fill)
  moreover have "q \<in> set (ids (fill fs (SL p es')))" if "tree_node ?t q \<noteq> None" for q
    using T(5) [of q] that n unfolding ids_fill by (auto simp: tree_node_store [OF n] split: if_splits)
  ultimately have "tree_of ?t (fill fs (SL p es')) H" using alloc_ok_store [OF n T(6)] by (simp add: tree_of_def)
  then show ?thesis using at es' by (simp add: leaf_at_def)
qed

text \<open>The two halves of a leaf, once one of them has taken the new entry.\<close>

lemma leaf_at_split:
  assumes at: "leaf_at t fs p es lo hi H" and q: "tree_node t q = None" and o: "only_at t t' {p, q}"
    and pa: "tree_node t' p = Some na" "leaf_page na ea" "bst 0 lo (Some m) (SL p ea)"
    and pb: "tree_node t' q = Some nb" "leaf_page nb eb" "bst 0 m hi (SL q eb)"
    and m: "lo < m" "below m hi"
  shows "pend t' fs 0 lo hi (SL p ea) m (SL q eb) H"
proof -
  obtain n where n: "tree_node t p = Some n" using leaf_at_page [OF at] by blast
  have T: "crep t fs p" "distinct (ids (fill fs (SL p es)))" "bt_root t = rid (fill fs (SL p es))"
    "\<And>x. tree_node t x \<noteq> None \<Longrightarrow> x \<in> set (ids (fill fs (SL p es)))" "accepts fs 0 lo hi H" "rep t (fill fs (SL p es))"
    using at by (auto simp: leaf_at_def tree_of_def rep_fill_iff)
  have d: "p \<notin> set (cids fs)" "distinct (cids fs)" using T(2) unfolding ids_fill by simp_all
  have qn: "q \<notin> set (cids fs)" using rep_loaded [OF T(6), of q] q unfolding ids_fill by auto
  have "q \<noteq> p" using q n by auto
  have "crep t' fs p"
  proof (rule crep_keeps [OF T(1)])
    show "keeps t t' (set (cids fs))" by (rule keeps_subset [OF only_atD(1) [OF o]]) (use d qn in auto)
  qed
  moreover have "x = p \<or> x = q \<or> x \<in> set (cids fs)" if "tree_node t' x \<noteq> None" for x
    using only_atD(2) [OF o, of x] T(4) [of x] that unfolding ids_fill by auto
  ultimately show ?thesis
    using T(3,5) d qn \<open>q \<noteq> p\<close> pa pb m only_atD(3,4) [OF o] by (auto simp: pend_def pages_are_def rid_fill)
qed

end
