(* ===== verification/Tree_Leaf_Split.thy ===== *)
theory Tree_Leaf_Split
  imports Tree_Leaves
begin

text \<open>
  Insertion into a leaf of the tree: the contract of a page insertion, and the split of the leaf when the page
  is full.
\<close>

section \<open>Halves of a leaf\<close>

lemma bst_put: "bst 0 lo hi (SL p es) \<Longrightarrow> lo \<le> key \<Longrightarrow> below key hi \<Longrightarrow> bst 0 lo hi (SL p (put_entry key v es))"
  using keys_of_put [of es key v] by (auto simp: put_entry_sorted simp flip: keys_of_def)

lemma bst_others: "bst 0 lo hi (SL p es) \<Longrightarrow> bst 0 lo hi (SL p (others key es))"
  using sorted_wrt_fst_filter [of "(<)" es "\<lambda>e. fst e \<noteq> key"] by auto

lemma split_leaf_page:
  assumes page: "leaf_page n es"
  shows "(\<exists>e. node_split n = Some (Inl e, n))
    \<or> (\<exists>left right mid. 0 < mid \<and> mid < length es \<and> node_split n = Some (Inr (fst (es ! mid), right), left)
        \<and> leaf_page left (take mid es) \<and> leaf_page right (drop mid es))"
proof (cases "cnt n < 2")
  case True
  then show ?thesis using node_split_few leaf_pageD [OF page] by blast
next
  case False
  note d = leaf_pageD [OF page]
  have len: "length es = cnt n" using length_entries(1) [of n] d by simp
  have mid: "0 < cnt n div 2" "cnt n div 2 < length es" using False len by auto
  then have m: "node_keys n ! (cnt n div 2) = fst (es ! (cnt n div 2))" using d by simp
  have left: "leaf_page left es'" if "kept_half leaf_entries n left es'" for left es'
    using that leaf_page_after [OF page] by (simp add: kept_half_def)
  have right: "leaf_page right es'" if "new_half leaf_entries Leaf right es'" for right es'
    using that by (simp add: new_half_def leaf_page_def good_page_def)
  obtain l r where "node_split n = Some (Inr (node_keys n ! (cnt n div 2), r), l)"
    "kept_half leaf_entries n l (take (cnt n div 2) es)" "new_half leaf_entries Leaf r (drop (cnt n div 2) es)"
    using node_split_leaf [of n] d False by (auto simp: not_less)
  then show ?thesis using mid m left right by (metis (no_types))
qed

text \<open>The separator of two halves lies in the range of the leaf.\<close>

lemma leaf_halves_range:
  assumes b: "bst 0 lo hi (SL p es)" and mid: "0 < mid" "mid < length es"
  defines "m \<equiv> fst (es ! mid)"
  shows "bst 0 lo (Some m) (SL p (take mid es))" "bst 0 m hi (SL q (drop mid es))" "lo < m" "below m hi"
proof -
  have srt: "sorted_wrt (<) (map fst es)" and rng: "\<And>e. e \<in> set es \<Longrightarrow> lo \<le> fst e \<and> below (fst e) hi" using b by auto
  have lt: "fst (es ! i) < fst (es ! j)" if "i < j" "j < length es" for i j
    using sorted_wrt_nth_less [OF srt that(1)] that by simp
  have take: "fst e < m" if "e \<in> set (take mid es)" for e using that mid lt unfolding m_def by (auto simp: in_set_conv_nth)
  have drop: "m \<le> fst e" if "e \<in> set (drop mid es)" for e
  proof -
    from that obtain i where "i < length es - mid" "e = es ! (mid + i)" by (auto simp: in_set_conv_nth)
    then show ?thesis using lt [of mid "mid + i"] by (cases "i = 0") (auto simp: m_def less_imp_le)
  qed
  have "sorted_wrt (<) (map fst (take mid es) @ map fst (drop mid es))" using srt by (simp flip: map_append)
  then have s: "sorted_wrt (<) (map fst (take mid es))" "sorted_wrt (<) (map fst (drop mid es))" by (simp_all add: sorted_wrt_append)
  show "bst 0 lo (Some m) (SL p (take mid es))" using s(1) take rng by (auto dest: in_set_takeD)
  show "bst 0 m hi (SL q (drop mid es))" using s(2) drop rng by (auto dest: in_set_dropD)
  have "lo \<le> fst (es ! 0)" "fst (es ! 0) < m" using rng [OF nth_mem, of 0] lt [of 0 mid] mid by (cases es; auto simp: m_def)+
  then show "lo < m" by (rule le_less_trans)
  show "below m hi" using rng [of "es ! mid"] mid by (simp add: m_def)
qed

section \<open>The contract of an insertion into a leaf\<close>

locale leaf_insertion =
  fixes ins :: "node \<Rightarrow> unit mutation" and key :: bytes and v :: value_ref
  assumes duplicate: "\<And>n es. leaf_page n es \<Longrightarrow> key \<in> keys_of es \<Longrightarrow> \<exists>i. ins n = Some (Inl (DuplicateKey i), n)"
    and fresh: "\<And>n es. leaf_page n es \<Longrightarrow> key \<notin> keys_of es \<Longrightarrow>
      (\<exists>e \<in> {PageFull, EntryTooLarge}. ins n = Some (Inl e, n)) \<or> (\<exists>n'. ins n = Some (Inr (), n') \<and> leaf_page n' (put_entry key v es))"
begin

text \<open>One of two leaves takes the entry.\<close>

lemma target_leaf:
  assumes o: "only_at t t2 {p, q}" and x: "x = p \<or> x = q" "tree_node t2 x = Some n" and page: "leaf_page n es" "key \<notin> keys_of es"
  shows "(\<exists>e t'. node_try BInsertFailed t2 x ins = Some (Inl e, t'))
    \<or> (\<exists>n' t3. node_try BInsertFailed t2 x ins = Some (Inr (), t3) \<and> only_at t t3 {p, q}
        \<and> tree_node t3 x = Some n' \<and> leaf_page n' (put_entry key v es) \<and> (\<forall>y. y \<noteq> x \<longrightarrow> tree_node t3 y = tree_node t2 y))"
proof -
  consider (err) e where "ins n = Some (Inl e, n)" | (ok) n' where "ins n = Some (Inr (), n')" "leaf_page n' (put_entry key v es)"
    using fresh [OF page] by blast
  then show ?thesis
  proof cases
    case err
    then show ?thesis using node_try_eq(2) [OF x(2), of ins] by blast
  next
    case ok
    then have "good_page n'" by (simp add: leaf_page_def)
    then have "only_at t (store_node t2 x n') {p, q}" using only_at_store [OF o _ x(2)] x(1) by blast
    then show ?thesis using node_try_eq(1) [OF x(2), of ins] ok tree_node_store [OF x(2)] by auto
  qed
qed

lemma halves_take_entry:
  assumes at: "leaf_at t fs p es lo hi H" and key: "lo \<le> key" "below key hi" "key \<notin> keys_of es" and mid: "0 < mid" "mid < length es"
    and q: "tree_node t q = None" and o: "only_at t t2 {p, q}"
    and pa: "tree_node t2 p = Some na" "leaf_page na (take mid es)" and pb: "tree_node t2 q = Some nb" "leaf_page nb (drop mid es)"
  defines "m \<equiv> fst (es ! mid)"
  defines "attempt \<equiv> node_try BInsertFailed t2 (if key \<ge> m then q else p) ins"
  shows "(\<exists>e t'. attempt = Some (Inl e, t'))
    \<or> (\<exists>t3 ea eb. attempt = Some (Inr (), t3) \<and> pend t3 fs 0 lo hi (SL p ea) m (SL q eb) H \<and> ea @ eb = put_entry key v es)"
proof -
  have b: "bst 0 lo hi (SL p es)" using at by (simp add: leaf_at_def)
  note h = leaf_halves_range [OF b mid, folded m_def]
  have qp: "q \<noteq> p" using leaf_at_page [OF at] q by auto
  have abs: "key \<notin> keys_of (take mid es)" "key \<notin> keys_of (drop mid es)"
    using key(3) by (auto simp: keys_of_def dest: in_set_takeD in_set_dropD)
  show ?thesis
  proof (cases "m \<le> key")
    case True
    then have att: "attempt = node_try BInsertFailed t2 q ins" by (simp add: attempt_def)
    have P: "x < key" if "x \<in> keys_of (take mid es)" for x
    proof -
      have "x < m" using h(1) that by (auto simp: keys_of_def)
      then show ?thesis using True by simp
    qed
    have put: "take mid es @ put_entry key v (drop mid es) = put_entry key v es"
      using put_entry_append [of "take mid es" key "[]" v "drop mid es"] P by simp
    have "bst 0 m hi (SL q (put_entry key v (drop mid es)))" by (rule bst_put [OF h(2) True key(2)])
    then show ?thesis
      using target_leaf [OF o _ pb abs(2)] leaf_at_split [OF at q _ _ pa(2) h(1) _ _ _ h(3,4)] pa(1) qp put unfolding att by fastforce
  next
    case False
    then have att: "attempt = node_try BInsertFailed t2 p ins" by (simp add: attempt_def)
    have Q: "key < x" if "x \<in> keys_of (drop mid es)" for x
    proof -
      have "m \<le> x" using h(2) that by (auto simp: keys_of_def)
      then show ?thesis using False by simp
    qed
    have put: "put_entry key v (take mid es) @ drop mid es = put_entry key v es"
      using put_entry_append [of "[]" key "drop mid es" v "take mid es"] Q by simp
    have "bst 0 lo (Some m) (SL p (put_entry key v (take mid es)))" using bst_put [OF h(1) key(1)] False by simp
    then show ?thesis
      using target_leaf [OF o _ pa abs(1)] leaf_at_split [OF at q _ _ _ _ _ pb(2) h(2-4)] pb(1) qp put unfolding att by fastforce
  qed
qed

text \<open>The split of a full leaf.\<close>

lemma split_and_insert_tree:
  assumes at: "leaf_at t fs p es lo hi H" and key: "lo \<le> key" "below key hi" "key \<notin> keys_of es"
  shows "yields (split_and_insert ins t p key) (pre fs @ put_entry key v es @ post fs) H"
proof -
  obtain n where n: "tree_node t p = Some n" "leaf_page n es" using leaf_at_page [OF at] by blast
  have ok: "alloc_ok t" "good_pages t" using at tree_of_good by (auto simp: leaf_at_def tree_of_def)
  from split_leaf_page [OF n(2)] consider (err) e where "node_split n = Some (Inl e, n)"
    | (two) left right mid where "0 < mid" "mid < length es" "node_split n = Some (Inr (fst (es ! mid), right), left)"
        "leaf_page left (take mid es)" "leaf_page right (drop mid es)" by blast
  then show ?thesis
  proof cases
    case err
    then show ?thesis using node_try_eq(2) [OF n(1), of node_split] by (simp add: split_and_insert_def)
  next
    case two
    let ?t1 = "store_node t p left" and ?m = "fst (es ! mid)"
    have try1: "node_try BSplitFailed t p node_split = Some (Inr (?m, right), ?t1)" using node_try_eq(1) [OF n(1), of node_split] two(3) by simp
    have g: "good_page left" "good_page right" using two(4,5) by (simp_all add: leaf_page_def)
    have o1: "only_at t ?t1 {p}" using only_at_store [OF only_at_refl [OF ok] _ n(1) g(1), of "{p}"] by simp
    from alloc_node_spec [OF only_atD(4) [OF o1], of right] consider (full) t' where "alloc_node ?t1 right = Some (Inl BPageIdExhausted, t')"
      | (al) q t2 where "alloc_node ?t1 right = Some (Inr q, t2)" "tree_node ?t1 q = None" "bt_root t2 = bt_root ?t1" "alloc_ok t2"
          "\<forall>x. tree_node t2 x = (if x = q then Some right else tree_node ?t1 x)" by blast
    then show ?thesis
    proof cases
      case full
      then show ?thesis using try1 by (simp add: split_and_insert_def)
    next
      case al
      have q: "tree_node t q = None" "q \<noteq> p" using al(2) n(1) by (auto simp: tree_node_store split: if_splits)
      have o2: "only_at t t2 {p, q}" using only_at_alloc [OF o1 al(5,3,4) g(2)] by (simp add: insert_commute)
      have t2: "tree_node t2 p = Some left" "tree_node t2 q = Some right" using al(5) q(2) n(1) by (simp_all add: tree_node_store)
      note run = split_and_insert_def [of ins t p key]
      from halves_take_entry [OF at key two(1,2) q(1) o2 t2(1) two(4) t2(2) two(5)]
      consider (bad) e t' where "node_try BInsertFailed t2 (if key \<ge> ?m then q else p) ins = Some (Inl e, t')"
        | (ins) t3 ea eb where "node_try BInsertFailed t2 (if key \<ge> ?m then q else p) ins = Some (Inr (), t3)"
            "pend t3 fs 0 lo hi (SL p ea) ?m (SL q eb) H" "ea @ eb = put_entry key v es" by blast
      then show ?thesis
      proof cases
        case bad
        then show ?thesis using try1 al(1) by (simp add: run Let_def)
      next
        case ins
        let ?L = "SL p ea" and ?R = "SL q eb"
        have run: "split_and_insert ins t p key = (if p = bt_root t3 then create_new_root t3 p ?m q
            else and_then (parent_or (SplitLeafUnreachable p) p t3) (\<lambda>parent_id t.
             and_then (set_parent t q parent_id) (\<lambda>_ t. insert_into_internal t parent_id ?m q)))"
          using try1 al(1) ins(1) by (simp add: run Let_def)
        show ?thesis
        proof (cases fs)
          case Nil
          then have "p = bt_root t3" using ins(2) by (simp add: pend_def)
          then show ?thesis using create_new_root_spec [of t3 0 lo hi ?L ?m ?R H] ins(2,3) Nil run by (auto simp: yields_def)
        next
          case (Cons f fs')
          from link_parent [OF ins(2) [unfolded Cons], of "SplitLeafUnreachable p"] obtain pp t4 where
            "p \<noteq> bt_root t3" "parent_or (SplitLeafUnreachable p) p t3 = Some (Inr pp, t3)" "set_parent t3 q pp = Some (Inr (), t4)"
            and P: "pend t4 (f # fs') 0 lo hi ?L ?m ?R H" "parent_page t4 f pp" by (auto simp: parent_page_def)
          then have "split_and_insert ins t p key = insert_into_internal t4 pp ?m (rid ?R)" by (simp add: run)
          then show ?thesis using insert_into_internal_pend [OF P] ins(3) Cons by simp
        qed
      qed
    qed
  qed
qed

end

section \<open>The insertions of the page\<close>

lemma put_entry_absent: "key \<notin> keys_of es \<Longrightarrow> put_entry key v es = insert_nth (lower_bound (map fst es) key) (key, v) es"
  by (simp add: put_entry_def others_absent keys_of_def)

lemma leaf_payload_insertion:
  assumes page: "leaf_page n es" and pok: "payload_ok vt val"
    and op: "op n = do { s \<leftarrow> node_search n key; (case s of Inr index \<Rightarrow> Some (Inl (DuplicateKey index), n)
       | Inl insertion_point \<Rightarrow> insert_leaf_value n key vt val insertion_point) }"
  shows "key \<in> keys_of es \<Longrightarrow> \<exists>i. op n = Some (Inl (DuplicateKey i), n)"
    and "key \<notin> keys_of es \<Longrightarrow> (\<exists>e \<in> {PageFull, EntryTooLarge}. op n = Some (Inl e, n))
      \<or> (\<exists>n'. op n = Some (Inr (), n') \<and> leaf_page n' (put_entry key (payload_value vt val) es))"
    and "key \<notin> keys_of es \<Longrightarrow> 5 + length key + length val + 8 \<le> free_of n \<Longrightarrow>
      \<exists>n'. op n = Some (Inr (), n') \<and> leaf_page n' (put_entry key (payload_value vt val) es)"
proof -
  note d = leaf_pageD [OF page]
  have keys: "set (node_keys n) = keys_of es" using d by (simp add: keys_of_def)
  note sp = search_and_insert [OF _ _ pok, of n key, folded op]
  have put: "insert_nth (lower_bound (node_keys n) key) (key, payload_value vt val) (leaf_entries n) = put_entry key (payload_value vt val) es"
    if "key \<notin> keys_of es" using put_entry_absent [OF that] d by simp
  show "\<exists>i. op n = Some (Inl (DuplicateKey i), n)" if "key \<in> keys_of es" using sp(1) d that keys by blast
  show room: "\<exists>n'. op n = Some (Inr (), n') \<and> leaf_page n' (put_entry key (payload_value vt val) es)"
    if "key \<notin> keys_of es" "5 + length key + length val + 8 \<le> free_of n"
    using sp(3) d that keys put leaf_page_after [OF page] by metis
  show "(\<exists>e \<in> {PageFull, EntryTooLarge}. op n = Some (Inl e, n))
      \<or> (\<exists>n'. op n = Some (Inr (), n') \<and> leaf_page n' (put_entry key (payload_value vt val) es))" if "key \<notin> keys_of es"
    using sp(4) d that keys room by (metis not_le)
qed

lemma node_insert_page:
  assumes "leaf_page n es"
  shows "key \<in> keys_of es \<Longrightarrow> \<exists>i. node_insert n key val = Some (Inl (DuplicateKey i), n)"
    and "key \<notin> keys_of es \<Longrightarrow> (\<exists>e \<in> {PageFull, EntryTooLarge}. node_insert n key val = Some (Inl e, n))
      \<or> (\<exists>n'. node_insert n key val = Some (Inr (), n') \<and> leaf_page n' (put_entry key (RInline val) es))"
    and "key \<notin> keys_of es \<Longrightarrow> 5 + length key + length val + 8 \<le> free_of n \<Longrightarrow>
      \<exists>n'. node_insert n key val = Some (Inr (), n') \<and> leaf_page n' (put_entry key (RInline val) es)"
  using leaf_payload_insertion [OF assms, of VInline val "\<lambda>n. node_insert n key val" key] insert_ops_eq(1) [of n key val] leaf_pageD [OF assms]
  by (simp_all add: payload_ok_def)

lemma insert_blob_page:
  assumes "leaf_page n es"
  shows "key \<in> keys_of es \<Longrightarrow> \<exists>i. insert_blob n key ptr = Some (Inl (DuplicateKey i), n)"
    and "key \<notin> keys_of es \<Longrightarrow> (\<exists>e \<in> {PageFull, EntryTooLarge}. insert_blob n key ptr = Some (Inl e, n))
      \<or> (\<exists>n'. insert_blob n key ptr = Some (Inr (), n') \<and> leaf_page n' (put_entry key (RBlob ptr) es))"
    and "key \<notin> keys_of es \<Longrightarrow> 29 + length key \<le> free_of n \<Longrightarrow>
      \<exists>n'. insert_blob n key ptr = Some (Inr (), n') \<and> leaf_page n' (put_entry key (RBlob ptr) es)"
  using leaf_payload_insertion [OF assms, of VBlobPointer "bp_to_bytes ptr" "\<lambda>n. insert_blob n key ptr" key] insert_ops_eq(2) [of n key ptr] leaf_pageD [OF assms]
    bp_view_to_bytes [of ptr "[]"]
  by (simp_all add: payload_ok_def)

interpretation inline: leaf_insertion "\<lambda>n. node_insert n key val" key "RInline val" for key val
  by unfold_locales (use node_insert_page in blast)+

interpretation pointer: leaf_insertion "\<lambda>n. insert_blob n key ptr" key "RBlob ptr" for key ptr
  by unfold_locales (use insert_blob_page in blast)+

end
