(* ===== verification/Tree_Refinement.thy ===== *)
theory Tree_Refinement
  imports Tree_Leaf_Split
begin

text \<open>
  The operations of the tree refine operations on an ordered list of entries: lookup, insert, upsert, delete and
  the operations on blob pointers.
\<close>

section \<open>Abstraction\<close>

definition contents :: "btree \<Rightarrow> nat \<Rightarrow> (bytes \<times> value_ref) list \<Rightarrow> bool" where
  "contents t h es \<longleftrightarrow> (\<exists>s. tree_of t s h \<and> ents s = es)"

text \<open>The tree as it was: pages, root and allocator.\<close>

definition untouched :: "btree \<Rightarrow> btree \<Rightarrow> bool" where
  "untouched t t' \<longleftrightarrow> bt_nodes t' = bt_nodes t \<and> bt_root t' = bt_root t \<and> bt_alloc t' = bt_alloc t"

lemma untouched_refl [simp]: "untouched t t"
  by (simp add: untouched_def)

lemma untouched_store: "tree_node t p = Some n \<Longrightarrow> untouched t (store_node t p n)"
  by (simp add: untouched_def store_node_def tree_node_def list_update_same_conv split: if_splits)

lemma tree_of_untouched: "untouched t t' \<Longrightarrow> tree_of t s h \<Longrightarrow> tree_of t' s h"
proof -
  assume u: "untouched t t'" and "tree_of t s h"
  have n: "tree_node t' = tree_node t" using u by (auto simp: untouched_def tree_node_def)
  have "rep t' s = rep t s" by (induction s) (simp_all add: n)
  then show ?thesis using u \<open>tree_of t s h\<close> by (simp add: tree_of_def alloc_ok_def n untouched_def)
qed

lemma contents_untouched: "untouched t t' \<Longrightarrow> contents t h es \<Longrightarrow> contents t' h es"
  unfolding contents_def using tree_of_untouched by blast

lemma contents_sorted: "contents t h es \<Longrightarrow> sorted_wrt (<) (map fst es)"
  using bst_keys(1) by (auto simp: contents_def tree_of_def)

text \<open>An operation returns; either it leaves the tree as it was, or the tree holds the given entries.\<close>

definition outcome :: "btree \<Rightarrow> nat \<Rightarrow> (('e + 'a) \<times> btree) exec \<Rightarrow> (bytes \<times> value_ref) list \<Rightarrow> bool" where
  "outcome t h m es \<longleftrightarrow> (\<exists>r t'. m = Some (r, t') \<and> (case r of Inl _ \<Rightarrow> untouched t t' | Inr _ \<Rightarrow> \<exists>h' \<le> Suc h. contents t' h' es))"

lemma outcome_Inl: "untouched t t' \<Longrightarrow> outcome t h (Some (Inl e, t')) es"
  by (simp add: outcome_def)

lemma outcome_rollback: "yields m es h \<Longrightarrow> untouched t t0 \<Longrightarrow> outcome t h (rollback t0 m) es"
  unfolding yields_def outcome_def rollback_def contents_def untouched_def
  by (elim exE conjE, rename_tac r t', case_tac r) auto

section \<open>The leaf of a key\<close>

lemma leaf_of_key:
  fixes key :: bytes
  assumes "contents t h es" and "h < 128"
  obtains fs p les lo hi n where "find_leaf t key = Some (Inr p)" "leaf_at t fs p les lo hi h" "lo \<le> key" "below key hi"
    "es = pre fs @ les @ post fs" "key \<in> keys_of es \<longleftrightarrow> key \<in> keys_of les" "tree_node t p = Some n" "leaf_page n les"
proof -
  obtain s where s: "tree_of t s h" "ents s = es" using assms(1) by (auto simp: contents_def)
  obtain fs p les lo hi where l: "s = fill fs (SL p les)" "accepts fs 0 lo hi h" "bst 0 lo hi (SL p les)" "lo \<le> key" "below key hi" "below lo hi"
    "find_leaf t key = Some (Inr p)" using find_leaf_tree [OF s(1) assms(2)] by metis
  have at: "leaf_at t fs p les lo hi h" using s(1) l by (simp add: leaf_at_def)
  obtain n where n: "tree_node t p = Some n" "leaf_page n les" using leaf_at_page [OF at] by blast
  have es: "es = pre fs @ les @ post fs" using s(2) l(1) by (simp add: ents_fill)
  have "key \<notin> keys_of (pre fs)" "key \<notin> keys_of (post fs)" using context_keys [OF l(2), of key] l(4,5) by auto
  then have "key \<in> keys_of es \<longleftrightarrow> key \<in> keys_of les" by (auto simp: es)
  then show thesis by (rule that [OF l(7) at l(4,5) es _ n])
qed

lemma contents_leaf: "leaf_at t fs p les lo hi h \<Longrightarrow> contents t h (pre fs @ les @ post fs)"
  by (auto simp: contents_def leaf_at_def ents_fill)

lemma contents_store_put:
  assumes at: "leaf_at t fs p les lo hi h" and key: "lo \<le> key" "below key hi" and n': "leaf_page n' (put_entry key v les)"
  shows "contents (store_node t p n') h (put_entry key v (pre fs @ les @ post fs))"
proof -
  have "bst 0 lo hi (SL p les)" using at by (simp add: leaf_at_def)
  from contents_leaf [OF leaf_at_store [OF at n' bst_put [OF this key]]] show ?thesis by (simp only: leaf_at_put [OF at key])
qed

lemma outcome_Inr: "contents t' h es \<Longrightarrow> outcome t h (Some (Inr a, t')) es"
  by (auto simp: outcome_def intro!: exI [of _ h])

lemma yields_Inr: "contents t h es \<Longrightarrow> yields (Some (Inr (), t)) es h"
  by (auto simp: contents_def intro: yieldsI)

lemmas outcome_store_put = outcome_Inr [OF contents_store_put]

context leaf_insertion
begin

text \<open>An insertion with the split of a full page, rolled back when it fails.\<close>

lemma insert_or_split:
  assumes at: "leaf_at t fs p les lo hi h" and range: "lo \<le> key" "below key hi" and new: "key \<notin> keys_of les"
    and full: "\<And>t'. g (Inl PageFull) t' = rollback t' (split_and_insert ins t' p key)"
    and large: "\<And>t'. \<exists>e. g (Inl EntryTooLarge) t' = Some (Inl e, t')" and ok: "\<And>t'. g (Inr ()) t' = Some (Inr (), t')"
  shows "outcome t h (and_then (node_mut t p ins) g) (put_entry key v (pre fs @ les @ post fs))"
proof -
  obtain n where n: "tree_node t p = Some n" "leaf_page n les" using leaf_at_page [OF at] by blast
  have mut: "node_mut t p ins = Some (Inr r, store_node t p n')" if "ins n = Some (r, n')" for r n'
    using node_mut_eq [OF n(1), of ins] that by simp
  let ?t = "store_node t p n"
  have u: "untouched t ?t" by (rule untouched_store [OF n(1)])
  have at': "leaf_at ?t fs p les lo hi h" using leaf_at_store [OF at n(2)] at by (simp add: leaf_at_def)
  note sp = outcome_rollback [OF split_and_insert_tree [OF at' range new, unfolded leaf_at_put [OF at range]] u]
  consider "ins n = Some (Inl PageFull, n)" | "ins n = Some (Inl EntryTooLarge, n)"
    | n' where "ins n = Some (Inr (), n')" "leaf_page n' (put_entry key v les)" using fresh [OF n(2) new] by blast
  then show ?thesis
  proof cases
    case 1
    then show ?thesis using sp by (simp add: mut full)
  next
    case 2
    obtain e where "g (Inl EntryTooLarge) ?t = Some (Inl e, ?t)" using large by blast
    then show ?thesis using outcome_Inl [OF u] mut [OF 2] by simp
  next
    case 3
    then show ?thesis using outcome_store_put [OF at range] by (simp add: mut ok)
  qed
qed

text \<open>The same after an entry of the key was removed, inside of the rollback of the caller.\<close>

lemma insert_then_split:
  assumes at: "leaf_at t fs p les lo hi h" and range: "lo \<le> key" "below key hi" and new: "key \<notin> keys_of les"
    and full: "\<And>t'. g (Inl PageFull) t' = split_and_insert ins t' p key"
    and large: "\<And>t'. \<exists>e. g (Inl EntryTooLarge) t' = Some (Inl e, t')" and ok: "\<And>t'. g (Inr ()) t' = Some (Inr (), t')"
  shows "yields (and_then (node_mut t p ins) g) (put_entry key v (pre fs @ les @ post fs)) h"
proof -
  obtain n where n: "tree_node t p = Some n" "leaf_page n les" using leaf_at_page [OF at] by blast
  have mut: "node_mut t p ins = Some (Inr r, store_node t p n')" if "ins n = Some (r, n')" for r n'
    using node_mut_eq [OF n(1), of ins] that by simp
  let ?t = "store_node t p n"
  have at': "leaf_at ?t fs p les lo hi h" using leaf_at_store [OF at n(2)] at by (simp add: leaf_at_def)
  consider "ins n = Some (Inl PageFull, n)" | "ins n = Some (Inl EntryTooLarge, n)"
    | n' where "ins n = Some (Inr (), n')" "leaf_page n' (put_entry key v les)" using fresh [OF n(2) new] by blast
  then show ?thesis
  proof cases
    case 1
    then show ?thesis using split_and_insert_tree [OF at' range new] leaf_at_put [OF at range] by (simp add: mut full)
  next
    case 2
    obtain e where "g (Inl EntryTooLarge) ?t = Some (Inl e, ?t)" using large by blast
    then show ?thesis using mut [OF 2] by simp
  next
    case 3
    then show ?thesis using yields_Inr [OF contents_store_put [OF at range 3(2)]] by (simp add: mut ok)
  qed
qed

end

section \<open>Insertion\<close>

lemma bt_insert_contents:
  assumes c: "contents t h es" and h: "h < 128"
  shows "key \<in> keys_of es \<Longrightarrow> \<exists>t'. bt_insert t key val = Some (Inl BDuplicateKey, t') \<and> untouched t t'"
    and "key \<notin> keys_of es \<Longrightarrow> outcome t h (bt_insert t key val) (put_entry key (RInline val) es)"
proof -
  obtain fs p les lo hi n where l: "find_leaf t key = Some (Inr p)" "leaf_at t fs p les lo hi h" "lo \<le> key" "below key hi"
    "es = pre fs @ les @ post fs" "key \<in> keys_of es \<longleftrightarrow> key \<in> keys_of les" "tree_node t p = Some n" "leaf_page n les"
    by (rule leaf_of_key [OF c h])
  show "\<exists>t'. bt_insert t key val = Some (Inl BDuplicateKey, t') \<and> untouched t t'" if "key \<in> keys_of es"
    using inline.duplicate [OF l(8), of key val] that l(1,6) node_mut_eq [OF l(7), of "\<lambda>n. node_insert n key val"] untouched_store [OF l(7)]
    by (auto simp: bt_insert_def)
  show "outcome t h (bt_insert t key val) (put_entry key (RInline val) es)" if "key \<notin> keys_of es"
    using inline.insert_or_split [OF l(2-4)] that l(1,5,6) by (simp add: bt_insert_def split_and_insert_leaf_def)
qed

section \<open>Blob pointers\<close>

lemma insert_blob_at_outcome:
  assumes "leaf_at t fs p les lo hi h" and "lo \<le> key" and "below key hi" and "key \<notin> keys_of les"
  shows "outcome t h (insert_blob_at t p key ptr) (put_entry key (RBlob ptr) (pre fs @ les @ post fs))"
  using pointer.insert_or_split [OF assms] by (simp add: insert_blob_at_def split_and_insert_blob_leaf_def)

lemma bt_insert_blob_contents:
  assumes c: "contents t h es" and h: "h < 128"
  shows "key \<in> keys_of es \<Longrightarrow> \<exists>i t'. bt_insert_blob t key ptr = Some (Inl (BInsertFailed (DuplicateKey i)), t') \<and> untouched t t'"
    and "key \<notin> keys_of es \<Longrightarrow> outcome t h (bt_insert_blob t key ptr) (put_entry key (RBlob ptr) es)"
proof -
  obtain fs p les lo hi n where l: "find_leaf t key = Some (Inr p)" "leaf_at t fs p les lo hi h" "lo \<le> key" "below key hi"
    "es = pre fs @ les @ post fs" "key \<in> keys_of es \<longleftrightarrow> key \<in> keys_of les" "tree_node t p = Some n" "leaf_page n les"
    by (rule leaf_of_key [OF c h])
  show "\<exists>i t'. bt_insert_blob t key ptr = Some (Inl (BInsertFailed (DuplicateKey i)), t') \<and> untouched t t'" if "key \<in> keys_of es"
    using pointer.duplicate [OF l(8), of key ptr] that l(1,6) node_mut_eq [OF l(7), of "\<lambda>n. insert_blob n key ptr"] untouched_store [OF l(7)]
    by (auto simp: bt_insert_blob_def insert_blob_at_def)
  show "outcome t h (bt_insert_blob t key ptr) (put_entry key (RBlob ptr) es)" if "key \<notin> keys_of es"
    using insert_blob_at_outcome [OF l(2-4), of ptr] that l(1,5,6) by (simp add: bt_insert_blob_def)
qed

section \<open>Entries that exist\<close>

lemma put_entry_update:
  assumes srt: "sorted_wrt (<) (map fst es)" and i: "i < length es" "fst (es ! i) = key"
  shows "put_entry key v es = es[i := (key, v)]"
proof -
  have lt: "fst (es ! a) < fst (es ! b)" if "a < b" "b < length es" for a b
    using sorted_wrt_nth_less [OF srt that(1)] that by simp
  have P: "x < key" if x: "x \<in> keys_of (take i es)" for x
  proof -
    from x obtain a where "a < i" "x = fst (es ! a)" by (auto simp: keys_of_def in_set_conv_nth)
    then show ?thesis using lt [of a i] i by simp
  qed
  have Q: "key < x" if x: "x \<in> keys_of (drop (Suc i) es)" for x
  proof -
    from x obtain e where e: "e \<in> set (drop (Suc i) es)" "x = fst e" by (auto simp: keys_of_def)
    then obtain a where "a < length es - Suc i" "e = es ! (Suc i + a)" by (auto simp: in_set_conv_nth)
    with e(2) show ?thesis using lt [of i "Suc i + a"] i by auto
  qed
  have "es = take i es @ [es ! i] @ drop (Suc i) es" using id_take_nth_drop [OF i(1)] by simp
  then have "put_entry key v es = take i es @ put_entry key v [es ! i] @ drop (Suc i) es"
    using put_entry_append [of "take i es" key "drop (Suc i) es" v "[es ! i]"] P Q by simp
  then show ?thesis using i by (simp add: put_entry_def insert_nth_def lower_bound_def upd_conv_take_nth_drop)
qed

lemma present_position:
  assumes "key \<in> keys_of es"
  obtains i where "position (\<lambda>e. fst e = key) es = Some i" "i < length es" "fst (es ! i) = key"
proof (cases "position (\<lambda>e. fst e = key) es")
  case None
  then show thesis using assms by (auto simp: position_None keys_of_def)
next
  case (Some i)
  then show thesis using that [of i] position_Some [OF Some] by auto
qed

lemma existing_index_leaf:
  assumes "tree_node t p = Some n" and "leaf_page n les" and "sorted_wrt (<) (map fst les)"
  shows "existing_index t p key = Some (position (\<lambda>e. fst e = key) les)"
  using leaf_search(1) [OF assms(2,3), of key] assms(1) by (simp add: existing_index_def split: option.split)

section \<open>Deletion\<close>

lemma bt_delete_contents:
  assumes c: "contents t h es" and h: "h < 128"
  shows "case map_of es key of
      None \<Rightarrow> \<exists>t'. bt_delete t key = Some (Inr False, t') \<and> untouched t t'
    | Some w \<Rightarrow> if w = RTombstone then \<exists>t'. bt_delete t key = Some (Inr False, t') \<and> untouched t t'
        else \<exists>t'. bt_delete t key = Some (Inr True, t') \<and> contents t' h (put_entry key RTombstone es)"
proof -
  obtain fs p les lo hi n where l: "find_leaf t key = Some (Inr p)" "leaf_at t fs p les lo hi h" "lo \<le> key" "below key hi"
    "es = pre fs @ les @ post fs" "tree_node t p = Some n" "leaf_page n les"
    by (rule leaf_of_key [OF c h])
  let ?change = "\<lambda>n. do { s \<leftarrow> node_search n key;
            (case s of Inl _ \<Rightarrow> Some (Inr False, n)
             | Inr index \<Rightarrow> do { v \<leftarrow> node_value n index;
                 if v = Some RTombstone then Some (Inr False, n)
                 else do { (r, n') \<leftarrow> insert_tombstone n key; Some (case r of Inl e \<Rightarrow> Inl e | Inr _ \<Rightarrow> Inr True, n') } }) }"
  have run: "bt_delete t key = Some (Inr b, store_node t p n')" if "?change n = Some (Inr b, n')" for b n'
    using node_try_eq(1) [OF l(6), of ?change] that l(1) by (simp add: bt_delete_def)
  note d = leaf_pageD [OF l(7)] and srt = leaf_at_sorted [OF l(2)] and u = untouched_store [OF l(6)]
  note s = leaf_search(1) [OF l(7) srt, of key]
  have "accepts fs 0 lo hi h" using l(2) by (simp add: leaf_at_def)
  from map_of_fill [OF this l(3,4), of "SL p les"] have m: "map_of es key = map_of les key" by (simp add: l(5) ents_fill)
  show ?thesis
  proof (cases "position (\<lambda>e. fst e = key) les")
    case None
    then show ?thesis using run [of False n] s u m by (auto simp: map_of_position)
  next
    case (Some i)
    then have i: "i < length les" "fst (les ! i) = key" using position_Some [OF Some] by auto
    have v: "node_value n i = Some (Some (snd (les ! i)))" by (rule leaf_search(2) [OF l(7) srt i(1)])
    have mk: "map_of es key = Some (snd (les ! i))" using m Some by (simp add: map_of_position)
    show ?thesis
    proof (cases "snd (les ! i) = RTombstone")
      case True
      then show ?thesis using run [of False n] s v u Some mk by auto
    next
      case False
      have "key \<in> set (node_keys n)" using i d by (metis image_eqI length_map list.set_map nth_mem)
      then obtain n' where n': "insert_tombstone n key = Some (Inr (), n')" "leaf_after n n' (les[lower_bound (map fst les) key := (key, RTombstone)])"
        using insert_tombstone_present [of n key] d by auto
      have "leaf_page n' (put_entry key RTombstone les)"
        using leaf_page_after [OF l(7) n'(2)] leaf_search(3) [OF l(7) srt Some] put_entry_update [OF srt i] by simp
      from contents_store_put [OF l(2-4) this] have "contents (store_node t p n') h (put_entry key RTombstone es)" by (simp only: l(5))
      then show ?thesis using run [of True n'] s v n'(1) Some False mk by auto
    qed
  qed
qed

section \<open>Replacement\<close>

lemma others_keys: "key \<notin> keys_of (others key es)"
  by (auto simp: keys_of_def)

text \<open>Removing the entry of a key from a leaf of the tree.\<close>

lemma leaf_at_remove:
  assumes at: "leaf_at t fs p les lo hi h" and n: "leaf_page n' (others key les)" and range: "lo \<le> key" "below key hi"
  shows "leaf_at (store_node t p n') fs p (others key les) lo hi h"
    and "put_entry key v (pre fs @ others key les @ post fs) = put_entry key v (pre fs @ les @ post fs)"
proof -
  have b: "bst 0 lo hi (SL p les)" using at by (simp add: leaf_at_def)
  show at': "leaf_at (store_node t p n') fs p (others key les) lo hi h" by (rule leaf_at_store [OF at n bst_others [OF b]])
  show "put_entry key v (pre fs @ others key les @ post fs) = put_entry key v (pre fs @ les @ post fs)"
    by (simp only: leaf_at_put [OF at' range, symmetric] leaf_at_put [OF at range, symmetric] put_entry_others)
qed

lemma removal_page:
  assumes page: "leaf_page n les" and i: "i < length les" "fst (les ! i) = key"
  obtains n1 n2 where "remove_entry n i = Some (Inr (), n1)" "remove_duplicates n1 key = Some (Inr (), n2)" "leaf_page n2 (others key les)"
proof -
  note d = leaf_pageD [OF page]
  have ic: "i < cnt n" "node_keys n ! i = key" using i d length_entries(1) [of n] by simp_all
  obtain n1 where n1: "remove_entry n i = Some (Inr (), n1)" using remove_entry_plain [of n i] d ic by blast
  obtain n2 where n2: "remove_duplicates n1 key = Some (Inr (), n2)" "rebuilt n n2 (others key les)"
    using after_removal [of n i n1] d ic n1 by metis
  then show thesis using that n1 leaf_page_rebuilt [OF page n2(2)] by blast
qed

lemma replace_with_split:
  assumes at: "leaf_at t fs p les lo hi h" and range: "lo \<le> key" "below key hi" and i: "i < length les" "fst (les ! i) = key"
  shows "yields (replace_full_entry_with_split t p i key val) (put_entry key (RInline val) (pre fs @ les @ post fs)) h"
proof -
  obtain n where n: "tree_node t p = Some n" "leaf_page n les" using leaf_at_page [OF at] by blast
  obtain n1 n2 where r: "remove_entry n i = Some (Inr (), n1)" "remove_duplicates n1 key = Some (Inr (), n2)" "leaf_page n2 (others key les)"
    by (rule removal_page [OF n(2) i])
  note rm = leaf_at_remove [OF at r(3) range]
  let ?change = "\<lambda>n. do { (r, n1) \<leftarrow> remove_entry n i; (case r of Inl e \<Rightarrow> Some (Inl e, n1) | Inr _ \<Rightarrow> remove_duplicates n1 key) }"
  have "node_try BInsertFailed t p ?change = Some (Inr (), store_node t p n2)" using node_try_eq(1) [OF n(1), of ?change] r(1,2) by simp
  then show ?thesis
    using inline.insert_then_split [OF rm(1) range others_keys, of "\<lambda>r t. (case r of Inr _ \<Rightarrow> Some (Inr (), t)
        | Inl e \<Rightarrow> if e = PageFull then split_and_insert_leaf t p key val else Some (Inl (BInsertFailed e), t))" val]
    by (simp add: replace_full_entry_with_split_def split_and_insert_leaf_def rm(2))
qed

text \<open>The leaf page of a replacement, in place and resized.\<close>

lemma replace_value_page:
  assumes page: "leaf_page n les" and srt: "sorted_wrt (<) (map fst les)" and i: "i < length les" "les ! i = (key, RInline old)"
    and len: "length val = length old"
  shows "\<exists>n'. replace_value n i val = Some (Inr (), n') \<and> leaf_page n' (put_entry key (RInline val) les)"
proof -
  note d = leaf_pageD [OF page]
  have ic: "i < cnt n" "leaf_entries n ! i = (key, RInline old)" using i d length_entries(1) [of n] by simp_all
  obtain n' where n': "replace_value n i val = Some (Inr (), n')" "hdr n' = hdr n" "page_wf n'" "page_valid n'" "\<not> compressed n'"
    "leaf_entries n' = les[i := (key, RInline val)]"
    using replace_value_spec [of n i key old val] d ic len by auto
  have "free_of n' = free_of n" by (simp add: free_of_def n'(2) cnt_def)
  then show ?thesis using n' d put_entry_update [OF srt i(1)] i(2) by (auto simp: leaf_page_def good_page_def)
qed

lemma replace_value_resized_page:
  assumes page: "leaf_page n les" and i: "i < length les" "fst (les ! i) = key"
  shows "(\<exists>e \<in> {PageFull, EntryTooLarge}. replace_value_resized n i val = Some (Inl e, n))
    \<or> (\<exists>n'. replace_value_resized n i val = Some (Inr (), n') \<and> leaf_page n' (put_entry key (RInline val) les))"
proof -
  note d = leaf_pageD [OF page]
  have ic: "i < cnt n" "node_keys n ! i = key" using i d length_entries(1) [of n] by simp_all
  show ?thesis
    using replace_value_resized_spec [of n i val] remove_entry_plain [of n i] d ic leaf_page_after [OF page]
    by (auto split: if_splits)
qed

lemma replace_resized_tree:
  assumes at: "leaf_at t fs p les lo hi h" and range: "lo \<le> key" "below key hi" and i: "i < length les" "fst (les ! i) = key"
    and ok: "\<And>t'. g (Inr ()) t' = Some (Inr (), t')" and full: "\<And>t'. g (Inl PageFull) t' = replace_full_entry_with_split t' p i key val"
    and large: "\<And>t'. \<exists>e. g (Inl EntryTooLarge) t' = Some (Inl e, t')"
  shows "yields (and_then (node_mut t p (\<lambda>n. replace_value_resized n i val)) g) (put_entry key (RInline val) (pre fs @ les @ post fs)) h"
proof -
  obtain n where n: "tree_node t p = Some n" "leaf_page n les" using leaf_at_page [OF at] by blast
  have mut: "node_mut t p (\<lambda>n. replace_value_resized n i val) = Some (Inr r, store_node t p n')"
    if "replace_value_resized n i val = Some (r, n')" for r n' using node_mut_eq [OF n(1), of "\<lambda>n. replace_value_resized n i val"] that by simp
  have at': "leaf_at (store_node t p n) fs p les lo hi h" using leaf_at_store [OF at n(2)] at by (simp add: leaf_at_def)
  consider "replace_value_resized n i val = Some (Inl PageFull, n)" | "replace_value_resized n i val = Some (Inl EntryTooLarge, n)"
    | n' where "replace_value_resized n i val = Some (Inr (), n')" "leaf_page n' (put_entry key (RInline val) les)"
    using replace_value_resized_page [OF n(2) i, of val] by blast
  then show ?thesis
  proof cases
    case 1
    then show ?thesis using replace_with_split [OF at' range i, of val] by (simp add: mut full)
  next
    case 2
    obtain e where "g (Inl EntryTooLarge) (store_node t p n) = Some (Inl e, store_node t p n)" using large by blast
    then show ?thesis using mut [OF 2] by simp
  next
    case 3
    then show ?thesis using yields_Inr [OF contents_store_put [OF at range 3(2)]] by (simp add: mut ok)
  qed
qed

section \<open>Upsert\<close>

lemma bt_upsert_contents:
  assumes c: "contents t h es" and h: "h < 128"
  shows "outcome t h (bt_upsert t key val) (put_entry key (RInline val) es)"
proof -
  obtain fs p les lo hi n where l: "find_leaf t key = Some (Inr p)" "leaf_at t fs p les lo hi h" "lo \<le> key" "below key hi"
    "es = pre fs @ les @ post fs" "key \<in> keys_of es \<longleftrightarrow> key \<in> keys_of les" "tree_node t p = Some n" "leaf_page n les"
    by (rule leaf_of_key [OF c h])
  note srt = leaf_at_sorted [OF l(2)]
  note ex = existing_index_leaf [OF l(7,8) srt, of key]
  show ?thesis
  proof (cases "key \<in> keys_of les")
    case False
    then have "position (\<lambda>e. fst e = key) les = None" by (auto simp: position_None keys_of_def)
    then have "bt_upsert t key val = bt_insert t key val" using ex l(1) by (simp add: bt_upsert_def)
    then show ?thesis using bt_insert_contents(2) [OF c h] False l(6) by simp
  next
    case True
    then obtain i where i: "position (\<lambda>e. fst e = key) les = Some i" "i < length les" "fst (les ! i) = key" by (rule present_position)
    have v: "node_value n i = Some (Some (snd (les ! i)))" by (rule leaf_search(2) [OF l(8) srt i(2)])
    show ?thesis
    proof (cases "\<exists>old. les ! i = (key, RInline old) \<and> length old = length val")
      case True
      then obtain old where old: "les ! i = (key, RInline old)" "length val = length old" by auto
      from replace_value_page [OF l(8) srt i(2) old]
      obtain n' where n': "replace_value n i val = Some (Inr (), n')" "leaf_page n' (put_entry key (RInline val) les)" by blast
      have "bt_upsert t key val = Some (Inr (), store_node t p n')"
        using ex i(1) v old l(1,7) node_try_eq(1) [OF l(7), of "\<lambda>n. replace_value n i val"] n'(1) by (simp add: bt_upsert_def same_size_inline_def)
      then show ?thesis using outcome_store_put [OF l(2-4) n'(2)] by (simp add: l(5))
    next
      case False
      have same: "same_size_inline t p i (length val) = Some False"
        using False v l(7) i(3) by (auto simp: same_size_inline_def prod_eq_iff split: value_ref.split)
      then show ?thesis
        using outcome_rollback [OF replace_resized_tree [OF l(2-4) i(2,3)] untouched_refl] ex i(1) l(1,7) by (simp add: bt_upsert_def l(5))
    qed
  qed
qed

lemma removal_blob:
  assumes page: "leaf_page n les" and srt: "sorted_wrt (<) (map fst les)" and i: "i < length les" "fst (les ! i) = key"
  obtains n' where "remove_entry n i = Some (Inr (), n')" "leaf_page n' (others key les)"
proof -
  note d = leaf_pageD [OF page]
  have ic: "i < cnt n" using i d length_entries(1) [of n] by simp
  obtain n' where n': "remove_entry n i = Some (Inr (), n')" "rebuilt n n' (remove_nth i les)" using remove_entry_plain [of n i] d ic by auto
  have "distinct (map fst (take i les @ les ! i # drop (Suc i) les))"
    using srt id_take_nth_drop [OF i(1)] by (simp only: strict_sorted_iff)
  then have "key \<notin> keys_of (remove_nth i les)" using i(2) by (auto simp: remove_nth_def keys_of_def)
  then have "others key (remove_nth i les) = remove_nth i les" by (intro others_append) auto
  moreover have "others key (remove_nth i les) = others key les" using i by (intro filter_remove_nth) simp_all
  ultimately have "rebuilt n n' (others key les)" using n'(2) by simp
  then have "leaf_page n' (others key les)" by (rule leaf_page_rebuilt [OF page])
  then show thesis using that n'(1) by blast
qed

lemma bt_upsert_blob_contents:
  assumes c: "contents t h es" and h: "h < 128"
  shows "outcome t h (bt_upsert_blob t key ptr) (put_entry key (RBlob ptr) es)"
proof -
  obtain fs p les lo hi n where l: "find_leaf t key = Some (Inr p)" "leaf_at t fs p les lo hi h" "lo \<le> key" "below key hi"
    "es = pre fs @ les @ post fs" "key \<in> keys_of es \<longleftrightarrow> key \<in> keys_of les" "tree_node t p = Some n" "leaf_page n les"
    by (rule leaf_of_key [OF c h])
  note srt = leaf_at_sorted [OF l(2)]
  note ex = existing_index_leaf [OF l(7,8) srt, of key]
  show ?thesis
  proof (cases "key \<in> keys_of les")
    case False
    then have "position (\<lambda>e. fst e = key) les = None" by (auto simp: position_None keys_of_def)
    then show ?thesis using insert_blob_at_outcome [OF l(2-4) False, of ptr] ex l(1,5) by (simp add: bt_upsert_blob_def)
  next
    case True
    then obtain i where i: "position (\<lambda>e. fst e = key) les = Some i" "i < length les" "fst (les ! i) = key" by (rule present_position)
    obtain n' where n': "remove_entry n i = Some (Inr (), n')" "leaf_page n' (others key les)" by (rule removal_blob [OF l(8) srt i(2,3)])
    note rm = leaf_at_remove [OF l(2) n'(2) l(3,4)]
    have "node_try BInsertFailed t p (\<lambda>n. remove_entry n i) = Some (Inr (), store_node t p n')"
      using node_try_eq(1) [OF l(7), of "\<lambda>n. remove_entry n i"] n'(1) by simp
    then show ?thesis
      using outcome_rollback [OF pointer.insert_then_split [OF rm(1) l(3,4) others_keys, of "\<lambda>r t. (case r of Inr _ \<Rightarrow> Some (Inr (), t)
          | Inl e \<Rightarrow> if e = PageFull then split_and_insert_blob_leaf t p key ptr else Some (Inl (BInsertFailed e), t))" ptr] untouched_refl] ex i(1) l(1)
      by (simp add: bt_upsert_blob_def split_and_insert_blob_leaf_def rm(2) l(5))
  qed
qed

end
