(* ===== verification/Tree_Machine.thy ===== *)
theory Tree_Machine
  imports Tree_Refinement
begin

text \<open>
  The tree as a state machine: a fresh tree and any sequence of its mutations, simulated by a map from keys to
  values. Failed mutations are steps too; they leave the map as it was.
\<close>

section \<open>Trees deeper than the routing bound\<close>

lemma find_leaf_from_deep:
  assumes "rep t s" and "bst h lo hi s" and "lo \<le> key" and "below key hi" and "below lo hi" and "128 \<le> d + h"
  shows "find_leaf_from t key (rid s) d = Some (Inl (BCorruption DescentCycle))"
  using assms
proof (induction h arbitrary: s lo hi d)
  case 0
  then show ?case by (subst find_leaf_from.simps) (simp add: MAX_ROUTING_DEPTH_def)
next
  case (Suc h)
  then obtain p ks cs where s: "s = SN p ks cs" "bsts h lo hi ks cs" by (cases s) auto
  obtain cs1 cs2 c lo' hi' where f: "cs = cs1 @ c # cs2" "below lo' hi'" "bst h lo' hi' c" "lo' \<le> key" "below key hi'"
    "upper_bound_keys ks key = length cs1"
    using focus_key [OF s(2) Suc.prems(3-5)] by blast
  obtain n where n: "tree_node t p = Some n" "inner_page n ks (map rid cs)" using Suc.prems(1) s(1) by auto
  have "map rid cs ! upper_bound_keys ks key = rid c" by (simp add: f(1,6) nth_append)
  then have step: "find_leaf_from t key (rid s) d = find_leaf_from t key (rid c) (d + 1)" if "d < 128"
    using that n inner_pageD [OF n(2)] inner_page_route [OF n(2), of key]
    by (subst find_leaf_from.simps) (simp add: s(1) MAX_ROUTING_DEPTH_def page_simps)
  have "rep t c" using Suc.prems(1) by (simp add: s(1) f(1))
  from Suc.IH [OF this f(3-5,2), of "d + 1"] Suc.prems(6) step show ?case
    by (cases "d < 128") (simp, subst find_leaf_from.simps, simp add: MAX_ROUTING_DEPTH_def)
qed

lemma find_leaf_deep:
  assumes "contents t h es" and "128 \<le> h"
  shows "find_leaf t key = Some (Inl (BCorruption DescentCycle))"
proof -
  obtain s where "rep t s" "bst h [] None s" "bt_root t = rid s" using assms(1) by (auto simp: contents_def tree_of_def)
  then show ?thesis using find_leaf_from_deep [of t s h "[]" None key 0] assms(2) by (simp add: find_leaf_def)
qed

lemma bt_lookup_contents:
  assumes "contents t h es"
  shows "bt_lookup t key = Some (if h < 128 then Inr (case map_of es key of None \<Rightarrow> NotFound | Some v \<Rightarrow> lookup_of v)
    else Inl (BCorruption DescentCycle))"
proof (cases "h < 128")
  case True
  obtain s where "tree_of t s h" "ents s = es" using assms by (auto simp: contents_def)
  then show ?thesis using bt_lookup_tree [of t s h key] True by (simp add: lookup_spec_def)
next
  case False
  then show ?thesis using find_leaf_deep [OF assms, of key] by (simp add: bt_lookup_def)
qed

section \<open>Steps\<close>

datatype tree_call = CallInsert bytes bytes | CallUpsert bytes bytes | CallDelete bytes | CallInsertBlob bytes blob_pointer | CallUpsertBlob bytes blob_pointer

fun call_op :: "tree_call \<Rightarrow> btree \<Rightarrow> unit tree_op" where
  "call_op (CallInsert key val) t = bt_insert t key val"
| "call_op (CallUpsert key val) t = bt_upsert t key val"
| "call_op (CallDelete key) t = and_then (bt_delete t key) (\<lambda>_ t. Some (Inr (), t))"
| "call_op (CallInsertBlob key ptr) t = bt_insert_blob t key ptr"
| "call_op (CallUpsertBlob key ptr) t = bt_upsert_blob t key ptr"

text \<open>What a call that succeeds does to the map of the entries.\<close>

fun call_map :: "tree_call \<Rightarrow> (bytes \<rightharpoonup> value_ref) \<Rightarrow> (bytes \<rightharpoonup> value_ref)" where
  "call_map (CallInsert key val) m = m(key \<mapsto> RInline val)"
| "call_map (CallUpsert key val) m = m(key \<mapsto> RInline val)"
| "call_map (CallDelete key) m = (if m key = None then m else m(key \<mapsto> RTombstone))"
| "call_map (CallInsertBlob key ptr) m = m(key \<mapsto> RBlob ptr)"
| "call_map (CallUpsertBlob key ptr) m = m(key \<mapsto> RBlob ptr)"

inductive tree_run :: "btree \<Rightarrow> (bytes \<rightharpoonup> value_ref) \<Rightarrow> bool" where
  new: "bt_new = Some t \<Longrightarrow> tree_run t Map.empty"
| ok: "tree_run t m \<Longrightarrow> call_op c t = Some (Inr (), t') \<Longrightarrow> tree_run t' (call_map c m)"
| err: "tree_run t m \<Longrightarrow> call_op c t = Some (Inl e, t') \<Longrightarrow> tree_run t' m"

section \<open>Simulation\<close>

lemma bt_new_leaf:
  obtains t f where "bt_new = Some t" "bt_root t = 0" "\<And>p. tree_node t p = (if p = 0 then Some f else None)" "leaf_page f []" "free_of f = 4048"
    "bt_alloc t = pa_new" "length (bt_nodes t) = 1"
proof -
  obtain f where f: "node_new Leaf = Some f" by (simp add: node_new_eq)
  note b = blank_self [OF f]
  let ?t = "\<lparr>bt_nodes = [Some f], bt_root = 0, bt_dirty = {0}, bt_alloc = pa_new\<rparr>"
  have "leaf_page f []" using b blank_plain [OF b(1)] length_entries(1) [of f]
    by (auto simp: leaf_page_def good_page_def blank_for_def simp del: length_entries)
  moreover have "tree_node ?t p = (if p = 0 then Some f else None)" for p by (simp add: tree_node_def unat_eq_zero)
  ultimately show thesis using that [of ?t f] b(1) f by (simp add: bt_new_def new_leaf_def blank_for_def)
qed

lemma bt_new_contents:
  assumes "bt_new = Some t"
  shows "contents t 0 []"
proof -
  obtain f where f: "bt_root t = 0" "\<And>p. tree_node t p = (if p = 0 then Some f else None)" "leaf_page f []" "bt_alloc t = pa_new" "length (bt_nodes t) = 1"
    using bt_new_leaf assms by (metis option.inject)
  have "alloc_ok t" using pa_new_inv f(4,5) by (simp add: alloc_ok_def pa_new_def)
  then have "tree_of t (SL 0 []) 0" using f by (simp add: tree_of_def)
  then show ?thesis by (auto simp: contents_def)
qed

text \<open>An insertion into a tree whose root is a leaf with room.\<close>

lemma root_leaf_insert:
  assumes f: "tree_node t (bt_root t) = Some f" "leaf_page f es" and key: "key \<notin> keys_of es" "13 + length key + length val \<le> free_of f"
  shows "\<exists>n. bt_insert t key val = Some (Inr (), store_node t (bt_root t) n) \<and> leaf_page n (put_entry key (RInline val) es)"
proof -
  obtain n where n: "node_insert f key val = Some (Inr (), n)" "leaf_page n (put_entry key (RInline val) es)"
    using node_insert_page(3) [OF f(2) key(1), of val] key(2) by auto
  have "find_leaf t key = Some (Inr (bt_root t))"
    using f leaf_pageD [OF f(2)] by (simp add: find_leaf_def find_leaf_from.simps MAX_ROUTING_DEPTH_def page_simps)
  then show ?thesis using n node_mut_eq [OF f(1), of "\<lambda>n. node_insert n key val"] by (auto simp: bt_insert_def)
qed

text \<open>One step of the machine, from a tree that holds \<open>es\<close>.\<close>

definition steps_to :: "btree \<Rightarrow> unit tree_op \<Rightarrow> (bytes \<rightharpoonup> value_ref) \<Rightarrow> bool" where
  "steps_to t m f \<longleftrightarrow> (\<exists>r t'. m = Some (r, t') \<and> (case r of Inl _ \<Rightarrow> untouched t t' | Inr _ \<Rightarrow> \<exists>h' es'. contents t' h' es' \<and> map_of es' = f))"

lemma steps_to_outcome: "outcome t h m es' \<Longrightarrow> map_of es' = f \<Longrightarrow> steps_to t m f"
  unfolding outcome_def steps_to_def by (elim exE conjE, rename_tac r t', case_tac r) auto

lemma steps_to_Inl: "untouched t t' \<Longrightarrow> steps_to t (Some (Inl e, t')) f"
  by (simp add: steps_to_def)

lemma call_steps:
  assumes c: "contents t h es"
  shows "steps_to t (call_op c t) (call_map c (map_of es))"
proof (cases "h < 128")
  case False
  then have "find_leaf t key = Some (Inl (BCorruption DescentCycle))" for key using find_leaf_deep [OF c] by simp
  then show ?thesis by (cases c) (simp_all add: bt_insert_def bt_upsert_def bt_delete_def bt_insert_blob_def bt_upsert_blob_def steps_to_Inl)
next
  case True
  note put = map_of_put [OF contents_sorted [OF c]]
  show ?thesis
  proof (cases c)
    case (CallInsert key val)
    then show ?thesis using bt_insert_contents [OF c True, of key val] steps_to_outcome put steps_to_Inl by (cases "key \<in> keys_of es") fastforce+
  next
    case (CallUpsert key val)
    then show ?thesis using steps_to_outcome [OF bt_upsert_contents [OF c True] put] by simp
  next
    case (CallDelete key)
    show ?thesis
    proof (cases "map_of es key = None \<or> map_of es key = Some RTombstone")
      case True
      then obtain t' where "bt_delete t key = Some (Inr False, t')" "untouched t t'" using bt_delete_contents [OF c \<open>h < 128\<close>, of key] by auto
      then show ?thesis using contents_untouched [OF _ c] True CallDelete by (auto simp: steps_to_def intro!: exI [of _ h] exI [of _ es])
    next
      case False
      then obtain t' where "bt_delete t key = Some (Inr True, t')" "contents t' h (put_entry key RTombstone es)"
        using bt_delete_contents [OF c \<open>h < 128\<close>, of key] by (auto split: if_splits)
      then show ?thesis using put False CallDelete by (auto simp: steps_to_def intro!: exI [of _ h])
    qed
  next
    case (CallInsertBlob key ptr)
    then show ?thesis using bt_insert_blob_contents [OF c True, of key ptr] steps_to_outcome put steps_to_Inl by (cases "key \<in> keys_of es") fastforce+
  next
    case (CallUpsertBlob key ptr)
    then show ?thesis using steps_to_outcome [OF bt_upsert_blob_contents [OF c True] put] by simp
  qed
qed

lemma tree_run_contents: "tree_run t m \<Longrightarrow> \<exists>h es. contents t h es \<and> map_of es = m"
proof (induction rule: tree_run.induct)
  case (new t)
  then show ?case using bt_new_contents by fastforce
next
  case (ok t m c t')
  then obtain h es where "contents t h es" "map_of es = m" by blast
  then show ?case using call_steps [of t h es c] ok(2) by (simp add: steps_to_def)
next
  case (err t m c e t')
  then obtain h es where "contents t h es" "map_of es = m" by blast
  then show ?case using call_steps [of t h es c] err(2) contents_untouched [of t t' h es] by (auto simp: steps_to_def)
qed

end
