(* ===== verification/Tree_Dirty.thy ===== *)
theory Tree_Dirty
  imports Tree_Machine
begin

text \<open>
  Dirty tracking: whatever a sequence of mutations changes since the last \<open>clear_dirty\<close> is listed by
  \<open>dirty_page_ids\<close>. Nothing is assumed of the pages, so this holds of corrupt trees too.
\<close>

section \<open>States whose differences are dirty\<close>

definition tracked :: "btree \<Rightarrow> btree \<Rightarrow> bool" where
  "tracked t t' \<longleftrightarrow> bt_dirty t \<subseteq> bt_dirty t' \<and> (\<forall>p. tree_node t' p \<noteq> tree_node t p \<longrightarrow> p \<in> bt_dirty t')"

definition tracks :: "btree \<Rightarrow> 'a tree_op \<Rightarrow> bool" where
  "tracks t m \<longleftrightarrow> (\<forall>r t'. m = Some (r, t') \<longrightarrow> tracked t t')"

named_theorems tracking

lemma tracked_refl [simp]: "tracked t t"
  by (simp add: tracked_def)

lemma tracked_trans: "tracked t t1 \<Longrightarrow> tracked t1 t2 \<Longrightarrow> tracked t t2"
  unfolding tracked_def by (metis subset_eq)

lemma unat_page_eq: "unat (p :: page_id) = unat q \<longleftrightarrow> p = q"
  by (simp add: word_unat_eq_iff)

lemma tracked_store: "tracked t (store_node t p n)"
proof -
  have "tree_node (store_node t p n) q = tree_node t q" if "q \<noteq> p" for q
    using that unat_page_eq [of p q] by (auto simp: tree_node_def store_node_def nth_list_update)
  then show ?thesis by (auto simp: tracked_def store_node_def)
qed

lemma tracks_Some [tracking]: "tracked t t' \<Longrightarrow> tracks t (Some (r, t'))"
  by (simp add: tracks_def)

lemma tracks_None [tracking]: "tracks t None"
  by (simp add: tracks_def)

lemma tracks_and_then [tracking]: "tracks t m \<Longrightarrow> (\<And>a t'. tracks t' (f a t')) \<Longrightarrow> tracks t (and_then m f)"
  unfolding tracks_def and_then_def by (auto split: option.splits sum.splits Option.bind_splits intro: tracked_trans)

lemma tracks_bind_pair: "tracks t m \<Longrightarrow> (\<And>r t'. tracks t' (f r t')) \<Longrightarrow> tracks t (do { (r, t') \<leftarrow> m; f r t' })"
  unfolding tracks_def by (auto split: Option.bind_splits intro: tracked_trans)

lemma tracks_bind [tracking]: "(\<And>a. tracks t (f a)) \<Longrightarrow> tracks t (Option.bind m f)"
  by (cases m) (simp_all add: tracks_None)

lemma tracks_if [tracking]: "(b \<Longrightarrow> tracks t x) \<Longrightarrow> (\<not> b \<Longrightarrow> tracks t y) \<Longrightarrow> tracks t (if b then x else y)"
  by simp

section \<open>The operations\<close>

lemma tracks_node_mut [tracking]: "tracks t (node_mut t p change)"
  by (auto simp: node_mut_def tracks_def tracked_store split: option.splits Option.bind_splits)

lemma tracks_node_try [tracking]: "tracks t (node_try err t p change)"
  unfolding node_try_def by (intro tracks_and_then tracks_node_mut) (auto simp: tracks_def split: sum.splits)

lemma tracks_set_parent [tracking]: "tracks t (set_parent t p q)"
  unfolding set_parent_def by (rule tracks_node_mut)

lemma tree_node_grown:
  "bt_nodes t' = (grow (unat p) (bt_nodes t))[unat p := Some n] \<Longrightarrow> tree_node t' q = (if q = p then Some n else tree_node t q)"
  using unat_page_eq [of p q] by (auto simp: tree_node_def grow_def nth_append nth_list_update)

lemma tracks_alloc_node [tracking]: "tracks t (alloc_node t n)"
proof -
  have "tracked t (t\<lparr>bt_alloc := a\<rparr>)" for a by (simp add: tracked_def tree_node_def)
  moreover have "tracked t (t\<lparr>bt_alloc := a, bt_nodes := (grow (unat p) (bt_nodes t))[unat p := Some n], bt_dirty := insert p (bt_dirty t)\<rparr>)" for a p
    using tree_node_grown [of "t\<lparr>bt_alloc := a, bt_nodes := (grow (unat p) (bt_nodes t))[unat p := Some n], bt_dirty := insert p (bt_dirty t)\<rparr>" p t n]
    by (auto simp: tracked_def)
  ultimately show ?thesis by (auto simp: alloc_node_def tracks_def Let_def split: prod.splits option.splits)
qed

lemma tracks_create_new_root [tracking]: "tracks t (create_new_root t l k r)"
proof -
  have "tracked t (t\<lparr>bt_root := q\<rparr>)" for t q by (simp add: tracked_def)
  then show ?thesis unfolding create_new_root_def
    by (auto intro!: tracking tracked_refl split: sum.split prod.split)
qed

lemma tracks_set_children_parent [tracking]: "tracks t (set_children_parent t p cs)"
  by (induction cs arbitrary: t) (auto intro!: tracking split: option.split)

lemma tracks_set_direct_children_parent [tracking]: "tracks t (set_direct_children_parent t q p)"
  unfolding set_direct_children_parent_def by (auto intro!: tracking split: option.split sum.split)

lemma tracks_parent_or [tracking]: "tracks t (parent_or e p t)"
  unfolding parent_or_def by (auto intro!: tracking split: option.split sum.split)

lemma tracks_split_internal_page [tracking]: "tracks t (split_internal_page t p k c)"
  unfolding split_internal_page_def Let_def by (auto intro!: tracking split: prod.split)

text \<open>One round of the climb, over the call that follows it.\<close>

lemma tracks_climb:
  assumes rec: "\<And>t p k c. tracks t (rec t p k c)"
  shows "tracks t (do {
       (r, t1) \<leftarrow> node_mut t p (\<lambda>n. insert_child n k (ucast c));
       (case r of Inl e \<Rightarrow> Some (Inl e, t1) | Inr (Inl e) \<Rightarrow> if e = PageFull then do {
              (r2, t2) \<leftarrow> split_internal_page t1 p k c;
              (case r2 of Inl e2 \<Rightarrow> Some (Inl e2, t2) | Inr None \<Rightarrow> Some (Inr (), t2) | Inr (Some (p, k, c)) \<Rightarrow> rec t2 p k c) }
            else Some (Inl (BInsertFailed e), t1)
        | Inr (Inr _) \<Rightarrow> Some (Inr (), t1)) })"
  by (intro tracks_bind_pair tracks_node_mut)
    (auto intro!: tracks_bind_pair tracks_split_internal_page tracks_Some rec split: sum.split option.split)

lemma tracks_insert_into_internal [tracking]: "tracks t (insert_into_internal t p k c)"
  unfolding tracks_def
proof (intro allI impI)
  fix r t' assume "insert_into_internal t p k c = Some (r, t')"
  then have "tracked t (snd (r, t'))"
  proof (rule insert_into_internal.raw_induct [where P = "\<lambda>t p k c res. tracked t (snd res)", rotated])
    fix rec :: "btree \<Rightarrow> page_id \<Rightarrow> bytes \<Rightarrow> page_id \<Rightarrow> unit tree_op" and t p k c and res :: "(btree_error + unit) \<times> btree"
    assume "\<And>t p k c res. rec t p k c = Some res \<Longrightarrow> tracked t (snd res)"
    then have "tracks t (rec t p k c)" for t p k c by (force simp: tracks_def)
    note step = tracks_climb [of rec, OF this, of t p k c, unfolded tracks_def]
    assume "(do {
       (r, t1) \<leftarrow> node_mut t p (\<lambda>n. insert_child n k (ucast c));
       (case r of Inl e \<Rightarrow> Some (Inl e, t1) | Inr (Inl e) \<Rightarrow> if e = PageFull then do {
              (r2, t2) \<leftarrow> split_internal_page t1 p k c;
              (case r2 of Inl e2 \<Rightarrow> Some (Inl e2, t2) | Inr None \<Rightarrow> Some (Inr (), t2) | Inr (Some (p, k, c)) \<Rightarrow> rec t2 p k c) }
            else Some (Inl (BInsertFailed e), t1)
        | Inr (Inr _) \<Rightarrow> Some (Inr (), t1)) }) = Some res"
    then show "tracked t (snd res)" using step by (cases res) simp
  qed
  then show "tracked t t'" by simp
qed

lemma tracks_split_and_insert [tracking]: "tracks t (split_and_insert ins t p k)"
  unfolding split_and_insert_def Let_def by (auto intro!: tracking split: prod.split)

lemma tracks_replace_full_entry_with_split [tracking]: "tracks t (replace_full_entry_with_split t p i k v)"
  unfolding replace_full_entry_with_split_def split_and_insert_leaf_def by (auto intro!: tracking split: sum.split)

text \<open>A rollback to the current state, and to the state after a first change.\<close>

lemma tracks_rollback [tracking]: "tracks t m \<Longrightarrow> tracks t (rollback t m)"
proof -
  assume m: "tracks t m"
  have "tracked t (t'\<lparr>bt_nodes := bt_nodes t, bt_root := bt_root t, bt_dirty := bt_dirty t, bt_alloc := bt_alloc t\<rparr>)" for t'
    by (simp add: tracked_def tree_node_def)
  then show ?thesis using m unfolding tracks_def rollback_def
    by (auto split: Option.bind_splits sum.splits)
qed

lemma tracks_calls [tracking]:
  "tracks t (bt_insert t k v)" "tracks t (bt_upsert t k v)" "tracks t (bt_delete t k)" "tracks t (bt_insert_blob t k ptr)" "tracks t (bt_upsert_blob t k ptr)"
proof -
  show ins: "tracks t (bt_insert t k v)" for t k v
    unfolding bt_insert_def split_and_insert_leaf_def by (auto intro!: tracking split: sum.split insert_error.split)
  show "tracks t (bt_upsert t k v)"
    unfolding bt_upsert_def by (auto intro!: tracking ins split: sum.split option.split insert_error.split)
  show "tracks t (bt_delete t k)" unfolding bt_delete_def by (auto intro!: tracking split: sum.split)
  have blob: "tracks t (insert_blob_at t p k ptr)" for p
    unfolding insert_blob_at_def split_and_insert_blob_leaf_def by (auto intro!: tracking split: sum.split)
  show "tracks t (bt_insert_blob t k ptr)" unfolding bt_insert_blob_def by (auto intro!: tracking blob split: sum.split)
  show "tracks t (bt_upsert_blob t k ptr)"
    unfolding bt_upsert_blob_def split_and_insert_blob_leaf_def by (auto intro!: tracking blob split: sum.split option.split)
qed

lemma tracks_call_op: "tracks t (call_op c t)"
  by (cases c) (auto intro!: tracking)

section \<open>Sequences of calls\<close>

fun run_calls :: "tree_call list \<Rightarrow> btree \<Rightarrow> btree exec" where
  "run_calls [] t = Some t"
| "run_calls (c # cs) t = do { (r, t') \<leftarrow> call_op c t; run_calls cs t' }"

lemma tracked_run: "run_calls cs t = Some t' \<Longrightarrow> tracked t t'"
proof (induction cs arbitrary: t)
  case (Cons c cs)
  then obtain r t1 where "call_op c t = Some (r, t1)" "run_calls cs t1 = Some t'" by (auto split: Option.bind_splits)
  then show ?case using tracks_call_op [of t c] Cons.IH tracked_trans by (auto simp: tracks_def)
qed simp

lemma clear_dirty_simps [simp]: "tree_node (clear_dirty t) p = tree_node t p" "bt_root (clear_dirty t) = bt_root t"
  by (simp_all add: clear_dirty_def tree_node_def)

text \<open>C14. Dirty tracking is complete. Let the dirty set be cleared, as after a checkpoint, and let any sequence of
  inserts, upserts, deletes and blob writes run, some of which may fail and roll back. Every page that differs
  from the page at the time of the clearing, new pages included, is listed by \<open>dirty_page_ids\<close>. Nothing is
  assumed of the pages.\<close>

theorem dirty_tracking_complete:
  assumes "run_calls cs (clear_dirty t) = Some t'" and "tree_node t' p \<noteq> tree_node t p"
  shows "p \<in> set (dirty_page_ids t')"
  using tracked_run [OF assms(1)] assms(2) by (simp add: tracked_def dirty_page_ids_def)

theorem dirty_tracking_complete_witness:
  "\<exists>t t'. bt_new = Some t \<and> run_calls [CallInsert [1] [2]] (clear_dirty t) = Some t' \<and> tree_node t' 0 \<noteq> tree_node t 0 \<and> 0 \<in> set (dirty_page_ids t')"
proof -
  obtain t f where t: "bt_new = Some t" "bt_root t = 0" "\<And>p. tree_node t p = (if p = 0 then Some f else None)" "leaf_page f []" "free_of f = 4048"
    by (rule bt_new_leaf) blast
  let ?t = "clear_dirty t"
  have c: "bt_root ?t = 0" "tree_node ?t 0 = Some f" using t(2) t(3) [of 0] by simp_all
  obtain n where n: "bt_insert ?t [1] [2] = Some (Inr (), store_node ?t 0 n)" "leaf_page n (put_entry [1] (RInline [2]) [])"
    using root_leaf_insert [of ?t f "[]" "[1]" "[2]"] c t(4,5) by auto
  have "leaf_entries n \<noteq> leaf_entries f" using n(2) t(4) by (simp add: leaf_page_def put_entry_def insert_nth_def)
  then have d: "tree_node (store_node ?t 0 n) 0 \<noteq> tree_node t 0" using tree_node_store [OF c(2)] t(3) by auto
  have r: "run_calls [CallInsert [1] [2]] ?t = Some (store_node ?t 0 n)" using n(1) by simp
  show ?thesis using t(1) r d dirty_tracking_complete [OF r d] by blast
qed

end
