(* ===== verification/Tree_Leaf_Order.thy ===== *)
theory Tree_Leaf_Order
  imports Tree_Dirty
begin

text \<open>
  From leaf to leaf: on a well-formed tree the step to the next leaf finds the next leaf in key order, through the
  parent hints when they lead there and through a search from the root otherwise.
\<close>

section \<open>The next leaf of a shape\<close>

fun lml :: "stree \<Rightarrow> page_id" where
  "lml (SL p es) = p"
| "lml (SN p ks []) = p"
| "lml (SN p ks (c # cs)) = lml c"

fun next_of :: "path_frame list \<Rightarrow> page_id option" where
  "next_of [] = None"
| "next_of (Frame p ks1 cs1 ks2 [] # fs) = next_of fs"
| "next_of (Frame p ks1 cs1 ks2 (c # cs2) # fs) = Some (lml c)"

text \<open>The state holds a shape, whatever its keys and its allocator.\<close>

definition whole :: "btree \<Rightarrow> stree \<Rightarrow> bool" where
  "whole t s \<longleftrightarrow> rep t s \<and> distinct (ids s) \<and> bt_root t = rid s \<and> (\<forall>p. tree_node t p \<noteq> None \<longrightarrow> p \<in> set (ids s))"

lemma whole_tree: "tree_of t s h \<Longrightarrow> whole t s"
  by (simp add: tree_of_def whole_def)

lemma whole_frame:
  assumes "whole t (fill (Frame p ks1 cs1 ks2 cs2 # fs) c)"
  obtains n where "tree_node t p = Some n" "inner_page n (ks1 @ ks2) (map rid (cs1 @ c # cs2))" "cnt n = length cs1 + length cs2"
    "child_position n (rid c) = Some (Some (length cs1))" "\<And>x. x \<in> set (cs1 @ c # cs2) \<Longrightarrow> rep t x \<and> distinct (ids x)"
    "distinct (p # concat (map ids (cs1 @ c # cs2)))"
proof -
  have W: "rep t (fill fs (SN p (ks1 @ ks2) (cs1 @ c # cs2)))" "distinct (ids (fill fs (SN p (ks1 @ ks2) (cs1 @ c # cs2))))"
    using assms by (simp_all add: whole_def)
  have r: "rep t (SN p (ks1 @ ks2) (cs1 @ c # cs2))" by (rule rep_fill [OF W(1)])
  then obtain n where n: "tree_node t p = Some n" "inner_page n (ks1 @ ks2) (map rid (cs1 @ c # cs2))" by auto
  have "distinct (ids (SN p (ks1 @ ks2) (cs1 @ c # cs2)))" using W(2) unfolding ids_fill distinct_append by blast
  then have d: "distinct (p # concat (map ids (cs1 @ c # cs2)))" by (simp only: ids.simps)
  then have "rid c \<notin> \<Union> (set ` ids ` set cs1)" using rid_in_ids [of c] by auto
  then have "rid c \<noteq> rid x" if "x \<in> set cs1" for x using that rid_in_ids [of x] by force
  then have "position (\<lambda>x. x = rid c) (map rid (cs1 @ c # cs2)) = Some (length cs1)" by (induction cs1) force+
  moreover have "distinct (ids x)" if "x \<in> set (cs1 @ c # cs2)" for x
    using d that by (auto simp: distinct_concat_iff)
  ultimately show thesis using that [OF n] inner_pageD [OF n(2)] child_position_inner [OF n(2), of "rid c"] r d by auto
qed

section \<open>The leftmost leaf\<close>

lemma leftmost_leaf_shape:
  assumes "rep t s" and "distinct (ids s)" and "set (ids s) \<inter> visited = {}"
  shows "leftmost_leaf t visited (rid s) = Some (Inr (Some (lml s)))"
  using assms
proof (induction s arbitrary: visited rule: lml.induct)
  case (1 p es)
  then obtain n where n: "tree_node t p = Some n" "leaf_page n es" by auto
  then show ?case using 1 leaf_pageD [OF n(2)] by (subst leftmost_leaf.simps) (simp add: page_simps)
next
  case (2 p ks)
  then show ?case using inner_pageD by fastforce
next
  case (3 p ks c cs)
  then obtain n where n: "tree_node t p = Some n" "inner_page n ks (rid c # map rid cs)" by auto
  have "set (ids c) \<inter> insert p visited = {}" using 3(3,4) by auto
  moreover have "leftmost_child n = Some (ucast (rid c))" using inner_page_leftmost(1) [OF n(2)] by simp
  ultimately show ?case using 3 n(1) inner_pageD [OF n(2)] by (subst leftmost_leaf.simps) (simp add: page_simps)
qed

section \<open>The parent hints\<close>

lemma hint_referrer:
  assumes w: "whole t (fill fs c)" and p: "tree_node t p = Some n" "inner_page n ks cs" "rid c \<in> set cs"
  shows "\<exists>f fs'. fs = f # fs' \<and> p = fpid f"
proof -
  let ?s = "fill fs c"
  have W: "rep t ?s" "distinct (ids ?s)" "p \<in> set (ids ?s)" using w p(1) by (auto simp: whole_def)
  have "ucast (rid c) \<in> set (child_words n)" "nh_page_type (hdr n) = Internal" using p(2,3) by (auto simp: inner_page_def)
  then have e: "(p, rid c) \<in> set (edges ?s)" using word_edge [OF W(1,3) p(1)] by blast
  show ?thesis
  proof (cases fs)
    case Nil
    then show ?thesis using e distinct_edges [OF W(2)] by force
  next
    case (Cons f fs')
    have "(fpid f, rid c) \<in> set (edges (plug f c))" by (cases f) simp
    from edge_fill [OF this, of fs'] show ?thesis using edge_unique [OF W(2) e] Cons by simp
  qed
qed

lemma hint_root:
  assumes "whole t (fill fs c)" and "rid c = bt_root t"
  shows "fs = []"
proof (rule ccontr)
  assume fs: "fs \<noteq> []"
  then have "rid (fill fs c) \<in> set (cids fs)" using fpid_in_cids [of "last fs" fs] by (simp add: rid_fill)
  moreover have "distinct (ids c @ cids fs)" using assms(1) unfolding whole_def ids_fill by blast
  then have "rid c \<notin> set (cids fs)" unfolding distinct_append using rid_in_ids [of c] by blast
  ultimately show False using assms by (simp add: whole_def)
qed

text \<open>One round of the loop gives up, finds the next leaf, or goes on at the parent.\<close>

lemma hint_step:
  assumes w: "whole t (fill fs c)"
  shows "hint_loop t target hint visited (rid c) = Some None \<or> hint_loop t target hint visited (rid c) = Some (Some (next_of fs))
    \<or> (\<exists>f fs'. fs = f # fs' \<and> next_of fs = next_of fs' \<and>
        hint_loop t target hint visited (rid c) = hint_loop t target hint (insert (rid c) visited) (fpid f))"
proof (cases "rid c \<in> visited")
  case True
  then show ?thesis by (simp add: hint_loop.simps [of t target hint visited "rid c"])
next
  case False
  have "rep t c" using w by (auto simp: whole_def dest: rep_fill)
  then obtain n where n: "tree_node t (rid c) = Some n" "page_wf n"
    using rep_page [OF _ rid_in_ids, of t c] leaf_pageD inner_pageD by fastforce
  define pid where "pid = (if rid c = target then hint else nh_parent_id (hdr n))"
  have "(if rid c = target then Some (Some hint)
      else (case tree_node t (rid c) of None \<Rightarrow> Some None | Some n \<Rightarrow> do { p \<leftarrow> node_parent_id n; Some (Some p) })) = Some (Some pid)"
    using n by (simp add: pid_def page_simps)
  note step = hint_loop.simps [of t target hint visited "rid c", unfolded this try_option_def [of "Some (Some pid)"], simplified False]
  show ?thesis
  proof (cases "pid = 0 \<or> tree_node t pid = None")
    case True
    then show ?thesis using step hint_root [OF w] by (cases "pid = 0") auto
  next
    case False
    then obtain m where m: "pid \<noteq> 0" "tree_node t pid = Some m" by auto
    then have "pid \<in> set (ids (fill fs c))" "rep t (fill fs c)" using w by (auto simp: whole_def)
    then consider (leaf) es where "leaf_page m es" | (inner) ks cs where "inner_page m ks cs" using rep_page m(2) by fastforce
    then show ?thesis
    proof cases
      case leaf
      then show ?thesis using step m leaf_pageD [OF leaf] by (simp add: page_simps)
    next
      case inner
      note pos = child_position_inner [OF inner, of "rid c"] and d = inner_pageD [OF inner]
      show ?thesis
      proof (cases "rid c \<in> set cs")
        case False
        then have "position (\<lambda>x. x = rid c) cs = None" by (auto simp: position_None)
        then show ?thesis using step m d pos by (simp add: page_simps try_option_def)
      next
        case True
        then obtain f fs' where f: "fs = f # fs'" "pid = fpid f" using hint_referrer [OF w m(2) inner] by blast
        obtain p ks1 cs1 ks2 cs2 where fr: "f = Frame p ks1 cs1 ks2 cs2" by (cases f)
        have fw: "whole t (fill (Frame p ks1 cs1 ks2 cs2 # fs') c)" using w f(1) fr by simp
        obtain m' where m': "tree_node t p = Some m'" "inner_page m' (ks1 @ ks2) (map rid (cs1 @ c # cs2))" "cnt m' = length cs1 + length cs2"
          "child_position m' (rid c) = Some (Some (length cs1))" "\<And>x. x \<in> set (cs1 @ c # cs2) \<Longrightarrow> rep t x \<and> distinct (ids x)"
          by (rule whole_frame [OF fw]) blast
        have [simp]: "m' = m" using m m'(1) f fr by simp
        show ?thesis
        proof (cases cs2)
          case Nil
          then show ?thesis using step m d m'(3,4) f fr by (simp add: page_simps try_option_def)
        next
          case (Cons x cs2')
          have "leftmost_leaf_checked t (rid x) = Some (Inr (Some (lml x)))"
            using leftmost_leaf_shape [of t x "{}"] m'(5) [of x] Cons by (simp add: leftmost_leaf_checked_def)
          moreover have "child_id m (length cs1) = Some (Some (ucast (rid x)))"
            using inner_page_children [OF m'(2), of "length cs1"] inner_pageD [OF m'(2)] m'(3) Cons by (simp add: nth_append)
          ultimately show ?thesis using step m d m'(3,4) Cons f fr by (simp add: page_simps try_option_def)
        qed
      qed
    qed
  qed
qed

lemma hint_loop_shape:
  assumes "whole t (fill fs c)"
  shows "\<exists>r. hint_loop t target hint visited (rid c) = Some r \<and> (r = None \<or> r = Some (next_of fs))"
  using assms
proof (induction fs arbitrary: c visited)
  case Nil
  then show ?case using hint_step [of t "[]" c target hint visited] by auto
next
  case (Cons f fs)
  have "rid (plug f c) = fpid f" by (cases f) simp
  then show ?case using hint_step [OF Cons.prems, of target hint visited] Cons.IH [of "plug f c" "insert (rid c) visited"] Cons.prems by auto
qed

section \<open>The search from the root\<close>

lemma read_children_inner:
  "inner_page n ks cs \<Longrightarrow> set is \<subseteq> {..<length ks} \<Longrightarrow> read_children n is = Some (Inr (map (\<lambda>i. cs ! Suc i) is))"
  by (induction "is") (simp_all add: inner_page_children ok_or_def try_result_def)

lemma all_children_inner:
  assumes "inner_page n ks cs"
  shows "all_children n = Some (Inr cs)"
proof -
  note d = inner_pageD [OF assms]
  have cs: "cs = cs ! 0 # map (\<lambda>i. cs ! Suc i) [0..<length ks]" using d by (intro nth_equalityI) (auto simp: nth_Cons split: nat.split)
  have "all_children n = Some (Inr (cs ! 0 # map (\<lambda>i. cs ! Suc i) [0..<length ks]))"
    using d read_children_inner [OF assms, of "[0..<length ks]"] inner_page_leftmost(1) [OF assms]
    by (simp add: all_children_def atLeast0LessThan page_simps try_result_def)
  then show ?thesis by (simp only: cs [symmetric])
qed

lemma find_path_inner:
  assumes "p \<notin> active" and "tree_node t p = Some n" and "inner_page n ks cs"
  shows "find_path t target active p = find_path_in t target (insert p active) p (enumerate 0 cs)"
  using assms inner_pageD [OF assms(3)] all_children_inner [OF assms(3)] by (subst find_path.simps) (simp add: page_simps try_result_def)

lemma find_path_in_absent:
  assumes "\<And>c. c \<in> set cs \<Longrightarrow> find_path t target active c = Some (Inr None)"
  shows "find_path_in t target active p (enumerate k cs @ rest) = find_path_in t target active p rest"
  using assms by (induction cs arbitrary: k) (simp_all add: try_result_def)

lemma find_path_absent:
  assumes "rep t s" and "distinct (ids s)" and "set (ids s) \<inter> active = {}" and "target \<notin> set (ids s)"
  shows "find_path t target active (rid s) = Some (Inr None)"
  using assms
proof (induction s arbitrary: active)
  case (SL p es)
  then obtain n where n: "tree_node t p = Some n" "leaf_page n es" by auto
  then show ?case using SL leaf_pageD [OF n(2)] by (subst find_path.simps) (auto simp: page_simps)
next
  case (SN p ks cs)
  then obtain n where n: "tree_node t p = Some n" "inner_page n ks (map rid cs)" by auto
  have p: "p \<notin> active" using SN.prems(3) by simp
  have "find_path t target (insert p active) c = Some (Inr None)" if "c \<in> set (map rid cs)" for c
  proof -
    from that obtain x where x: "x \<in> set cs" "c = rid x" by auto
    have "distinct (ids x)" using SN.prems(2) x(1) by (auto simp: distinct_concat_iff)
    moreover have "set (ids x) \<inter> insert p active = {}" using SN.prems(2,3) x(1) by auto
    ultimately show ?thesis using SN.IH [OF x(1), of "insert p active"] SN.prems(1,4) x by auto
  qed
  from find_path_in_absent [of "map rid cs" t target "insert p active" p 0 "[]", OF this] show ?case using find_path_inner [OF p n] by simp
qed

text \<open>The steps of a path, outermost first.\<close>

fun fstep :: "path_frame \<Rightarrow> page_id \<times> nat" where
  "fstep (Frame p ks1 cs1 ks2 cs2) = (p, length cs1)"

lemma fill_snoc: "fill (fs @ [f]) c = plug f (fill fs c)"
  by (induction fs arbitrary: c) simp_all

lemma find_path_fill:
  assumes "rep t (fill fs (SL p es))" and "distinct (ids (fill fs (SL p es)))" and "set (ids (fill fs (SL p es))) \<inter> active = {}"
  shows "find_path t p active (rid (fill fs (SL p es))) = Some (Inr (Some (map fstep (rev fs))))"
  using assms
proof (induction fs arbitrary: active rule: rev_induct)
  case Nil
  then obtain n where n: "tree_node t p = Some n" "leaf_page n es" by auto
  then show ?case using Nil leaf_pageD [OF n(2)] by (subst find_path.simps) (simp add: page_simps)
next
  case (snoc f fs)
  obtain q ks1 cs1 ks2 cs2 where f: "f = Frame q ks1 cs1 ks2 cs2" by (cases f)
  let ?c = "fill fs (SL p es)"
  have s: "fill (fs @ [f]) (SL p es) = SN q (ks1 @ ks2) (cs1 @ ?c # cs2)" by (simp add: fill_snoc f)
  obtain n where n: "tree_node t q = Some n" "inner_page n (ks1 @ ks2) (map rid (cs1 @ ?c # cs2))" using snoc.prems(1) by (auto simp: s)
  have q: "q \<notin> active" "rep t ?c" using snoc.prems by (auto simp: s)
  have d: "distinct (q # concat (map ids (cs1 @ ?c # cs2)))" using snoc.prems(2) by (simp only: s ids.simps)
  have dis: "set (ids x) \<inter> insert q active = {}" "distinct (ids x)" if "x \<in> set (cs1 @ ?c # cs2)" for x
    using d snoc.prems(3) that by (auto simp: s distinct_concat_iff)
  have pc: "p \<in> set (ids ?c)" unfolding ids_fill by simp
  have "find_path t p (insert q active) c = Some (Inr None)" if "c \<in> set (map rid cs1)" for c
  proof -
    from that obtain x where x: "x \<in> set cs1" "c = rid x" by auto
    have "set (ids x) \<inter> set (ids ?c) = {}" using d x(1) by auto
    then show ?thesis using find_path_absent [of t x "insert q active" p] snoc.prems(1) dis [of x] pc x by (auto simp: s)
  qed
  note skip = find_path_in_absent [of "map rid cs1" t p "insert q active" q 0, OF this]
  have hit: "find_path t p (insert q active) (rid ?c) = Some (Inr (Some (map fstep (rev fs))))"
    using snoc.IH [OF q(2)] dis [of ?c] by simp
  show ?case unfolding s
    using find_path_inner [OF q(1) n, of p] skip hit by (simp add: f enumerate_append_eq try_result_def)
qed

lemma next_on_path_shape:
  assumes "whole t (fill fs c)"
  shows "next_on_path t (map fstep fs) = Some (Inr (next_of fs))"
  using assms
proof (induction fs arbitrary: c)
  case (Cons f fs)
  obtain p ks1 cs1 ks2 cs2 where f: "f = Frame p ks1 cs1 ks2 cs2" by (cases f)
  obtain n where n: "tree_node t p = Some n" "inner_page n (ks1 @ ks2) (map rid (cs1 @ c # cs2))" "cnt n = length cs1 + length cs2"
    "\<And>x. x \<in> set (cs1 @ c # cs2) \<Longrightarrow> rep t x \<and> distinct (ids x)"
    by (rule whole_frame [OF Cons.prems [unfolded f]]) blast
  note d = inner_pageD [OF n(2)]
  show ?case
  proof (cases cs2)
    case Nil
    then show ?thesis using Cons.IH [of "plug f c"] Cons.prems n(1,3) d by (simp add: f page_simps)
  next
    case (Cons x cs2')
    have "leftmost_leaf_checked t (rid x) = Some (Inr (Some (lml x)))"
      using leftmost_leaf_shape [of t x "{}"] n(4) [of x] Cons by (simp add: leftmost_leaf_checked_def)
    moreover have "child_id n (length cs1) = Some (Some (ucast (rid x)))"
      using inner_page_children [OF n(2), of "length cs1"] d n(3) Cons by (simp add: nth_append)
    ultimately show ?thesis using n(1,3) d by (simp add: f Cons page_simps ok_or_def try_result_def)
  qed
qed simp

section \<open>The step to the next leaf\<close>

lemma next_leaf_shape:
  assumes "whole t (fill fs (SL p es))"
  shows "next_leaf_checked t p hint = Some (Inr (next_of fs))"
proof -
  have W: "rep t (fill fs (SL p es))" "distinct (ids (fill fs (SL p es)))" "bt_root t = rid (fill fs (SL p es))" using assms by (auto simp: whole_def)
  obtain r where "next_leaf_from_parent_hint t p hint = Some r" "r = None \<or> r = Some (next_of fs)"
    using hint_loop_shape [OF assms, of p hint "{}"] by (auto simp: next_leaf_from_parent_hint_def)
  then show ?thesis
    using find_path_fill [OF W(1,2), of "{}"] next_on_path_shape [OF assms] W(3)
    by (auto simp: next_leaf_checked_def try_result_def rev_map)
qed

end
