(* ===== verification/Tree_Scan.thy ===== *)
theory Tree_Scan
  imports Tree_Leaf_Order
begin

text \<open>
  The range scan: on a well-formed tree a cursor returns the live entries of its range in key order, each once,
  and then ends.
\<close>

section \<open>Contexts of the next leaf\<close>

fun nleaves :: "stree \<Rightarrow> nat" where
  "nleaves (SL p es) = 1"
| "nleaves (SN p ks cs) = sum_list (map nleaves cs)"

fun left_after :: "path_frame list \<Rightarrow> nat" where
  "left_after [] = 0"
| "left_after (Frame p ks1 cs1 ks2 cs2 # fs) = sum_list (map nleaves cs2) + left_after fs"

lemma context_append:
  "fill (gs @ fs) c = fill fs (fill gs c)" "post (gs @ fs) = post gs @ post fs" "left_after (gs @ fs) = left_after gs + left_after fs"
proof -
  show "fill (gs @ fs) c = fill fs (fill gs c)" by (induction gs arbitrary: c) simp_all
  show "post (gs @ fs) = post gs @ post fs"
  proof (induction gs)
    case (Cons g gs)
    then show ?case by (cases g) simp
  qed simp
  show "left_after (gs @ fs) = left_after gs + left_after fs"
  proof (induction gs)
    case (Cons g gs)
    then show ?case by (cases g) simp
  qed simp
qed

lemma lml_focus:
  assumes "rep t c"
  shows "\<exists>gs es. c = fill gs (SL (lml c) es) \<and> es @ post gs = ents c \<and> nleaves c = Suc (left_after gs)"
  using assms
proof (induction c rule: lml.induct)
  case (1 p es)
  then show ?case by (intro exI [of _ "[]"] exI [of _ es]) simp
next
  case (2 p ks)
  then show ?case using inner_pageD by fastforce
next
  case (3 p ks c cs)
  then obtain gs es where g: "c = fill gs (SL (lml c) es)" "es @ post gs = ents c" "nleaves c = Suc (left_after gs)" by auto
  have "fill (gs @ [Frame p [] [] ks cs]) (SL (lml c) es) = SN p ks (c # cs)" using g(1) by (simp add: context_append)
  moreover have "es @ post (gs @ [Frame p [] [] ks cs]) = ents (SN p ks (c # cs))" using g(2) by (simp add: context_append)
  moreover have "nleaves (SN p ks (c # cs)) = Suc (left_after (gs @ [Frame p [] [] ks cs]))" using g(3) by (simp add: context_append)
  ultimately show ?case by (intro exI [of _ "gs @ [Frame p [] [] ks cs]"] exI [of _ es]) simp
qed

lemma next_context:
  assumes "rep t (fill fs c)"
  shows "case next_of fs of None \<Rightarrow> post fs = []
    | Some q \<Rightarrow> \<exists>fs' es'. fill fs c = fill fs' (SL q es') \<and> es' @ post fs' = post fs \<and> left_after fs' < left_after fs"
  using assms
proof (induction fs arbitrary: c rule: next_of.induct)
  case (2 p ks1 cs1 ks2 fs)
  from "2.IH" [of "SN p (ks1 @ ks2) (cs1 @ [c])"] "2.prems" show ?case by (cases "next_of fs") simp_all
next
  case (3 p ks1 cs1 ks2 x cs2 fs)
  have "rep t x" using rep_fill [of t fs "SN p (ks1 @ ks2) (cs1 @ c # x # cs2)"] 3 by simp
  then obtain gs es where g: "x = fill gs (SL (lml x) es)" "es @ post gs = ents x" "nleaves x = Suc (left_after gs)" using lml_focus by blast
  let ?f = "Frame p (ks1 @ ks2) (cs1 @ [c]) [] cs2"
  have "fill (gs @ ?f # fs) (SL (lml x) es) = fill (Frame p ks1 cs1 ks2 (x # cs2) # fs) c" using g(1) by (simp add: context_append)
  moreover have "es @ post (gs @ ?f # fs) = post (Frame p ks1 cs1 ks2 (x # cs2) # fs)" using g(2) by (simp add: context_append)
  moreover have "left_after (gs @ ?f # fs) < left_after (Frame p ks1 cs1 ks2 (x # cs2) # fs)" using g(3) by (simp add: context_append)
  ultimately show ?case by (simp only: next_of.simps option.case) metis
qed simp

section \<open>One step of the cursor\<close>

fun scan_from :: "bytes \<Rightarrow> bytes \<Rightarrow> (bytes \<times> value_ref) list \<Rightarrow> ((bytes \<times> lookup_result) \<times> (bytes \<times> value_ref) list) option" where
  "scan_from start stop [] = None"
| "scan_from start stop ((k, v) # rest) =
     (if k \<ge> stop then None
      else if v = RTombstone \<or> k < start then scan_from start stop rest
      else Some ((k, lookup_of v), rest))"

definition cursor_at :: "bytes \<Rightarrow> bytes \<Rightarrow> page_id \<Rightarrow> nat \<Rightarrow> cursor_state" where
  "cursor_at start stop p i = \<lparr>rc_start = start, rc_end = stop, rc_node = p, rc_index = i, rc_done = False\<rparr>"

text \<open>The cursor stands at the given remaining entries of a shape.\<close>

definition positioned :: "stree \<Rightarrow> bytes \<Rightarrow> bytes \<Rightarrow> cursor_state \<Rightarrow> (bytes \<times> value_ref) list \<Rightarrow> bool" where
  "positioned s start stop c rem \<longleftrightarrow> (\<exists>fs p es i. s = fill fs (SL p es) \<and> i \<le> length es \<and> c = cursor_at start stop p i \<and> rem = drop i es @ post fs)"

definition scanned :: "stree \<Rightarrow> bytes \<Rightarrow> bytes \<Rightarrow> (bytes \<times> value_ref) list \<Rightarrow> ((btree_error + bytes \<times> lookup_result) option \<times> cursor_state) exec \<Rightarrow> bool" where
  "scanned s start stop rem m \<longleftrightarrow> (case scan_from start stop rem of
      None \<Rightarrow> \<exists>c'. m = Some (None, c') \<and> rc_done c'
    | Some (e, rest) \<Rightarrow> \<exists>c'. m = Some (Some (Inr e), c') \<and> positioned s start stop c' rest)"

lemma leaf_strict:
  assumes "sorted_wrt (<) (map fst (ents (fill fs (SL p es))))"
  shows "sorted_wrt (<) (map fst es)"
  using assms by (simp add: ents_fill sorted_wrt_append)

text \<open>The loop on an entry, and at the end of a leaf.\<close>

lemma rc_loop_entry:
  assumes w: "whole t s" "s = fill fs (SL p es)" and srt: "sorted_wrt (<) (map fst es)" and i: "i < length es" "es ! i = (k, v)"
  shows "rc_loop t (cursor_at start stop p i) =
    (if k \<ge> stop then Some (None, (cursor_at start stop p i)\<lparr>rc_done := True\<rparr>)
     else if v = RTombstone \<or> k < start then rc_loop t (cursor_at start stop p (Suc i))
     else Some (Some (Inr (k, lookup_of v)), cursor_at start stop p (Suc i)))"
proof -
  have "rep t (SL p es)" using w by (auto simp: whole_def dest: rep_fill)
  then obtain n where n: "tree_node t p = Some n" "leaf_page n es" by auto
  note d = leaf_pageD [OF n(2)]
  have c: "cnt n = length es" using length_entries(1) [of n] d by simp
  have key: "node_key n j = Some (Some (fst (es ! j)))" if "j < length es" for j using node_key_eq [of n j] d that c by simp
  have val: "node_value n i = Some (Some v)" using leaf_search(2) [OF n(2) srt i(1)] i(2) by simp
  have prev: "fst (es ! (i - 1)) \<noteq> k" if "0 < i" using sorted_wrt_nth_less [OF srt, of "i - 1" i] that i by auto
  show ?thesis
    using n(1) d c key [of i] key [of "i - 1"] val prev i
    by (subst rc_loop.simps) (cases v; auto simp: cursor_at_def page_simps Let_def not_le)
qed

lemma rc_loop_end:
  assumes w: "whole t s" "s = fill fs (SL p es)"
  shows "rc_loop t (cursor_at start stop p (length es)) = (case next_of fs of
      None \<Rightarrow> Some (None, (cursor_at start stop p (length es))\<lparr>rc_done := True\<rparr>)
    | Some q \<Rightarrow> rc_loop t (cursor_at start stop q 0))"
proof -
  have "rep t (SL p es)" using w by (auto simp: whole_def dest: rep_fill)
  then obtain n where n: "tree_node t p = Some n" "leaf_page n es" by auto
  note d = leaf_pageD [OF n(2)]
  have c: "cnt n = length es" using length_entries(1) [of n] d by simp
  show ?thesis
    using n(1) d c next_leaf_shape [of t fs p es] w by (subst rc_loop.simps) (simp add: cursor_at_def page_simps split: option.split)
qed

lemma rc_loop_scans:
  assumes w: "whole t s" and srt: "sorted_wrt (<) (map fst (ents s))"
  shows "s = fill fs (SL p es) \<Longrightarrow> i \<le> length es \<Longrightarrow> scanned s start stop (drop i es @ post fs) (rc_loop t (cursor_at start stop p i))"
proof (induction "length (drop i es @ post fs) + left_after fs" arbitrary: fs p es i rule: less_induct)
  case less
  show ?case
  proof (cases "i < length es")
    case True
    obtain k v where kv: "es ! i = (k, v)" by (cases "es ! i")
    have rem: "drop i es @ post fs = (k, v) # drop (Suc i) es @ post fs" using True kv Cons_nth_drop_Suc [OF True] by simp
    have "sorted_wrt (<) (map fst es)" using srt leaf_strict less.prems(1) by blast
    note run = rc_loop_entry [OF w less.prems(1) this True kv, of start stop]
    have "scanned s start stop (drop (Suc i) es @ post fs) (rc_loop t (cursor_at start stop p (Suc i)))"
      using less.hyps [of "Suc i" es fs p] less.prems True rem by simp
    moreover have "positioned s start stop (cursor_at start stop p (Suc i)) (drop (Suc i) es @ post fs)"
      unfolding positioned_def using less.prems(1) True by (intro exI [of _ fs] exI [of _ p] exI [of _ es] exI [of _ "Suc i"]) simp
    ultimately show ?thesis unfolding rem run by (auto simp: scanned_def)
  next
    case False
    then have i: "i = length es" using less.prems(2) by simp
    note run = rc_loop_end [OF w less.prems(1), of start stop] and nx = next_context [of t fs "SL p es"]
    have r: "rep t (fill fs (SL p es))" using w less.prems(1) by (simp add: whole_def)
    show ?thesis
    proof (cases "next_of fs")
      case None
      then show ?thesis using run nx r i by (simp add: scanned_def)
    next
      case (Some q)
      then obtain fs' es' where f: "s = fill fs' (SL q es')" "es' @ post fs' = post fs" "left_after fs' < left_after fs"
        using nx r less.prems(1) by auto
      have "scanned s start stop (drop 0 es' @ post fs') (rc_loop t (cursor_at start stop q 0))"
        using f i less.prems by (intro less.hyps) auto
      then show ?thesis using run Some f(2) i by simp
    qed
  qed
qed

section \<open>The whole scan\<close>

text \<open>Calling \<open>next\<close> at most \<open>n\<close> times, and whether the iterator ended.\<close>

fun collect :: "nat \<Rightarrow> scan_state \<Rightarrow> ((btree_error + bytes \<times> lookup_result) list \<times> bool) exec" where
  "collect 0 s = Some ([], False)"
| "collect (Suc n) s = do {
     (r, s') \<leftarrow> rs_next s;
     (case r of None \<Rightarrow> Some ([], True) | Some x \<Rightarrow> do { (xs, ended) \<leftarrow> collect n s'; Some (x # xs, ended) })
   }"

text \<open>The entries of a range that are not deleted.\<close>

definition live :: "bytes \<Rightarrow> bytes \<Rightarrow> (bytes \<times> value_ref) list \<Rightarrow> (bytes \<times> lookup_result) list" where
  "live start stop es = map (\<lambda>(k, v). (k, lookup_of v)) (filter (\<lambda>(k, v). start \<le> k \<and> k < stop \<and> v \<noteq> RTombstone) es)"

lemma live_simps [simp]: "live start stop [] = []"
  "live start stop ((k, v) # es) = (if start \<le> k \<and> k < stop \<and> v \<noteq> RTombstone then [(k, lookup_of v)] else []) @ live start stop es"
  "live start stop (xs @ ys) = live start stop xs @ live start stop ys"
  by (simp_all add: live_def)

lemma live_outside: "(\<And>x. x \<in> keys_of es \<Longrightarrow> x < start \<or> stop \<le> x) \<Longrightarrow> live start stop es = []"
  by (fastforce simp: live_def filter_empty_conv keys_of_def)

lemma scan_from_live:
  assumes "sorted_wrt (<) (map fst rem)"
  shows "case scan_from start stop rem of None \<Rightarrow> live start stop rem = []
    | Some (e, rest) \<Rightarrow> live start stop rem = e # live start stop rest \<and> sorted_wrt (<) (map fst rest)"
  using assms
proof (induction start stop rem rule: scan_from.induct)
  case (2 start stop k v rest)
  have "live start stop rest = []" if "stop \<le> k"
  proof (rule live_outside)
    fix x assume "x \<in> keys_of rest"
    then have "k < x" using 2(2) by (auto simp: keys_of_def)
    then show "x < start \<or> stop \<le> x" using that by (meson less_imp_le order_trans)
  qed
  then show ?case using 2 by (auto simp: not_le not_less split: option.splits)
qed simp

lemma collect_positioned:
  assumes w: "whole t s" and srt: "sorted_wrt (<) (map fst (ents s))"
  shows "positioned s start stop c rem \<Longrightarrow> sorted_wrt (<) (map fst rem) \<Longrightarrow> length (live start stop rem) < n \<Longrightarrow>
    collect n \<lparr>rs_tree = t, rs_cursor = c\<rparr> = Some (map Inr (live start stop rem), True)"
proof (induction n arbitrary: c rem)
  case (Suc n)
  from Suc.prems(1) obtain fs p es i where c: "s = fill fs (SL p es)" "i \<le> length es" "c = cursor_at start stop p i" "rem = drop i es @ post fs"
    by (auto simp: positioned_def)
  have "scanned s start stop rem (rc_loop t c)" using rc_loop_scans [OF w srt c(1,2)] c(3,4) by simp
  moreover have "rs_next \<lparr>rs_tree = t, rs_cursor = c\<rparr> = do { (r, c') \<leftarrow> rc_loop t c; Some (r, \<lparr>rs_tree = t, rs_cursor = c'\<rparr>) }"
    by (simp add: rs_next_def rc_next_def c(3) cursor_at_def)
  ultimately show ?case
    using scan_from_live [OF Suc.prems(2), of start stop] Suc.IH Suc.prems(3) by (auto simp: scanned_def split: option.splits)
qed simp

lemma range_scan_live:
  assumes c: "contents t h es" and h: "h < 128" and n: "length (live start stop es) < n"
  shows "\<exists>s. range_scan t start stop = Some (Inr s) \<and> collect n s = Some (map Inr (live start stop es), True)"
proof -
  obtain fs p les lo hi m where l: "find_leaf t start = Some (Inr p)" "leaf_at t fs p les lo hi h" "lo \<le> start" "below start hi"
    "es = pre fs @ les @ post fs" "tree_node t p = Some m" "leaf_page m les"
    by (rule leaf_of_key [OF c h])
  let ?s = "fill fs (SL p les)" and ?i = "lower_bound (map fst les) start"
  have T: "tree_of t ?s h" "accepts fs 0 lo hi h" using l(2) by (simp_all add: leaf_at_def)
  note w = whole_tree [OF T(1)] and srt = leaf_at_sorted [OF l(2)]
  have es: "ents ?s = es" using l(5) by (simp add: ents_fill)
  have all: "sorted_wrt (<) (map fst es)" by (rule contents_sorted [OF c])
  have i: "?i \<le> length les" using sorted_lower_bound(1) [of "map fst les" start] srt by (simp add: strict_sorted_iff)
  have "node_search m start = Some (Inr ?i) \<or> node_search m start = Some (Inl ?i)"
    using leaf_search(1,3) [OF l(7) srt] by (auto split: option.splits)
  then have new: "range_scan t start stop = Some (Inr \<lparr>rs_tree = t, rs_cursor = cursor_at start stop p ?i\<rparr>)"
    using l(1,6) by (auto simp: range_scan_def rs_new_def rc_new_def cursor_at_def try_result_def)
  let ?rem = "drop ?i les @ post fs"
  have "x < start" if "x \<in> keys_of (pre fs @ take ?i les)" for x
  proof -
    consider "x \<in> keys_of (pre fs)" | j where "j < ?i" "x = map fst les ! j" using \<open>x \<in> _\<close> i by (auto simp: keys_of_def in_set_conv_nth)
    then show ?thesis
      using context_keys(1) [OF T(2)] l(3) sorted_lower_bound(2) [of "map fst les" _ start] srt by cases (auto simp: strict_sorted_iff intro: less_le_trans)
  qed
  then have "live start stop (pre fs @ take ?i les) = []" by (intro live_outside) blast
  moreover have split: "es = (pre fs @ take ?i les) @ ?rem" using l(5) by simp
  ultimately have live: "live start stop ?rem = live start stop es" by (metis append_Nil live_simps(3))
  have "sorted_wrt (<) (map fst (pre fs @ take ?i les) @ map fst ?rem)" using all by (simp only: split [symmetric] flip: map_append)
  then have "sorted_wrt (<) (map fst ?rem)" by (simp only: sorted_wrt_append)
  moreover have "positioned ?s start stop (cursor_at start stop p ?i) ?rem" unfolding positioned_def using i by blast
  ultimately show ?thesis using collect_positioned [OF w] all es n live new by simp
qed

end
