(* ===== verification/Tree_Properties.thy ===== *)
theory Tree_Properties
  imports Tree_Scan
begin

text \<open>
  What the tree promises its callers, stated over the operations of \<open>src/src/btree/tree.rs\<close> and the ordered list of
  entries that a well-formed tree holds.
\<close>

section \<open>A tree to apply the properties to\<close>

lemma sample_tree:
  "\<exists>t t1. bt_new = Some t \<and> contents t 0 [] \<and> bt_insert t [1] [2] = Some (Inr (), t1) \<and> contents t1 0 [([1], RInline [2])]
    \<and> tree_run t Map.empty \<and> tree_run t1 (Map.empty([1] \<mapsto> RInline [2]))"
proof -
  obtain t f where t: "bt_new = Some t" "bt_root t = 0" "\<And>p. tree_node t p = (if p = 0 then Some f else None)" "leaf_page f []" "free_of f = 4048"
    by (rule bt_new_leaf) blast
  note c = bt_new_contents [OF t(1)]
  obtain s where s: "tree_of t s 0" "ents s = []" using c by (auto simp: contents_def)
  then obtain es where es: "s = SL 0 es" using t(2) by (cases s) (auto simp: tree_of_def)
  then have at: "leaf_at t [] 0 [] [] None 0" using s by (simp add: leaf_at_def tree_of_def)
  obtain n where n: "bt_insert t [1] [2] = Some (Inr (), store_node t 0 n)" "leaf_page n (put_entry [1] (RInline [2]) [])"
    using root_leaf_insert [of t f "[]" "[1]" "[2]"] t by auto
  have "contents (store_node t 0 n) 0 (put_entry [1] (RInline [2]) ([] @ [] @ []))"
    using contents_store_put [OF at, of "[1]" n "RInline [2]"] n(2) by simp
  then have "contents (store_node t 0 n) 0 [([1], RInline [2])]" by (simp add: put_entry_def insert_nth_def lower_bound_def)
  moreover have r: "tree_run t Map.empty" by (rule tree_run.new [OF t(1)])
  moreover have "tree_run (store_node t 0 n) (Map.empty([1] \<mapsto> RInline [2]))"
    using tree_run.ok [OF r, of "CallInsert [1] [2]"] n(1) by simp
  ultimately show ?thesis using t(1) c n(1) by blast
qed

section \<open>Writes that fit\<close>

text \<open>The leaf of a key has room for a payload of the given length.\<close>

definition leaf_room :: "btree \<Rightarrow> bytes \<Rightarrow> nat \<Rightarrow> bool" where
  "leaf_room t key len \<longleftrightarrow> (\<exists>p n. find_leaf t key = Some (Inr p) \<and> tree_node t p = Some n \<and> 13 + length key + len \<le> free_of n)"

lemma leaf_room_page:
  fixes key :: bytes
  assumes c: "contents t h es" "h < 128" and room: "leaf_room t key len"
  obtains p les n where "find_leaf t key = Some (Inr p)" "tree_node t p = Some n" "leaf_page n les" "sorted_wrt (<) (map fst les)"
    "key \<in> keys_of es \<longleftrightarrow> key \<in> keys_of les" "13 + length key + len \<le> free_of n"
proof -
  obtain fs p les lo hi n where l: "find_leaf t key = Some (Inr p)" "leaf_at t fs p les lo hi h"
    "key \<in> keys_of es \<longleftrightarrow> key \<in> keys_of les" "tree_node t p = Some n" "leaf_page n les"
    by (rule leaf_of_key [OF c]) blast
  have "13 + length key + len \<le> free_of n" using room l(1,4) by (auto simp: leaf_room_def)
  then show thesis using that [OF l(1,4,5) leaf_at_sorted [OF l(2)] l(3)] by blast
qed

lemma bt_insert_room:
  assumes "contents t h es" and "h < 128" and "leaf_room t key (length val)" and "key \<notin> keys_of es"
  shows "\<exists>t'. bt_insert t key val = Some (Inr (), t')"
proof -
  obtain p les n where l: "find_leaf t key = Some (Inr p)" "tree_node t p = Some n" "leaf_page n les"
    "key \<in> keys_of es \<longleftrightarrow> key \<in> keys_of les" "13 + length key + length val \<le> free_of n"
    by (rule leaf_room_page [OF assms(1-3)]) blast
  obtain n' where "node_insert n key val = Some (Inr (), n')" using node_insert_page(3) [OF l(3), of key val] l(4,5) assms(4) by auto
  then show ?thesis using l(1) node_mut_eq [OF l(2), of "\<lambda>n. node_insert n key val"] by (simp add: bt_insert_def)
qed

lemma others_space: "leaf_page n les \<Longrightarrow> space (others key les) + free_of n \<le> 4048"
  using plain_space [of n] space_filter [of "\<lambda>e. fst e \<noteq> key" les] leaf_pageD [of n les] by (simp add: add.commute)

lemma bt_upsert_room:
  assumes "contents t h es" and "h < 128" and "leaf_room t key (length val)"
  shows "\<exists>t'. bt_upsert t key val = Some (Inr (), t')"
proof -
  obtain p les n where l: "find_leaf t key = Some (Inr p)" "tree_node t p = Some n" "leaf_page n les" "sorted_wrt (<) (map fst les)"
    "key \<in> keys_of es \<longleftrightarrow> key \<in> keys_of les" "13 + length key + length val \<le> free_of n"
    by (rule leaf_room_page [OF assms])
  note ex = existing_index_leaf [OF l(2-4), of key]
  show ?thesis
  proof (cases "key \<in> keys_of les")
    case False
    then have "position (\<lambda>e. fst e = key) les = None" by (auto simp: position_None keys_of_def)
    then show ?thesis using bt_insert_room [OF assms] ex False l(1,5) by (simp add: bt_upsert_def)
  next
    case True
    then obtain i where i: "position (\<lambda>e. fst e = key) les = Some i" "i < length les" "fst (les ! i) = key" by (rule present_position)
    have v: "node_value n i = Some (Some (snd (les ! i)))" by (rule leaf_search(2) [OF l(3,4) i(2)])
    show ?thesis
    proof (cases "\<exists>old. les ! i = (key, RInline old) \<and> length old = length val")
      case True
      then obtain old where old: "les ! i = (key, RInline old)" "length val = length old" by auto
      from replace_value_page [OF l(3,4) i(2) old] obtain n' where "replace_value n i val = Some (Inr (), n')" by blast
      then show ?thesis using ex i(1) v old l(1,2) node_try_eq(1) [OF l(2), of "\<lambda>n. replace_value n i val"]
        by (simp add: bt_upsert_def same_size_inline_def)
    next
      case False
      have same: "same_size_inline t p i (length val) = Some False"
        using False v l(2) i(3) by (auto simp: same_size_inline_def prod_eq_iff split: value_ref.split)
      have ic: "i < cnt n" "node_keys n ! i = key" "page_wf n" "nh_page_type (hdr n) = Leaf" "\<not> compressed n" "leaf_entries n = les"
        using i leaf_pageD [OF l(3)] length_entries(1) [of n] by simp_all
      have "5 + length key + length val + 8 + space (others key les) \<le> 4048" using others_space [OF l(3), of key] l(6) by linarith
      then obtain n' where "replace_value_resized n i val = Some (Inr (), n')"
        using replace_value_resized_spec [OF ic(3,4,1), of val] remove_entry_plain [OF ic(3-5,1)] unfolding ic(2,6) by auto
      then show ?thesis using node_mut_eq [OF l(2), of "\<lambda>n. replace_value_resized n i val"] same ex i(1) l(1,2)
        by (simp add: bt_upsert_def rollback_def)
    qed
  qed
qed

lemma bt_upsert_blob_room:
  assumes "contents t h es" and "h < 128" and "leaf_room t key 16"
  shows "\<exists>t'. bt_upsert_blob t key ptr = Some (Inr (), t')"
proof -
  obtain p les n where l: "find_leaf t key = Some (Inr p)" "tree_node t p = Some n" "leaf_page n les" "sorted_wrt (<) (map fst les)"
    "13 + length key + 16 \<le> free_of n"
    by (rule leaf_room_page [OF assms]) blast
  note ex = existing_index_leaf [OF l(2-4), of key]
  show ?thesis
  proof (cases "key \<in> keys_of les")
    case False
    then have "position (\<lambda>e. fst e = key) les = None" by (auto simp: position_None keys_of_def)
    moreover obtain n' where "insert_blob n key ptr = Some (Inr (), n')" using insert_blob_page(3) [OF l(3) False, of ptr] l(5) by auto
    ultimately show ?thesis using ex l(1) node_mut_eq [OF l(2), of "\<lambda>n. insert_blob n key ptr"] by (simp add: bt_upsert_blob_def insert_blob_at_def)
  next
    case True
    then obtain i where i: "position (\<lambda>e. fst e = key) les = Some i" "i < length les" "fst (les ! i) = key" by (rule present_position)
    have ic: "i < cnt n" "page_wf n" "nh_page_type (hdr n) = Leaf" "\<not> compressed n" "leaf_entries n = les"
      using i leaf_pageD [OF l(3)] length_entries(1) [of n] by simp_all
    obtain n1 where n1: "remove_entry n i = Some (Inr (), n1)" "leaf_page n1 (others key les)" by (rule removal_blob [OF l(3,4) i(2,3)])
    obtain n1' where "remove_entry n i = Some (Inr (), n1')" "rebuilt n n1' (remove_nth i les)" using remove_entry_plain [OF ic(2-4,1)] ic(5) by auto
    then have "rebuilt n n1 (remove_nth i les)" using n1(1) by simp
    then have "free_of n1 + space (remove_nth i les) = 4048" by (rule rebuilt_leaf(7))
    moreover have "space (remove_nth i les) \<le> space les" using space_remove_nth [OF i(2)] by linarith
    moreover have "space les + free_of n \<le> 4048" using plain_space [OF ic(2-4)] ic(5) by simp
    ultimately have "29 + length key \<le> free_of n1" using l(5) by linarith
    then obtain n2 where "insert_blob n1 key ptr = Some (Inr (), n2)" using insert_blob_page(3) [OF n1(2) others_keys, of ptr] by auto
    moreover have "tree_node (store_node t p n1) p = Some n1" using tree_node_store [OF l(2)] by simp
    ultimately show ?thesis
      using ex i(1) l(1) n1(1) node_try_eq(1) [OF l(2), of "\<lambda>n. remove_entry n i"] node_mut_eq [of "store_node t p n1" p n1 "\<lambda>n. insert_blob n key ptr"]
      by (simp add: bt_upsert_blob_def rollback_def)
  qed
qed

section \<open>Reads\<close>

text \<open>A lookup returns what the ordered list of entries says of the key: absent, the inline value, the blob
  pointer, or deleted. It always returns; on a tree deeper than the routing bound it reports a descent
  cycle.\<close>

theorem tree_lookup_correct:
  assumes "contents t h es"
  shows "bt_lookup t key = Some (if h < 128 then Inr (case map_of es key of None \<Rightarrow> NotFound | Some v \<Rightarrow> lookup_of v)
    else Inl (BCorruption DescentCycle))"
  by (rule bt_lookup_contents [OF assms])

theorem tree_lookup_correct_witness:
  "\<exists>t. contents t 0 [([1], RInline [2])] \<and> bt_lookup t [1] = Some (Inr (Found [2])) \<and> bt_lookup t [3] = Some (Inr NotFound)"
proof -
  obtain t where t: "contents t 0 [([1], RInline [2])]" using sample_tree by blast
  from t tree_lookup_correct [OF t, of "[1]"] tree_lookup_correct [OF t, of "[3]"] show ?thesis by auto
qed

text \<open>C7. A range scan over \<open>[start, stop)\<close> yields the live entries of the range in key order, each exactly once,
  without an error, and then ends: the iterator returns \<open>None\<close> after as many items as there are live
  entries. Parent hints may be stale; deleted keys are skipped.\<close>

theorem tree_range_scan_complete:
  assumes "contents t h es" and "h < 128"
    and "length (filter (\<lambda>(k, v). start \<le> k \<and> k < stop \<and> v \<noteq> RTombstone) es) < n"
  shows "\<exists>s. range_scan t start stop = Some (Inr s) \<and>
    collect n s = Some (map (\<lambda>(k, v). Inr (k, lookup_of v)) (filter (\<lambda>(k, v). start \<le> k \<and> k < stop \<and> v \<noteq> RTombstone) es), True)"
  using range_scan_live [OF assms(1,2), of start stop n] assms(3) by (simp add: live_def comp_def case_prod_unfold)

theorem tree_range_scan_complete_witness:
  "\<exists>t s. contents t 0 [([1], RInline [2])] \<and> range_scan t [0] [9] = Some (Inr s) \<and> collect 2 s = Some ([Inr ([1], Found [2])], True)"
proof -
  obtain t where t: "contents t 0 [([1], RInline [2])]" using sample_tree by blast
  from t tree_range_scan_complete [OF t, of "[0]" "[9]" 2] show ?thesis by auto
qed

section \<open>Mutations\<close>

text \<open>C5. \<open>insert\<close> refines insertion into the ordered list. It always returns. A key that is present, deleted keys
  included, is refused with \<open>DuplicateKey\<close>; otherwise the key is inserted at its place, whatever splits this
  takes and with at most one new level, or an error is returned. There is no error when the leaf of the key has
  room, and after every error the pages, the root and the allocator are as before.\<close>

theorem tree_insert_refines:
  assumes "contents t h es" and "h < 128"
  shows "if key \<in> fst ` set es then \<exists>t'. bt_insert t key val = Some (Inl BDuplicateKey, t') \<and> untouched t t'
    else \<exists>r t'. bt_insert t key val = Some (r, t') \<and> (leaf_room t key (length val) \<longrightarrow> r = Inr ()) \<and>
      (case r of Inr _ \<Rightarrow> \<exists>h' \<le> Suc h. contents t' h' (put_entry key (RInline val) es) | Inl e \<Rightarrow> untouched t t')"
proof (cases "key \<in> keys_of es")
  case True
  then show ?thesis using bt_insert_contents(1) [OF assms True, of val] by (simp add: keys_of_def)
next
  case False
  then show ?thesis using bt_insert_contents(2) [OF assms False, of val] bt_insert_room [OF assms _ False, of val]
    by (auto simp: outcome_def keys_of_def)
qed

theorem tree_insert_refines_witness:
  "\<exists>t t'. contents t 0 [([1], RInline [2])] \<and> bt_insert t [1] [3] = Some (Inl BDuplicateKey, t') \<and> untouched t t'"
proof -
  obtain t where t: "contents t 0 [([1], RInline [2])]" using sample_tree by blast
  from t tree_insert_refines [OF t, of "[1]" "[3]"] show ?thesis by auto
qed

text \<open>C9. \<open>upsert\<close> refines replacement in the ordered list: in place, resized on the page, or with a split, the
  entry of the key ends up with the new value and every other entry is kept. It succeeds when the leaf of the
  key has room for the new entry, and when it returns an error the pages, the root and the allocator are as
  before.\<close>

theorem tree_upsert_refines:
  assumes "contents t h es" and "h < 128"
  shows "\<exists>r t'. bt_upsert t key val = Some (r, t') \<and> (leaf_room t key (length val) \<longrightarrow> r = Inr ()) \<and>
    (case r of Inr _ \<Rightarrow> \<exists>h' \<le> Suc h. contents t' h' (put_entry key (RInline val) es) | Inl e \<Rightarrow> untouched t t')"
  using bt_upsert_contents [OF assms, of key val] bt_upsert_room [OF assms, of key val] by (auto simp: outcome_def)

theorem tree_upsert_refines_witness:
  "\<exists>t r t'. contents t 0 [([1], RInline [2])] \<and> bt_upsert t [1] [3] = Some (r, t') \<and>
    (case r of Inr _ \<Rightarrow> \<exists>h' \<le> Suc 0. contents t' h' (put_entry [1] (RInline [3]) [([1], RInline [2])]) | Inl e \<Rightarrow> untouched t t')"
proof -
  obtain t where t: "contents t 0 [([1], RInline [2])]" using sample_tree by blast
  from t tree_upsert_refines [OF t, of "[1]" "[3]"] show ?thesis by auto
qed

text \<open>C13. \<open>delete\<close> never fails on a well-formed tree of routable depth. It returns true and leaves a tombstone when
  the key has a value or a blob pointer, and returns false and changes no page when the key is absent or
  already deleted.\<close>

theorem tree_delete_exact:
  assumes "contents t h es" and "h < 128"
  shows "\<exists>t'. case map_of es key of
      Some (RInline v) \<Rightarrow> bt_delete t key = Some (Inr True, t') \<and> contents t' h (put_entry key RTombstone es)
    | Some (RBlob p) \<Rightarrow> bt_delete t key = Some (Inr True, t') \<and> contents t' h (put_entry key RTombstone es)
    | Some RTombstone \<Rightarrow> bt_delete t key = Some (Inr False, t') \<and> untouched t t'
    | None \<Rightarrow> bt_delete t key = Some (Inr False, t') \<and> untouched t t'"
proof (cases "map_of es key")
  case None
  then show ?thesis using bt_delete_contents [OF assms, of key] by simp
next
  case (Some v)
  then show ?thesis using bt_delete_contents [OF assms, of key] by (cases v) simp_all
qed

theorem tree_delete_exact_witness:
  "\<exists>t t'. contents t 0 [([1], RInline [2])] \<and> bt_delete t [1] = Some (Inr True, t') \<and> contents t' 0 (put_entry [1] RTombstone [([1], RInline [2])])"
proof -
  obtain t where t: "contents t 0 [([1], RInline [2])]" using sample_tree by blast
  from t tree_delete_exact [OF t, of "[1]"] show ?thesis by auto
qed

text \<open>\<open>upsert_blob\<close> refines replacement by a blob pointer: it succeeds when the leaf of the key
  has room for the pointer, and every error leaves the tree as before.\<close>

theorem tree_upsert_blob_refines:
  assumes "contents t h es" and "h < 128"
  shows "\<exists>r t'. bt_upsert_blob t key ptr = Some (r, t') \<and> (leaf_room t key 16 \<longrightarrow> r = Inr ()) \<and>
    (case r of Inr _ \<Rightarrow> \<exists>h' \<le> Suc h. contents t' h' (put_entry key (RBlob ptr) es) | Inl e \<Rightarrow> untouched t t')"
  using bt_upsert_blob_contents [OF assms, of key ptr] bt_upsert_blob_room [OF assms, of key ptr] by (auto simp: outcome_def)

theorem tree_upsert_blob_refines_witness:
  "\<exists>t r t'. contents t 0 [([1], RInline [2])] \<and> bt_upsert_blob t [1] \<lparr>bp_file_id = 1, bp_offset = 2, bp_length = 3\<rparr> = Some (r, t')"
proof -
  obtain t where t: "contents t 0 [([1], RInline [2])]" using sample_tree by blast
  from t tree_upsert_blob_refines [OF t, of "[1]" "\<lparr>bp_file_id = 1, bp_offset = 2, bp_length = 3\<rparr>"] show ?thesis by auto
qed

section \<open>Runs\<close>



text \<open>C11. Every mutation returns. On every tree that a run reaches, insert, upsert, delete and the blob writes end
  without a panic: the search for a parent and the climb of split propagation terminate, and when the result
  is an error the pages, the root and the allocator are as before.\<close>

theorem tree_mutation_returns:
  assumes "tree_run t m"
  shows "\<exists>r t'. call_op c t = Some (r, t') \<and> (\<forall>e. r = Inl e \<longrightarrow> untouched t t')"
proof -
  obtain h es where "contents t h es" using tree_run_contents [OF assms] by blast
  then obtain r t' where "call_op c t = Some (r, t')" "case r of Inl _ \<Rightarrow> untouched t t' | Inr _ \<Rightarrow> \<exists>h' es'. contents t' h' es' \<and> map_of es' = call_map c (map_of es)"
    using call_steps [of t h es c] unfolding steps_to_def by blast
  then show ?thesis by (cases r) auto
qed

theorem tree_mutation_returns_witness:
  "\<exists>t r t'. tree_run t Map.empty \<and> call_op (CallUpsert [1] [2]) t = Some (r, t')"
proof -
  obtain t where t: "tree_run t Map.empty" using sample_tree by blast
  from t tree_mutation_returns [OF t, of "CallUpsert [1] [2]"] show ?thesis by blast
qed

text \<open>C16. Pages that mutations leave behind can be written and read back. After any run every page of the tree, once
  its checksum is updated, passes the validation that the loader applies to the bytes of a page, and its
  checksum verifies.\<close>

theorem tree_pages_reload:
  assumes "tree_run t m" and "tree_node t p = Some n"
  shows "\<exists>n'. update_checksum crc combine n = Some n' \<and> node_from_bytes n' = Some (Some n') \<and> verify_checksum crc combine n' = Some True
    \<and> slots n' = slots n"
proof -
  obtain h es where "contents t h es" using tree_run_contents [OF assms(1)] by blast
  then have "good_pages t" using tree_of_good by (auto simp: contents_def)
  then have v: "page_valid n" using assms(2) by (simp add: good_pages_def good_page_def)
  obtain n' where n': "update_checksum crc combine n = Some n'" "verify_checksum crc combine n' = Some True" "page_valid n'" "slots n' = slots n"
    using update_checksum_valid [OF v, of crc combine] by blast
  have "length n' = 4096" using n'(3) by (simp add: page_valid_def)
  then show ?thesis using n' node_from_bytes_eq [of n'] by simp
qed

theorem tree_pages_reload_witness:
  "\<exists>t n n'. tree_run t Map.empty \<and> tree_node t 0 = Some n \<and> update_checksum (\<lambda>b. of_nat (length b)) (\<lambda>x y l. x + y) n = Some n'
    \<and> node_from_bytes n' = Some (Some n')"
proof -
  obtain t n where t: "bt_new = Some t" "bt_root t = 0" "\<And>p. tree_node t p = (if p = 0 then Some n else None)" "leaf_page n []"
    by (rule bt_new_leaf) blast
  have r: "tree_run t Map.empty" by (rule tree_run.new [OF t(1)])
  have n: "tree_node t 0 = Some n" using t(3) by simp
  from tree_pages_reload [OF r n, of "\<lambda>b. of_nat (length b)" "\<lambda>x y l. x + y"] r n show ?thesis by blast
qed

text \<open>C15. No page is shared or handed out twice. After any run the pages of the tree form a tree of uniform height:
  every loaded page is reached from the root by exactly one path, and no identifier on the allocator's free
  list belongs to a loaded page.\<close>

theorem tree_pages_exclusive:
  assumes "tree_run t m"
  shows "\<exists>s h. rep t s \<and> rid s = bt_root t \<and> bst h [] None s \<and> distinct (ids s) \<and> set (ids s) = {p. tree_node t p \<noteq> None}
    \<and> (\<forall>p. ucast p \<in> set (pa_free_list (bt_alloc t)) \<longrightarrow> tree_node t p = None)"
proof -
  obtain h s where "tree_of t s h" using tree_run_contents [OF assms] by (auto simp: contents_def)
  then show ?thesis using rep_loaded [of t s] by (intro exI [of _ s] exI [of _ h]) (auto simp: tree_of_def alloc_ok_def)
qed

theorem tree_pages_exclusive_witness:
  "\<exists>t s h. tree_run t (Map.empty([1] \<mapsto> RInline [2])) \<and> rep t s \<and> rid s = bt_root t \<and> bst h [] None s \<and> distinct (ids s)"
proof -
  obtain t where t: "tree_run t (Map.empty([1] \<mapsto> RInline [2]))" using sample_tree by blast
  from t tree_pages_exclusive [OF t] show ?thesis by blast
qed

end
