(* ===== verification/Buffer_Pool.thy ===== *)
theory Buffer_Pool
  imports Node_Page "HOL-Library.Mapping" "HOL-Library.AList_Mapping"
begin

text \<open>
  The buffer pool: \<open>src/src/buffer/types.rs\<close>, \<open>src/src/buffer/frame.rs\<close>, \<open>src/src/buffer/guard.rs\<close> and
  \<open>src/src/buffer/manager.rs\<close>. A frame holds one page image; the page map names the frame of a cached image;
  a clock hand chooses the frame to reuse.

  A guard holds a clone of its frame's \<open>Arc\<close> token, so the strong count of the token is one more than the
  number of live guards of the frame; the model counts the guards. The instant of the last access is never
  read by the source and is left out. The diagnostic counters are \<open>u64\<close> and wrap around; a decrement of the
  number of free frames below zero is a panic.
\<close>

section \<open>Identities, errors and statistics\<close>

datatype page_cache_key = PageCacheKey (logical_page_id: u64) (physical_version: u64)

text \<open>The order by which \<open>begin_writeback_all\<close> sorts: logical page first, then version.\<close>

instantiation page_cache_key :: linorder
begin

definition less_eq_page_cache_key :: "page_cache_key \<Rightarrow> page_cache_key \<Rightarrow> bool" where
  "less_eq_page_cache_key a b \<longleftrightarrow>
     logical_page_id a < logical_page_id b
     \<or> logical_page_id a = logical_page_id b \<and> physical_version a \<le> physical_version b"

definition less_page_cache_key :: "page_cache_key \<Rightarrow> page_cache_key \<Rightarrow> bool" where
  "less_page_cache_key a b \<longleftrightarrow>
     logical_page_id a < logical_page_id b
     \<or> logical_page_id a = logical_page_id b \<and> physical_version a < physical_version b"

instance
  by standard (auto simp: less_eq_page_cache_key_def less_page_cache_key_def page_cache_key.expand)

end

definition unversioned :: "u64 \<Rightarrow> page_cache_key" where
  "unversioned logical = PageCacheKey logical 0"

datatype buffer_error =
    EmptyPool
  | AllFramesPinned
  | DirtyPage u64
  | PinnedPage u64
  | ReadOnlyPage u64
  | StaleWriteback u64

record buffer_stats =
  st_total_frames :: nat
  st_free_frames :: nat
  st_pinned_frames :: nat
  st_dirty_frames :: nat
  st_reads :: u64
  st_writes :: u64
  st_hits :: u64
  st_writeback_requests :: u64
  st_writeback_refusals :: u64
  st_writeback_discards :: u64
  st_eviction_attempts :: u64
  st_eviction_refusals :: u64
  st_evictions :: u64

record writeback =
  wb_page_key :: page_cache_key
  wb_data :: bytes

section \<open>Frames\<close>

datatype frame_state = Free | Clean | Dirty

record frame =
  fr_data :: bytes
  fr_page_key :: "page_cache_key option"
  fr_state :: frame_state
  fr_pin_count :: u32
  fr_pinned :: bool
  fr_referenced :: bool
  fr_guards :: nat

definition new_empty :: frame where
  "new_empty = \<lparr>fr_data = replicate PAGE_SIZE 0, fr_page_key = None, fr_state = Free, fr_pin_count = 0,
     fr_pinned = False, fr_referenced = False, fr_guards = 0\<rparr>"

definition is_free :: "frame \<Rightarrow> bool" where "is_free f \<longleftrightarrow> fr_state f = Free"

definition is_dirty :: "frame \<Rightarrow> bool" where "is_dirty f \<longleftrightarrow> fr_state f = Dirty"

definition strong_count :: "frame \<Rightarrow> nat" where "strong_count f = 1 + fr_guards f"

definition is_pinned :: "frame \<Rightarrow> bool" where "is_pinned f \<longleftrightarrow> fr_pinned f \<or> strong_count f > 1"

definition frame_mark_clean :: "frame \<Rightarrow> frame" where "frame_mark_clean f = f\<lparr>fr_state := Clean\<rparr>"

definition frame_mark_dirty :: "frame \<Rightarrow> frame" where "frame_mark_dirty f = f\<lparr>fr_state := Dirty\<rparr>"

text \<open>An explicit pin; one more than \<open>u32::MAX\<close> pins is an arithmetic overflow.\<close>

definition frame_pin :: "frame \<Rightarrow> frame exec" where
  "frame_pin f = do {
     n \<leftarrow> checked_add_word (fr_pin_count f) 1;
     Some (f\<lparr>fr_pin_count := n, fr_pinned := True, fr_referenced := True\<rparr>)
   }"

definition acquire_guard :: "frame \<Rightarrow> frame" where
  "acquire_guard f = f\<lparr>fr_referenced := True, fr_guards := fr_guards f + 1\<rparr>"

definition frame_unpin :: "frame \<Rightarrow> frame" where
  "frame_unpin f =
     (let f = (if fr_pin_count f > 0 then f\<lparr>fr_pin_count := fr_pin_count f - 1\<rparr> else f)
      in if fr_pin_count f = 0 then f\<lparr>fr_pinned := False\<rparr> else f)"

definition frame_load :: "frame \<Rightarrow> page_cache_key \<Rightarrow> bytes \<Rightarrow> frame" where
  "frame_load f page_key data = f\<lparr>fr_page_key := Some page_key, fr_data := data, fr_state := Clean, fr_referenced := True\<rparr>"

definition frame_clear :: "frame \<Rightarrow> frame" where
  "frame_clear f = f\<lparr>fr_page_key := None, fr_state := Free, fr_pin_count := 0, fr_pinned := False,
     fr_data := replicate PAGE_SIZE 0\<rparr>"

section \<open>Guards\<close>

datatype guard_access = ReadAccess | WriteAccess

record page_guard =
  pg_frame_index :: nat
  pg_page_id :: u64
  pg_access :: guard_access

definition page_guard_new :: "nat \<Rightarrow> page_cache_key \<Rightarrow> guard_access \<Rightarrow> page_guard" where
  "page_guard_new frame_index page_key access =
     \<lparr>pg_frame_index = frame_index, pg_page_id = logical_page_id page_key, pg_access = access\<rparr>"

definition is_writable :: "page_guard \<Rightarrow> bool" where "is_writable g \<longleftrightarrow> pg_access g = WriteAccess"

section \<open>The manager\<close>

record buffer_manager =
  bm_frames :: "frame list"
  bm_page_map :: "(page_cache_key, nat) mapping"
  bm_clock_hand :: nat
  bm_stats :: buffer_stats
  bm_writeback_requests :: u64
  bm_writeback_refusals :: u64

type_synonym 'a pool_op = "((buffer_error + 'a) \<times> buffer_manager) exec"

text \<open>\<open>increment_counter\<close> saturates.\<close>

definition increment_counter :: "u64 \<Rightarrow> u64" where "increment_counter c = saturating_add_word c 1"

definition bm_new :: "nat \<Rightarrow> buffer_manager" where
  "bm_new capacity_bytes =
     (let num_frames = capacity_bytes div PAGE_SIZE
      in \<lparr>bm_frames = replicate num_frames new_empty, bm_page_map = Mapping.empty, bm_clock_hand = 0,
          bm_stats = \<lparr>st_total_frames = num_frames, st_free_frames = num_frames, st_pinned_frames = 0,
            st_dirty_frames = 0, st_reads = 0, st_writes = 0, st_hits = 0, st_writeback_requests = 0,
            st_writeback_refusals = 0, st_writeback_discards = 0, st_eviction_attempts = 0,
            st_eviction_refusals = 0, st_evictions = 0\<rparr>,
          bm_writeback_requests = 0, bm_writeback_refusals = 0\<rparr>)"

definition bm_capacity :: "buffer_manager \<Rightarrow> nat" where "bm_capacity b = length (bm_frames b)"

text \<open>\<open>frames[i]\<close> and a store through \<open>&mut frames[i]\<close>.\<close>

definition frame_at :: "buffer_manager \<Rightarrow> nat \<Rightarrow> frame exec" where
  "frame_at b i = (if i < length (bm_frames b) then Some (bm_frames b ! i) else None)"

definition set_frame :: "nat \<Rightarrow> frame \<Rightarrow> buffer_manager \<Rightarrow> buffer_manager" where
  "set_frame i f b = b\<lparr>bm_frames := (bm_frames b)[i := f]\<rparr>"

definition on_stats :: "(buffer_stats \<Rightarrow> buffer_stats) \<Rightarrow> buffer_manager \<Rightarrow> buffer_manager" where
  "on_stats f b = b\<lparr>bm_stats := f (bm_stats b)\<rparr>"

definition refuse_writeback :: "buffer_manager \<Rightarrow> buffer_manager" where
  "refuse_writeback b = b\<lparr>bm_writeback_refusals := increment_counter (bm_writeback_refusals b)\<rparr>"

definition is_resident_key :: "buffer_manager \<Rightarrow> page_cache_key \<Rightarrow> bool exec" where
  "is_resident_key b page_key =
     (case Mapping.lookup (bm_page_map b) page_key of
        None \<Rightarrow> Some False
      | Some frame_idx \<Rightarrow> do { frame \<leftarrow> frame_at b frame_idx; Some (\<not> is_free frame) })"

definition rekey :: "buffer_manager \<Rightarrow> page_cache_key \<Rightarrow> page_cache_key \<Rightarrow> buffer_manager exec" where
  "rekey b from to =
     (if from = to then Some b
      else (case Mapping.lookup (bm_page_map b) from of
        None \<Rightarrow> Some b
      | Some frame_idx \<Rightarrow>
          (let removed = Mapping.delete from (bm_page_map b)
           in if Mapping.lookup removed to \<noteq> None then Some (b\<lparr>bm_page_map := Mapping.update from frame_idx removed\<rparr>)
              else do {
                frame \<leftarrow> frame_at b frame_idx;
                Some ((set_frame frame_idx (frame\<lparr>fr_page_key := Some to\<rparr>) b)
                  \<lparr>bm_page_map := Mapping.update to frame_idx removed\<rparr>)
              })))"

definition pool_stats :: "buffer_manager \<Rightarrow> buffer_stats" where
  "pool_stats b = (bm_stats b)
     \<lparr>st_free_frames := length (filter is_free (bm_frames b)),
      st_pinned_frames := length (filter is_pinned (bm_frames b)),
      st_dirty_frames := length (filter is_dirty (bm_frames b)),
      st_writeback_requests := bm_writeback_requests b,
      st_writeback_refusals := bm_writeback_refusals b\<rparr>"

section \<open>The runtime check\<close>

datatype pool_violation =
    TotalFramesMismatch
  | ClockHandOutside
  | KeyOutsidePool page_cache_key nat
  | FrameShared nat
  | KeyOfFreeFrame page_cache_key nat
  | FrameKeyMismatch nat
  | FreeFramesMismatch
  | FreeFrameRetains nat
  | ResidentWithoutKey nat
  | PinMetadata nat

text \<open>The loop over the page map. The source visits the entries in the order of its hash map; the model
  visits them in key order, which decides only which violation is reported first.\<close>

fun validate_map :: "frame list \<Rightarrow> (page_cache_key \<times> nat) list \<Rightarrow> bool list \<Rightarrow> pool_violation + bool list" where
  "validate_map frames [] mapped = Inr mapped"
| "validate_map frames ((page_key, i) # rest) mapped =
     (if \<not> i < length frames then Inl (KeyOutsidePool page_key i)
      else if mapped ! i then Inl (FrameShared i)
      else if is_free (frames ! i) then Inl (KeyOfFreeFrame page_key i)
      else if fr_page_key (frames ! i) \<noteq> Some page_key then Inl (FrameKeyMismatch i)
      else validate_map frames rest (mapped[i := True]))"

fun validate_frames :: "(nat \<times> frame) list \<Rightarrow> pool_violation + unit" where
  "validate_frames [] = Inr ()"
| "validate_frames ((i, f) # rest) =
     (if is_free f then
        if fr_page_key f \<noteq> None \<or> fr_pin_count f \<noteq> 0 \<or> fr_pinned f then Inl (FreeFrameRetains i)
        else validate_frames rest
      else if fr_page_key f = None then Inl (ResidentWithoutKey i)
      else if fr_pinned f \<noteq> (fr_pin_count f \<noteq> 0) then Inl (PinMetadata i)
      else validate_frames rest)"

definition page_map_entries :: "buffer_manager \<Rightarrow> (page_cache_key \<times> nat) list" where
  "page_map_entries b = Mapping.ordered_entries (bm_page_map b)"

definition validate_invariants :: "buffer_manager \<Rightarrow> pool_violation + unit" where
  "validate_invariants b =
     (let frames = bm_frames b
      in if st_total_frames (bm_stats b) \<noteq> length frames then Inl TotalFramesMismatch
         else if frames \<noteq> [] \<and> bm_clock_hand b \<ge> length frames then Inl ClockHandOutside
         else (case validate_map frames (page_map_entries b) (replicate (length frames) False) of
             Inl e \<Rightarrow> Inl e
           | Inr mapped \<Rightarrow>
               if length (filter (\<lambda>(i, f). is_free f \<and> \<not> mapped ! i) (enumerate 0 frames)) \<noteq> st_free_frames (bm_stats b)
               then Inl FreeFramesMismatch
               else validate_frames (enumerate 0 frames)))"

section \<open>Eviction\<close>

text \<open>The loop of \<open>clock_evict\<close>, with the number of turns left and the first dirty candidate seen. A pinned
  frame is passed over, a referenced one loses its reference bit, a dirty one is remembered, and a clean one
  is the victim.\<close>

fun clock_loop :: "nat \<Rightarrow> page_cache_key option \<Rightarrow> buffer_manager \<Rightarrow> nat pool_op" where
  "clock_loop 0 dirty_page b =
     Some (Inl (case dirty_page of Some page_key \<Rightarrow> DirtyPage (logical_page_id page_key) | None \<Rightarrow> AllFramesPinned), b)"
| "clock_loop (Suc turns) dirty_page b0 = do {
     let idx = bm_clock_hand b0;
     let b = b0\<lparr>bm_clock_hand := (bm_clock_hand b0 + 1) mod length (bm_frames b0)\<rparr>;
     frame \<leftarrow> frame_at b idx;
     if is_pinned frame then clock_loop turns dirty_page b
     else if fr_referenced frame then clock_loop turns dirty_page (set_frame idx (frame\<lparr>fr_referenced := False\<rparr>) b)
     else if is_dirty frame then clock_loop turns (if dirty_page = None then fr_page_key frame else dirty_page) b
     else do {
       let b1 = (case fr_page_key frame of
           Some old_page_key \<Rightarrow> b\<lparr>bm_page_map := Mapping.delete old_page_key (bm_page_map b)\<rparr>
         | None \<Rightarrow> b);
       Some (Inr idx, on_stats (\<lambda>s. s\<lparr>st_free_frames := st_free_frames s + 1, st_evictions := st_evictions s + 1\<rparr>)
         (set_frame idx (frame_clear frame) b1))
     }
   }"

definition clock_evict :: "buffer_manager \<Rightarrow> nat pool_op" where
  "clock_evict b = clock_loop (usize_saturating_mul (length (bm_frames b)) 2) None b"

definition find_free_frame :: "buffer_manager \<Rightarrow> nat pool_op" where
  "find_free_frame b =
     (if bm_frames b = [] then Some (Inl EmptyPool, b)
      else (case position is_free (bm_frames b) of
        Some i \<Rightarrow> Some (Inr i, b)
      | None \<Rightarrow> do {
          (r, b') \<leftarrow> clock_evict (on_stats (\<lambda>s. s\<lparr>st_eviction_attempts := st_eviction_attempts s + 1\<rparr>) b);
          Some (case r of
             Inr frame_idx \<Rightarrow> (Inr frame_idx, b')
           | Inl e \<Rightarrow> (Inl e, on_stats (\<lambda>s. s\<lparr>st_eviction_refusals := st_eviction_refusals s + 1\<rparr>) b'))
        }))"

definition evict_key :: "buffer_manager \<Rightarrow> page_cache_key \<Rightarrow> unit pool_op" where
  "evict_key b0 page_key =
     (let b = on_stats (\<lambda>s. s\<lparr>st_eviction_attempts := st_eviction_attempts s + 1\<rparr>) b0;
          refuse = (\<lambda>b. on_stats (\<lambda>s. s\<lparr>st_eviction_refusals := st_eviction_refusals s + 1\<rparr>) b)
      in (case Mapping.lookup (bm_page_map b) page_key of
            None \<Rightarrow> Some (Inr (), b)
          | Some frame_idx \<Rightarrow> do {
              let removed = Mapping.delete page_key (bm_page_map b);
              frame \<leftarrow> frame_at b frame_idx;
              if is_pinned frame then
                Some (Inl AllFramesPinned, refuse (b\<lparr>bm_page_map := Mapping.update page_key frame_idx removed\<rparr>))
              else if is_dirty frame then
                Some (Inl (DirtyPage (logical_page_id page_key)), refuse (b\<lparr>bm_page_map := Mapping.update page_key frame_idx removed\<rparr>))
              else
                Some (Inr (), on_stats (\<lambda>s. s\<lparr>st_free_frames := st_free_frames s + 1, st_evictions := st_evictions s + 1\<rparr>)
                  (set_frame frame_idx (frame_clear frame) (b\<lparr>bm_page_map := removed\<rparr>)))
            }))"

section \<open>Fetching\<close>

definition mark_for :: "guard_access \<Rightarrow> frame \<Rightarrow> frame" where
  "mark_for access f = (if access = WriteAccess then frame_mark_dirty f else f)"

definition fetch_key :: "buffer_manager \<Rightarrow> page_cache_key \<Rightarrow> bytes \<Rightarrow> guard_access \<Rightarrow> page_guard pool_op" where
  "fetch_key b page_key data access = do {
     hit \<leftarrow> (case Mapping.lookup (bm_page_map b) page_key of
         None \<Rightarrow> Some None
       | Some frame_idx \<Rightarrow> do { frame \<leftarrow> frame_at b frame_idx; Some (if is_free frame then None else Some (frame_idx, frame)) });
     (case hit of
        Some (frame_idx, frame) \<Rightarrow>
          Some (Inr (page_guard_new frame_idx page_key access),
                on_stats (\<lambda>s. s\<lparr>st_hits := st_hits s + 1\<rparr>) (set_frame frame_idx (mark_for access (acquire_guard frame)) b))
      | None \<Rightarrow> do {
          (r, b1) \<leftarrow> find_free_frame b;
          (case r of
             Inl e \<Rightarrow> Some (Inl e, b1)
           | Inr frame_idx \<Rightarrow> do {
               let b2 = on_stats (\<lambda>s. s\<lparr>st_reads := st_reads s + 1\<rparr>) b1;
               frame \<leftarrow> frame_at b2 frame_idx;
               let b3 = set_frame frame_idx (mark_for access (acquire_guard (frame_load frame page_key data))) b2;
               let b4 = b3\<lparr>bm_page_map := Mapping.update page_key frame_idx (bm_page_map b3)\<rparr>;
               if st_free_frames (bm_stats b4) = 0 then None
               else Some (Inr (page_guard_new frame_idx page_key access),
                 on_stats (\<lambda>s. s\<lparr>st_free_frames := st_free_frames s - 1\<rparr>) b4)
             })
        })
   }"

text \<open>Dropping a guard releases its clone of the frame's token.\<close>

definition drop_guard :: "buffer_manager \<Rightarrow> page_guard \<Rightarrow> buffer_manager exec" where
  "drop_guard b g = do {
     frame \<leftarrow> frame_at b (pg_frame_index g);
     Some (set_frame (pg_frame_index g) (frame\<lparr>fr_guards := fr_guards frame - 1\<rparr>) b)
   }"

definition frame_data :: "buffer_manager \<Rightarrow> page_guard \<Rightarrow> bytes exec" where
  "frame_data b g = map_option fr_data (frame_at b (pg_frame_index g))"

text \<open>The mutable reference that \<open>frame_data_mut\<close> returns is the change its caller makes through it.\<close>

definition frame_data_mut :: "buffer_manager \<Rightarrow> page_guard \<Rightarrow> (bytes \<Rightarrow> bytes) \<Rightarrow> unit pool_op" where
  "frame_data_mut b g change =
     (if \<not> is_writable g then Some (Inl (ReadOnlyPage (pg_page_id g)), b)
      else do {
        frame \<leftarrow> frame_at b (pg_frame_index g);
        Some (Inr (), set_frame (pg_frame_index g) (frame\<lparr>fr_data := change (fr_data frame)\<rparr>) b)
      })"

definition on_page :: "buffer_manager \<Rightarrow> page_cache_key \<Rightarrow> (frame \<Rightarrow> frame) \<Rightarrow> buffer_manager exec" where
  "on_page b page_key change =
     (case Mapping.lookup (bm_page_map b) page_key of
        None \<Rightarrow> Some b
      | Some frame_idx \<Rightarrow> do { frame \<leftarrow> frame_at b frame_idx; Some (set_frame frame_idx (change frame) b) })"

definition mark_dirty_key :: "buffer_manager \<Rightarrow> page_cache_key \<Rightarrow> buffer_manager exec" where
  "mark_dirty_key b page_key = on_page b page_key frame_mark_dirty"

definition unpin_key :: "buffer_manager \<Rightarrow> page_cache_key \<Rightarrow> buffer_manager exec" where
  "unpin_key b page_key = on_page b page_key frame_unpin"

section \<open>Write-back\<close>

definition begin_writeback_key :: "buffer_manager \<Rightarrow> page_cache_key \<Rightarrow> writeback option pool_op" where
  "begin_writeback_key b page_key =
     (case Mapping.lookup (bm_page_map b) page_key of
        None \<Rightarrow> Some (Inr None, b)
      | Some frame_idx \<Rightarrow> do {
          frame \<leftarrow> frame_at b frame_idx;
          if \<not> is_dirty frame then Some (Inr None, b)
          else (let b = b\<lparr>bm_writeback_requests := increment_counter (bm_writeback_requests b)\<rparr>
            in if is_pinned frame then Some (Inl (PinnedPage (logical_page_id page_key)), refuse_writeback b)
               else Some (Inr (Some \<lparr>wb_page_key = page_key, wb_data = fr_data frame\<rparr>), b))
        })"

definition complete_writeback :: "buffer_manager \<Rightarrow> writeback \<Rightarrow> unit pool_op" where
  "complete_writeback b wb =
     (let page_id = logical_page_id (wb_page_key wb)
      in (case Mapping.lookup (bm_page_map b) (wb_page_key wb) of
            None \<Rightarrow> Some (Inl (StaleWriteback page_id), refuse_writeback b)
          | Some frame_idx \<Rightarrow> do {
              frame \<leftarrow> frame_at b frame_idx;
              if is_pinned frame then Some (Inl (PinnedPage page_id), refuse_writeback b)
              else if \<not> is_dirty frame \<or> fr_data frame \<noteq> wb_data wb then Some (Inl (StaleWriteback page_id), refuse_writeback b)
              else Some (Inr (), on_stats (\<lambda>s. s\<lparr>st_writes := st_writes s + 1\<rparr>) (set_frame frame_idx (frame_mark_clean frame) b))
            }))"

definition discard_writeback :: "buffer_manager \<Rightarrow> writeback \<Rightarrow> unit pool_op" where
  "discard_writeback b wb =
     (let page_id = logical_page_id (wb_page_key wb)
      in (case Mapping.lookup (bm_page_map b) (wb_page_key wb) of
            None \<Rightarrow> Some (Inl (StaleWriteback page_id), refuse_writeback b)
          | Some frame_idx \<Rightarrow> do {
              frame \<leftarrow> frame_at b frame_idx;
              if is_pinned frame then Some (Inl (PinnedPage page_id), refuse_writeback b)
              else if \<not> is_dirty frame \<or> fr_data frame \<noteq> wb_data wb then Some (Inl (StaleWriteback page_id), refuse_writeback b)
              else Some (Inr (),
                on_stats (\<lambda>s. s\<lparr>st_free_frames := st_free_frames s + 1, st_writeback_discards := st_writeback_discards s + 1\<rparr>)
                  (set_frame frame_idx (frame_clear frame)
                    (b\<lparr>bm_page_map := Mapping.delete (wb_page_key wb) (bm_page_map b)\<rparr>)))
            }))"

text \<open>The keys of the dirty pages in the order \<open>begin_writeback_all\<close> sorts them, and its loop.\<close>

fun dirty_keys :: "buffer_manager \<Rightarrow> (page_cache_key \<times> nat) list \<Rightarrow> page_cache_key list exec" where
  "dirty_keys b [] = Some []"
| "dirty_keys b ((page_key, frame_idx) # rest) = do {
     frame \<leftarrow> frame_at b frame_idx;
     keys \<leftarrow> dirty_keys b rest;
     Some (if is_dirty frame then page_key # keys else keys)
   }"

fun begin_each :: "page_cache_key list \<Rightarrow> writeback list \<Rightarrow> buffer_manager \<Rightarrow> writeback list pool_op" where
  "begin_each [] writebacks b = Some (Inr writebacks, b)"
| "begin_each (page_key # rest) writebacks b = do {
     (r, b') \<leftarrow> begin_writeback_key b page_key;
     (case r of
        Inl e \<Rightarrow> Some (Inl e, b')
      | Inr None \<Rightarrow> begin_each rest writebacks b'
      | Inr (Some wb) \<Rightarrow> begin_each rest (writebacks @ [wb]) b')
   }"

definition begin_writeback_all :: "buffer_manager \<Rightarrow> writeback list pool_op" where
  "begin_writeback_all b = do { keys \<leftarrow> dirty_keys b (page_map_entries b); begin_each keys [] b }"

section \<open>The interface by logical page\<close>

text \<open>The methods that name a page by its logical identifier use the key of the pending version.\<close>

definition is_resident :: "buffer_manager \<Rightarrow> u64 \<Rightarrow> bool exec" where
  "is_resident b page_id = is_resident_key b (unversioned page_id)"

definition fetch :: "buffer_manager \<Rightarrow> u64 \<Rightarrow> bytes \<Rightarrow> guard_access \<Rightarrow> page_guard pool_op" where
  "fetch b page_id data access = fetch_key b (unversioned page_id) data access"

definition mark_dirty :: "buffer_manager \<Rightarrow> u64 \<Rightarrow> buffer_manager exec" where
  "mark_dirty b page_id = mark_dirty_key b (unversioned page_id)"

definition unpin :: "buffer_manager \<Rightarrow> u64 \<Rightarrow> buffer_manager exec" where
  "unpin b page_id = unpin_key b (unversioned page_id)"

definition begin_writeback :: "buffer_manager \<Rightarrow> u64 \<Rightarrow> writeback option pool_op" where
  "begin_writeback b page_id = begin_writeback_key b (unversioned page_id)"

definition evict :: "buffer_manager \<Rightarrow> u64 \<Rightarrow> unit pool_op" where
  "evict b page_id = evict_key b (unversioned page_id)"

end
