(* ===== verification/Buffer_Invariant.thy ===== *)
theory Buffer_Invariant
  imports Buffer_Pool
begin

text \<open>
  The invariant of the buffer pool and its preservation. The operations are compositions of three primitive
  changes: a frame that keeps its page is rewritten, the page of a frame is released, and a free frame is
  loaded. The clock changes reference bits on its way to a victim; two passes are enough to find one.
\<close>

section \<open>The invariant\<close>

definition frame_ok :: "(page_cache_key, nat) mapping \<Rightarrow> nat \<Rightarrow> frame \<Rightarrow> bool" where
  "frame_ok m i f \<longleftrightarrow> length (fr_data f) = PAGE_SIZE \<and>
     (if is_free f then fr_page_key f = None \<and> fr_pin_count f = 0 \<and> \<not> fr_pinned f \<and> fr_guards f = 0
      else (\<exists>k. fr_page_key f = Some k \<and> Mapping.lookup m k = Some i) \<and> fr_pinned f = (fr_pin_count f \<noteq> 0))"

definition pool_ok :: "buffer_manager \<Rightarrow> bool" where
  "pool_ok b \<longleftrightarrow>
     st_total_frames (bm_stats b) = length (bm_frames b) \<and> length (bm_frames b) < 2 ^ 63 \<and>
     (bm_frames b \<noteq> [] \<longrightarrow> bm_clock_hand b < length (bm_frames b)) \<and>
     (\<forall>k i. Mapping.lookup (bm_page_map b) k = Some i \<longrightarrow>
        i < length (bm_frames b) \<and> fr_page_key (bm_frames b ! i) = Some k) \<and>
     (\<forall>i < length (bm_frames b). frame_ok (bm_page_map b) i (bm_frames b ! i)) \<and>
     st_free_frames (bm_stats b) = length (filter is_free (bm_frames b))"

lemma length_filter_update:
  assumes "i < length xs"
  shows "length (filter P (xs[i := x])) + of_bool (P (xs ! i)) = length (filter P xs) + of_bool (P x)"
proof -
  have "length (filter P xs) = length (filter P (take i xs @ xs ! i # drop (Suc i) xs))"
    using id_take_nth_drop [OF assms] by simp
  then show ?thesis
    using assms by (simp add: upd_conv_take_nth_drop)
qed

lemma pool_okD:
  assumes "pool_ok b"
  shows pool_ok_total: "st_total_frames (bm_stats b) = length (bm_frames b)"
    and pool_ok_size: "length (bm_frames b) < 2 ^ 63"
    and pool_ok_hand: "bm_frames b \<noteq> [] \<Longrightarrow> bm_clock_hand b < length (bm_frames b)"
    and pool_ok_bound: "Mapping.lookup (bm_page_map b) k = Some i \<Longrightarrow> i < length (bm_frames b)"
    and pool_ok_key: "Mapping.lookup (bm_page_map b) k = Some i \<Longrightarrow> fr_page_key (bm_frames b ! i) = Some k"
    and pool_ok_frame: "i < length (bm_frames b) \<Longrightarrow> frame_ok (bm_page_map b) i (bm_frames b ! i)"
    and pool_ok_free: "st_free_frames (bm_stats b) = length (filter is_free (bm_frames b))"
  using assms unfolding pool_ok_def by blast+

lemma pool_okI:
  assumes "st_total_frames (bm_stats b) = length (bm_frames b)" "length (bm_frames b) < 2 ^ 63"
    and "bm_frames b \<noteq> [] \<Longrightarrow> bm_clock_hand b < length (bm_frames b)"
    and "\<And>k i. Mapping.lookup (bm_page_map b) k = Some i \<Longrightarrow> i < length (bm_frames b)"
    and "\<And>k i. Mapping.lookup (bm_page_map b) k = Some i \<Longrightarrow> fr_page_key (bm_frames b ! i) = Some k"
    and "\<And>i. i < length (bm_frames b) \<Longrightarrow> frame_ok (bm_page_map b) i (bm_frames b ! i)"
    and "st_free_frames (bm_stats b) = length (filter is_free (bm_frames b))"
  shows "pool_ok b"
  using assms unfolding pool_ok_def by blast

lemma pool_ok_mapped:
  assumes "pool_ok b" and "Mapping.lookup (bm_page_map b) k = Some i"
  shows "frame_at b i = Some (bm_frames b ! i)" and "\<not> is_free (bm_frames b ! i)"
  using pool_ok_bound [OF assms] pool_ok_key [OF assms] pool_ok_frame [OF assms(1), of i]
  by (auto simp: frame_at_def frame_ok_def split: if_splits)

lemma pool_ok_resident:
  assumes "pool_ok b" and "i < length (bm_frames b)" and "\<not> is_free (bm_frames b ! i)"
  obtains k where "fr_page_key (bm_frames b ! i) = Some k" and "Mapping.lookup (bm_page_map b) k = Some i"
  using pool_ok_frame [OF assms(1,2)] assms(3) by (auto simp: frame_ok_def)

lemma pool_ok_new:
  assumes "capacity < 2 ^ 64"
  shows "pool_ok (bm_new capacity)"
proof -
  have "capacity div PAGE_SIZE < 2 ^ 63" using assms by simp
  then show ?thesis
    by (auto simp: pool_ok_def bm_new_def Let_def frame_ok_def new_empty_def is_free_def)
qed

section \<open>Primitive changes\<close>

text \<open>Nothing but reference bits, the hand and the counters differs.\<close>

definition unref :: "frame \<Rightarrow> frame" where "unref f = f\<lparr>fr_referenced := False\<rparr>"

definition same_pages :: "buffer_manager \<Rightarrow> buffer_manager \<Rightarrow> bool" where
  "same_pages b b' \<longleftrightarrow>
     map unref (bm_frames b') = map unref (bm_frames b) \<and> bm_page_map b' = bm_page_map b \<and>
     st_total_frames (bm_stats b') = st_total_frames (bm_stats b) \<and>
     st_free_frames (bm_stats b') = st_free_frames (bm_stats b) \<and>
     (bm_frames b \<noteq> [] \<longrightarrow> bm_clock_hand b < length (bm_frames b) \<longrightarrow> bm_clock_hand b' < length (bm_frames b))"

lemma unref_simps [simp]:
  "fr_data (unref f) = fr_data f" "fr_page_key (unref f) = fr_page_key f" "fr_state (unref f) = fr_state f"
  "fr_pin_count (unref f) = fr_pin_count f" "fr_pinned (unref f) = fr_pinned f" "fr_guards (unref f) = fr_guards f"
  "is_free (unref f) = is_free f" "is_dirty (unref f) = is_dirty f" "is_pinned (unref f) = is_pinned f"
  "frame_ok m i (unref f) = frame_ok m i f" "unref (f\<lparr>fr_referenced := r\<rparr>) = unref f"
  by (simp_all add: unref_def is_free_def is_dirty_def is_pinned_def strong_count_def frame_ok_def)

lemma same_pages_refl [simp]: "same_pages b b"
  by (simp add: same_pages_def)

lemma same_pages_trans: "same_pages b b' \<Longrightarrow> same_pages b' b'' \<Longrightarrow> same_pages b b''"
  by (auto simp: same_pages_def dest: map_eq_imp_length_eq)

lemma same_pages_length: "same_pages b b' \<Longrightarrow> length (bm_frames b') = length (bm_frames b)"
  by (auto simp: same_pages_def dest: map_eq_imp_length_eq)

lemma same_pages_nth:
  assumes "same_pages b b'" and "i < length (bm_frames b)"
  shows "unref (bm_frames b' ! i) = unref (bm_frames b ! i)"
  using assms same_pages_length [OF assms(1)] nth_map [of i "bm_frames b'" unref] nth_map [of i "bm_frames b" unref]
  by (simp add: same_pages_def)

lemma same_pages_frame:
  assumes "same_pages b b'" and "i < length (bm_frames b)"
  shows "fr_data (bm_frames b' ! i) = fr_data (bm_frames b ! i)"
    and "fr_page_key (bm_frames b' ! i) = fr_page_key (bm_frames b ! i)"
    and "fr_state (bm_frames b' ! i) = fr_state (bm_frames b ! i)"
    and "fr_guards (bm_frames b' ! i) = fr_guards (bm_frames b ! i)"
    and "is_free (bm_frames b' ! i) = is_free (bm_frames b ! i)"
    and "is_dirty (bm_frames b' ! i) = is_dirty (bm_frames b ! i)"
    and "is_pinned (bm_frames b' ! i) = is_pinned (bm_frames b ! i)"
    and "frame_ok m i (bm_frames b' ! i) = frame_ok m i (bm_frames b ! i)"
  using same_pages_nth [OF assms] by (metis unref_simps)+

lemma same_pages_free_count:
  assumes "same_pages b b'"
  shows "length (filter is_free (bm_frames b')) = length (filter is_free (bm_frames b))"
proof -
  have "length (filter is_free fs) = length (filter is_free (map unref fs))" for fs
    by (induction fs) simp_all
  then show ?thesis using assms by (metis same_pages_def)
qed

lemma pool_ok_same_pages:
  assumes "pool_ok b" and "same_pages b b'"
  shows "pool_ok b'"
  using assms(1) same_pages_frame [OF assms(2)] same_pages_length [OF assms(2)] same_pages_free_count [OF assms(2)]
    assms(2) unfolding pool_ok_def same_pages_def by auto

text \<open>A frame is rewritten and keeps its page.\<close>

lemma pool_ok_rewrite:
  assumes ok: "pool_ok b" and i: "i < length (bm_frames b)"
    and "fr_page_key f = fr_page_key (bm_frames b ! i)" and "is_free f = is_free (bm_frames b ! i)"
    and "frame_ok (bm_page_map b) i f"
  shows "pool_ok (set_frame i f b)"
  using assms length_filter_update [OF i, of is_free f]
  by (auto simp: pool_ok_def set_frame_def nth_list_update)

text \<open>The page of a frame is released; \<open>upd\<close> counts the frame as free.\<close>

definition release :: "(buffer_stats \<Rightarrow> buffer_stats) \<Rightarrow> page_cache_key \<Rightarrow> nat \<Rightarrow> buffer_manager \<Rightarrow> buffer_manager" where
  "release upd k i b =
     on_stats upd (set_frame i (frame_clear (bm_frames b ! i)) (b\<lparr>bm_page_map := Mapping.delete k (bm_page_map b)\<rparr>))"

definition frees_one :: "(buffer_stats \<Rightarrow> buffer_stats) \<Rightarrow> bool" where
  "frees_one upd \<longleftrightarrow> (\<forall>s. st_total_frames (upd s) = st_total_frames s \<and> st_free_frames (upd s) = st_free_frames s + 1)"

lemma frame_ok_clear: "fr_guards f = 0 \<Longrightarrow> frame_ok m i (frame_clear f)"
  by (simp add: frame_ok_def frame_clear_def is_free_def)

lemma is_free_clear [simp]: "is_free (frame_clear f)"
  by (simp add: frame_clear_def is_free_def)

lemma frame_ok_delete:
  assumes "frame_ok m i f" and "fr_page_key f \<noteq> Some k"
  shows "frame_ok (Mapping.delete k m) i f"
  using assms by (auto simp: frame_ok_def lookup_delete_if)

lemma pool_ok_release:
  assumes ok: "pool_ok b" and k: "Mapping.lookup (bm_page_map b) k = Some i"
    and g: "fr_guards (bm_frames b ! i) = 0" and upd: "frees_one upd"
  shows "pool_ok (release upd k i b)"
proof -
  note i = pool_ok_bound [OF ok k]
  have "length (filter is_free ((bm_frames b)[i := frame_clear (bm_frames b ! i)])) = length (filter is_free (bm_frames b)) + 1"
    using length_filter_update [OF i, of is_free "frame_clear (bm_frames b ! i)"] pool_ok_mapped(2) [OF ok k] by simp
  moreover have "j = i" if "j < length (bm_frames b)" "fr_page_key (bm_frames b ! j) = Some k" for j
    using pool_ok_frame [OF ok that(1)] that(2) k by (auto simp: frame_ok_def split: if_splits)
  then have "frame_ok (Mapping.delete k (bm_page_map b)) j (bm_frames b ! j)" if "j < length (bm_frames b)" "j \<noteq> i" for j
    using frame_ok_delete [OF pool_ok_frame [OF ok that(1)]] that by blast
  moreover have "fr_page_key (bm_frames b ! i) = Some k"
    by (rule pool_ok_key [OF ok k])
  ultimately show ?thesis
    using ok upd i frame_ok_clear [OF g] pool_ok_size [OF ok] unfolding release_def on_stats_def set_frame_def frees_one_def
    by (intro pool_okI) (auto simp: nth_list_update lookup_delete_if pool_okD split: if_splits)
qed

text \<open>A free frame takes a page; the statistics count it as used.\<close>

lemma frame_ok_update:
  assumes "frame_ok m i f" and "Mapping.lookup m k = None"
  shows "frame_ok (Mapping.update k j m) i f"
proof (cases "is_free f")
  case False
  then obtain k' where k': "fr_page_key f = Some k'" "Mapping.lookup m k' = Some i"
    using assms by (auto simp: frame_ok_def)
  moreover from this have "k' \<noteq> k" using assms(2) by auto
  ultimately show ?thesis using assms(1) False by (auto simp: frame_ok_def lookup_update_neq)
qed (use assms in \<open>simp add: frame_ok_def\<close>)

definition store_page :: "nat \<Rightarrow> page_cache_key \<Rightarrow> frame \<Rightarrow> buffer_manager \<Rightarrow> buffer_manager" where
  "store_page i k f b =
     on_stats (\<lambda>s. s\<lparr>st_free_frames := st_free_frames s - 1\<rparr>)
       ((set_frame i f b)\<lparr>bm_page_map := Mapping.update k i (bm_page_map b)\<rparr>)"

lemma pool_ok_load:
  assumes ok: "pool_ok b" and i: "i < length (bm_frames b)" and free: "is_free (bm_frames b ! i)"
    and k: "Mapping.lookup (bm_page_map b) k = None"
    and f: "fr_page_key f = Some k" "\<not> is_free f" "length (fr_data f) = PAGE_SIZE" "fr_pinned f = (fr_pin_count f \<noteq> 0)"
  shows "st_free_frames (bm_stats b) > 0" and "pool_ok (store_page i k f b)"
proof -
  have n: "length (filter is_free ((bm_frames b)[i := f])) + 1 = length (filter is_free (bm_frames b))"
    using length_filter_update [OF i, of is_free f] free f(2) by simp
  then show "st_free_frames (bm_stats b) > 0" using pool_ok_free [OF ok] by linarith
  have "frame_ok (Mapping.update k i (bm_page_map b)) i f"
    using f by (auto simp: frame_ok_def lookup_update)
  moreover have "fr_page_key (bm_frames b ! i) = None"
    using pool_ok_frame [OF ok i] free by (simp add: frame_ok_def)
  ultimately show "pool_ok (store_page i k f b)"
    using ok n f k i frame_ok_update [OF _ k] unfolding store_page_def on_stats_def set_frame_def
    by (auto simp: pool_ok_def nth_list_update lookup_update_if split: if_splits)
qed

section \<open>The clock\<close>

text \<open>The state in which the clock hands over a victim: the pages are those of \<open>b\<close> but for the victim's.\<close>

definition evicted_from :: "buffer_manager \<Rightarrow> nat \<Rightarrow> buffer_manager \<Rightarrow> bool" where
  "evicted_from b i b' \<longleftrightarrow> (\<exists>b1 k upd. same_pages b b1 \<and> Mapping.lookup (bm_page_map b) k = Some i \<and>
     \<not> is_pinned (bm_frames b ! i) \<and> \<not> is_dirty (bm_frames b ! i) \<and> frees_one upd \<and> b' = release upd k i b1)"

lemma evicted_fromI:
  assumes "same_pages b b1" and "Mapping.lookup (bm_page_map b) k = Some i" and "\<not> is_pinned (bm_frames b ! i)"
    and "\<not> is_dirty (bm_frames b ! i)" and "frees_one upd"
  shows "evicted_from b i (release upd k i b1)"
  using assms unfolding evicted_from_def by blast

definition advance :: "buffer_manager \<Rightarrow> buffer_manager" where
  "advance b = b\<lparr>bm_clock_hand := (bm_clock_hand b + 1) mod length (bm_frames b)\<rparr>"

lemma same_pages_advance: "same_pages b (advance b)"
  by (cases "bm_frames b") (auto simp: same_pages_def advance_def)

lemma same_pages_touch:
  "unref f = unref (bm_frames b ! i) \<Longrightarrow> i < length (bm_frames b) \<Longrightarrow> same_pages b (set_frame i f b)"
  by (auto simp: same_pages_def set_frame_def map_update list_update_same_conv)

lemma same_pages_stats:
  "st_total_frames (u (bm_stats b)) = st_total_frames (bm_stats b) \<Longrightarrow>
   st_free_frames (u (bm_stats b)) = st_free_frames (bm_stats b) \<Longrightarrow> same_pages b (on_stats u b)"
  by (simp add: same_pages_def on_stats_def)

text \<open>One turn of the loop, with the page of the frame under the hand known to be resident.\<close>

lemma clock_turn:
  assumes ok: "pool_ok b" and full: "\<forall>f \<in> set (bm_frames b). \<not> is_free f" and ne: "bm_frames b \<noteq> []"
  defines "i \<equiv> bm_clock_hand b" and "f \<equiv> bm_frames b ! bm_clock_hand b"
  obtains k where "i < length (bm_frames b)" and "Mapping.lookup (bm_page_map b) k = Some i" and "fr_page_key f = Some k"
    and "clock_loop (Suc n) d b =
      (if is_pinned f then clock_loop n d (advance b)
       else if fr_referenced f then clock_loop n d (set_frame i (f\<lparr>fr_referenced := False\<rparr>) (advance b))
       else if is_dirty f then clock_loop n (if d = None then Some k else d) (advance b)
       else Some (Inr i, release (\<lambda>s. s\<lparr>st_free_frames := st_free_frames s + 1, st_evictions := st_evictions s + 1\<rparr>) k i (advance b)))"
proof -
  have i: "i < length (bm_frames b)" using pool_ok_hand [OF ok ne] by (simp add: i_def)
  then obtain k where "fr_page_key f = Some k" and "Mapping.lookup (bm_page_map b) k = Some i"
    using pool_ok_resident [OF ok i] full by (auto simp: f_def i_def)
  with i that show thesis
    by (auto simp: frame_at_def advance_def release_def f_def i_def Let_def set_frame_def)
qed

lemma full_same_pages:
  assumes "same_pages b b'" and "\<forall>f \<in> set (bm_frames b). \<not> is_free f"
  shows "\<forall>f \<in> set (bm_frames b'). \<not> is_free f"
  using assms(2) same_pages_frame(5) [OF assms(1)] same_pages_length [OF assms(1)] by (auto simp: all_set_conv_all_nth)

lemma evicted_from_same_pages:
  assumes "same_pages b b1" and "evicted_from b1 i b'" and "i < length (bm_frames b)"
  shows "evicted_from b i b'"
  using assms same_pages_trans [OF assms(1)] same_pages_frame [OF assms(1,3)]
  unfolding evicted_from_def same_pages_def [of b b1] by metis

text \<open>An error candidate of the clock: an unpinned dirty page of the pool.\<close>

definition dirty_candidate :: "buffer_manager \<Rightarrow> page_cache_key \<Rightarrow> bool" where
  "dirty_candidate b k \<longleftrightarrow> (\<exists>i. Mapping.lookup (bm_page_map b) k = Some i \<and> i < length (bm_frames b) \<and>
     is_dirty (bm_frames b ! i) \<and> \<not> is_pinned (bm_frames b ! i))"

lemma dirty_candidate_same_pages:
  assumes "same_pages b b'"
  shows "dirty_candidate b' k = dirty_candidate b k"
  using same_pages_frame [OF assms] same_pages_length [OF assms] assms
  unfolding dirty_candidate_def same_pages_def by metis

definition clock_outcome :: "buffer_manager \<Rightarrow> buffer_error + nat \<Rightarrow> buffer_manager \<Rightarrow> bool" where
  "clock_outcome b r b' \<longleftrightarrow> (case r of
      Inr i \<Rightarrow> i < length (bm_frames b) \<and> evicted_from b i b'
    | Inl e \<Rightarrow> same_pages b b' \<and> (e = AllFramesPinned \<or> (\<exists>k. e = DirtyPage (logical_page_id k) \<and> dirty_candidate b k)))"

lemma clock_outcome_same_pages:
  assumes "same_pages b b1" and "clock_outcome b1 r b'"
  shows "clock_outcome b r b'"
  using assms same_pages_length [OF assms(1)] evicted_from_same_pages [OF assms(1)] same_pages_trans [OF assms(1)]
    dirty_candidate_same_pages [OF assms(1)]
  unfolding clock_outcome_def by (auto split: sum.splits)

lemma clock_loop_outcome:
  assumes "pool_ok b" and "\<forall>f \<in> set (bm_frames b). \<not> is_free f" and "bm_frames b \<noteq> []"
    and "\<forall>k. d = Some k \<longrightarrow> dirty_candidate b k"
  shows "\<exists>r b'. clock_loop n d b = Some (r, b') \<and> clock_outcome b r b'"
  using assms
proof (induction n arbitrary: d b)
  case 0
  then show ?case by (auto simp: clock_outcome_def split: option.splits)
next
  case (Suc n)
  let ?f = "bm_frames b ! bm_clock_hand b" and ?i = "bm_clock_hand b"
  obtain k where i: "?i < length (bm_frames b)" and k: "Mapping.lookup (bm_page_map b) k = Some ?i"
    and turn: "clock_loop (Suc n) d b =
      (if is_pinned ?f then clock_loop n d (advance b)
       else if fr_referenced ?f then clock_loop n d (set_frame ?i (?f\<lparr>fr_referenced := False\<rparr>) (advance b))
       else if is_dirty ?f then clock_loop n (if d = None then Some k else d) (advance b)
       else Some (Inr ?i, release (\<lambda>s. s\<lparr>st_free_frames := st_free_frames s + 1, st_evictions := st_evictions s + 1\<rparr>) k ?i (advance b)))"
    by (rule clock_turn [OF Suc.prems(1-3)]) blast
  have step: "\<exists>r b'. clock_loop n d' b1 = Some (r, b') \<and> clock_outcome b r b'"
    if "same_pages b b1" and "\<forall>k. d' = Some k \<longrightarrow> dirty_candidate b k" for d' b1
    using Suc.IH [OF pool_ok_same_pages [OF Suc.prems(1) that(1)] full_same_pages [OF that(1) Suc.prems(2)], of d']
      same_pages_length [OF that(1)] Suc.prems(3) that(2) dirty_candidate_same_pages [OF that(1)]
      clock_outcome_same_pages [OF that(1)] by fastforce
  have unref: "same_pages b (set_frame ?i (?f\<lparr>fr_referenced := False\<rparr>) (advance b))"
    by (rule same_pages_trans [OF same_pages_advance same_pages_touch]) (use i in \<open>simp_all add: advance_def\<close>)
  show ?case
  proof (cases "is_pinned ?f \<or> fr_referenced ?f \<or> is_dirty ?f")
    case True
    then show ?thesis
      using turn step [OF same_pages_advance] step [OF unref] Suc.prems(4) i k
      by (auto simp: dirty_candidate_def)
  next
    case False
    moreover have "evicted_from b ?i (release (\<lambda>s. s\<lparr>st_free_frames := st_free_frames s + 1, st_evictions := st_evictions s + 1\<rparr>) k ?i (advance b))"
      by (rule evicted_fromI [OF same_pages_advance k]) (use False in \<open>simp_all add: frees_one_def\<close>)
    ultimately show ?thesis using turn i by (simp add: clock_outcome_def)
  qed
qed

text \<open>Two passes reach every unpinned frame with its reference bit cleared. The number of turns until the
  hand comes to frame \<open>j\<close> is its distance; a set reference bit costs one more pass.\<close>

definition distance :: "nat \<Rightarrow> nat \<Rightarrow> nat \<Rightarrow> nat" where
  "distance len hand j = (if hand \<le> j then j - hand else j + len - hand)"

lemma distance_step:
  assumes "hand < len" and "j < len"
  shows "hand \<noteq> j \<Longrightarrow> Suc (distance len ((hand + 1) mod len) j) = distance len hand j"
    and "hand = j \<Longrightarrow> distance len ((hand + 1) mod len) j < len"
proof -
  have m: "(hand + 1) mod len = (if hand + 1 = len then 0 else hand + 1)" using assms(1) by auto
  show "hand \<noteq> j \<Longrightarrow> Suc (distance len ((hand + 1) mod len) j) = distance len hand j"
    unfolding m distance_def using assms by auto
  show "hand = j \<Longrightarrow> distance len ((hand + 1) mod len) j < len"
    unfolding m distance_def using assms by auto
qed

lemma clock_loop_dirty_seen: "d \<noteq> None \<Longrightarrow> clock_loop n d b \<noteq> Some (Inl AllFramesPinned, b')"
proof (induction n arbitrary: d b)
  case 0
  then show ?case by auto
next
  case (Suc n)
  then show ?case by (auto simp: Let_def split: bind_splits)
qed

lemma clock_loop_finds:
  assumes "pool_ok b" and "\<forall>f \<in> set (bm_frames b). \<not> is_free f" and "j < length (bm_frames b)"
    and "\<not> is_pinned (bm_frames b ! j)"
    and "distance (length (bm_frames b)) (bm_clock_hand b) j + (if fr_referenced (bm_frames b ! j) then length (bm_frames b) else 0) < n"
  shows "(\<forall>b'. clock_loop n d b \<noteq> Some (Inl AllFramesPinned, b'))
    \<and> (\<not> is_dirty (bm_frames b ! j) \<longrightarrow> (\<exists>i b'. clock_loop n d b = Some (Inr i, b')))"
  using assms
proof (induction n arbitrary: d b)
  case (Suc n)
  let ?f = "bm_frames b ! bm_clock_hand b" and ?i = "bm_clock_hand b"
  have ne: "bm_frames b \<noteq> []" using Suc.prems(3) by auto
  obtain k where i: "?i < length (bm_frames b)"
    and turn: "clock_loop (Suc n) d b =
      (if is_pinned ?f then clock_loop n d (advance b)
       else if fr_referenced ?f then clock_loop n d (set_frame ?i (?f\<lparr>fr_referenced := False\<rparr>) (advance b))
       else if is_dirty ?f then clock_loop n (if d = None then Some k else d) (advance b)
       else Some (Inr ?i, release (\<lambda>s. s\<lparr>st_free_frames := st_free_frames s + 1, st_evictions := st_evictions s + 1\<rparr>) k ?i (advance b)))"
    by (rule clock_turn [OF Suc.prems(1,2) ne]) blast
  have step: "(\<forall>b'. clock_loop n d' b1 \<noteq> Some (Inl AllFramesPinned, b'))
      \<and> (\<not> is_dirty (bm_frames b ! j) \<longrightarrow> (\<exists>i b'. clock_loop n d' b1 = Some (Inr i, b')))"
    if "same_pages b b1" and "distance (length (bm_frames b)) (bm_clock_hand b1) j
        + (if fr_referenced (bm_frames b1 ! j) then length (bm_frames b) else 0) < n" for d' b1
    using Suc.IH [OF pool_ok_same_pages [OF Suc.prems(1) that(1)] full_same_pages [OF that(1) Suc.prems(2)], of d']
      same_pages_length [OF that(1)] same_pages_frame(6,7) [OF that(1) Suc.prems(3)] Suc.prems(3,4) that(2)
    by (simp cong: if_cong)
  have unref: "same_pages b (set_frame ?i (?f\<lparr>fr_referenced := False\<rparr>) (advance b))"
    by (rule same_pages_trans [OF same_pages_advance same_pages_touch]) (use i in \<open>simp_all add: advance_def\<close>)
  note dist = distance_step [OF i Suc.prems(3)]
  show ?case
  proof (cases "?i = j")
    case True
    show ?thesis
    proof (cases "fr_referenced ?f")
      case True
      with \<open>?i = j\<close> Suc.prems(4,5) dist(2) i show ?thesis
        using turn step [OF unref, of d] by (simp add: set_frame_def advance_def)
    next
      case False
      with \<open>?i = j\<close> Suc.prems(4) show ?thesis
        using turn clock_loop_dirty_seen [of "if d = None then Some k else d" n "advance b"] by (auto split: if_splits)
    qed
  next
    case False
    then have "distance (length (bm_frames b)) ((?i + 1) mod length (bm_frames b)) j
        + (if fr_referenced (bm_frames b ! j) then length (bm_frames b) else 0) < n"
      using dist(1) Suc.prems(5) by linarith
    then show ?thesis
      using False turn step [OF same_pages_advance] step [OF unref] by (simp add: set_frame_def advance_def)
  qed
qed simp

end
