(* ===== verification/Buffer_Machine.thy ===== *)
theory Buffer_Machine
  imports Buffer_Invariant
begin

text \<open>
  The buffer pool as a machine: every call of the manager, the release of a guard and the writes of the
  storage engine to its device are steps on a world of pool, live guards and device images. The pool is
  transparent: the content of a page is the cached image, or the device image of a page that is not cached,
  and no call but a write through a guard changes it.
\<close>

section \<open>Finding a frame\<close>

definition evictable :: "frame \<Rightarrow> bool" where
  "evictable f \<longleftrightarrow> is_free f \<or> (\<not> is_pinned f \<and> \<not> is_dirty f)"

definition frame_taken :: "buffer_manager \<Rightarrow> nat \<Rightarrow> buffer_manager \<Rightarrow> bool" where
  "frame_taken b i b' \<longleftrightarrow> i < length (bm_frames b) \<and> (same_pages b b' \<and> is_free (bm_frames b ! i) \<or> evicted_from b i b')"

definition refusal :: "buffer_manager \<Rightarrow> buffer_error \<Rightarrow> bool" where
  "refusal b e \<longleftrightarrow>
     (if bm_frames b = [] then e = EmptyPool
      else if \<forall>f \<in> set (bm_frames b). is_pinned f then e = AllFramesPinned
      else \<exists>k. e = DirtyPage (logical_page_id k) \<and> dirty_candidate b k)"

lemma evicted_from_ok:
  assumes ok: "pool_ok b" and e: "evicted_from b i b'"
  shows "pool_ok b'" and "i < length (bm_frames b)" and "is_free (bm_frames b' ! i)"
proof -
  obtain b1 k upd where s: "same_pages b b1" and k: "Mapping.lookup (bm_page_map b) k = Some i"
    and p: "\<not> is_pinned (bm_frames b ! i)" and u: "frees_one upd" and b': "b' = release upd k i b1"
    using e unfolding evicted_from_def by blast
  show i: "i < length (bm_frames b)" by (rule pool_ok_bound [OF ok k])
  have k1: "Mapping.lookup (bm_page_map b1) k = Some i" using s k by (simp add: same_pages_def)
  have "fr_guards (bm_frames b1 ! i) = 0"
    using p same_pages_frame(4) [OF s i] by (simp add: is_pinned_def strong_count_def)
  from pool_ok_release [OF pool_ok_same_pages [OF ok s] k1 this u]
  show "pool_ok b'" by (simp add: b')
  show "is_free (bm_frames b' ! i)"
    using i same_pages_length [OF s] by (simp add: b' release_def on_stats_def set_frame_def)
qed

lemma clock_evict_exact:
  assumes ok: "pool_ok b" and full: "\<forall>f \<in> set (bm_frames b). \<not> is_free f" and ne: "bm_frames b \<noteq> []"
  obtains r b' where "clock_evict b = Some (r, b')" and "clock_outcome b r b'"
    and "(\<exists>i. r = Inr i) = (\<exists>f \<in> set (bm_frames b). evictable f)"
    and "r = Inl AllFramesPinned \<longleftrightarrow> (\<forall>f \<in> set (bm_frames b). is_pinned f)"
proof -
  let ?len = "length (bm_frames b)"
  have run: "clock_evict b = clock_loop (2 * ?len) None b"
    using pool_ok_size [OF ok] by (simp add: clock_evict_def usize_saturating_mul_def mult.commute)
  obtain r b' where r: "clock_evict b = Some (r, b')" and out: "clock_outcome b r b'"
    using clock_loop_outcome [OF ok full ne, of None "2 * ?len"] run by auto
  have near: "distance ?len (bm_clock_hand b) j + (if fr_referenced (bm_frames b ! j) then ?len else 0) < 2 * ?len"
    if "j < ?len" for j
    using that pool_ok_hand [OF ok ne] by (auto simp: distance_def)
  have reach: "r \<noteq> Inl AllFramesPinned \<and> (\<not> is_dirty (bm_frames b ! j) \<longrightarrow> (\<exists>i. r = Inr i))"
    if "j < ?len" and "\<not> is_pinned (bm_frames b ! j)" for j
    using clock_loop_finds [OF ok full that near [OF that(1)], of None] r run by auto
  have victim: "\<not> is_pinned (bm_frames b ! i) \<and> \<not> is_dirty (bm_frames b ! i) \<and> i < ?len" if "r = Inr i" for i
    using out that by (auto simp: clock_outcome_def evicted_from_def)
  have "(\<exists>i. r = Inr i) = (\<exists>f \<in> set (bm_frames b). evictable f)"
  proof
    assume "\<exists>i. r = Inr i"
    then obtain i where "r = Inr i" ..
    from victim [OF this] show "\<exists>f \<in> set (bm_frames b). evictable f"
      by (intro bexI [of _ "bm_frames b ! i"]) (simp_all add: evictable_def)
  next
    assume "\<exists>f \<in> set (bm_frames b). evictable f"
    then obtain f where f: "f \<in> set (bm_frames b)" "evictable f" ..
    then obtain j where "j < ?len" "f = bm_frames b ! j" by (auto simp: in_set_conv_nth)
    then show "\<exists>i. r = Inr i" using f full reach by (auto simp: evictable_def)
  qed
  moreover have "r = Inl AllFramesPinned \<longleftrightarrow> (\<forall>f \<in> set (bm_frames b). is_pinned f)"
  proof
    assume "r = Inl AllFramesPinned"
    then show "\<forall>f \<in> set (bm_frames b). is_pinned f" using reach by (metis in_set_conv_nth)
  next
    assume "\<forall>f \<in> set (bm_frames b). is_pinned f"
    then show "r = Inl AllFramesPinned"
      using out victim by (cases r) (auto simp: clock_outcome_def dirty_candidate_def)
  qed
  ultimately show thesis using that r out by blast
qed

lemma find_free_frame_exact:
  assumes ok: "pool_ok b"
  obtains r b' where "find_free_frame b = Some (r, b')"
    and "case r of Inr i \<Rightarrow> frame_taken b i b' | Inl e \<Rightarrow> same_pages b b' \<and> refusal b e"
    and "(\<exists>i. r = Inr i) = (\<exists>f \<in> set (bm_frames b). evictable f)"
proof (cases "bm_frames b = []")
  case True
  then show thesis using that by (simp add: find_free_frame_def refusal_def)
next
  case ne: False
  show thesis
  proof (cases "position is_free (bm_frames b)")
    case (Some i)
    then have "i < length (bm_frames b)" "is_free (bm_frames b ! i)" by (auto dest: position_Some)
    moreover from this have "\<exists>f \<in> set (bm_frames b). evictable f" by (auto simp: evictable_def)
    ultimately show thesis
      using that [of "Inr i" b] ne Some by (simp add: find_free_frame_def frame_taken_def)
  next
    case None
    then have full: "\<forall>f \<in> set (bm_frames b). \<not> is_free f" by (simp add: position_None)
    define b0 where "b0 = on_stats (\<lambda>s. s\<lparr>st_eviction_attempts := st_eviction_attempts s + 1\<rparr>) b"
    have s0: "same_pages b b0" unfolding b0_def by (rule same_pages_stats) simp_all
    have f0: "bm_frames b0 = bm_frames b" by (simp add: b0_def on_stats_def)
    obtain r b1 where r: "clock_evict b0 = Some (r, b1)" and out: "clock_outcome b0 r b1"
      and ex: "(\<exists>i. r = Inr i) = (\<exists>f \<in> set (bm_frames b). evictable f)"
      and pin: "r = Inl AllFramesPinned \<longleftrightarrow> (\<forall>f \<in> set (bm_frames b). is_pinned f)"
      by (rule clock_evict_exact [OF pool_ok_same_pages [OF ok s0], unfolded f0, OF full ne]) blast
    have out: "clock_outcome b r b1" by (rule clock_outcome_same_pages [OF s0 out])
    have s2: "same_pages b1 (on_stats (\<lambda>s. s\<lparr>st_eviction_refusals := st_eviction_refusals s + 1\<rparr>) b1)"
      by (rule same_pages_stats) simp_all
    show thesis
    proof (cases r)
      case (Inl e)
      then have "find_free_frame b = Some (Inl e, on_stats (\<lambda>s. s\<lparr>st_eviction_refusals := st_eviction_refusals s + 1\<rparr>) b1)"
        using r None ne by (simp add: find_free_frame_def b0_def)
      moreover have "same_pages b b1 \<and> refusal b e"
        using Inl out pin ne unfolding clock_outcome_def refusal_def by auto
      ultimately show thesis
        using that [of "Inl e"] ex Inl same_pages_trans [OF _ s2] by simp
    next
      case (Inr i)
      then show thesis
        using that [of "Inr i" b1] r None ne out ex by (simp add: find_free_frame_def b0_def clock_outcome_def frame_taken_def)
    qed
  qed
qed

section \<open>Worlds\<close>

definition cached :: "buffer_manager \<Rightarrow> page_cache_key \<Rightarrow> frame option" where
  "cached b k = map_option (\<lambda>i. bm_frames b ! i) (Mapping.lookup (bm_page_map b) k)"

text \<open>The content of a page as the storage engine sees it: the cached image, or the image on the device.\<close>

type_synonym device_images = "page_cache_key \<Rightarrow> bytes option"

definition content :: "buffer_manager \<Rightarrow> device_images \<Rightarrow> page_cache_key \<Rightarrow> bytes option" where
  "content b device k = (case cached b k of Some f \<Rightarrow> Some (fr_data f) | None \<Rightarrow> device k)"

definition guard_count :: "page_guard list \<Rightarrow> nat \<Rightarrow> nat" where
  "guard_count gs i = length (filter (\<lambda>g. pg_frame_index g = i) gs)"

definition guards_ok :: "buffer_manager \<Rightarrow> page_guard list \<Rightarrow> bool" where
  "guards_ok b gs \<longleftrightarrow>
     (\<forall>g \<in> set gs. pg_frame_index g < length (bm_frames b) \<and> (is_writable g \<longrightarrow> is_dirty (bm_frames b ! pg_frame_index g))) \<and>
     (\<forall>i < length (bm_frames b). fr_guards (bm_frames b ! i) = guard_count gs i)"

definition coherent :: "buffer_manager \<Rightarrow> device_images \<Rightarrow> bool" where
  "coherent b device \<longleftrightarrow> (\<forall>k f. cached b k = Some f \<longrightarrow> fr_state f = Clean \<longrightarrow> device k = Some (fr_data f))"

definition world_ok :: "buffer_manager \<Rightarrow> page_guard list \<Rightarrow> device_images \<Rightarrow> bool" where
  "world_ok b gs d \<longleftrightarrow> pool_ok b \<and> guards_ok b gs \<and> coherent b d"

lemma cached_Some: "cached b k = Some f \<longleftrightarrow> (\<exists>i. Mapping.lookup (bm_page_map b) k = Some i \<and> f = bm_frames b ! i)"
  by (auto simp: cached_def)

lemma cached_same_pages:
  assumes "pool_ok b" and "same_pages b b'"
  shows "map_option unref (cached b' k) = map_option unref (cached b k)"
proof (cases "Mapping.lookup (bm_page_map b) k")
  case (Some i)
  then show ?thesis
    using same_pages_nth [OF assms(2) pool_ok_bound [OF assms(1) Some]] assms(2) by (simp add: cached_def same_pages_def)
qed (use assms(2) in \<open>simp add: cached_def same_pages_def\<close>)

lemma mapped_inj:
  assumes "pool_ok b" and "Mapping.lookup (bm_page_map b) k = Some i" and "Mapping.lookup (bm_page_map b) k' = Some i"
  shows "k' = k"
  using pool_ok_key [OF assms(1,2)] pool_ok_key [OF assms(1,3)] by simp

lemma cached_set_frame:
  assumes ok: "pool_ok b" and k: "Mapping.lookup (bm_page_map b) k = Some i"
  shows "cached (set_frame i f b) k' = (if k' = k then Some f else cached b k')"
proof (cases "Mapping.lookup (bm_page_map b) k'")
  case (Some j)
  then show ?thesis
    using mapped_inj [OF ok k, of k'] pool_ok_bound [OF ok k] k by (auto simp: cached_def set_frame_def nth_list_update)
qed (use k in \<open>auto simp: cached_def set_frame_def\<close>)

lemma cached_release:
  assumes ok: "pool_ok b" and k: "Mapping.lookup (bm_page_map b) k = Some i"
  shows "cached (release upd k i b) k' = (if k' = k then None else cached b k')"
proof (cases "Mapping.lookup (bm_page_map b) k'")
  case (Some j)
  then show ?thesis
    using mapped_inj [OF ok k, of k'] pool_ok_bound [OF ok k]
    by (auto simp: cached_def release_def on_stats_def set_frame_def nth_list_update lookup_delete_if)
qed (auto simp: cached_def release_def on_stats_def set_frame_def lookup_delete_if)

lemma cached_store_page:
  assumes ok: "pool_ok b" and i: "i < length (bm_frames b)" and free: "is_free (bm_frames b ! i)"
  shows "cached (store_page i k f b) k' = (if k' = k then Some f else cached b k')"
proof (cases "Mapping.lookup (bm_page_map b) k'")
  case (Some j)
  then have "j \<noteq> i" using pool_ok_mapped(2) [OF ok Some] free by auto
  then show ?thesis
    using Some i by (auto simp: cached_def store_page_def on_stats_def set_frame_def nth_list_update lookup_update_if)
qed (use i in \<open>auto simp: cached_def store_page_def on_stats_def set_frame_def lookup_update_if\<close>)

text \<open>The three primitive changes on a world.\<close>

lemma world_okD:
  assumes "world_ok b gs d"
  shows world_pool_ok: "pool_ok b" and world_guards_ok: "guards_ok b gs" and world_coherent: "coherent b d"
  using assms by (simp_all add: world_ok_def)

lemma world_same_pages:
  assumes w: "world_ok b gs d" and s: "same_pages b b'"
  shows "world_ok b' gs d" and "content b' d = content b d"
proof -
  note ok = world_pool_ok [OF w]
  have c: "map_option unref (cached b' k) = map_option unref (cached b k)" for k
    by (rule cached_same_pages [OF ok s])
  have "guards_ok b' gs"
    using world_guards_ok [OF w] same_pages_frame [OF s] same_pages_length [OF s] by (auto simp: guards_ok_def)
  moreover have "coherent b' d"
    unfolding coherent_def
  proof (intro allI impI)
    fix k f
    assume "cached b' k = Some f" and "fr_state f = Clean"
    with c [of k] obtain f' where "cached b k = Some f'" "unref f' = unref f"
      by (cases "cached b k") auto
    with w \<open>fr_state f = Clean\<close> show "d k = Some (fr_data f)"
      unfolding world_ok_def coherent_def by (metis unref_simps(1,3))
  qed
  ultimately show "world_ok b' gs d"
    using pool_ok_same_pages [OF ok s] by (simp add: world_ok_def)
  have "map_option fr_data (cached b' k) = map_option fr_data (cached b k)" for k
    using arg_cong [OF c [of k], of "map_option fr_data"] by (simp add: option.map_comp comp_def)
  then show "content b' d = content b d"
    by (auto simp: content_def fun_eq_iff split: option.splits) (metis option.map_disc_iff option.distinct(1) option.inject option.simps(9))+
qed

lemma world_rewrite:
  assumes w: "world_ok b gs d" and k: "Mapping.lookup (bm_page_map b) k = Some i"
    and f: "fr_page_key f = Some k" "\<not> is_free f" "length (fr_data f) = PAGE_SIZE" "fr_pinned f = (fr_pin_count f \<noteq> 0)"
    and g: "fr_guards f = guard_count gs' i" "\<And>j. j \<noteq> i \<Longrightarrow> guard_count gs' j = guard_count gs j"
      "\<forall>g \<in> set gs'. g \<in> set gs \<or> pg_frame_index g = i"
      "\<forall>g \<in> set gs'. pg_frame_index g = i \<longrightarrow> is_writable g \<longrightarrow> is_dirty f"
    and c: "fr_state f = Clean \<Longrightarrow> d k = Some (fr_data f)"
  shows "world_ok (set_frame i f b) gs' d" and "content (set_frame i f b) d = (content b d)(k \<mapsto> fr_data f)"
proof -
  note ok = world_pool_ok [OF w]
  note i = pool_ok_bound [OF ok k]
  have "pool_ok (set_frame i f b)"
    by (rule pool_ok_rewrite [OF ok i])
      (use f k pool_ok_key [OF ok k] pool_ok_mapped(2) [OF ok k] in \<open>auto simp: frame_ok_def\<close>)
  moreover have "guards_ok (set_frame i f b) gs'"
    using w i g unfolding world_ok_def guards_ok_def set_frame_def by (fastforce simp: nth_list_update)
  moreover have "coherent (set_frame i f b) d"
    using w c unfolding world_ok_def coherent_def cached_set_frame [OF ok k] by auto
  ultimately show "world_ok (set_frame i f b) gs' d"
    by (simp add: world_ok_def)
  show "content (set_frame i f b) d = (content b d)(k \<mapsto> fr_data f)"
    by (auto simp: content_def fun_eq_iff cached_set_frame [OF ok k])
qed

lemma guard_count_zero: "guard_count gs i = 0 \<longleftrightarrow> (\<forall>g \<in> set gs. pg_frame_index g \<noteq> i)"
  by (simp add: guard_count_def filter_empty_conv)

lemma world_release:
  assumes w: "world_ok b gs d" and k: "Mapping.lookup (bm_page_map b) k = Some i"
    and p: "\<not> is_pinned (bm_frames b ! i)" and d: "d k = Some (fr_data (bm_frames b ! i))" and u: "frees_one upd"
  shows "world_ok (release upd k i b) gs d" and "content (release upd k i b) d = content b d"
proof -
  note ok = world_pool_ok [OF w]
  note i = pool_ok_bound [OF ok k]
  have g0: "fr_guards (bm_frames b ! i) = 0" using p by (simp add: is_pinned_def strong_count_def)
  then have none: "\<forall>g \<in> set gs. pg_frame_index g \<noteq> i"
    using world_guards_ok [OF w] i unfolding guards_ok_def by (simp add: guard_count_zero [symmetric])
  have "pool_ok (release upd k i b)" by (rule pool_ok_release [OF ok k g0 u])
  moreover have "guards_ok (release upd k i b) gs"
    using world_guards_ok [OF w] none g0 i unfolding guards_ok_def release_def on_stats_def set_frame_def
    by (auto simp: nth_list_update frame_clear_def)
  moreover have "coherent (release upd k i b) d"
    using w unfolding world_ok_def coherent_def cached_release [OF ok k] by auto
  ultimately show "world_ok (release upd k i b) gs d" by (simp add: world_ok_def)
  show "content (release upd k i b) d = content b d"
    using k d by (auto simp: content_def fun_eq_iff cached_release [OF ok k] cached_def [of _ k])
qed

definition loaded :: "frame \<Rightarrow> page_cache_key \<Rightarrow> bytes \<Rightarrow> guard_access \<Rightarrow> frame" where
  "loaded f k data access = mark_for access (acquire_guard (frame_load f k data))"

lemma loaded_simps [simp]:
  "fr_page_key (loaded f k data access) = Some k" "\<not> is_free (loaded f k data access)"
  "fr_data (loaded f k data access) = data" "fr_pinned (loaded f k data access) = fr_pinned f"
  "fr_pin_count (loaded f k data access) = fr_pin_count f" "fr_guards (loaded f k data access) = fr_guards f + 1"
  "is_dirty (loaded f k data access) \<longleftrightarrow> access = WriteAccess"
  by (simp_all add: loaded_def mark_for_def acquire_guard_def frame_load_def frame_mark_dirty_def is_free_def is_dirty_def)

lemma page_guard_new_simps [simp]:
  "pg_frame_index (page_guard_new i k access) = i" "is_writable (page_guard_new i k access) \<longleftrightarrow> access = WriteAccess"
  "pg_page_id (page_guard_new i k access) = logical_page_id k"
  by (simp_all add: page_guard_new_def is_writable_def)

lemma guard_count_Cons [simp]:
  "guard_count (g # gs) i = (if pg_frame_index g = i then guard_count gs i + 1 else guard_count gs i)"
  by (simp add: guard_count_def)

lemma mark_guard_simps [simp]:
  "fr_page_key (mark_for access (acquire_guard f)) = fr_page_key f" "fr_data (mark_for access (acquire_guard f)) = fr_data f"
  "fr_pinned (mark_for access (acquire_guard f)) = fr_pinned f" "fr_pin_count (mark_for access (acquire_guard f)) = fr_pin_count f"
  "fr_guards (mark_for access (acquire_guard f)) = fr_guards f + 1"
  "fr_state (mark_for access (acquire_guard f)) = (if access = WriteAccess then Dirty else fr_state f)"
  "is_free (mark_for access (acquire_guard f)) \<longleftrightarrow> access \<noteq> WriteAccess \<and> is_free f"
  "is_dirty (mark_for access (acquire_guard f)) \<longleftrightarrow> access = WriteAccess \<or> is_dirty f"
  by (simp_all add: mark_for_def acquire_guard_def frame_mark_dirty_def is_free_def is_dirty_def)

lemma world_store:
  fixes access :: guard_access
  assumes w: "world_ok b gs d" and i: "i < length (bm_frames b)" and free: "is_free (bm_frames b ! i)"
    and k: "Mapping.lookup (bm_page_map b) k = None" and d: "d k = Some data" "length data = PAGE_SIZE"
  defines "b' \<equiv> store_page i k (loaded (bm_frames b ! i) k data access) b"
  shows "st_free_frames (bm_stats b) > 0" and "world_ok b' (page_guard_new i k access # gs) d" and "content b' d = content b d"
proof -
  let ?f = "loaded (bm_frames b ! i) k data access"
  note ok = world_pool_ok [OF w] and gok = world_guards_ok [OF w]
  have fok: "fr_guards (bm_frames b ! i) = 0 \<and> fr_pin_count (bm_frames b ! i) = 0 \<and> \<not> fr_pinned (bm_frames b ! i)"
    using pool_ok_frame [OF ok i] free by (simp add: frame_ok_def)
  then have c0: "guard_count gs i = 0" using gok i by (simp add: guards_ok_def)
  have load: "st_free_frames (bm_stats b) > 0" "pool_ok (store_page i k ?f b)"
    using pool_ok_load [OF ok i free k, of ?f] fok d(2) by simp_all
  then show "st_free_frames (bm_stats b) > 0" by blast
  have "guards_ok (store_page i k ?f b) (page_guard_new i k access # gs)"
    using gok i fok c0 guard_count_zero [of gs i] unfolding guards_ok_def store_page_def on_stats_def set_frame_def
    by (auto simp: nth_list_update)
  moreover have "coherent (store_page i k ?f b) d"
    using w d unfolding world_ok_def coherent_def cached_store_page [OF ok i free] by auto
  ultimately show "world_ok b' (page_guard_new i k access # gs) d" using load(2) by (simp add: world_ok_def b'_def)
  show "content b' d = content b d"
    using k d by (auto simp: b'_def content_def fun_eq_iff cached_store_page [OF ok i free] cached_def [of b k])
qed

section \<open>The operations on a world\<close>

lemma world_frame:
  assumes w: "world_ok b gs d" and k: "Mapping.lookup (bm_page_map b) k = Some i"
  defines "f \<equiv> bm_frames b ! i"
  shows "frame_at b i = Some f" and "fr_page_key f = Some k" and "\<not> is_free f"
    and "length (fr_data f) = PAGE_SIZE" and "fr_pinned f = (fr_pin_count f \<noteq> 0)"
    and "fr_guards f = guard_count gs i" and "i < length (bm_frames b)"
    and "\<forall>g \<in> set gs. pg_frame_index g = i \<longrightarrow> is_writable g \<longrightarrow> is_dirty f"
    and "fr_state f = Clean \<Longrightarrow> d k = Some (fr_data f)"
    and "content b d k = Some (fr_data f)"
proof -
  note ok = world_pool_ok [OF w]
  note i = pool_ok_bound [OF ok k]
  show "i < length (bm_frames b)" by (rule i)
  show "frame_at b i = Some f" and nf: "\<not> is_free f" using pool_ok_mapped [OF ok k] by (simp_all add: f_def)
  show "fr_page_key f = Some k" using pool_ok_key [OF ok k] by (simp add: f_def)
  show "length (fr_data f) = PAGE_SIZE" and "fr_pinned f = (fr_pin_count f \<noteq> 0)"
    using pool_ok_frame [OF ok i] nf by (simp_all add: frame_ok_def f_def)
  show "fr_guards f = guard_count gs i"
    and "\<forall>g \<in> set gs. pg_frame_index g = i \<longrightarrow> is_writable g \<longrightarrow> is_dirty f"
    using world_guards_ok [OF w] i by (auto simp: guards_ok_def f_def)
  show "fr_state f = Clean \<Longrightarrow> d k = Some (fr_data f)"
    using world_coherent [OF w] k by (auto simp: coherent_def cached_Some f_def)
  show "content b d k = Some (fr_data f)" by (simp add: content_def cached_def k f_def)
qed

text \<open>A frame is rewritten without a change of its data.\<close>

lemma world_touch:
  assumes w: "world_ok b gs d" and k: "Mapping.lookup (bm_page_map b) k = Some i"
    and f: "fr_page_key f = Some k" "\<not> is_free f" "fr_data f = fr_data (bm_frames b ! i)"
      "fr_pinned f = (fr_pin_count f \<noteq> 0)" "fr_guards f = fr_guards (bm_frames b ! i)"
    and s: "fr_state f = Dirty \<or> fr_state f = fr_state (bm_frames b ! i)"
  shows "world_ok (set_frame i f b) gs d" and "content (set_frame i f b) d = content b d"
proof -
  note wf = world_frame [OF w k]
  have "world_ok (set_frame i f b) gs d" and "content (set_frame i f b) d = (content b d)(k \<mapsto> fr_data f)"
    by (rule world_rewrite [OF w k, where gs' = gs]; use f s wf in \<open>auto simp: is_dirty_def\<close>)+
  then show "world_ok (set_frame i f b) gs d" and "content (set_frame i f b) d = content b d"
    using wf(10) f(3) by (simp_all add: fun_upd_idem)
qed

lemma fetch_hit:
  assumes w: "world_ok b gs d" and k: "Mapping.lookup (bm_page_map b) k = Some i"
  obtains b' where "fetch_key b k data access = Some (Inr (page_guard_new i k access), b')"
    and "world_ok b' (page_guard_new i k access # gs) d" and "content b' d = content b d"
proof -
  note wf = world_frame [OF w k]
  let ?b = "set_frame i (mark_for access (acquire_guard (bm_frames b ! i))) b"
  have w1: "world_ok ?b (page_guard_new i k access # gs) d"
    and c1: "content ?b d = (content b d)(k \<mapsto> fr_data (mark_for access (acquire_guard (bm_frames b ! i))))"
    by (rule world_rewrite [OF w k, where gs' = "page_guard_new i k access # gs"]; use wf in \<open>auto split: if_splits\<close>)+
  have s: "same_pages ?b (on_stats (\<lambda>s. s\<lparr>st_hits := st_hits s + 1\<rparr>) ?b)"
    by (rule same_pages_stats) simp_all
  have c: "content ?b d = content b d" using c1 wf(10) by (simp add: fun_upd_idem)
  have "fetch_key b k data access = Some (Inr (page_guard_new i k access), on_stats (\<lambda>s. s\<lparr>st_hits := st_hits s + 1\<rparr>) ?b)"
    using k wf(1,3) by (simp add: fetch_key_def)
  then show thesis
    by (rule that) (use world_same_pages [OF w1 s] c in simp_all)
qed

text \<open>A fetch of a page that is not cached takes a frame, or fails and leaves every page.\<close>

lemma evicted_from_world:
  assumes w: "world_ok b gs d" and e: "evicted_from b i b'"
  shows "world_ok b' gs d" and "content b' d = content b d"
proof -
  obtain b1 k upd where s: "same_pages b b1" and k: "Mapping.lookup (bm_page_map b) k = Some i"
    and p: "\<not> is_pinned (bm_frames b ! i)" and c: "\<not> is_dirty (bm_frames b ! i)" and u: "frees_one upd"
    and b': "b' = release upd k i b1"
    using e unfolding evicted_from_def by blast
  note wf = world_frame [OF w k]
  note w1 = world_same_pages [OF w s]
  have k1: "Mapping.lookup (bm_page_map b1) k = Some i" using s k by (simp add: same_pages_def)
  have "d k = Some (fr_data (bm_frames b1 ! i))"
    using wf(3,9) c same_pages_frame(1) [OF s wf(7)] by (cases "fr_state (bm_frames b ! i)") (auto simp: is_free_def is_dirty_def)
  moreover have "\<not> is_pinned (bm_frames b1 ! i)" using p same_pages_frame(7) [OF s wf(7)] by simp
  ultimately show "world_ok b' gs d" and "content b' d = content b d"
    using world_release [OF w1(1) k1 _ _ u] w1(2) by (simp_all add: b')
qed

lemma frame_taken_world:
  assumes w: "world_ok b gs d" and t: "frame_taken b i b'"
  shows "world_ok b' gs d" and "content b' d = content b d" and "i < length (bm_frames b')" and "is_free (bm_frames b' ! i)"
    and "\<And>k. Mapping.lookup (bm_page_map b) k = None \<Longrightarrow> Mapping.lookup (bm_page_map b') k = None"
proof -
  have i: "i < length (bm_frames b)" and or: "same_pages b b' \<and> is_free (bm_frames b ! i) \<or> evicted_from b i b'"
    using t by (simp_all add: frame_taken_def)
  show "world_ok b' gs d" and "content b' d = content b d"
    using or world_same_pages [OF w] evicted_from_world [OF w] by blast+
  show "is_free (bm_frames b' ! i)"
    using or same_pages_frame(5) [OF _ i] evicted_from_ok [OF world_pool_ok [OF w]] by blast
  show "i < length (bm_frames b')"
    using or i same_pages_length by (auto simp: evicted_from_def release_def on_stats_def set_frame_def)
  show "Mapping.lookup (bm_page_map b') k = None" if "Mapping.lookup (bm_page_map b) k = None" for k
    using or that by (auto simp: evicted_from_def release_def on_stats_def set_frame_def same_pages_def lookup_delete_if split: if_splits)
qed

lemma fetch_miss:
  assumes w: "world_ok b gs d" and k: "Mapping.lookup (bm_page_map b) k = None"
    and d: "d k = Some data" "length data = PAGE_SIZE"
  obtains (taken) i b' where "fetch_key b k data access = Some (Inr (page_guard_new i k access), b')"
      and "world_ok b' (page_guard_new i k access # gs) d" and "content b' d = content b d"
      and "\<exists>f \<in> set (bm_frames b). evictable f"
    | (refused) e b' where "fetch_key b k data access = Some (Inl e, b')" and "same_pages b b'" and "refusal b e"
      and "\<not> (\<exists>f \<in> set (bm_frames b). evictable f)"
proof -
  obtain r b1 where r: "find_free_frame b = Some (r, b1)"
    and t: "case r of Inr i \<Rightarrow> frame_taken b i b1 | Inl e \<Rightarrow> same_pages b b1 \<and> refusal b e"
    and ex: "(\<exists>i. r = Inr i) = (\<exists>f \<in> set (bm_frames b). evictable f)"
    by (rule find_free_frame_exact [OF world_pool_ok [OF w]]) blast
  show thesis
  proof (cases r)
    case (Inl e)
    then have "fetch_key b k data access = Some (Inl e, b1)" using r k by (simp add: fetch_key_def)
    with Inl t ex show thesis by (intro refused) auto
  next
    case (Inr i)
    then have ft: "frame_taken b i b1" using t by simp
    let ?b2 = "on_stats (\<lambda>s. s\<lparr>st_reads := st_reads s + 1\<rparr>) b1"
    note w1 = frame_taken_world [OF w ft]
    have "same_pages b1 ?b2" by (rule same_pages_stats) simp_all
    note w2 = world_same_pages [OF w1(1) this]
    have i: "i < length (bm_frames ?b2)" "is_free (bm_frames ?b2 ! i)" and k2: "Mapping.lookup (bm_page_map ?b2) k = None"
      using w1(3,4) w1(5) [OF k] by (simp_all add: on_stats_def)
    note w3 = world_store(1) [OF w2(1) i k2 d] world_store(2,3) [OF w2(1) i k2 d, where access = access]
    have "fetch_key b k data access = Some (Inr (page_guard_new i k access), store_page i k (loaded (bm_frames ?b2 ! i) k data access) ?b2)"
      using r Inr k i(1) w3(1) by (simp add: fetch_key_def frame_at_def store_page_def loaded_def Let_def set_frame_def on_stats_def)
    then show thesis using taken w3(2,3) w2(2) w1(2) ex Inr by auto
  qed
qed

end
