(* ===== verification/Buffer_Worlds.thy ===== *)
theory Buffer_Worlds
  imports Buffer_Machine
begin

text \<open>
  The guard, pin, write-back, eviction and rekeying operations of the buffer pool on a world: each of them
  returns, keeps the invariant, and changes the content of no page but through a write guard.
\<close>

section \<open>Guards and pins\<close>

lemma guard_page:
  assumes w: "world_ok b gs d" and g: "g \<in> set gs"
  obtains k where "Mapping.lookup (bm_page_map b) k = Some (pg_frame_index g)"
    and "fr_page_key (bm_frames b ! pg_frame_index g) = Some k"
    and "is_pinned (bm_frames b ! pg_frame_index g)" and "pg_frame_index g < length (bm_frames b)"
proof -
  let ?i = "pg_frame_index g"
  note ok = world_pool_ok [OF w]
  have i: "?i < length (bm_frames b)" and c: "fr_guards (bm_frames b ! ?i) = guard_count gs ?i"
    using world_guards_ok [OF w] g by (auto simp: guards_ok_def)
  have n: "guard_count gs ?i \<noteq> 0" using g by (auto simp: guard_count_zero)
  then have "\<not> is_free (bm_frames b ! ?i)"
    using pool_ok_frame [OF ok i] c by (auto simp: frame_ok_def)
  then show thesis
    using pool_ok_resident [OF ok i] that i n c by (metis is_pinned_def strong_count_def add_gr_0 less_add_same_cancel1 neq0_conv)
qed

lemma guard_count_remove1:
  "g \<in> set gs \<Longrightarrow> guard_count (remove1 g gs) i = (if pg_frame_index g = i then guard_count gs i - 1 else guard_count gs i)"
  by (auto simp: guard_count_def filter_remove1 length_remove1)

lemma drop_guard_world:
  assumes w: "world_ok b gs d" and g: "g \<in> set gs"
  obtains b' where "drop_guard b g = Some b'" and "world_ok b' (remove1 g gs) d" and "content b' d = content b d"
proof -
  obtain k where k: "Mapping.lookup (bm_page_map b) k = Some (pg_frame_index g)" by (rule guard_page [OF w g])
  note wf = world_frame [OF w k]
  let ?f = "(bm_frames b ! pg_frame_index g)\<lparr>fr_guards := fr_guards (bm_frames b ! pg_frame_index g) - 1\<rparr>"
  have w1: "world_ok (set_frame (pg_frame_index g) ?f b) (remove1 g gs) d"
    and c1: "content (set_frame (pg_frame_index g) ?f b) d = (content b d)(k \<mapsto> fr_data ?f)"
    by (rule world_rewrite [OF w k, where gs' = "remove1 g gs"];
      use wf set_remove1_subset [of g gs] in \<open>auto simp: guard_count_remove1 [OF g] is_free_def is_dirty_def\<close>)+
  have "drop_guard b g = Some (set_frame (pg_frame_index g) ?f b)"
    using wf(1) by (simp add: drop_guard_def)
  then show thesis by (rule that) (use w1 c1 wf(10) in \<open>simp_all add: fun_upd_idem\<close>)
qed

lemma frame_data_mut_world:
  assumes w: "world_ok b gs d" and g: "g \<in> set gs" "is_writable g" and len: "\<And>x. length (change x) = length x"
    and k: "fr_page_key (bm_frames b ! pg_frame_index g) = Some k"
  obtains b' where "frame_data_mut b g change = Some (Inr (), b')" and "world_ok b' gs d"
    and "content b' d = (content b d)(k \<mapsto> change (fr_data (bm_frames b ! pg_frame_index g)))"
proof -
  obtain k' where k': "Mapping.lookup (bm_page_map b) k' = Some (pg_frame_index g)"
    and key: "fr_page_key (bm_frames b ! pg_frame_index g) = Some k'"
    by (rule guard_page [OF w g(1)]) blast
  have kk: "k' = k" using key k by simp
  note kl = k' [unfolded kk]
  note wf = world_frame [OF w kl]
  let ?f = "(bm_frames b ! pg_frame_index g)\<lparr>fr_data := change (fr_data (bm_frames b ! pg_frame_index g))\<rparr>"
  have dirty: "is_dirty (bm_frames b ! pg_frame_index g)" using wf(8) g by blast
  have w1: "world_ok (set_frame (pg_frame_index g) ?f b) gs d"
    and c1: "content (set_frame (pg_frame_index g) ?f b) d = (content b d)(k \<mapsto> fr_data ?f)"
    by (rule world_rewrite [OF w kl, where gs' = gs]; use wf dirty len in \<open>auto simp: is_free_def is_dirty_def\<close>)+
  have "frame_data_mut b g change = Some (Inr (), set_frame (pg_frame_index g) ?f b)"
    using wf(1) g(2) by (simp add: frame_data_mut_def)
  then show thesis by (rule that) (use w1 c1 in simp_all)
qed

lemma mark_dirty_world:
  assumes w: "world_ok b gs d"
  obtains b' where "mark_dirty_key b k = Some b'" and "world_ok b' gs d" and "content b' d = content b d"
proof (cases "Mapping.lookup (bm_page_map b) k")
  case None
  then show thesis using that w by (simp add: mark_dirty_key_def on_page_def)
next
  case (Some i)
  note wf = world_frame [OF w Some]
  have "mark_dirty_key b k = Some (set_frame i (frame_mark_dirty (bm_frames b ! i)) b)"
    using Some wf(1) by (simp add: mark_dirty_key_def on_page_def)
  then show thesis
    by (rule that; intro world_touch [OF w Some]) (use wf in \<open>simp_all add: frame_mark_dirty_def is_free_def\<close>)
qed

lemma frame_unpin_simps [simp]:
  "fr_page_key (frame_unpin f) = fr_page_key f" "fr_data (frame_unpin f) = fr_data f" "fr_state (frame_unpin f) = fr_state f"
  "fr_guards (frame_unpin f) = fr_guards f" "is_free (frame_unpin f) = is_free f"
  by (simp_all add: frame_unpin_def Let_def is_free_def)

lemma frame_unpin_pinned:
  "fr_pinned f = (fr_pin_count f \<noteq> 0) \<Longrightarrow> fr_pinned (frame_unpin f) = (fr_pin_count (frame_unpin f) \<noteq> 0)"
  by (auto simp: frame_unpin_def Let_def word_gt_0)

lemma unpin_world:
  assumes w: "world_ok b gs d"
  obtains b' where "unpin_key b k = Some b'" and "world_ok b' gs d" and "content b' d = content b d"
proof (cases "Mapping.lookup (bm_page_map b) k")
  case None
  then show thesis using that w by (simp add: unpin_key_def on_page_def)
next
  case (Some i)
  note wf = world_frame [OF w Some]
  have "unpin_key b k = Some (set_frame i (frame_unpin (bm_frames b ! i)) b)"
    using Some wf(1) by (simp add: unpin_key_def on_page_def)
  then show thesis
    by (rule that; intro world_touch [OF w Some]) (use wf frame_unpin_pinned in simp_all)
qed

section \<open>Write-back and eviction\<close>

lemma begin_writeback_same:
  assumes w: "world_ok b gs d"
  shows "\<exists>r b'. begin_writeback_key b k = Some (r, b') \<and> same_pages b b'"
proof (cases "Mapping.lookup (bm_page_map b) k")
  case None
  then show ?thesis by (simp add: begin_writeback_key_def)
next
  case (Some i)
  then show ?thesis
    using world_frame(1) [OF w Some] by (simp add: begin_writeback_key_def Let_def refuse_writeback_def same_pages_def)
qed

lemma begin_each_same:
  assumes "world_ok b gs d"
  shows "\<exists>r b'. begin_each ks wbs b = Some (r, b') \<and> same_pages b b'"
  using assms
proof (induction ks arbitrary: wbs b)
  case (Cons k ks)
  obtain r b1 where r: "begin_writeback_key b k = Some (r, b1)" and s: "same_pages b b1"
    using begin_writeback_same [OF Cons.prems] by blast
  have "\<exists>r b'. begin_each ks wbs' b1 = Some (r, b') \<and> same_pages b b'" for wbs'
    using Cons.IH [OF world_same_pages(1) [OF Cons.prems s]] same_pages_trans [OF s] by blast
  then show ?case using r s by (auto split: sum.splits option.splits)
qed simp

lemma finite_keys: "finite (Mapping.keys m)" for m :: "(page_cache_key, 'v) mapping"
proof -
  have "UNIV = range (\<lambda>(a, v). PageCacheKey a v)" by (auto simp: image_iff) (metis page_cache_key.exhaust)
  then have "finite (UNIV :: page_cache_key set)" by (metis finite finite_imageI)
  then show ?thesis by (rule finite_subset [OF subset_UNIV])
qed

lemma page_map_entries:
  "(k, i) \<in> set (page_map_entries b) \<longleftrightarrow> Mapping.lookup (bm_page_map b) k = Some i"
  "distinct (map fst (page_map_entries b))"
  by (auto simp: page_map_entries_def finite_keys intro: in_entriesI dest: in_entriesD)

lemma dirty_keys_total:
  "(\<And>k i. (k, i) \<in> set es \<Longrightarrow> i < length (bm_frames b)) \<Longrightarrow> \<exists>ks. dirty_keys b es = Some ks"
  by (induction es) (fastforce simp: frame_at_def)+

lemma begin_all_same:
  assumes w: "world_ok b gs d"
  obtains r b' where "begin_writeback_all b = Some (r, b')" and "same_pages b b'"
proof -
  obtain ks where "dirty_keys b (page_map_entries b) = Some ks"
    using dirty_keys_total pool_ok_bound [OF world_pool_ok [OF w]] page_map_entries(1) by metis
  then show thesis
    using that begin_each_same [OF w, of ks "[]"] by (auto simp: begin_writeback_all_def)
qed

lemma complete_world:
  assumes w: "world_ok b gs d" and dev: "d (wb_page_key wb) = Some (wb_data wb)"
  obtains r b' where "complete_writeback b wb = Some (r, b')" and "world_ok b' gs d" and "content b' d = content b d"
proof -
  have refuse: "same_pages b (refuse_writeback b)" by (simp add: refuse_writeback_def same_pages_def)
  note wr = world_same_pages [OF w refuse]
  show thesis
  proof (cases "Mapping.lookup (bm_page_map b) (wb_page_key wb)")
    case None
    then show thesis using that wr by (simp add: complete_writeback_def)
  next
    case (Some i)
    note wf = world_frame [OF w Some]
    let ?f = "bm_frames b ! i"
    show thesis
    proof (cases "is_pinned ?f \<or> \<not> is_dirty ?f \<or> fr_data ?f \<noteq> wb_data wb")
      case True
      then have "\<exists>e. complete_writeback b wb = Some (Inl e, refuse_writeback b)"
        using Some wf(1) by (auto simp: complete_writeback_def Let_def)
      then obtain e where "complete_writeback b wb = Some (Inl e, refuse_writeback b)" ..
      then show thesis by (rule that) (use wr in simp_all)
    next
      case False
      let ?b = "set_frame i (frame_mark_clean ?f) b"
      have "guard_count gs i = 0" using False wf(6) by (simp add: is_pinned_def strong_count_def)
      then have w1: "world_ok ?b gs d" and c1: "content ?b d = (content b d)(wb_page_key wb \<mapsto> fr_data ?f)"
        using world_rewrite [OF w Some, of "frame_mark_clean ?f" gs] wf False dev
        by (auto simp: frame_mark_clean_def is_free_def guard_count_zero)
      have s: "same_pages ?b (on_stats (\<lambda>s. s\<lparr>st_writes := st_writes s + 1\<rparr>) ?b)" by (rule same_pages_stats) simp_all
      have "complete_writeback b wb = Some (Inr (), on_stats (\<lambda>s. s\<lparr>st_writes := st_writes s + 1\<rparr>) ?b)"
        using False Some wf(1) by (simp add: complete_writeback_def)
      then show thesis by (rule that) (use world_same_pages [OF w1 s] c1 wf(10) in \<open>simp_all add: fun_upd_idem\<close>)
    qed
  qed
qed

lemma discard_world:
  assumes w: "world_ok b gs d" and dev: "d (wb_page_key wb) = Some (wb_data wb)"
  obtains r b' where "discard_writeback b wb = Some (r, b')" and "world_ok b' gs d" and "content b' d = content b d"
proof -
  have refuse: "same_pages b (refuse_writeback b)" by (simp add: refuse_writeback_def same_pages_def)
  note wr = world_same_pages [OF w refuse]
  let ?u = "\<lambda>s :: buffer_stats. s\<lparr>st_free_frames := st_free_frames s + 1, st_writeback_discards := st_writeback_discards s + 1\<rparr>"
  show thesis
  proof (cases "Mapping.lookup (bm_page_map b) (wb_page_key wb)")
    case None
    then show thesis using that wr by (simp add: discard_writeback_def)
  next
    case (Some i)
    note wf = world_frame [OF w Some]
    show thesis
    proof (cases "is_pinned (bm_frames b ! i) \<or> \<not> is_dirty (bm_frames b ! i) \<or> fr_data (bm_frames b ! i) \<noteq> wb_data wb")
      case True
      then have "\<exists>e. discard_writeback b wb = Some (Inl e, refuse_writeback b)"
        using Some wf(1) by (auto simp: discard_writeback_def Let_def)
      then obtain e where "discard_writeback b wb = Some (Inl e, refuse_writeback b)" ..
      then show thesis by (rule that) (use wr in simp_all)
    next
      case False
      have u: "frees_one ?u" by (simp add: frees_one_def)
      have "discard_writeback b wb = Some (Inr (), release ?u (wb_page_key wb) i b)"
        using False Some wf(1) by (simp add: discard_writeback_def release_def)
      then show thesis by (rule that) (use world_release [OF w Some _ _ u] False dev in simp_all)
    qed
  qed
qed

lemma evict_world:
  assumes w: "world_ok b gs d"
  obtains r b' where "evict_key b k = Some (r, b')" and "world_ok b' gs d" and "content b' d = content b d"
proof -
  let ?a = "on_stats (\<lambda>s. s\<lparr>st_eviction_attempts := st_eviction_attempts s + 1\<rparr>) b"
  let ?r = "on_stats (\<lambda>s. s\<lparr>st_eviction_refusals := st_eviction_refusals s + 1\<rparr>) ?a"
  let ?u = "\<lambda>s :: buffer_stats. s\<lparr>st_free_frames := st_free_frames s + 1, st_evictions := st_evictions s + 1\<rparr>"
  have a: "same_pages b ?a" by (rule same_pages_stats) simp_all
  have r: "same_pages b ?r" by (rule same_pages_trans [OF a same_pages_stats]) simp_all
  note wa = world_same_pages [OF w a] and wr = world_same_pages [OF w r]
  show thesis
  proof (cases "Mapping.lookup (bm_page_map b) k")
    case None
    then have "evict_key b k = Some (Inr (), ?a)" by (simp add: evict_key_def on_stats_def)
    then show thesis by (rule that) (use wa in simp_all)
  next
    case (Some i)
    then have k: "Mapping.lookup (bm_page_map ?a) k = Some i" by (simp add: on_stats_def)
    note wf = world_frame [OF wa(1) k]
    have same: "?a\<lparr>bm_page_map := Mapping.update k i (Mapping.delete k (bm_page_map ?a))\<rparr> = ?a"
      using k by simp
    show thesis
    proof (cases "is_pinned (bm_frames ?a ! i) \<or> is_dirty (bm_frames ?a ! i)")
      case True
      then have "\<exists>e. evict_key b k = Some (Inl e, ?r)"
        using k wf(1) same by (auto simp: evict_key_def Let_def)
      then obtain e where "evict_key b k = Some (Inl e, ?r)" ..
      then show thesis by (rule that) (use wr in simp_all)
    next
      case False
      have u: "frees_one ?u" by (simp add: frees_one_def)
      have "fr_state (bm_frames ?a ! i) = Clean"
        using False wf(3) by (cases "fr_state (bm_frames ?a ! i)") (auto simp: is_free_def is_dirty_def)
      then have "d k = Some (fr_data (bm_frames ?a ! i))" by (rule wf(9))
      moreover have "evict_key b k = Some (Inr (), release ?u k i ?a)"
        using False k wf(1) by (simp add: evict_key_def Let_def release_def)
      ultimately show thesis using that world_release [OF wa(1) k _ _ u] wa(2) False by simp
    qed
  qed
qed

section \<open>Rekeying\<close>

definition movable :: "buffer_manager \<Rightarrow> page_cache_key \<Rightarrow> page_cache_key \<Rightarrow> bool" where
  "movable b from to \<longleftrightarrow> from \<noteq> to \<and> cached b from \<noteq> None \<and> cached b to = None"

lemma rekey_ignored:
  assumes "\<not> movable b from to"
  shows "rekey b from to = Some b"
  using assms by (cases "Mapping.lookup (bm_page_map b) from")
    (auto simp: movable_def rekey_def cached_def Let_def lookup_delete_if)

definition moved :: "page_cache_key \<Rightarrow> page_cache_key \<Rightarrow> nat \<Rightarrow> buffer_manager \<Rightarrow> buffer_manager" where
  "moved from to i b = (set_frame i ((bm_frames b ! i)\<lparr>fr_page_key := Some to\<rparr>) b)
     \<lparr>bm_page_map := Mapping.update to i (Mapping.delete from (bm_page_map b))\<rparr>"

lemma pool_ok_moved:
  assumes ok: "pool_ok b" and kf: "Mapping.lookup (bm_page_map b) from = Some i"
    and kt: "Mapping.lookup (bm_page_map b) to = None"
  shows "pool_ok (moved from to i b)"
proof -
  let ?m = "Mapping.update to i (Mapping.delete from (bm_page_map b))"
    and ?f = "(bm_frames b ! i)\<lparr>fr_page_key := Some to\<rparr>"
  note i = pool_ok_bound [OF ok kf]
  have free: "is_free ?f = is_free (bm_frames b ! i)" by (simp add: is_free_def)
  have count: "length (filter is_free ((bm_frames b)[i := ?f])) = length (filter is_free (bm_frames b))"
    using length_filter_update [OF i, of is_free ?f] free by simp
  have fi: "frame_ok ?m i ?f"
    using pool_ok_frame [OF ok i] pool_ok_mapped(2) [OF ok kf] free by (auto simp: frame_ok_def lookup_update)
  have fj: "frame_ok ?m j (bm_frames b ! j)" if j: "j < length (bm_frames b)" "j \<noteq> i" for j
  proof (rule frame_ok_update [OF frame_ok_delete [OF pool_ok_frame [OF ok j(1)]]])
    show "fr_page_key (bm_frames b ! j) \<noteq> Some from"
    proof
      assume "fr_page_key (bm_frames b ! j) = Some from"
      with pool_ok_frame [OF ok j(1)] have "Mapping.lookup (bm_page_map b) from = Some j"
        by (auto simp: frame_ok_def split: if_splits)
      with kf j(2) show False by simp
    qed
    show "Mapping.lookup (Mapping.delete from (bm_page_map b)) to = None" using kt by (simp add: lookup_delete_if)
  qed
  have key: "j < length (bm_frames b) \<and> fr_page_key ((bm_frames b)[i := ?f] ! j) = Some k" if "Mapping.lookup ?m k = Some j" for k j
  proof (cases "k = to")
    case False
    with that have "k \<noteq> from" "Mapping.lookup (bm_page_map b) k = Some j"
      by (auto simp: lookup_update_if lookup_delete_if split: if_splits)
    moreover from this have "j \<noteq> i" using mapped_inj [OF ok kf] by auto
    ultimately show ?thesis using pool_ok_bound [OF ok] pool_ok_key [OF ok] by simp
  qed (use that i in \<open>auto simp: lookup_update\<close>)
  show ?thesis
    unfolding moved_def set_frame_def
    by (rule pool_okI) (use ok count fi fj key i pool_okD [OF ok] in \<open>auto simp: nth_list_update\<close>)
qed

lemma cached_moved:
  assumes ok: "pool_ok b" and kf: "Mapping.lookup (bm_page_map b) from = Some i"
    and kt: "Mapping.lookup (bm_page_map b) to = None"
  shows "cached (moved from to i b) k =
    (if k = to then Some ((bm_frames b ! i)\<lparr>fr_page_key := Some to\<rparr>) else if k = from then None else cached b k)"
proof (cases "Mapping.lookup (bm_page_map b) k")
  case (Some j)
  then show ?thesis
    using mapped_inj [OF ok kf, of k] pool_ok_bound [OF ok kf] kt
    by (auto simp: cached_def moved_def set_frame_def nth_list_update lookup_update_if lookup_delete_if)
qed (use pool_ok_bound [OF ok kf] kf in \<open>auto simp: cached_def moved_def set_frame_def lookup_update_if lookup_delete_if\<close>)

lemma rekey_world:
  assumes w: "world_ok b gs d" and m: "movable b from to"
    and dev: "\<And>f. cached b from = Some f \<Longrightarrow> fr_state f = Clean \<Longrightarrow> d to = d from"
  obtains b' where "rekey b from to = Some b'" and "world_ok b' gs d"
    and "content b' d = (content b d)(to := content b d from, from := d from)"
proof -
  obtain i where kf: "Mapping.lookup (bm_page_map b) from = Some i" and kt: "Mapping.lookup (bm_page_map b) to = None"
    and ne: "from \<noteq> to"
    using m by (auto simp: movable_def cached_def)
  note ok = world_pool_ok [OF w]
  note wf = world_frame [OF w kf]
  note i = pool_ok_bound [OF ok kf]
  note cm = cached_moved [OF ok kf kt]
  have cf: "cached b from = Some (bm_frames b ! i)" using kf by (simp add: cached_def)
  have "guards_ok (moved from to i b) gs"
    using world_guards_ok [OF w] i unfolding guards_ok_def moved_def set_frame_def
    by (auto simp: nth_list_update is_dirty_def)
  moreover have "coherent (moved from to i b) d"
    using world_coherent [OF w] wf(9) dev [OF cf] unfolding coherent_def cm by auto
  ultimately have w1: "world_ok (moved from to i b) gs d"
    using pool_ok_moved [OF ok kf kt] by (simp add: world_ok_def)
  have c1: "content (moved from to i b) d = (content b d)(to := content b d from, from := d from)"
    using ne wf(10) by (auto simp: content_def cm cf fun_eq_iff)
  have "rekey b from to = Some (moved from to i b)"
    using ne kf kt wf(1) by (simp add: rekey_def Let_def lookup_delete_if moved_def)
  then show thesis by (rule that) (use w1 c1 in simp_all)
qed

section \<open>The runtime check accepts the invariant\<close>

lemma validate_map_ok:
  assumes "\<And>k i. (k, i) \<in> set es \<Longrightarrow> i < length frames \<and> \<not> is_free (frames ! i) \<and> fr_page_key (frames ! i) = Some k"
    and "distinct (map fst es)" and "length mapped = length frames" and "\<And>k i. (k, i) \<in> set es \<Longrightarrow> \<not> mapped ! i"
    and "\<And>i. i < length frames \<Longrightarrow> mapped ! i \<Longrightarrow> \<not> is_free (frames ! i)"
  shows "\<exists>mapped'. validate_map frames es mapped = Inr mapped' \<and> length mapped' = length frames
    \<and> (\<forall>i < length frames. mapped' ! i \<longrightarrow> \<not> is_free (frames ! i))"
  using assms
proof (induction es arbitrary: mapped)
  case (Cons e es)
  obtain k i where e: "e = (k, i)" by (cases e)
  have h: "i < length frames" "\<not> is_free (frames ! i)" "fr_page_key (frames ! i) = Some k" "\<not> mapped ! i"
    using Cons.prems(1,4) [of k i] by (auto simp: e)
  have other: "j \<noteq> i" if "(k', j) \<in> set es" for k' j
  proof
    assume "j = i"
    then have "k' = k" using Cons.prems(1) [of k' j] that h(3) by auto
    then show False using that Cons.prems(2) by (force simp: e)
  qed
  have "\<exists>mapped'. validate_map frames es (mapped[i := True]) = Inr mapped' \<and> length mapped' = length frames
    \<and> (\<forall>i < length frames. mapped' ! i \<longrightarrow> \<not> is_free (frames ! i))"
  proof (rule Cons.IH)
    fix k' j
    assume m: "(k', j) \<in> set es"
    then show "j < length frames \<and> \<not> is_free (frames ! j) \<and> fr_page_key (frames ! j) = Some k'"
      using Cons.prems(1) [of k' j] by simp
    show "\<not> mapped[i := True] ! j" using other [OF m] Cons.prems(4) [of k' j] m by simp
  next
    fix j
    assume "j < length frames" and "mapped[i := True] ! j"
    then show "\<not> is_free (frames ! j)"
      using Cons.prems(3,5) h(1,2) by (cases "j = i") simp_all
  qed (use Cons.prems(2,3) in \<open>simp_all add: e\<close>)
  then show ?case using h by (simp add: e)
qed simp

lemma validate_frames_ok:
  "(\<And>i f. (i, f) \<in> set es \<Longrightarrow> frame_ok m i f) \<Longrightarrow> validate_frames es = Inr ()"
proof (induction es)
  case (Cons e es)
  obtain i f where e: "e = (i, f)" by (cases e)
  have "frame_ok m i f" using Cons.prems by (simp add: e)
  moreover have "validate_frames es = Inr ()" by (rule Cons.IH) (use Cons.prems in simp)
  ultimately show ?case by (auto simp: e frame_ok_def split: if_splits)
qed simp

lemma pool_ok_validates:
  assumes ok: "pool_ok b"
  shows "validate_invariants b = Inr ()"
proof -
  let ?fs = "bm_frames b"
  obtain mapped where v: "validate_map ?fs (page_map_entries b) (replicate (length ?fs) False) = Inr mapped"
    and m: "\<forall>i < length ?fs. mapped ! i \<longrightarrow> \<not> is_free (?fs ! i)"
    using validate_map_ok [of "page_map_entries b" ?fs "replicate (length ?fs) False"] page_map_entries
      pool_ok_bound [OF ok] pool_ok_mapped(2) [OF ok] pool_ok_key [OF ok] by fastforce
  have free: "is_free f \<Longrightarrow> \<not> mapped ! i" if "(i, f) \<in> set (enumerate 0 ?fs)" for i f
    using that m by (auto simp: in_set_enumerate_eq)
  have "filter (\<lambda>(i, f). is_free f \<and> \<not> mapped ! i) (enumerate 0 ?fs) = filter (\<lambda>(i, f). is_free f) (enumerate 0 ?fs)"
    by (rule filter_cong) (use free in auto)
  moreover have "length (filter (\<lambda>(i, f). is_free f) (enumerate n fs)) = length (filter is_free fs)" for n fs
    by (induction fs arbitrary: n) simp_all
  moreover have "validate_frames (enumerate 0 ?fs) = Inr ()"
    by (rule validate_frames_ok) (use pool_ok_frame [OF ok] in \<open>auto simp: in_set_enumerate_eq\<close>)
  ultimately show ?thesis
    using v pool_okD [OF ok] by (auto simp: validate_invariants_def Let_def)
qed

end
