(* ===== verification/Buffer_Properties.thy ===== *)
theory Buffer_Properties
  imports Buffer_Worlds
begin

text \<open>
  The machine of the buffer pool and the properties of its runs. A world is a pool, the live guards, and the
  images that the device holds. The steps are the calls of the manager, the release of a guard, the write of
  an image to the device, and a change of the device under a page that is not cached.
\<close>

section \<open>The machine\<close>

type_synonym pool_world = "buffer_manager \<times> page_guard list \<times> device_images"

text \<open>What a step does to the contents of the pages.\<close>

datatype pool_effect =
    Silent
  | Store page_cache_key bytes
  | Move page_cache_key page_cache_key "bytes option"
  | External page_cache_key "bytes option"

fun apply_effect :: "pool_effect \<Rightarrow> (page_cache_key \<Rightarrow> bytes option) \<Rightarrow> page_cache_key \<Rightarrow> bytes option" where
  "apply_effect Silent v = v"
| "apply_effect (Store k x) v = v(k \<mapsto> x)"
| "apply_effect (Move k k' x) v = v(k' := v k, k := x)"
| "apply_effect (External k x) v = v(k := x)"

definition with_guard :: "buffer_error + page_guard \<Rightarrow> page_guard list \<Rightarrow> page_guard list" where
  "with_guard r gs = (case r of Inr g \<Rightarrow> g # gs | Inl _ \<Rightarrow> gs)"

text \<open>A fetch brings the image of the device, a write-back is completed or discarded once the device holds
  its image, and a clean image is moved to a key under which the device holds the same image. A page array
  keeps its length under every change.\<close>

inductive pool_step :: "pool_world \<Rightarrow> pool_effect \<Rightarrow> pool_world \<Rightarrow> bool" where
  step_fetch: "fetch_key b k data access = Some (r, b') \<Longrightarrow> length data = PAGE_SIZE \<Longrightarrow>
    (cached b k = None \<longrightarrow> d k = Some data) \<Longrightarrow> pool_step (b, gs, d) Silent (b', with_guard r gs, d)"
| step_drop: "g \<in> set gs \<Longrightarrow> drop_guard b g = Some b' \<Longrightarrow> pool_step (b, gs, d) Silent (b', remove1 g gs, d)"
| step_store: "g \<in> set gs \<Longrightarrow> frame_data_mut b g change = Some (Inr (), b') \<Longrightarrow> (\<And>x. length (change x) = length x) \<Longrightarrow>
    fr_page_key (bm_frames b ! pg_frame_index g) = Some k \<Longrightarrow>
    pool_step (b, gs, d) (Store k (change (fr_data (bm_frames b ! pg_frame_index g)))) (b', gs, d)"
| step_store_refused: "g \<in> set gs \<Longrightarrow> frame_data_mut b g change = Some (Inl e, b') \<Longrightarrow> pool_step (b, gs, d) Silent (b', gs, d)"
| step_mark_dirty: "mark_dirty_key b k = Some b' \<Longrightarrow> pool_step (b, gs, d) Silent (b', gs, d)"
| step_unpin: "unpin_key b k = Some b' \<Longrightarrow> pool_step (b, gs, d) Silent (b', gs, d)"
| step_begin: "begin_writeback_key b k = Some (wb, b') \<Longrightarrow> pool_step (b, gs, d) Silent (b', gs, d)"
| step_begin_all: "begin_writeback_all b = Some (wbs, b') \<Longrightarrow> pool_step (b, gs, d) Silent (b', gs, d)"
| step_complete: "complete_writeback b wb = Some (u, b') \<Longrightarrow> d (wb_page_key wb) = Some (wb_data wb) \<Longrightarrow>
    pool_step (b, gs, d) Silent (b', gs, d)"
| step_discard: "discard_writeback b wb = Some (u, b') \<Longrightarrow> d (wb_page_key wb) = Some (wb_data wb) \<Longrightarrow>
    pool_step (b, gs, d) Silent (b', gs, d)"
| step_evict: "evict_key b k = Some (u, b') \<Longrightarrow> pool_step (b, gs, d) Silent (b', gs, d)"
| step_rekey: "rekey b k k' = Some b' \<Longrightarrow> \<not> movable b k k' \<Longrightarrow> pool_step (b, gs, d) Silent (b', gs, d)"
| step_move: "rekey b k k' = Some b' \<Longrightarrow> movable b k k' \<Longrightarrow>
    (\<And>f. cached b k = Some f \<Longrightarrow> fr_state f = Clean \<Longrightarrow> d k' = d k) \<Longrightarrow> pool_step (b, gs, d) (Move k k' (d k)) (b', gs, d)"
| step_device: "cached b k = Some f \<Longrightarrow> is_dirty f \<Longrightarrow> pool_step (b, gs, d) Silent (b, gs, d(k \<mapsto> x))"
| step_external: "cached b k = None \<Longrightarrow> pool_step (b, gs, d) (External k x) (b, gs, d(k := x))"

inductive pool_reach :: "pool_world \<Rightarrow> bool" where
  reach_new: "capacity < 2 ^ 64 \<Longrightarrow> pool_reach (bm_new capacity, [], d)"
| reach_step: "pool_reach w \<Longrightarrow> pool_step w e w' \<Longrightarrow> pool_reach w'"

lemma fetch_world:
  assumes w: "world_ok b gs d" and len: "length data = PAGE_SIZE" and dev: "cached b k = None \<longrightarrow> d k = Some data"
  obtains r b' where "fetch_key b k data access = Some (r, b')" and "world_ok b' (with_guard r gs) d" and "content b' d = content b d"
proof (cases "Mapping.lookup (bm_page_map b) k")
  case None
  then have d: "d k = Some data" using dev by (simp add: cached_def)
  show thesis
  proof (rule fetch_miss [OF w None d len, of access])
    fix i b'
    assume "fetch_key b k data access = Some (Inr (page_guard_new i k access), b')"
      and "world_ok b' (page_guard_new i k access # gs) d" and "content b' d = content b d"
    then show thesis by (intro that [of "Inr (page_guard_new i k access)" b']) (simp_all add: with_guard_def)
  next
    fix e b'
    assume f: "fetch_key b k data access = Some (Inl e, b')" and s: "same_pages b b'"
    show thesis
      by (rule that [OF f]) (use world_same_pages [OF w s] in \<open>simp_all add: with_guard_def\<close>)
  qed
next
  case (Some i)
  obtain b' where "fetch_key b k data access = Some (Inr (page_guard_new i k access), b')"
    and "world_ok b' (page_guard_new i k access # gs) d" and "content b' d = content b d"
    by (rule fetch_hit [OF w Some, of data access])
  then show thesis by (intro that [of "Inr (page_guard_new i k access)" b']) (simp_all add: with_guard_def)
qed

lemma coherent_other:
  assumes "coherent b d" and "\<And>f. cached b k = Some f \<Longrightarrow> is_dirty f"
  shows "coherent b (d(k := x))"
  using assms by (auto simp: coherent_def is_dirty_def)

lemma step_world:
  assumes "pool_step w e w'" and "world_ok (fst w) (fst (snd w)) (snd (snd w))"
  shows "world_ok (fst w') (fst (snd w')) (snd (snd w'))
    \<and> content (fst w') (snd (snd w')) = apply_effect e (content (fst w) (snd (snd w)))"
  using assms
proof (induction rule: pool_step.induct)
  case (step_fetch b k data access r b' d gs)
  obtain r0 b0 where "fetch_key b k data access = Some (r0, b0)" "world_ok b0 (with_guard r0 gs) d" "content b0 d = content b d"
    by (rule fetch_world [of b gs d data k access]) (use step_fetch in simp_all)
  then show ?case using step_fetch.hyps(1) by simp
next
  case (step_drop g gs b b' d)
  obtain b0 where "drop_guard b g = Some b0" "world_ok b0 (remove1 g gs) d" "content b0 d = content b d"
    by (rule drop_guard_world [of b gs d g]) (use step_drop in simp_all)
  then show ?case using step_drop.hyps(2) by simp
next
  case (step_store g gs b change b' k d)
  have "is_writable g" using step_store.hyps(2) by (auto simp: frame_data_mut_def split: if_splits)
  then obtain b0 where "frame_data_mut b g change = Some (Inr (), b0)" "world_ok b0 gs d"
    "content b0 d = (content b d)(k \<mapsto> change (fr_data (bm_frames b ! pg_frame_index g)))"
    by (rule frame_data_mut_world [of b gs d g change k, rotated 2]) (use step_store in simp_all)
  then show ?case using step_store.hyps(2) by simp
next
  case (step_store_refused g gs b change e b' d)
  then have "b' = b" by (auto simp: frame_data_mut_def split: if_splits bind_splits)
  then show ?case using step_store_refused.prems by simp
next
  case (step_mark_dirty b k b' gs d)
  obtain b0 where "mark_dirty_key b k = Some b0" "world_ok b0 gs d" "content b0 d = content b d"
    by (rule mark_dirty_world [of b gs d k]) (use step_mark_dirty in simp_all)
  then show ?case using step_mark_dirty.hyps by simp
next
  case (step_unpin b k b' gs d)
  obtain b0 where "unpin_key b k = Some b0" "world_ok b0 gs d" "content b0 d = content b d"
    by (rule unpin_world [of b gs d k]) (use step_unpin in simp_all)
  then show ?case using step_unpin.hyps by simp
next
  case (step_begin b k wb b' gs d)
  then have "same_pages b b'" using begin_writeback_same [of b gs d k] by auto
  then show ?case using world_same_pages [of b gs d b'] step_begin.prems by simp
next
  case (step_begin_all b wbs b' gs d)
  obtain r b0 where "begin_writeback_all b = Some (r, b0)" "same_pages b b0"
    by (rule begin_all_same [of b gs d]) (use step_begin_all in simp_all)
  then show ?case using world_same_pages [of b gs d b'] step_begin_all by simp
next
  case (step_complete b wb u b' d gs)
  obtain r b0 where "complete_writeback b wb = Some (r, b0)" "world_ok b0 gs d" "content b0 d = content b d"
    by (rule complete_world [of b gs d wb]) (use step_complete in simp_all)
  then show ?case using step_complete.hyps by simp
next
  case (step_discard b wb u b' d gs)
  obtain r b0 where "discard_writeback b wb = Some (r, b0)" "world_ok b0 gs d" "content b0 d = content b d"
    by (rule discard_world [of b gs d wb]) (use step_discard in simp_all)
  then show ?case using step_discard.hyps by simp
next
  case (step_evict b k u b' gs d)
  obtain r b0 where "evict_key b k = Some (r, b0)" "world_ok b0 gs d" "content b0 d = content b d"
    by (rule evict_world [of b gs d k]) (use step_evict in simp_all)
  then show ?case using step_evict.hyps by simp
next
  case (step_rekey b k k' b' gs d)
  then show ?case using rekey_ignored [of b k k'] by simp
next
  case (step_move b k k' b' d gs)
  obtain b0 where "rekey b k k' = Some b0" "world_ok b0 gs d" "content b0 d = (content b d)(k' := content b d k, k := d k)"
    by (rule rekey_world [of b gs d k k']) (use step_move in simp_all)
  then show ?case using step_move.hyps by simp
next
  case (step_device b k f gs d x)
  have "coherent b (d(k \<mapsto> x))"
    by (rule coherent_other) (use step_device in \<open>auto simp: world_ok_def\<close>)
  moreover have "content b (d(k \<mapsto> x)) = content b d"
    using step_device.hyps by (auto simp: content_def fun_eq_iff split: option.splits)
  ultimately show ?case using step_device.prems by (simp add: world_ok_def fun_upd_def)
next
  case (step_external b k gs d x)
  have "coherent b (d(k := x))"
    by (rule coherent_other) (use step_external in \<open>auto simp: world_ok_def\<close>)
  moreover have "content b (d(k := x)) = (content b d)(k := x)"
    using step_external.hyps by (auto simp: content_def fun_eq_iff split: option.splits)
  ultimately show ?case using step_external.prems by (simp add: world_ok_def fun_upd_def)
qed

lemma world_ok_new:
  assumes "capacity < 2 ^ 64"
  shows "world_ok (bm_new capacity) [] d"
  using pool_ok_new [OF assms]
  by (simp add: world_ok_def guards_ok_def coherent_def cached_def bm_new_def Let_def new_empty_def guard_count_def)

lemma reach_world: "pool_reach w \<Longrightarrow> world_ok (fst w) (fst (snd w)) (snd (snd w))"
proof (induction rule: pool_reach.induct)
  case (reach_new capacity d)
  then show ?case using world_ok_new by simp
next
  case (reach_step w e w')
  then show ?case using step_world by blast
qed

section \<open>No call panics\<close>

lemma writeback_total:
  assumes "world_ok b gs d"
  shows "complete_writeback b wb \<noteq> None" and "discard_writeback b wb \<noteq> None"
  using world_frame(1) [OF assms, of "wb_page_key wb"]
  by (auto simp: complete_writeback_def discard_writeback_def Let_def split: option.splits)

lemma rekey_total:
  assumes "world_ok b gs d"
  shows "rekey b k k' \<noteq> None"
  using world_frame(1) [OF assms, of k] by (auto simp: rekey_def Let_def split: option.splits)

lemma fetch_total:
  assumes w: "world_ok b gs d" and "length data = PAGE_SIZE"
  shows "fetch_key b k data access \<noteq> None"
proof (cases "cached b k")
  case None
  then have "world_ok b gs (d(k \<mapsto> data))"
    using w coherent_other [OF world_coherent [OF w], of k "Some data"] by (simp add: world_ok_def)
  then show ?thesis using fetch_world [of b gs "d(k \<mapsto> data)" data k access] assms(2) by fastforce
next
  case (Some f)
  then show ?thesis using fetch_world [OF assms, of k access] by fastforce
qed

text \<open>C17. In every reachable state of the buffer pool, whatever the sequence of fetches, writes, write-backs,
  evictions and rekeyings, refused ones included, the runtime check \<open>validate_invariants\<close> reports no violation
  and no call of the manager panics: every frame index is in range and the number of free frames is never
  decremented below zero.\<close>

theorem buffer_run_valid:
  assumes "pool_reach (b, gs, d)"
  shows "validate_invariants b = Inr ()
    \<and> (\<forall>k data access. length data = PAGE_SIZE \<longrightarrow> fetch_key b k data access \<noteq> None)
    \<and> (\<forall>g change. g \<in> set gs \<longrightarrow> drop_guard b g \<noteq> None \<and> frame_data b g \<noteq> None \<and> frame_data_mut b g change \<noteq> None)
    \<and> (\<forall>k. mark_dirty_key b k \<noteq> None \<and> unpin_key b k \<noteq> None \<and> evict_key b k \<noteq> None \<and> is_resident_key b k \<noteq> None)
    \<and> (\<forall>k. begin_writeback_key b k \<noteq> None) \<and> begin_writeback_all b \<noteq> None
    \<and> (\<forall>wb. complete_writeback b wb \<noteq> None \<and> discard_writeback b wb \<noteq> None) \<and> (\<forall>k k'. rekey b k k' \<noteq> None)"
proof (intro conjI allI impI)
  have w: "world_ok b gs d" using reach_world [OF assms] by simp
  show "validate_invariants b = Inr ()" by (rule pool_ok_validates [OF world_pool_ok [OF w]])
  fix k :: page_cache_key and k' :: page_cache_key and wb :: writeback
  show "fetch_key b k data access \<noteq> None" if "length data = PAGE_SIZE" for data access by (rule fetch_total [OF w that])
  show "drop_guard b g \<noteq> None" and "frame_data b g \<noteq> None" and "frame_data_mut b g change \<noteq> None" if g: "g \<in> set gs" for g change
    by (rule guard_page [OF w g]; simp add: drop_guard_def frame_data_def frame_data_mut_def frame_at_def)+
  show "mark_dirty_key b k \<noteq> None" and "unpin_key b k \<noteq> None" and "evict_key b k \<noteq> None" and "is_resident_key b k \<noteq> None"
    using world_frame(1) [OF w, of k]
    by (auto simp: mark_dirty_key_def unpin_key_def on_page_def is_resident_key_def evict_key_def on_stats_def Let_def
      frame_at_def split: option.splits)
  show "begin_writeback_key b k \<noteq> None" using begin_writeback_same [OF w, of k] by auto
  show "begin_writeback_all b \<noteq> None" using begin_all_same [OF w] by (metis option.distinct(1))
  show "complete_writeback b wb \<noteq> None" and "discard_writeback b wb \<noteq> None" and "rekey b k k' \<noteq> None"
    using writeback_total [OF w] rekey_total [OF w] by blast+
qed

theorem buffer_run_valid_witness:
  "validate_invariants (bm_new 8192) = Inr ()
   \<and> fetch_key (bm_new 8192) (PageCacheKey 7 1) (replicate PAGE_SIZE 0) WriteAccess \<noteq> None"
  using buffer_run_valid [of "bm_new 8192" "[]" "\<lambda>_. None"] reach_new [of 8192 "\<lambda>_. None"] by auto

section \<open>The pool is a transparent cache\<close>

lemma guard_reads:
  assumes w: "world_ok b gs d" and g: "g \<in> set gs"
  shows "\<exists>k. fr_page_key (bm_frames b ! pg_frame_index g) = Some k \<and> frame_data b g = content b d k"
  by (rule guard_page [OF w g]) (auto simp: frame_data_def frame_at_def content_def cached_def)

text \<open>C8. The pool is a transparent cache. The content of a page is its cached image, or the image of the
  device when it is not cached. No fetch, release, pin, write-back, discard, refused request or eviction changes
  the content of any page; a write through a guard changes the content of its page alone, and a rekeying gives
  the image its new name. Every live guard reads the content of the page in its frame.\<close>

theorem buffer_transparent:
  assumes "pool_reach (b, gs, d)" and "pool_step (b, gs, d) e (b', gs', d')"
  shows "content b' d' = apply_effect e (content b d)
    \<and> (\<forall>g \<in> set gs'. \<exists>k. fr_page_key (bm_frames b' ! pg_frame_index g) = Some k \<and> frame_data b' g = content b' d' k)"
proof -
  have "world_ok b' gs' d'" and c: "content b' d' = apply_effect e (content b d)"
    using step_world [OF assms(2)] reach_world [OF assms(1)] by simp_all
  then show ?thesis using guard_reads by blast
qed

text \<open>A step to observe: a page is fetched for writing from the device into an empty pool.\<close>

lemma sample_fetch:
  obtains i b where "fetch_key (bm_new 8192) (PageCacheKey 7 1) (replicate PAGE_SIZE 0) WriteAccess
      = Some (Inr (page_guard_new i (PageCacheKey 7 1) WriteAccess), b)"
    and "pool_step (bm_new 8192, [], \<lambda>_. Some (replicate PAGE_SIZE 0)) Silent
      (b, [page_guard_new i (PageCacheKey 7 1) WriteAccess], \<lambda>_. Some (replicate PAGE_SIZE 0))"
proof -
  let ?d = "\<lambda>_ :: page_cache_key. Some (replicate PAGE_SIZE (0 :: byte))"
  have w: "world_ok (bm_new 8192) [] ?d" by (rule world_ok_new) simp
  have k: "Mapping.lookup (bm_page_map (bm_new 8192)) (PageCacheKey 7 1) = None"
    by (simp add: bm_new_def Let_def)
  have ev: "\<exists>f \<in> set (bm_frames (bm_new 8192)). evictable f"
    by (simp add: bm_new_def Let_def evictable_def new_empty_def is_free_def)
  show thesis
  proof (rule fetch_miss [OF w k refl length_replicate, of WriteAccess])
    fix i b
    assume f: "fetch_key (bm_new 8192) (PageCacheKey 7 1) (replicate PAGE_SIZE 0) WriteAccess
      = Some (Inr (page_guard_new i (PageCacheKey 7 1) WriteAccess), b)"
    have "pool_step (bm_new 8192, [], ?d) Silent (b, with_guard (Inr (page_guard_new i (PageCacheKey 7 1) WriteAccess)) [], ?d)"
      by (rule step_fetch [OF f]) simp_all
    then show thesis using that [OF f] by (simp only: with_guard_def sum.case)
  qed (use ev in blast)
qed

theorem buffer_transparent_witness:
  "\<exists>b g. pool_step (bm_new 8192, [], \<lambda>_. Some (replicate PAGE_SIZE 0)) Silent (b, [g], \<lambda>_. Some (replicate PAGE_SIZE 0))
     \<and> frame_data b g = Some (replicate PAGE_SIZE 0)"
proof -
  let ?d = "\<lambda>_ :: page_cache_key. Some (replicate PAGE_SIZE (0 :: byte))"
  obtain i b where s: "pool_step (bm_new 8192, [], ?d) Silent (b, [page_guard_new i (PageCacheKey 7 1) WriteAccess], ?d)"
    by (rule sample_fetch)
  have c: "content (bm_new 8192) ?d = ?d" by (simp add: content_def cached_def bm_new_def Let_def fun_eq_iff)
  have "pool_reach (bm_new 8192, [], ?d)" by (rule reach_new) simp
  from buffer_transparent [OF this s] c
  have "frame_data b (page_guard_new i (PageCacheKey 7 1) WriteAccess) = Some (replicate PAGE_SIZE 0)"
    by (auto simp del: PAGE_SIZE_def)
  with s show ?thesis by blast
qed

section \<open>When a fetch fails\<close>

lemma frame_taken_keeps:
  assumes w: "world_ok b gs d" and t: "frame_taken b i b'" and c: "cached b k = Some f" and p: "is_pinned f \<or> is_dirty f"
  shows "map_option unref (cached b' k) = Some (unref f)"
  using t unfolding frame_taken_def
proof (elim conjE disjE)
  assume "same_pages b b'"
  from cached_same_pages [OF world_pool_ok [OF w] this, of k] show ?thesis using c by simp
next
  assume "evicted_from b i b'"
  then obtain b1 k' upd where s: "same_pages b b1" and k': "Mapping.lookup (bm_page_map b) k' = Some i"
    and v: "\<not> is_pinned (bm_frames b ! i)" "\<not> is_dirty (bm_frames b ! i)" and b': "b' = release upd k' i b1"
    unfolding evicted_from_def by blast
  have "k \<noteq> k'" using c p v k' by (auto simp: cached_def)
  moreover have "Mapping.lookup (bm_page_map b1) k' = Some i" using s k' by (simp add: same_pages_def)
  ultimately show ?thesis
    using cached_release [OF pool_ok_same_pages [OF world_pool_ok [OF w] s]] cached_same_pages [OF world_pool_ok [OF w] s, of k] c
    by (simp add: b')
qed

lemma fetch_miss_exact:
  assumes w: "world_ok b gs d" and k: "cached b k = None" and len: "length data = PAGE_SIZE"
  shows "\<exists>r b'. fetch_key b k data access = Some (r, b') \<and>
    (if \<exists>f \<in> set (bm_frames b). evictable f
     then \<exists>i. r = Inr (page_guard_new i k access) \<and> map_option fr_data (cached b' k) = Some data
       \<and> (\<forall>k' f. cached b k' = Some f \<longrightarrow> is_pinned f \<or> is_dirty f \<longrightarrow> map_option unref (cached b' k') = Some (unref f))
     else same_pages b b' \<and> (\<exists>e. r = Inl e \<and> refusal b e))"
proof -
  have kl: "Mapping.lookup (bm_page_map b) k = None" using k by (simp add: cached_def)
  obtain r b1 where r: "find_free_frame b = Some (r, b1)"
    and t: "case r of Inr i \<Rightarrow> frame_taken b i b1 | Inl e \<Rightarrow> same_pages b b1 \<and> refusal b e"
    and ex: "(\<exists>i. r = Inr i) = (\<exists>f \<in> set (bm_frames b). evictable f)"
    by (rule find_free_frame_exact [OF world_pool_ok [OF w]]) blast
  show ?thesis
  proof (cases r)
    case (Inl e)
    then have "fetch_key b k data access = Some (Inl e, b1)" using r kl by (simp add: fetch_key_def)
    with Inl t ex show ?thesis by simp
  next
    case (Inr i)
    then have ft: "frame_taken b i b1" using t by simp
    let ?b2 = "on_stats (\<lambda>s. s\<lparr>st_reads := st_reads s + 1\<rparr>) b1"
    note w1 = frame_taken_world [OF w ft]
    have s: "same_pages b1 ?b2" by (rule same_pages_stats) simp_all
    note ok2 = pool_ok_same_pages [OF world_pool_ok [OF w1(1)] s]
    have i: "i < length (bm_frames ?b2)" "is_free (bm_frames ?b2 ! i)" and k2: "Mapping.lookup (bm_page_map ?b2) k = None"
      using w1(3,4) w1(5) [OF kl] by (simp_all add: on_stats_def)
    let ?f = "loaded (bm_frames ?b2 ! i) k data access"
    have "fr_pinned (bm_frames ?b2 ! i) = (fr_pin_count (bm_frames ?b2 ! i) \<noteq> 0)"
      using pool_ok_frame [OF ok2 i(1)] i(2) by (simp add: frame_ok_def)
    then have "st_free_frames (bm_stats ?b2) > 0"
      using pool_ok_load(1) [OF ok2 i k2, of ?f] len by simp
    then have f: "fetch_key b k data access = Some (Inr (page_guard_new i k access), store_page i k ?f ?b2)"
      using r Inr kl i(1) by (simp add: fetch_key_def frame_at_def store_page_def loaded_def Let_def set_frame_def on_stats_def)
    have c: "cached (store_page i k ?f ?b2) k' = (if k' = k then Some ?f else cached b1 k')" for k'
      unfolding cached_store_page [OF ok2 i] by (simp add: cached_def on_stats_def)
    have "map_option unref (cached (store_page i k ?f ?b2) k') = Some (unref f)"
      if "cached b k' = Some f" and "is_pinned f \<or> is_dirty f" for k' f
      using frame_taken_keeps [OF w ft that] k that(1) by (auto simp: c)
    then show ?thesis using f c [of k] ex Inr by auto
  qed
qed

text \<open>C18. A fetch of a page that is not cached succeeds exactly when some frame is free, or holds a clean page
  that no guard and no pin protects; two passes of the clock always find it. The guard then reads the fetched
  image, and every pinned or dirty page is still cached unchanged, but possibly for its reference bit. Otherwise
  no page changes and the error is the exact one: an empty pool, all frames pinned, or an unpinned dirty page.\<close>

theorem buffer_fetch_exact:
  assumes "pool_reach (b, gs, d)" and "cached b k = None" and "length data = PAGE_SIZE"
  shows "\<exists>r b'. fetch_key b k data access = Some (r, b') \<and>
    (if \<exists>f \<in> set (bm_frames b). is_free f \<or> (\<not> is_pinned f \<and> \<not> is_dirty f)
     then \<exists>i. r = Inr (page_guard_new i k access) \<and> map_option fr_data (cached b' k) = Some data
       \<and> (\<forall>k' f. cached b k' = Some f \<longrightarrow> is_pinned f \<or> is_dirty f \<longrightarrow> map_option unref (cached b' k') = Some (unref f))
     else same_pages b b' \<and> (\<exists>e. r = Inl e \<and> refusal b e))"
  using fetch_miss_exact [OF _ assms(2,3), of gs d access] reach_world [OF assms(1)] by (simp add: evictable_def)

theorem buffer_fetch_exact_witness:
  "\<exists>r b'. fetch_key (bm_new 8192) (PageCacheKey 7 1) (replicate PAGE_SIZE 0) ReadAccess = Some (r, b')
     \<and> (\<exists>i. r = Inr (page_guard_new i (PageCacheKey 7 1) ReadAccess))"
proof -
  have c: "cached (bm_new 8192) (PageCacheKey 7 1) = None" by (simp add: cached_def bm_new_def Let_def)
  have ev: "\<exists>f \<in> set (bm_frames (bm_new 8192)). is_free f \<or> (\<not> is_pinned f \<and> \<not> is_dirty f)"
    by (simp add: bm_new_def Let_def new_empty_def is_free_def)
  have "pool_reach (bm_new 8192, [], \<lambda>_. None)" by (rule reach_new) simp
  from buffer_fetch_exact [OF this c length_replicate, of 0 ReadAccess] show ?thesis
    using ev by (auto simp del: PAGE_SIZE_def)
qed

section \<open>Live guards\<close>

text \<open>A cached page is handed out to every fetch, a second writer included.\<close>

lemma fetch_cached_always:
  assumes "pool_reach (b, gs, d)" and "cached b k \<noteq> None"
  shows "\<exists>g b'. fetch_key b k data WriteAccess = Some (Inr g, b') \<and> pg_access g = WriteAccess"
proof -
  have w: "world_ok b gs d" using reach_world [OF assms(1)] by simp
  obtain i where k: "Mapping.lookup (bm_page_map b) k = Some i" using assms(2) by (auto simp: cached_def)
  obtain b' where "fetch_key b k data WriteAccess = Some (Inr (page_guard_new i k WriteAccess), b')"
    by (rule fetch_hit [OF w k])
  then show ?thesis by (auto simp: page_guard_new_def)
qed

text \<open>C19. While a guard lives, its frame holds a page of the page map; an eviction of that page and every
  completion or discard of a write-back for it are refused as pinned, and a frame with a live write guard is dirty,
  so that nothing written through the guard can be dropped before it is written back.\<close>

theorem buffer_guard_protects:
  assumes "pool_reach (b, gs, d)" and "g \<in> set gs"
  shows "\<exists>k. Mapping.lookup (bm_page_map b) k = Some (pg_frame_index g)
    \<and> (\<exists>b'. evict_key b k = Some (Inl AllFramesPinned, b'))
    \<and> (\<forall>data. complete_writeback b \<lparr>wb_page_key = k, wb_data = data\<rparr> = Some (Inl (PinnedPage (logical_page_id k)), refuse_writeback b)
         \<and> discard_writeback b \<lparr>wb_page_key = k, wb_data = data\<rparr> = Some (Inl (PinnedPage (logical_page_id k)), refuse_writeback b))
    \<and> (is_writable g \<longrightarrow> is_dirty (bm_frames b ! pg_frame_index g))"
proof -
  have w: "world_ok b gs d" using reach_world [OF assms(1)] by simp
  obtain k where k: "Mapping.lookup (bm_page_map b) k = Some (pg_frame_index g)"
    and p: "is_pinned (bm_frames b ! pg_frame_index g)" and i: "pg_frame_index g < length (bm_frames b)"
    by (rule guard_page [OF w assms(2)]) blast
  have "\<exists>b'. evict_key b k = Some (Inl AllFramesPinned, b')"
    using k p i by (simp add: evict_key_def on_stats_def Let_def frame_at_def)
  moreover have "is_writable g \<longrightarrow> is_dirty (bm_frames b ! pg_frame_index g)"
    using world_guards_ok [OF w] assms(2) by (auto simp: guards_ok_def)
  ultimately show ?thesis
    using k p i by (auto simp: complete_writeback_def discard_writeback_def Let_def frame_at_def)
qed

theorem buffer_guard_protects_witness:
  "\<exists>b g. pool_reach (b, [g], \<lambda>_. Some (replicate PAGE_SIZE 0)) \<and> is_dirty (bm_frames b ! pg_frame_index g)"
proof -
  let ?d = "\<lambda>_ :: page_cache_key. Some (replicate PAGE_SIZE (0 :: byte))"
  obtain i b where s: "pool_step (bm_new 8192, [], ?d) Silent (b, [page_guard_new i (PageCacheKey 7 1) WriteAccess], ?d)"
    by (rule sample_fetch)
  have r: "pool_reach (b, [page_guard_new i (PageCacheKey 7 1) WriteAccess], ?d)"
    by (rule reach_step [OF reach_new s]) simp
  from buffer_guard_protects [OF r, of "page_guard_new i (PageCacheKey 7 1) WriteAccess"]
  have "is_dirty (bm_frames b ! pg_frame_index (page_guard_new i (PageCacheKey 7 1) WriteAccess))" by auto
  with r show ?thesis by blast
qed

end
