(* ===== verification/Blob_Record.thy ===== *)
theory Blob_Record
  imports Node_Page
begin

text \<open>
  The bounds-checked cursor of the blob decoders, \<open>src/src/blob/cursor.rs\<close>, and the wire format of one blob
  record, \<open>src/src/blob/record.rs\<close>: a key prefix, a length, the value and a checksum. The CRC32C function is
  the argument \<open>crc\<close>; nothing is assumed of it.
\<close>

section \<open>The cursor\<close>

record cursor =
  cur_bytes :: bytes
  cur_position :: nat

type_synonym 'a cursor_op = "('a \<times> cursor) option"

definition cursor_new :: "bytes \<Rightarrow> cursor" where
  "cursor_new buf = \<lparr>cur_bytes = buf, cur_position = 0\<rparr>"

definition cursor_remaining :: "cursor \<Rightarrow> nat" where
  "cursor_remaining c = length (cur_bytes c) - cur_position c"

definition cursor_take :: "cursor \<Rightarrow> nat \<Rightarrow> bytes cursor_op" where
  "cursor_take c len = do {
     stop \<leftarrow> usize_checked_add (cur_position c) len;
     chunk \<leftarrow> slice_range (cur_bytes c) (cur_position c) stop;
     Some (chunk, c\<lparr>cur_position := stop\<rparr>)
   }"

definition cursor_u32 :: "cursor \<Rightarrow> u32 cursor_op" where
  "cursor_u32 c = do { (chunk, c') \<leftarrow> cursor_take c 4; Some (le_u32 chunk, c') }"

definition cursor_u64 :: "cursor \<Rightarrow> u64 cursor_op" where
  "cursor_u64 c = do { (chunk, c') \<leftarrow> cursor_take c 8; Some (le_u64 chunk, c') }"

definition cursor_finish :: "cursor \<Rightarrow> unit option" where
  "cursor_finish c = (if cur_position c = length (cur_bytes c) then Some () else None)"

text \<open>A cursor is read through the bytes it has left.\<close>

definition rest_of :: "cursor \<Rightarrow> bytes" where
  "rest_of c = drop (cur_position c) (cur_bytes c)"

definition cursor_ok :: "cursor \<Rightarrow> bool" where
  "cursor_ok c \<longleftrightarrow> cur_position c \<le> length (cur_bytes c) \<and> length (cur_bytes c) < 2 ^ 64"

named_theorems cursor_simps \<open>reading through a cursor\<close>

lemma cursor_ok_new: "length buf < 2 ^ 64 \<Longrightarrow> cursor_ok (cursor_new buf)"
  by (simp add: cursor_ok_def cursor_new_def)

lemma rest_of_new [cursor_simps]: "rest_of (cursor_new buf) = buf"
  by (simp add: rest_of_def cursor_new_def)

lemma remaining_rest [cursor_simps]: "cursor_remaining c = length (rest_of c)"
  by (simp add: cursor_remaining_def rest_of_def)

lemma finish_rest [cursor_simps]: "cursor_ok c \<Longrightarrow> cursor_finish c = Some () \<longleftrightarrow> rest_of c = []"
  by (auto simp: cursor_finish_def rest_of_def cursor_ok_def)

lemma cursor_take_Some:
  assumes "cursor_ok c"
  shows "cursor_take c len = Some (chunk, c') \<longleftrightarrow>
    cursor_ok c' \<and> rest_of c = chunk @ rest_of c' \<and> length chunk = len \<and> cur_bytes c' = cur_bytes c"
proof
  assume "cursor_take c len = Some (chunk, c')"
  then have chunk: "chunk = take len (drop (cur_position c) (cur_bytes c))" and fit: "cur_position c + len \<le> length (cur_bytes c)"
    and c': "c' = c\<lparr>cur_position := cur_position c + len\<rparr>"
    by (auto simp: cursor_take_def usize_checked_add_def slice_range_def split: if_splits)
  have "drop (cur_position c) (cur_bytes c) = chunk @ drop (cur_position c + len) (cur_bytes c)"
    unfolding chunk by (metis append_take_drop_id drop_drop add.commute)
  then show "cursor_ok c' \<and> rest_of c = chunk @ rest_of c' \<and> length chunk = len \<and> cur_bytes c' = cur_bytes c"
    using assms fit by (simp add: c' cursor_ok_def rest_of_def chunk)
next
  assume r: "cursor_ok c' \<and> rest_of c = chunk @ rest_of c' \<and> length chunk = len \<and> cur_bytes c' = cur_bytes c"
  then have "length (rest_of c) = len + length (rest_of c')" by simp
  then have p: "cur_position c' = cur_position c + len"
    using r assms by (auto simp: rest_of_def cursor_ok_def)
  moreover have "chunk = take len (drop (cur_position c) (cur_bytes c))"
    using r by (simp add: rest_of_def)
  moreover have "c\<lparr>cur_position := cur_position c + len\<rparr> = c'" using p r by (cases c; cases c') simp
  ultimately show "cursor_take c len = Some (chunk, c')"
    using assms r by (auto simp: cursor_take_def usize_checked_add_def slice_range_def cursor_ok_def)
qed

text \<open>What the fields of a format read from a cursor: a value \<open>x\<close> with its encoding \<open>enc x\<close> at the front.\<close>

lemma cursor_u32_Some:
  assumes "cursor_ok c"
  shows "cursor_u32 c = Some (x, c') \<longleftrightarrow> cursor_ok c' \<and> rest_of c = u32_le x @ rest_of c' \<and> cur_bytes c' = cur_bytes c"
proof -
  have "cursor_u32 c = Some (x, c') \<longleftrightarrow> (\<exists>chunk. cursor_take c 4 = Some (chunk, c') \<and> x = le_u32 chunk)"
    by (auto simp: cursor_u32_def bind_eq_Some_conv)
  also have "\<dots> \<longleftrightarrow> cursor_take c 4 = Some (u32_le x, c')"
    using cursor_take_Some [OF assms, of 4] u32_le_le_u32 by (metis le_u32_u32_le)
  finally show ?thesis by (auto simp: cursor_take_Some [OF assms])
qed

lemma cursor_u64_Some:
  assumes "cursor_ok c"
  shows "cursor_u64 c = Some (x, c') \<longleftrightarrow> cursor_ok c' \<and> rest_of c = u64_le x @ rest_of c' \<and> cur_bytes c' = cur_bytes c"
proof -
  have "cursor_u64 c = Some (x, c') \<longleftrightarrow> (\<exists>chunk. cursor_take c 8 = Some (chunk, c') \<and> x = le_u64 chunk)"
    by (auto simp: cursor_u64_def bind_eq_Some_conv)
  also have "\<dots> \<longleftrightarrow> cursor_take c 8 = Some (u64_le x, c')"
    using cursor_take_Some [OF assms, of 8] u64_le_le_u64 by (metis le_u64_u64_le)
  finally show ?thesis by (auto simp: cursor_take_Some [OF assms])
qed

text \<open>A cursor whose remaining bytes are given is determined by them.\<close>

definition cursor_seek :: "cursor \<Rightarrow> bytes \<Rightarrow> cursor" where
  "cursor_seek c suffix = c\<lparr>cur_position := length (cur_bytes c) - length suffix\<rparr>"

lemma cursor_seek_rest:
  assumes "cursor_ok c" and "rest_of c = pre @ suffix"
  shows "cursor_ok (cursor_seek c suffix)" and "rest_of (cursor_seek c suffix) = suffix"
    and "cur_bytes (cursor_seek c suffix) = cur_bytes c"
proof -
  have l: "length (cur_bytes c) - cur_position c = length pre + length suffix"
    using arg_cong [OF assms(2), of length] by (simp add: rest_of_def)
  show "cursor_ok (cursor_seek c suffix)" and "cur_bytes (cursor_seek c suffix) = cur_bytes c"
    using assms(1) by (simp_all add: cursor_ok_def cursor_seek_def)
  have "length (cur_bytes c) - length suffix = length pre + cur_position c"
    using l assms(1) unfolding cursor_ok_def by linarith
  then have "rest_of (cursor_seek c suffix) = drop (length pre) (rest_of c)"
    by (simp add: rest_of_def cursor_seek_def)
  then show "rest_of (cursor_seek c suffix) = suffix" by (simp add: assms(2))
qed

lemma cursor_take_at:
  assumes "cursor_ok c" and "rest_of c = chunk @ suffix"
  shows "cursor_take c (length chunk) = Some (chunk, cursor_seek c suffix)"
  using cursor_seek_rest [OF assms] assms by (simp add: cursor_take_Some)

lemma cursor_u32_at:
  assumes "cursor_ok c" and "rest_of c = u32_le x @ suffix"
  shows "cursor_u32 c = Some (x, cursor_seek c suffix)"
  using cursor_seek_rest [OF assms] assms by (simp add: cursor_u32_Some)

lemma cursor_u64_at:
  assumes "cursor_ok c" and "rest_of c = u64_le x @ suffix"
  shows "cursor_u64 c = Some (x, cursor_seek c suffix)"
  using cursor_seek_rest [OF assms] assms by (simp add: cursor_u64_Some)

section \<open>Blob records\<close>

record blob_record =
  rec_key_prefix :: bytes
  rec_value :: bytes

definition RECORD_HEADER_SIZE :: nat where "RECORD_HEADER_SIZE = 8 + 4"
definition RECORD_FOOTER_SIZE :: nat where "RECORD_FOOTER_SIZE = 4"
definition RECORD_OVERHEAD_SIZE :: nat where "RECORD_OVERHEAD_SIZE = RECORD_HEADER_SIZE + RECORD_FOOTER_SIZE"

declare RECORD_HEADER_SIZE_def [simp] RECORD_FOOTER_SIZE_def [simp] RECORD_OVERHEAD_SIZE_def [simp]

definition blob_record_new :: "bytes \<Rightarrow> bytes \<Rightarrow> blob_record" where
  "blob_record_new key_prefix val = \<lparr>rec_key_prefix = key_prefix, rec_value = val\<rparr>"

definition record_serialized_size :: "blob_record \<Rightarrow> nat" where
  "record_serialized_size r = RECORD_OVERHEAD_SIZE + length (rec_value r)"

text \<open>The bytes before the checksum; \<open>as u32\<close> truncates the length.\<close>

definition record_body :: "blob_record \<Rightarrow> bytes" where
  "record_body r = rec_key_prefix r @ u32_le (word_of_nat (length (rec_value r))) @ rec_value r"

definition record_to_bytes :: "(bytes \<Rightarrow> u32) \<Rightarrow> blob_record \<Rightarrow> bytes" where
  "record_to_bytes crc r = record_body r @ u32_le (crc (record_body r))"

definition record_from_bytes :: "(bytes \<Rightarrow> u32) \<Rightarrow> bytes \<Rightarrow> blob_record option exec" where
  "record_from_bytes crc buf =
     (if length buf < RECORD_OVERHEAD_SIZE then Some None
      else do {
        key_prefix \<leftarrow> slice_range buf 0 8;
        len \<leftarrow> map_option unat (read_u32 buf 8);
        try_option (Some (usize_checked_add RECORD_OVERHEAD_SIZE len)) (\<lambda>total_size.
          if length buf < total_size then Some None
          else do {
            stored_crc \<leftarrow> read_u32 buf (total_size - 4);
            body \<leftarrow> slice_range buf 0 (total_size - 4);
            if stored_crc \<noteq> crc body then Some None
            else do {
              val \<leftarrow> slice_range buf 12 (12 + len);
              Some (Some \<lparr>rec_key_prefix = key_prefix, rec_value = val\<rparr>)
            }
          })
      })"

text \<open>A record that fits its format.\<close>

definition record_ok :: "blob_record \<Rightarrow> bool" where
  "record_ok r \<longleftrightarrow> length (rec_key_prefix r) = 8 \<and> length (rec_value r) < 2 ^ 32"

lemma length_record_to_bytes [simp]:
  "record_ok r \<Longrightarrow> length (record_to_bytes crc r) = record_serialized_size r"
  by (simp add: record_to_bytes_def record_body_def record_ok_def record_serialized_size_def)

lemma record_serialized_size_pos [simp]: "record_serialized_size r > 0"
  by (simp add: record_serialized_size_def)

lemma unat_word_of_nat_u32 [simp]: "n < 2 ^ 32 \<Longrightarrow> unat (word_of_nat n :: u32) = n"
  by (simp add: unat_of_nat)

text \<open>Decoding never panics and accepts exactly a buffer that starts with the encoding of a record.\<close>

lemma record_from_bytes_total: "record_from_bytes crc buf \<noteq> None"
  by (auto simp: record_from_bytes_def try_option_eq_None usize_checked_add_def page_simps slice_sub_bytes)

lemma record_from_bytes_encoded:
  assumes "record_ok r"
  shows "record_from_bytes crc (record_to_bytes crc r @ rest) = Some (Some r)"
proof -
  let ?buf = "record_to_bytes crc r @ rest" and ?n = "length (rec_value r)"
  have k: "length (rec_key_prefix r) = 8" and n: "?n < 2 ^ 32" using assms by (simp_all add: record_ok_def)
  have len: "length ?buf \<ge> 16 + ?n" using assms by (simp add: record_serialized_size_def)
  have body: "length (record_body r) = 12 + ?n" by (simp add: record_body_def k)
  have "slice_range ?buf 0 8 = Some (rec_key_prefix r)"
    using k by (simp add: slice_sub_bytes record_to_bytes_def record_body_def append_field_simps)
  moreover have "read_u32 ?buf 8 = Some (word_of_nat ?n)"
    using k by (simp add: page_simps record_to_bytes_def record_body_def append_field_simps)
  moreover have "read_u32 ?buf (12 + ?n) = Some (crc (record_body r))"
    using body len by (simp add: page_simps record_to_bytes_def append_field_simps)
  moreover have "slice_range ?buf 0 (12 + ?n) = Some (record_body r)"
    using body len by (simp add: slice_sub_bytes record_to_bytes_def append_field_simps)
  moreover have "slice_range ?buf 12 (12 + ?n) = Some (rec_value r)"
    using k len by (simp add: slice_sub_bytes record_to_bytes_def record_body_def append_field_simps)
  ultimately show ?thesis
    using len n by (simp add: record_from_bytes_def usize_checked_add_def)
qed

lemma record_from_bytes_sound:
  assumes "record_from_bytes crc buf = Some (Some r)"
  shows "record_ok r \<and> (\<exists>rest. buf = record_to_bytes crc r @ rest)"
proof -
  let ?n = "unat (le_u32 (sub_bytes buf 8 4))"
  have len: "length buf \<ge> 16" using assms by (auto simp: record_from_bytes_def split: if_splits)
  have n: "?n < 2 ^ 32" using unat_less_pow [of "le_u32 (sub_bytes buf 8 4)"] by simp
  have fit: "16 + ?n \<le> length buf"
    and crc: "le_u32 (sub_bytes buf (12 + ?n) 4) = crc (sub_bytes buf 0 (12 + ?n))"
    and r: "r = \<lparr>rec_key_prefix = sub_bytes buf 0 8, rec_value = sub_bytes buf 12 ?n\<rparr>"
    using assms len n
    by (auto simp: record_from_bytes_def usize_checked_add_def page_simps slice_sub_bytes split: if_splits)
  have body: "record_body r = sub_bytes buf 0 (12 + ?n)"
    using len fit n sub_bytes_split [of buf 0 8 "4 + ?n"] sub_bytes_split [of buf 8 4 ?n]
    by (simp add: r record_body_def u32_le_le_u32)
  have "buf = sub_bytes buf 0 (12 + ?n) @ sub_bytes buf (12 + ?n) 4 @ drop (16 + ?n) buf"
    using drop_field [of "12 + ?n" 0 "12 + ?n" buf] drop_field [of "16 + ?n" "12 + ?n" 4 buf] by simp
  moreover have "u32_le (crc (record_body r)) = sub_bytes buf (12 + ?n) 4"
    using crc fit u32_le_le_u32 [of "sub_bytes buf (12 + ?n) 4"] by (simp add: body)
  ultimately have "buf = record_to_bytes crc r @ drop (16 + ?n) buf"
    by (simp add: record_to_bytes_def body)
  moreover have "record_ok r" using fit n by (simp add: r record_ok_def)
  ultimately show ?thesis by blast
qed

end
