(* ===== verification/Blob_File.thy ===== *)
theory Blob_File
  imports Blob_Record
begin

text \<open>
  An append-only blob file, \<open>src/src/blob/file.rs\<close>: its records, the serialized offset of each record, and
  the offsets that are logically deleted. Offsets are strictly ascending, so the binary search of the source
  finds the position of an offset; the ordered set of deleted offsets is a set, listed in order.
\<close>

section \<open>State and operations\<close>

record blob_file =
  bf_file_id :: u32
  bf_records :: "blob_record list"
  bf_record_offsets :: "u64 list"
  bf_offset :: u64
  bf_valid_count :: nat
  bf_deleted_count :: nat
  bf_deleted_offsets :: "u64 set"

definition bf_new :: "u32 \<Rightarrow> blob_file" where
  "bf_new file_id = \<lparr>bf_file_id = file_id, bf_records = [], bf_record_offsets = [], bf_offset = 0,
     bf_valid_count = 0, bf_deleted_count = 0, bf_deleted_offsets = {}\<rparr>"

definition bf_record_count :: "blob_file \<Rightarrow> nat" where
  "bf_record_count f = length (bf_records f)"

definition bf_needs_gc :: "blob_file \<Rightarrow> bool" where
  "bf_needs_gc f \<longleftrightarrow> (let total = bf_valid_count f + bf_deleted_count f in total > 0 \<and> bf_deleted_count f > total div 2)"

text \<open>\<open>offset += size\<close> is an arithmetic overflow panic.\<close>

definition bf_append :: "blob_file \<Rightarrow> bytes \<Rightarrow> bytes \<Rightarrow> ((u64 \<times> u32) \<times> blob_file) exec" where
  "bf_append f key_prefix val = do {
     let rec = blob_record_new key_prefix val;
     let len = word_of_nat (length (rec_value rec));
     let current_offset = bf_offset f;
     new_offset \<leftarrow> checked_add_word (bf_offset f) (word_of_nat (record_serialized_size rec));
     Some ((current_offset, len), f\<lparr>bf_offset := new_offset, bf_valid_count := bf_valid_count f + 1,
       bf_record_offsets := bf_record_offsets f @ [current_offset], bf_records := bf_records f @ [rec]\<rparr>)
   }"

definition saturating_sub_word :: "'w::len word \<Rightarrow> 'w word \<Rightarrow> 'w word" where
  "saturating_sub_word a b = (if b \<le> a then a - b else 0)"

definition bf_rollback_append :: "blob_file \<Rightarrow> u64 \<Rightarrow> u32 \<Rightarrow> bool \<times> blob_file" where
  "bf_rollback_append f offset len =
     (if bf_records f = [] then (False, f)
      else (let rec = last (bf_records f);
                expected_offset = saturating_sub_word (bf_offset f) (word_of_nat (record_serialized_size rec))
            in if expected_offset \<noteq> offset \<or> length (rec_value rec) \<noteq> unat len \<or> offset \<in> bf_deleted_offsets f
               then (False, f)
               else (True, f\<lparr>bf_records := butlast (bf_records f), bf_record_offsets := butlast (bf_record_offsets f),
                      bf_offset := offset, bf_valid_count := bf_valid_count f - 1\<rparr>)))"

fun sum_sizes :: "u64 \<Rightarrow> blob_record list \<Rightarrow> u64 option" where
  "sum_sizes acc [] = Some acc"
| "sum_sizes acc (r # rs) =
     (case checked_add_word acc (word_of_nat (record_serialized_size r)) of None \<Rightarrow> None | Some acc' \<Rightarrow> sum_sizes acc' rs)"

definition bf_serialized_size :: "blob_file \<Rightarrow> u64 option" where
  "bf_serialized_size f = sum_sizes 0 (bf_records f)"

text \<open>\<open>binary_search\<close> on a strictly ascending vector: the index of the element, or where it would go.\<close>

definition binary_search :: "('a \<Rightarrow> 'k::linorder) \<Rightarrow> 'a list \<Rightarrow> 'k \<Rightarrow> nat + nat" where
  "binary_search key xs x =
     (case position (\<lambda>y. key y = x) xs of
        Some i \<Rightarrow> Inr i
      | None \<Rightarrow> Inl (length (takeWhile (\<lambda>y. key y < x) xs)))"

definition bf_has_record_at :: "blob_file \<Rightarrow> u64 \<Rightarrow> bool" where
  "bf_has_record_at f offset \<longleftrightarrow> (case binary_search (\<lambda>x. x) (bf_record_offsets f) offset of Inr _ \<Rightarrow> True | Inl _ \<Rightarrow> False)"

definition bf_can_mark_deleted :: "blob_file \<Rightarrow> u64 \<Rightarrow> bool" where
  "bf_can_mark_deleted f offset \<longleftrightarrow> bf_has_record_at f offset \<and> offset \<notin> bf_deleted_offsets f"

definition bf_read :: "blob_file \<Rightarrow> u64 \<Rightarrow> u32 \<Rightarrow> bytes option" where
  "bf_read f offset len =
     (case binary_search (\<lambda>x. x) (bf_record_offsets f) offset of
        Inl _ \<Rightarrow> None
      | Inr index \<Rightarrow>
          if index < length (bf_records f)
          then (let rec = bf_records f ! index in if length (rec_value rec) = unat len then Some (rec_value rec) else None)
          else None)"

definition bf_mark_deleted :: "blob_file \<Rightarrow> u64 \<Rightarrow> bool \<times> blob_file" where
  "bf_mark_deleted f offset =
     (if \<not> bf_has_record_at f offset \<or> offset \<in> bf_deleted_offsets f then (False, f)
      else (True, f\<lparr>bf_deleted_offsets := insert offset (bf_deleted_offsets f),
              bf_deleted_count := bf_deleted_count f + 1, bf_valid_count := bf_valid_count f - 1\<rparr>))"

fun bf_restore_deleted :: "blob_file \<Rightarrow> u64 list \<Rightarrow> blob_file option" where
  "bf_restore_deleted f [] = Some f"
| "bf_restore_deleted f (offset # rest) =
     (case bf_mark_deleted f offset of (False, _) \<Rightarrow> None | (True, f') \<Rightarrow> bf_restore_deleted f' rest)"

definition bf_deleted_list :: "blob_file \<Rightarrow> u64 list" where
  "bf_deleted_list f = sorted_list_of_set (bf_deleted_offsets f)"

definition bf_clear_deletion_metadata :: "blob_file \<Rightarrow> blob_file" where
  "bf_clear_deletion_metadata f = f\<lparr>bf_deleted_offsets := {}, bf_deleted_count := 0, bf_valid_count := length (bf_records f)\<rparr>"

definition bf_mark_all_deleted :: "blob_file \<Rightarrow> blob_file" where
  "bf_mark_all_deleted f = f\<lparr>bf_deleted_offsets := set (bf_record_offsets f), bf_deleted_count := length (bf_records f),
     bf_valid_count := 0\<rparr>"

definition bf_to_bytes :: "(bytes \<Rightarrow> u32) \<Rightarrow> blob_file \<Rightarrow> bytes" where
  "bf_to_bytes crc f = concat (map (record_to_bytes crc) (bf_records f))"

text \<open>The loop of \<open>from_bytes\<close>; every record is at least sixteen bytes long.\<close>

function bf_read_records :: "(bytes \<Rightarrow> u32) \<Rightarrow> bytes \<Rightarrow> nat \<Rightarrow> blob_record list \<Rightarrow> u64 list \<Rightarrow> (blob_record list \<times> u64 list) option exec" where
  "bf_read_records crc buf pos records offsets =
     (if pos < length buf then
        try_option (record_from_bytes crc (drop pos buf)) (\<lambda>rec.
          bf_read_records crc buf (pos + record_serialized_size rec) (records @ [rec]) (offsets @ [word_of_nat pos]))
      else Some (Some (records, offsets)))"
  by pat_completeness auto

termination
  by (relation "measure (\<lambda>(crc, buf, pos, records, offsets). length buf - pos)") (auto intro: diff_less_mono2)

declare bf_read_records.simps [simp del]

definition bf_from_bytes :: "(bytes \<Rightarrow> u32) \<Rightarrow> u32 \<Rightarrow> bytes \<Rightarrow> blob_file option exec" where
  "bf_from_bytes crc file_id buf =
     try_option (bf_read_records crc buf 0 [] []) (\<lambda>(records, record_offsets).
       Some (Some \<lparr>bf_file_id = file_id, bf_records = records, bf_record_offsets = record_offsets,
         bf_offset = word_of_nat (sum_list (map record_serialized_size records)), bf_valid_count = length records,
         bf_deleted_count = 0, bf_deleted_offsets = {}\<rparr>))"

section \<open>The invariant\<close>

text \<open>Where the records of a file start.\<close>

definition total_size :: "blob_record list \<Rightarrow> nat" where
  "total_size rs = sum_list (map record_serialized_size rs)"

fun starts :: "nat \<Rightarrow> blob_record list \<Rightarrow> nat list" where
  "starts n [] = []"
| "starts n (r # rs) = n # starts (n + record_serialized_size r) rs"

definition file_ok :: "blob_file \<Rightarrow> bool" where
  "file_ok f \<longleftrightarrow>
     list_all record_ok (bf_records f) \<and> total_size (bf_records f) < 2 ^ 64 \<and>
     bf_record_offsets f = map word_of_nat (starts 0 (bf_records f)) \<and>
     bf_offset f = word_of_nat (total_size (bf_records f)) \<and>
     bf_deleted_offsets f \<subseteq> set (bf_record_offsets f) \<and>
     bf_deleted_count f = card (bf_deleted_offsets f) \<and>
     bf_valid_count f = length (bf_records f) - card (bf_deleted_offsets f)"

lemma length_starts [simp]: "length (starts n rs) = length rs"
  by (induction rs arbitrary: n) auto

lemma starts_append: "starts n (rs @ rs') = starts n rs @ starts (n + total_size rs) rs'"
  by (induction rs arbitrary: n) (auto simp: total_size_def add.assoc)

lemma starts_bounds: "x \<in> set (starts n rs) \<Longrightarrow> n \<le> x \<and> x < n + total_size rs"
  by (induction rs arbitrary: n) (fastforce simp: total_size_def)+

lemma sorted_starts: "sorted_wrt (<) (starts n rs)"
proof (induction rs arbitrary: n)
  case (Cons r rs)
  have "n < x" if "x \<in> set (starts (n + record_serialized_size r) rs)" for x
    using starts_bounds [OF that] record_serialized_size_pos [of r] by linarith
  then show ?case using Cons.IH by simp
qed simp

lemma total_size_append [simp]: "total_size (rs @ rs') = total_size rs + total_size rs'"
  by (simp add: total_size_def)

lemma total_size_simps [simp]: "total_size [] = 0" "total_size (r # rs) = record_serialized_size r + total_size rs"
  by (simp_all add: total_size_def)

lemma unat_word_of_nat_u64 [simp]: "n < 2 ^ 64 \<Longrightarrow> unat (word_of_nat n :: u64) = n"
  by (simp add: unat_of_nat)

lemma checked_add_nat:
  assumes "a + b < 2 ^ 64"
  shows "checked_add_word (word_of_nat a :: u64) (word_of_nat b) = Some (word_of_nat (a + b))"
proof -
  have "unat (word_of_nat a :: u64) = a" "unat (word_of_nat b :: u64) = b"
    by (rule unat_word_of_nat_u64; use assms in simp)+
  then show ?thesis using assms by (simp add: checked_add_word_def)
qed

lemma length_file_bytes: "list_all record_ok rs \<Longrightarrow> length (concat (map (record_to_bytes crc) rs)) = total_size rs"
  by (induction rs) auto

lemma word_starts_distinct:
  assumes "total_size rs < 2 ^ 64"
  shows "distinct (map word_of_nat (starts 0 rs) :: u64 list)" and "sorted (map word_of_nat (starts 0 rs) :: u64 list)"
proof -
  have b: "x < 2 ^ 64" if "x \<in> set (starts 0 rs)" for x
    using starts_bounds [OF that] assms by simp
  have u: "unat (word_of_nat x :: u64) = x" if "x \<in> set (starts 0 rs)" for x
    by (rule unat_word_of_nat_u64 [OF b [OF that]])
  have inj: "inj_on (word_of_nat :: nat \<Rightarrow> u64) (set (starts 0 rs))"
    by (rule inj_onI) (metis u)
  moreover have "distinct (starts 0 rs)"
    using sorted_starts strict_sorted_iff by blast
  ultimately show "distinct (map word_of_nat (starts 0 rs) :: u64 list)" by (simp add: distinct_map)
  have "sorted (starts 0 rs)" using sorted_starts strict_sorted_iff by blast
  then show "sorted (map word_of_nat (starts 0 rs) :: u64 list)"
    unfolding sorted_map by (rule sorted_wrt_mono_rel [rotated]) (simp add: u word_le_nat_alt)
qed

section \<open>The values of a file\<close>

definition file_values :: "blob_file \<Rightarrow> u64 \<Rightarrow> bytes option" where
  "file_values f = map_of (zip (bf_record_offsets f) (map rec_value (bf_records f)))"

lemma file_okD:
  assumes "file_ok f"
  shows file_ok_records: "list_all record_ok (bf_records f)" and file_ok_size: "total_size (bf_records f) < 2 ^ 64"
    and file_ok_offsets: "bf_record_offsets f = map word_of_nat (starts 0 (bf_records f))"
    and file_ok_offset: "bf_offset f = word_of_nat (total_size (bf_records f))"
    and file_ok_deleted: "bf_deleted_offsets f \<subseteq> set (bf_record_offsets f)"
    and file_ok_counts: "bf_deleted_count f = card (bf_deleted_offsets f)"
      "bf_valid_count f = length (bf_records f) - card (bf_deleted_offsets f)"
  using assms unfolding file_ok_def by blast+

lemma file_ok_length: "file_ok f \<Longrightarrow> length (bf_record_offsets f) = length (bf_records f)"
  by (simp add: file_ok_offsets)

lemma file_ok_distinct: "file_ok f \<Longrightarrow> distinct (bf_record_offsets f)"
  using word_starts_distinct(1) file_ok_size file_ok_offsets by simp

lemma file_ok_card:
  assumes "file_ok f"
  shows "card (bf_deleted_offsets f) \<le> length (bf_records f)"
    and "card (bf_deleted_offsets f) = length (bf_records f) \<longleftrightarrow> bf_deleted_offsets f = set (bf_record_offsets f)"
proof -
  have c: "card (set (bf_record_offsets f)) = length (bf_records f)"
    using distinct_card [OF file_ok_distinct [OF assms]] file_ok_length [OF assms] by simp
  then show "card (bf_deleted_offsets f) \<le> length (bf_records f)"
    using card_mono [OF finite_set file_ok_deleted [OF assms]] by simp
  show "card (bf_deleted_offsets f) = length (bf_records f) \<longleftrightarrow> bf_deleted_offsets f = set (bf_record_offsets f)"
    using c card_subset_eq [OF finite_set file_ok_deleted [OF assms]] by metis
qed

lemma map_of_zip_snoc:
  assumes "length xs = length ys" and "x \<notin> set xs"
  shows "map_of (zip (xs @ [x]) (ys @ [y])) = (map_of (zip xs ys))(x \<mapsto> y)" and "map_of (zip xs ys) x = None"
proof -
  show n: "map_of (zip xs ys) x = None" using assms by (simp add: map_of_zip_is_None)
  show "map_of (zip (xs @ [x]) (ys @ [y])) = (map_of (zip xs ys))(x \<mapsto> y)"
    using assms n by (auto simp: map_add_def fun_eq_iff simp del: map_of_zip_is_None split: option.splits)
qed

lemma dom_file_values: "file_ok f \<Longrightarrow> dom (file_values f) = set (bf_record_offsets f)"
  by (simp add: file_values_def file_ok_length)

lemma position_distinct: "distinct xs \<Longrightarrow> i < length xs \<Longrightarrow> position (\<lambda>y. y = xs ! i) xs = Some i"
proof (induction xs arbitrary: i)
  case (Cons x xs)
  then show ?case by (cases i) (auto simp: nth_eq_iff_index_eq)
qed simp

lemma binary_search_cases:
  assumes "distinct xs" and "length ys = length xs"
  shows "(case binary_search (\<lambda>x. x) xs x of Inr i \<Rightarrow> i < length ys \<and> map_of (zip xs ys) x = Some (ys ! i)
    | Inl _ \<Rightarrow> map_of (zip xs ys) x = None)"
proof (cases "position (\<lambda>y. y = x) xs")
  case None
  then have "x \<notin> set xs" by (auto simp: position_None)
  then show ?thesis using None assms(2) by (simp add: binary_search_def map_of_zip_is_None)
next
  case (Some i)
  then have "i < length xs" "xs ! i = x" by (auto dest: position_Some)
  then show ?thesis using Some assms map_of_zip_nth [of xs ys i] by (simp add: binary_search_def)
qed

lemma bf_read_values:
  assumes "file_ok f"
  shows "bf_read f offset len = (case file_values f offset of Some v \<Rightarrow> if length v = unat len then Some v else None | None \<Rightarrow> None)"
  using binary_search_cases [OF file_ok_distinct [OF assms], of "map rec_value (bf_records f)" offset] file_ok_length [OF assms]
  by (auto simp: bf_read_def file_values_def Let_def simp del: map_of_zip_is_None split: sum.splits)

lemma bf_has_record_values:
  assumes "file_ok f"
  shows "bf_has_record_at f offset \<longleftrightarrow> file_values f offset \<noteq> None"
  using binary_search_cases [OF file_ok_distinct [OF assms], of "map rec_value (bf_records f)" offset] file_ok_length [OF assms]
  by (auto simp: bf_has_record_at_def file_values_def simp del: map_of_zip_is_None split: sum.splits)

lemma file_ok_new: "file_ok (bf_new file_id)"
  by (simp add: file_ok_def bf_new_def)

lemma file_values_new [simp]: "file_values (bf_new file_id) = Map.empty"
  by (simp add: file_values_def bf_new_def)

lemma offset_fresh:
  assumes "file_ok f" and "total_size (bf_records f) < 2 ^ 64"
  shows "bf_offset f \<notin> set (bf_record_offsets f)"
proof
  assume "bf_offset f \<in> set (bf_record_offsets f)"
  then obtain x where x: "x \<in> set (starts 0 (bf_records f))" and e: "bf_offset f = word_of_nat x"
    using file_ok_offsets [OF assms(1)] by auto
  have "x < total_size (bf_records f)" using starts_bounds [OF x] by simp
  moreover have "total_size (bf_records f) = x"
    using e file_ok_offset [OF assms(1)] assms(2) calculation unat_word_of_nat_u64 [of x] unat_word_of_nat_u64 [of "total_size (bf_records f)"]
    by simp
  ultimately show False by simp
qed

lemma bf_append_spec:
  assumes ok: "file_ok f" and p: "length key_prefix = 8" and v: "length val < 2 ^ 32"
    and fit: "total_size (bf_records f) + RECORD_OVERHEAD_SIZE + length val < 2 ^ 64"
  obtains f' where "bf_append f key_prefix val = Some ((bf_offset f, word_of_nat (length val)), f')" and "file_ok f'"
    and "file_values f' = (file_values f)(bf_offset f \<mapsto> val)" and "file_values f (bf_offset f) = None"
    and "bf_file_id f' = bf_file_id f" and "bf_deleted_offsets f' = bf_deleted_offsets f"
    and "bf_records f' = bf_records f @ [blob_record_new key_prefix val]"
proof -
  let ?r = "blob_record_new key_prefix val"
  let ?f = "f\<lparr>bf_offset := bf_offset f + word_of_nat (record_serialized_size ?r), bf_valid_count := bf_valid_count f + 1,
    bf_record_offsets := bf_record_offsets f @ [bf_offset f], bf_records := bf_records f @ [?r]\<rparr>"
  have size: "record_serialized_size ?r = 16 + length val" by (simp add: record_serialized_size_def blob_record_new_def)
  have fresh: "bf_offset f \<notin> set (bf_record_offsets f)" by (rule offset_fresh [OF ok file_ok_size [OF ok]])
  have us: "unat (word_of_nat (record_serialized_size ?r) :: u64) = record_serialized_size ?r"
    by (rule unat_word_of_nat_u64) (use fit in \<open>simp add: size\<close>)
  have "unat (bf_offset f) = total_size (bf_records f)"
    using file_ok_offset [OF ok] file_ok_size [OF ok] by simp
  then have add: "checked_add_word (bf_offset f) (word_of_nat (record_serialized_size ?r)) = Some (bf_offset f + word_of_nat (record_serialized_size ?r))"
    unfolding checked_add_word_def us using fit by (simp add: size)
  then have "bf_append f key_prefix val = Some ((bf_offset f, word_of_nat (length val)), ?f)"
    by (simp add: bf_append_def Let_def blob_record_new_def)
  moreover have "file_ok ?f"
    using ok p v fit file_ok_card(1) [OF ok]
    by (auto simp: file_ok_def starts_append record_serialized_size_def record_ok_def blob_record_new_def)
  moreover have "file_values ?f = (file_values f)(bf_offset f \<mapsto> val)"
    using map_of_zip_snoc(1) [OF _ fresh, of "map rec_value (bf_records f)"] file_ok_length [OF ok]
    by (simp add: file_values_def blob_record_new_def)
  moreover have "file_values f (bf_offset f) = None"
    using fresh dom_file_values [OF ok] by auto
  ultimately show thesis using that [of ?f] by simp
qed

section \<open>Rollback and deletion marks\<close>

lemma last_record:
  assumes ok: "file_ok f" and r: "bf_records f = rs @ [r]"
  shows "bf_record_offsets f = map word_of_nat (starts 0 rs) @ [word_of_nat (total_size rs)]"
    and "saturating_sub_word (bf_offset f) (word_of_nat (record_serialized_size r)) = word_of_nat (total_size rs)"
proof -
  show "bf_record_offsets f = map word_of_nat (starts 0 rs) @ [word_of_nat (total_size rs)]"
    using file_ok_offsets [OF ok] by (simp add: r starts_append)
  have fit: "total_size rs + record_serialized_size r < 2 ^ 64" using file_ok_size [OF ok] by (simp add: r)
  have o: "bf_offset f = word_of_nat (total_size rs) + word_of_nat (record_serialized_size r)"
    using file_ok_offset [OF ok] by (simp add: r)
  have "unat (word_of_nat (record_serialized_size r) :: u64) \<le> unat (bf_offset f)"
    using fit file_ok_offset [OF ok] unat_word_of_nat_u64 [of "record_serialized_size r"]
      unat_word_of_nat_u64 [OF fit] by (simp add: r del: of_nat_add)
  then show "saturating_sub_word (bf_offset f) (word_of_nat (record_serialized_size r)) = word_of_nat (total_size rs)"
    by (simp add: saturating_sub_word_def word_le_nat_alt o)
qed

text \<open>A rollback succeeds exactly for the last record, and undoes its append.\<close>

lemma bf_rollback_spec:
  assumes ok: "file_ok f"
  shows "fst (bf_rollback_append f offset len) \<longleftrightarrow> (\<exists>rs r. bf_records f = rs @ [r] \<and> offset = word_of_nat (total_size rs)
      \<and> length (rec_value r) = unat len \<and> offset \<notin> bf_deleted_offsets f)"
    and "\<not> fst (bf_rollback_append f offset len) \<Longrightarrow> snd (bf_rollback_append f offset len) = f"
proof -
  show "fst (bf_rollback_append f offset len) \<longleftrightarrow> (\<exists>rs r. bf_records f = rs @ [r] \<and> offset = word_of_nat (total_size rs)
      \<and> length (rec_value r) = unat len \<and> offset \<notin> bf_deleted_offsets f)"
  proof (cases "bf_records f" rule: rev_cases)
    case (snoc rs r)
    then show ?thesis using last_record(2) [OF ok snoc] by (auto simp: bf_rollback_append_def Let_def)
  qed (simp add: bf_rollback_append_def)
  show "\<not> fst (bf_rollback_append f offset len) \<Longrightarrow> snd (bf_rollback_append f offset len) = f"
    by (auto simp: bf_rollback_append_def Let_def split: if_splits)
qed

lemma bf_rollback_done:
  assumes ok: "file_ok f" and ran: "bf_rollback_append f offset len = (True, f')"
  obtains rs r where "bf_records f = rs @ [r]" and "bf_records f' = rs" and "file_ok f'"
    and "file_values f' = (file_values f)(offset := None)" and "bf_file_id f' = bf_file_id f"
    and "bf_deleted_offsets f' = bf_deleted_offsets f" and "offset \<notin> bf_deleted_offsets f"
    and "file_values f offset = Some (rec_value r)" and "length (rec_value r) = unat len"
proof -
  obtain rs r where r: "bf_records f = rs @ [r]" and o: "offset = word_of_nat (total_size rs)"
    and l: "length (rec_value r) = unat len" and d: "offset \<notin> bf_deleted_offsets f"
    using bf_rollback_spec(1) [OF ok, of offset len] ran by auto
  have f': "f' = f\<lparr>bf_records := rs, bf_record_offsets := map word_of_nat (starts 0 rs), bf_offset := offset,
      bf_valid_count := bf_valid_count f - 1\<rparr>"
    using ran r last_record [OF ok r] o l d by (simp add: bf_rollback_append_def Let_def)
  have sub: "bf_deleted_offsets f \<subseteq> set (map word_of_nat (starts 0 rs))"
    using file_ok_deleted [OF ok] d o last_record(1) [OF ok r] by auto
  have "card (bf_deleted_offsets f) \<le> length rs"
    using card_mono [OF finite_set sub] card_length [of "map word_of_nat (starts 0 rs) :: u64 list"] by simp
  then have "file_ok f'"
    using ok sub unfolding file_ok_def by (simp add: f' r o)
  moreover have "offset \<notin> set (map word_of_nat (starts 0 rs))"
    using file_ok_distinct [OF ok] last_record(1) [OF ok r] o by simp
  then have "file_values f' = (file_values f)(offset := None)" and "file_values f offset = Some (rec_value r)"
    using last_record(1) [OF ok r] o map_of_zip_snoc(1) [of "map word_of_nat (starts 0 rs)" "map rec_value rs" offset "rec_value r"]
      map_of_zip_snoc(2) [of "map word_of_nat (starts 0 rs)" "map rec_value rs" offset]
    by (simp_all add: file_values_def f' r fun_upd_idem del: map_of_zip_is_None)
  ultimately show thesis using that r l d by (simp add: f')
qed

lemma bf_mark_deleted_spec:
  assumes ok: "file_ok f"
  shows "fst (bf_mark_deleted f offset) \<longleftrightarrow> file_values f offset \<noteq> None \<and> offset \<notin> bf_deleted_offsets f"
    and "file_ok (snd (bf_mark_deleted f offset))" and "file_values (snd (bf_mark_deleted f offset)) = file_values f"
    and "bf_records (snd (bf_mark_deleted f offset)) = bf_records f"
    and "bf_file_id (snd (bf_mark_deleted f offset)) = bf_file_id f"
    and "bf_deleted_offsets (snd (bf_mark_deleted f offset))
      = (if fst (bf_mark_deleted f offset) then insert offset (bf_deleted_offsets f) else bf_deleted_offsets f)"
proof -
  note h = bf_has_record_values [OF ok, of offset]
  show "fst (bf_mark_deleted f offset) \<longleftrightarrow> file_values f offset \<noteq> None \<and> offset \<notin> bf_deleted_offsets f"
    using h by (simp add: bf_mark_deleted_def)
  show "file_values (snd (bf_mark_deleted f offset)) = file_values f"
    and "bf_records (snd (bf_mark_deleted f offset)) = bf_records f"
    and "bf_file_id (snd (bf_mark_deleted f offset)) = bf_file_id f"
    and "bf_deleted_offsets (snd (bf_mark_deleted f offset))
      = (if fst (bf_mark_deleted f offset) then insert offset (bf_deleted_offsets f) else bf_deleted_offsets f)"
    by (simp_all add: bf_mark_deleted_def file_values_def)
  show "file_ok (snd (bf_mark_deleted f offset))"
  proof (cases "bf_has_record_at f offset \<and> offset \<notin> bf_deleted_offsets f")
    case True
    then have "offset \<in> set (bf_record_offsets f)" using h dom_file_values [OF ok] by auto
    moreover have "finite (bf_deleted_offsets f)" using file_ok_deleted [OF ok] finite_subset by blast
    ultimately show ?thesis using ok True unfolding file_ok_def by (auto simp: bf_mark_deleted_def)
  qed (use ok in \<open>auto simp: bf_mark_deleted_def\<close>)
qed

lemma bf_restore_deleted_iff:
  assumes "file_ok f"
  shows "bf_restore_deleted f ds \<noteq> None \<longleftrightarrow> distinct ds \<and> set ds \<subseteq> dom (file_values f) - bf_deleted_offsets f"
  using assms
proof (induction ds arbitrary: f)
  case (Cons x ds)
  note m = bf_mark_deleted_spec [OF Cons.prems, of x]
  show ?case
  proof (cases "fst (bf_mark_deleted f x)")
    case True
    then obtain f1 where f1: "bf_mark_deleted f x = (True, f1)" by (cases "bf_mark_deleted f x") simp
    have "bf_restore_deleted f1 ds \<noteq> None \<longleftrightarrow> distinct ds \<and> set ds \<subseteq> dom (file_values f1) - bf_deleted_offsets f1"
      by (rule Cons.IH) (use m(2) in \<open>simp add: f1\<close>)
    then show ?thesis using m by (auto simp: f1)
  next
    case False
    then obtain f1 where f1: "bf_mark_deleted f x = (False, f1)" by (cases "bf_mark_deleted f x") simp
    then show ?thesis using m(1) by auto
  qed
qed simp

lemma bf_restore_deleted_done:
  assumes "file_ok f" and "bf_restore_deleted f ds = Some f'"
  shows "file_ok f' \<and> file_values f' = file_values f \<and> bf_records f' = bf_records f
      \<and> bf_file_id f' = bf_file_id f \<and> bf_deleted_offsets f' = bf_deleted_offsets f \<union> set ds"
  using assms
proof (induction ds arbitrary: f)
  case (Cons x ds)
  note m = bf_mark_deleted_spec [OF Cons.prems(1), of x]
  obtain f1 where f1: "bf_mark_deleted f x = (True, f1)" and r: "bf_restore_deleted f1 ds = Some f'"
    using Cons.prems(2) by (auto split: prod.splits bool.splits)
  have ok1: "file_ok f1" using m(2) by (simp add: f1)
  show ?case using Cons.IH [OF ok1 r] m by (auto simp: f1)
qed simp

lemma bf_clear_ok: "file_ok f \<Longrightarrow> file_ok (bf_clear_deletion_metadata f)"
  by (simp add: file_ok_def bf_clear_deletion_metadata_def)

lemma bf_mark_all_ok:
  assumes ok: "file_ok f"
  shows "file_ok (bf_mark_all_deleted f)"
proof -
  have "card (set (bf_record_offsets f)) = length (bf_records f)"
    using distinct_card [OF file_ok_distinct [OF ok]] file_ok_length [OF ok] by simp
  then show ?thesis using ok unfolding file_ok_def by (simp add: bf_mark_all_deleted_def)
qed

section \<open>The record stream\<close>

text \<open>A file is determined by its identifier, its records and its deletion marks.\<close>

lemma file_eqI:
  assumes "file_ok f" and "file_ok g" and "bf_file_id f = bf_file_id g" and "bf_records f = bf_records g"
    and "bf_deleted_offsets f = bf_deleted_offsets g"
  shows "f = g"
  using assms by (cases f; cases g) (simp add: file_ok_def)

lemma bf_read_records_encoded:
  assumes "list_all record_ok rs"
  shows "bf_read_records crc (pre @ concat (map (record_to_bytes crc) rs)) (length pre) records offsets
    = Some (Some (records @ rs, offsets @ map word_of_nat (starts (length pre) rs)))"
  using assms
proof (induction rs arbitrary: pre records offsets)
  case Nil
  then show ?case by (simp add: bf_read_records.simps)
next
  case (Cons r rs)
  let ?buf = "pre @ concat (map (record_to_bytes crc) (r # rs))"
  have ok: "record_ok r" using Cons.prems by simp
  have "bf_read_records crc ((pre @ record_to_bytes crc r) @ concat (map (record_to_bytes crc) rs))
      (length (pre @ record_to_bytes crc r)) (records @ [r]) (offsets @ [word_of_nat (length pre)])
    = Some (Some ((records @ [r]) @ rs, (offsets @ [word_of_nat (length pre)]) @ map word_of_nat (starts (length (pre @ record_to_bytes crc r)) rs)))"
    by (rule Cons.IH) (use Cons.prems in simp)
  moreover have "length pre < length ?buf"
    using ok record_serialized_size_pos [of r] by (simp del: record_serialized_size_pos)
  moreover have "record_from_bytes crc (drop (length pre) ?buf) = Some (Some r)"
    using record_from_bytes_encoded [OF ok, of crc "concat (map (record_to_bytes crc) rs)"] by simp
  ultimately show ?case
    using ok by (subst bf_read_records.simps) simp
qed

lemma bf_read_records_total: "bf_read_records crc buf pos records offsets \<noteq> None"
proof (induction crc buf pos records offsets rule: bf_read_records.induct)
  case (1 crc buf pos records offsets)
  obtain y where y: "record_from_bytes crc (drop pos buf) = Some y"
    using record_from_bytes_total [of crc "drop pos buf"] by auto
  show ?case
  proof (cases y)
    case None
    then show ?thesis by (subst bf_read_records.simps) (simp add: y)
  next
    case (Some r)
    then show ?thesis using 1 [of r] by (subst bf_read_records.simps) (simp add: y)
  qed
qed

lemma bf_read_records_sound:
  assumes "bf_read_records crc buf pos records offsets = Some (Some (records', offsets'))" and "pos \<le> length buf"
  shows "\<exists>rs. records' = records @ rs \<and> offsets' = offsets @ map word_of_nat (starts pos rs) \<and> list_all record_ok rs
    \<and> drop pos buf = concat (map (record_to_bytes crc) rs)"
  using assms
proof (induction crc buf pos records offsets rule: bf_read_records.induct)
  case (1 crc buf pos records offsets)
  show ?case
  proof (cases "pos < length buf")
    case False
    then show ?thesis using "1.prems" by (simp add: bf_read_records.simps)
  next
    case True
    then obtain r where r: "record_from_bytes crc (drop pos buf) = Some (Some r)"
      and run: "bf_read_records crc buf (pos + record_serialized_size r) (records @ [r]) (offsets @ [word_of_nat pos]) = Some (Some (records', offsets'))"
      using "1.prems"(1) by (subst (asm) bf_read_records.simps) (auto simp: try_option_eq_Some_Some)
    obtain rest where ok: "record_ok r" and split: "drop pos buf = record_to_bytes crc r @ rest"
      using record_from_bytes_sound [OF r] by blast
    have fit: "pos + record_serialized_size r \<le> length buf"
      using arg_cong [OF split, of length] ok True by simp
    have rest: "drop (pos + record_serialized_size r) buf = rest"
      using arg_cong [OF split, of "drop (record_serialized_size r)"] ok by (simp add: add.commute)
    obtain rs where "records' = (records @ [r]) @ rs"
      and "offsets' = (offsets @ [word_of_nat pos]) @ map word_of_nat (starts (pos + record_serialized_size r) rs)"
      and "list_all record_ok rs" and "drop (pos + record_serialized_size r) buf = concat (map (record_to_bytes crc) rs)"
      using "1.IH" [OF True r run fit] by blast
    then show ?thesis using ok split rest by (intro exI [of _ "r # rs"]) simp
  qed
qed

lemma bf_from_bytes_total: "bf_from_bytes crc file_id buf \<noteq> None"
  using bf_read_records_total by (auto simp: bf_from_bytes_def try_option_eq_None)

lemma bf_from_bytes_encoded:
  assumes "file_ok f"
  shows "bf_from_bytes crc (bf_file_id f) (bf_to_bytes crc f) = Some (Some (bf_clear_deletion_metadata f))"
proof -
  have r: "bf_read_records crc (bf_to_bytes crc f) 0 [] [] = Some (Some (bf_records f, bf_record_offsets f))"
    using bf_read_records_encoded [OF file_ok_records [OF assms], of crc "[]" "[]" "[]"]
    by (simp add: bf_to_bytes_def file_ok_offsets [OF assms])
  show ?thesis
    using assms by (simp add: bf_from_bytes_def r bf_clear_deletion_metadata_def file_ok_offset total_size_def)
qed

lemma bf_from_bytes_sound:
  assumes "bf_from_bytes crc file_id buf = Some (Some f)" and "length buf < 2 ^ 64"
  shows "file_ok f" and "bf_to_bytes crc f = buf" and "bf_file_id f = file_id" and "bf_deleted_offsets f = {}"
proof -
  obtain rs offsets where r: "bf_read_records crc buf 0 [] [] = Some (Some (rs, offsets))"
    and f: "f = \<lparr>bf_file_id = file_id, bf_records = rs, bf_record_offsets = offsets,
         bf_offset = word_of_nat (total_size rs), bf_valid_count = length rs, bf_deleted_count = 0, bf_deleted_offsets = {}\<rparr>"
    using assms(1) by (auto simp: bf_from_bytes_def try_option_eq_Some_Some total_size_def)
  have s: "offsets = map word_of_nat (starts 0 rs)" "list_all record_ok rs" "buf = concat (map (record_to_bytes crc) rs)"
    using bf_read_records_sound [OF r] by auto
  show "bf_to_bytes crc f = buf" and "bf_file_id f = file_id" and "bf_deleted_offsets f = {}"
    by (simp_all add: bf_to_bytes_def f s(3))
  show "file_ok f"
    using s assms(2) length_file_bytes [OF s(2), of crc] by (simp add: file_ok_def f)
qed

lemma length_bf_to_bytes: "file_ok f \<Longrightarrow> length (bf_to_bytes crc f) = total_size (bf_records f)"
  by (simp add: bf_to_bytes_def length_file_bytes file_ok_records)

lemma sum_sizes_eq:
  assumes "unat acc + total_size rs < 2 ^ 64"
  shows "sum_sizes acc rs = Some (acc + word_of_nat (total_size rs))"
  using assms
proof (induction rs arbitrary: acc)
  case (Cons r rs)
  have u: "unat (word_of_nat (record_serialized_size r) :: u64) = record_serialized_size r"
    by (rule unat_word_of_nat_u64) (use Cons.prems in simp)
  have a: "unat (acc + word_of_nat (record_serialized_size r)) = unat acc + record_serialized_size r"
    using unat_add_no_overflow [of acc "word_of_nat (record_serialized_size r)"] Cons.prems by (simp add: u)
  have c: "checked_add_word acc (word_of_nat (record_serialized_size r)) = Some (acc + word_of_nat (record_serialized_size r))"
    unfolding checked_add_word_def u using Cons.prems by simp
  show ?case
    using Cons.IH [of "acc + word_of_nat (record_serialized_size r)"] Cons.prems a by (simp add: c add.assoc)
qed simp

lemma bf_serialized_size_eq: "file_ok f \<Longrightarrow> bf_serialized_size f = Some (bf_offset f)"
  using sum_sizes_eq [of 0 "bf_records f"] file_ok_size [of f] file_ok_offset [of f] by (simp add: bf_serialized_size_def)

end
