(* ===== verification/Value_Store.thy ===== *)
theory Value_Store
  imports Main
begin

text \<open>
  The contract between a store of values under pointers and its clients. A client keeps a map of the pointers it
  uses to their values; storing a value gives a pointer that was free, and retiring, undoing or sweeping touches no
  other pointer that is in use.
\<close>

locale value_store =
  fixes ok :: "'s \<Rightarrow> bool" and vals :: "'s \<Rightarrow> 'p \<Rightarrow> 'v option" and dead :: "'s \<Rightarrow> 'p set"
    and stored :: "'s \<Rightarrow> 'p \<Rightarrow> 'v \<Rightarrow> 's \<Rightarrow> bool" and retired :: "'s \<Rightarrow> 'p \<Rightarrow> 's \<Rightarrow> bool"
    and undone :: "'s \<Rightarrow> 'p \<Rightarrow> 's \<Rightarrow> bool" and swept :: "'s \<Rightarrow> 's \<Rightarrow> bool"
  assumes dead_law: "ok s \<Longrightarrow> p \<in> dead s \<Longrightarrow> vals s p \<noteq> None"
    and stored_law: "ok s \<Longrightarrow> stored s p v s' \<Longrightarrow> ok s' \<and> vals s p = None \<and> vals s' = (vals s)(p \<mapsto> v) \<and> dead s' = dead s"
    and retired_law: "ok s \<Longrightarrow> retired s p s' \<Longrightarrow> ok s' \<and> vals s' = vals s \<and> dead s' \<subseteq> insert p (dead s)"
    and undone_law: "ok s \<Longrightarrow> undone s p s' \<Longrightarrow> ok s' \<and> vals s' = (vals s)(p := None) \<and> dead s' = dead s"
    and swept_law: "ok s \<Longrightarrow> swept s s' \<Longrightarrow> ok s' \<and> (\<forall>p. p \<notin> dead s \<longrightarrow> vals s' p = vals s p) \<and> dead s' \<subseteq> dead s"
begin

definition holds :: "'s \<Rightarrow> ('p \<rightharpoonup> 'v) \<Rightarrow> bool" where
  "holds s W \<longleftrightarrow> ok s \<and> (\<forall>p v. W p = Some v \<longrightarrow> vals s p = Some v \<and> p \<notin> dead s)"

lemma holds_ok: "holds s W \<Longrightarrow> ok s"
  by (simp add: holds_def)

lemma holds_value: "holds s W \<Longrightarrow> W p = Some v \<Longrightarrow> vals s p = Some v \<and> p \<notin> dead s"
  by (simp add: holds_def)

lemma holds_empty: "ok s \<Longrightarrow> holds s Map.empty"
  by (simp add: holds_def)

lemma holds_less: "holds s W \<Longrightarrow> U \<subseteq>\<^sub>m W \<Longrightarrow> holds s U"
  unfolding holds_def by (metis domI map_le_def)

lemma stored_holds:
  assumes "holds s W" and "stored s p v s'"
  shows "holds s' (W(p \<mapsto> v))" and "W p = None"
proof -
  have l: "ok s' \<and> vals s p = None \<and> vals s' = (vals s)(p \<mapsto> v) \<and> dead s' = dead s"
    by (rule stored_law [OF holds_ok [OF assms(1)] assms(2)])
  then have "p \<notin> dead s" using dead_law [OF holds_ok [OF assms(1)]] by blast
  then show "holds s' (W(p \<mapsto> v))" using l assms(1) by (auto simp: holds_def)
  show "W p = None" using l assms(1) by (cases "W p") (auto simp: holds_def)
qed

lemma retired_holds: "holds s W \<Longrightarrow> retired s p s' \<Longrightarrow> holds s' (W(p := None))"
  using retired_law [of s p s'] by (auto simp: holds_def)

lemma undone_holds: "holds s W \<Longrightarrow> undone s p s' \<Longrightarrow> holds s' (W(p := None))"
  using undone_law [of s p s'] by (auto simp: holds_def)

lemma swept_holds: "holds s W \<Longrightarrow> swept s s' \<Longrightarrow> holds s' W"
  using swept_law [of s s'] by (auto simp: holds_def)

end

end
