(* ===== verification/Blob_Manager.thy ===== *)
theory Blob_Manager
  imports Blob_File Value_Store "HOL-Library.AList_Mapping"
begin

text \<open>
  The blob manager, \<open>src/src/blob/manager.rs\<close>: append-only blob files in ascending order of their identifiers,
  the active one last. Reference-counted files are values here, since \<open>Arc::make_mut\<close> keeps a clone apart from
  the original. The catalog frontier of the segmented layout is part of the state; \<open>Blob_Catalog\<close> has its
  operations.
\<close>

section \<open>State\<close>

definition DEFAULT_BLOB_THRESHOLD :: nat where "DEFAULT_BLOB_THRESHOLD = 1024"
definition DEFAULT_SEGMENT_TARGET_SIZE :: u64 where "DEFAULT_SEGMENT_TARGET_SIZE = 64 * 1024 * 1024"

datatype blob_manager_error = FileIdExhausted

record segment_catalog_state =
  sc_persisted_lengths :: "(u32, u64) mapping"
  sc_persisted_deleted_offsets :: "(u32, u64 set) mapping"
  sc_persisted_generation_id :: u64
  sc_catalog_delta_count :: u32
  sc_catalog_persisted :: bool

definition sc_default :: segment_catalog_state where
  "sc_default = \<lparr>sc_persisted_lengths = Mapping.empty, sc_persisted_deleted_offsets = Mapping.empty,
     sc_persisted_generation_id = 0, sc_catalog_delta_count = 0, sc_catalog_persisted = False\<rparr>"

record blob_manager =
  bl_files :: "blob_file list"
  bl_next_file_id :: u32
  bl_threshold :: nat
  bl_generation_id :: u64
  bl_segmented :: bool
  bl_catalog :: segment_catalog_state
  bl_segment_target_size :: u64

definition bl_with_threshold :: "nat \<Rightarrow> blob_manager" where
  "bl_with_threshold threshold = \<lparr>bl_files = [], bl_next_file_id = 1, bl_threshold = threshold, bl_generation_id = 0,
     bl_segmented = False, bl_catalog = sc_default, bl_segment_target_size = DEFAULT_SEGMENT_TARGET_SIZE\<rparr>"

definition bl_new :: blob_manager where
  "bl_new = bl_with_threshold DEFAULT_BLOB_THRESHOLD"

definition bl_with_threshold_and_mode :: "nat \<Rightarrow> bool \<Rightarrow> blob_manager" where
  "bl_with_threshold_and_mode threshold segmented = (bl_with_threshold threshold)\<lparr>bl_segmented := segmented\<rparr>"

section \<open>Operations\<close>

definition file_index :: "blob_manager \<Rightarrow> u32 \<Rightarrow> nat option" where
  "file_index m file_id = (case binary_search bf_file_id (bl_files m) file_id of Inr i \<Rightarrow> Some i | Inl _ \<Rightarrow> None)"

definition file_by_id :: "blob_manager \<Rightarrow> u32 \<Rightarrow> blob_file option" where
  "file_by_id m file_id =
     (case file_index m file_id of
        None \<Rightarrow> None
      | Some index \<Rightarrow> if index < length (bl_files m) then Some (bl_files m ! index) else None)"

definition bl_set_generation :: "blob_manager \<Rightarrow> u64 \<Rightarrow> blob_manager" where
  "bl_set_generation m generation_id = m\<lparr>bl_generation_id := generation_id\<rparr>"

definition bl_clear_deletion_metadata :: "blob_manager \<Rightarrow> blob_manager" where
  "bl_clear_deletion_metadata m = m\<lparr>bl_files := map bf_clear_deletion_metadata (bl_files m)\<rparr>"

definition bl_mark_all_deleted :: "blob_manager \<Rightarrow> blob_manager" where
  "bl_mark_all_deleted m = m\<lparr>bl_files := map bf_mark_all_deleted (bl_files m)\<rparr>"

definition should_separate :: "blob_manager \<Rightarrow> nat \<Rightarrow> bool" where
  "should_separate m value_len \<longleftrightarrow> value_len > bl_threshold m"

definition make_key_prefix :: "bytes \<Rightarrow> bytes" where
  "make_key_prefix key = take 8 key @ replicate (8 - min (length key) 8) 0"

definition should_rollover :: "blob_manager \<Rightarrow> nat \<Rightarrow> bool" where
  "should_rollover m value_len =
     (if \<not> bl_segmented m then False
      else if bl_files m = [] then False
      else (case bf_serialized_size (last (bl_files m)) of
          None \<Rightarrow> False
        | Some current_size \<Rightarrow>
            (case usize_checked_add RECORD_OVERHEAD_SIZE value_len of
               None \<Rightarrow> True
             | Some record_size \<Rightarrow>
                 current_size > 0 \<and>
                 (case checked_add_word current_size (word_of_nat record_size) of
                    None \<Rightarrow> True
                  | Some grown \<Rightarrow> grown > bl_segment_target_size m))))"

definition on_catalog :: "(segment_catalog_state \<Rightarrow> segment_catalog_state) \<Rightarrow> blob_manager \<Rightarrow> blob_manager" where
  "on_catalog f m = m\<lparr>bl_catalog := f (bl_catalog m)\<rparr>"

definition begin_compaction_file :: "blob_manager \<Rightarrow> u32 option \<times> blob_manager" where
  "begin_compaction_file m =
     (let file_id = bl_next_file_id m
      in if file_id = 0 \<or> file_id = - 1 then (None, m)
         else (case checked_add_word file_id 1 of
             None \<Rightarrow> (None, m)
           | Some next \<Rightarrow> (Some file_id,
               on_catalog (\<lambda>c. c\<lparr>sc_persisted_lengths := Mapping.default file_id 0 (sc_persisted_lengths c)\<rparr>)
                 (m\<lparr>bl_next_file_id := next, bl_files := bl_files m @ [bf_new file_id]\<rparr>))))"

definition create_new_file :: "blob_manager \<Rightarrow> (blob_manager_error + unit) \<times> blob_manager" where
  "create_new_file m =
     (case begin_compaction_file m of (None, m') \<Rightarrow> (Inl FileIdExhausted, m') | (Some _, m') \<Rightarrow> (Inr (), m'))"

definition bl_append :: "blob_manager \<Rightarrow> bytes \<Rightarrow> bytes \<Rightarrow> ((blob_manager_error + blob_pointer) \<times> blob_manager) exec" where
  "bl_append m key val =
     (case (if bl_files m = [] \<or> should_rollover m (length val) then create_new_file m else (Inr (), m)) of
        (Inl e, m') \<Rightarrow> Some (Inl e, m')
      | (Inr _, m') \<Rightarrow>
          if bl_files m' = [] then Some (Inl FileIdExhausted, m')
          else do {
            ((offset, len), file) \<leftarrow> bf_append (last (bl_files m')) (make_key_prefix key) val;
            Some (Inr \<lparr>bp_file_id = bf_file_id file, bp_offset = offset, bp_length = len\<rparr>,
                  m'\<lparr>bl_files := butlast (bl_files m') @ [file]\<rparr>)
          })"

definition bl_rollback_append :: "blob_manager \<Rightarrow> blob_pointer \<Rightarrow> bool \<times> blob_manager" where
  "bl_rollback_append m ptr =
     (if bl_files m = [] then (False, m)
      else if bf_file_id (last (bl_files m)) \<noteq> bp_file_id ptr then (False, m)
      else (case bf_rollback_append (last (bl_files m)) (bp_offset ptr) (bp_length ptr) of
          (False, _) \<Rightarrow> (False, m)
        | (True, file) \<Rightarrow>
            (True, m\<lparr>bl_files := (if bf_record_count file = 0 then butlast (bl_files m) else butlast (bl_files m) @ [file])\<rparr>)))"

definition bl_can_mark_deleted :: "blob_manager \<Rightarrow> blob_pointer \<Rightarrow> bool" where
  "bl_can_mark_deleted m ptr =
     (case file_by_id m (bp_file_id ptr) of None \<Rightarrow> False | Some file \<Rightarrow> bf_can_mark_deleted file (bp_offset ptr))"

definition bl_read :: "blob_manager \<Rightarrow> blob_pointer \<Rightarrow> bytes option" where
  "bl_read m ptr =
     (case file_by_id m (bp_file_id ptr) of None \<Rightarrow> None | Some file \<Rightarrow> bf_read file (bp_offset ptr) (bp_length ptr))"

definition bl_mark_deleted :: "blob_manager \<Rightarrow> blob_pointer \<Rightarrow> (bool \<times> blob_manager) exec" where
  "bl_mark_deleted m ptr =
     (case file_index m (bp_file_id ptr) of
        None \<Rightarrow> Some (False, m)
      | Some index \<Rightarrow>
          if index < length (bl_files m)
          then (let (r, file) = bf_mark_deleted (bl_files m ! index) (bp_offset ptr)
                in Some (r, m\<lparr>bl_files := (bl_files m)[index := file]\<rparr>))
          else None)"

definition fully_dead :: "blob_file \<Rightarrow> bool" where
  "fully_dead file \<longleftrightarrow> bf_needs_gc file \<and> bf_valid_count file = 0"

definition files_needing_gc :: "blob_manager \<Rightarrow> u32 list" where
  "files_needing_gc m = map bf_file_id (filter bf_needs_gc (bl_files m))"

definition has_reclaimable_files :: "blob_manager \<Rightarrow> bool" where
  "has_reclaimable_files m \<longleftrightarrow> list_ex fully_dead (bl_files m)"

text \<open>\<open>Vec::remove\<close>.\<close>

definition vec_remove :: "nat \<Rightarrow> 'a list \<Rightarrow> 'a list" where
  "vec_remove i xs = take i xs @ drop (i + 1) xs"

fun gc_files :: "u32 list \<Rightarrow> blob_manager \<Rightarrow> nat \<Rightarrow> (nat \<times> blob_manager) exec" where
  "gc_files [] m reclaimed = Some (reclaimed, m)"
| "gc_files (file_id # rest) m reclaimed =
     (case file_index m file_id of
        None \<Rightarrow> gc_files rest m reclaimed
      | Some idx \<Rightarrow>
          if idx < length (bl_files m)
          then (let file = bl_files m ! idx
                in if bf_valid_count file \<le> bf_record_count file
                   then gc_files rest (m\<lparr>bl_files := vec_remove idx (bl_files m)\<rparr>)
                          (reclaimed + (bf_record_count file - bf_valid_count file))
                   else None)
          else None)"

definition bl_gc :: "blob_manager \<Rightarrow> (nat \<times> blob_manager) exec" where
  "bl_gc m =
     (let files_to_gc = map bf_file_id (filter fully_dead (bl_files m))
      in if files_to_gc = [] then Some (0, m) else gc_files files_to_gc m 0)"

definition total_valid_entries :: "blob_manager \<Rightarrow> nat" where
  "total_valid_entries m = sum_list (map bf_valid_count (bl_files m))"

definition total_deleted_entries :: "blob_manager \<Rightarrow> nat" where
  "total_deleted_entries m = sum_list (map bf_deleted_count (bl_files m))"

section \<open>The invariant and the stored values\<close>

definition manager_ok :: "blob_manager \<Rightarrow> bool" where
  "manager_ok m \<longleftrightarrow>
     list_all file_ok (bl_files m) \<and> sorted_wrt (<) (map bf_file_id (bl_files m)) \<and>
     (\<forall>f \<in> set (bl_files m). 0 < bf_file_id f \<and> bf_file_id f < bl_next_file_id m)"

text \<open>The values by file and offset, and the marks.\<close>

definition file_of :: "blob_file list \<Rightarrow> u32 \<Rightarrow> blob_file option" where
  "file_of fs = map_of (map (\<lambda>f. (bf_file_id f, f)) fs)"

definition blob_values :: "blob_manager \<Rightarrow> u32 \<times> u64 \<Rightarrow> bytes option" where
  "blob_values m p = (case file_of (bl_files m) (fst p) of None \<Rightarrow> None | Some f \<Rightarrow> file_values f (snd p))"

definition blob_deleted :: "blob_manager \<Rightarrow> (u32 \<times> u64) set" where
  "blob_deleted m = {p. \<exists>f. file_of (bl_files m) (fst p) = Some f \<and> snd p \<in> bf_deleted_offsets f}"

definition place :: "blob_pointer \<Rightarrow> u32 \<times> u64" where
  "place ptr = (bp_file_id ptr, bp_offset ptr)"

lemma manager_okD:
  assumes "manager_ok m"
  shows manager_ok_file: "f \<in> set (bl_files m) \<Longrightarrow> file_ok f"
    and manager_ok_sorted: "sorted_wrt (<) (map bf_file_id (bl_files m))"
    and manager_ok_id: "f \<in> set (bl_files m) \<Longrightarrow> 0 < bf_file_id f \<and> bf_file_id f < bl_next_file_id m"
  using assms by (auto simp: manager_ok_def list_all_iff)

lemma manager_ok_distinct: "manager_ok m \<Longrightarrow> distinct (map bf_file_id (bl_files m))"
  using manager_ok_sorted strict_sorted_iff by blast

lemma file_of_nth:
  assumes "distinct (map bf_file_id fs)" and "i < length fs"
  shows "file_of fs (bf_file_id (fs ! i)) = Some (fs ! i)"
  unfolding file_of_def using assms by (intro map_of_is_SomeI) (auto simp: comp_def)

lemma file_of_Some:
  assumes "distinct (map bf_file_id fs)"
  shows "file_of fs k = Some f \<longleftrightarrow> f \<in> set fs \<and> bf_file_id f = k"
  unfolding file_of_def using assms by (auto simp: map_of_eq_Some_iff comp_def)

lemma file_of_None: "file_of fs k = None \<longleftrightarrow> (\<forall>f \<in> set fs. bf_file_id f \<noteq> k)"
  by (auto simp: file_of_def map_of_eq_None_iff image_image)

lemma file_of_append: "file_of (fs @ gs) k = (case file_of fs k of Some f \<Rightarrow> Some f | None \<Rightarrow> file_of gs k)"
  by (simp add: file_of_def map_add_def split: option.splits)

lemma file_of_single: "file_of [f] k = (if k = bf_file_id f then Some f else None)"
  by (simp add: file_of_def)

lemma file_index_spec:
  assumes "manager_ok m"
  shows "(case file_index m file_id of
      Some i \<Rightarrow> i < length (bl_files m) \<and> bf_file_id (bl_files m ! i) = file_id \<and> file_of (bl_files m) file_id = Some (bl_files m ! i)
    | None \<Rightarrow> file_of (bl_files m) file_id = None)"
proof (cases "position (\<lambda>f. bf_file_id f = file_id) (bl_files m)")
  case None
  then have "file_of (bl_files m) file_id = None" by (auto simp: file_of_None position_None)
  then show ?thesis using None by (simp add: file_index_def binary_search_def)
next
  case (Some i)
  then have "i < length (bl_files m)" "bf_file_id (bl_files m ! i) = file_id" by (auto dest: position_Some)
  then show ?thesis
    using Some file_of_nth [OF manager_ok_distinct [OF assms], of i] by (simp add: file_index_def binary_search_def)
qed

lemma file_by_id_eq: "manager_ok m \<Longrightarrow> file_by_id m file_id = file_of (bl_files m) file_id"
  using file_index_spec [of m file_id] by (auto simp: file_by_id_def split: option.splits)

lemma bl_read_values:
  assumes "manager_ok m"
  shows "bl_read m ptr = (case blob_values m (place ptr) of
    Some v \<Rightarrow> if length v = unat (bp_length ptr) then Some v else None | None \<Rightarrow> None)"
proof (cases "file_of (bl_files m) (bp_file_id ptr)")
  case None
  then show ?thesis by (simp add: bl_read_def file_by_id_eq [OF assms] blob_values_def place_def)
next
  case (Some f)
  then have "file_ok f" using manager_ok_file [OF assms] file_of_Some [OF manager_ok_distinct [OF assms]] by blast
  then show ?thesis
    using Some bf_read_values [of f "bp_offset ptr" "bp_length ptr"]
    by (simp add: bl_read_def file_by_id_eq [OF assms] blob_values_def place_def)
qed

lemma manager_ok_new: "manager_ok (bl_with_threshold_and_mode threshold segmented)"
  by (simp add: manager_ok_def bl_with_threshold_and_mode_def bl_with_threshold_def)

text \<open>Replacing the last file.\<close>

lemma replace_last_file:
  assumes ok: "manager_ok m" and fs: "bl_files m = fs @ [f]" and f': "file_ok f'" "bf_file_id f' = bf_file_id f"
  shows "manager_ok (m\<lparr>bl_files := fs @ [f']\<rparr>)"
    and "blob_values (m\<lparr>bl_files := fs @ [f']\<rparr>) p = (if fst p = bf_file_id f then file_values f' (snd p) else blob_values m p)"
    and "p \<in> blob_deleted (m\<lparr>bl_files := fs @ [f']\<rparr>)
      \<longleftrightarrow> (if fst p = bf_file_id f then snd p \<in> bf_deleted_offsets f' else p \<in> blob_deleted m)"
proof -
  show "manager_ok (m\<lparr>bl_files := fs @ [f']\<rparr>)"
    using ok f' by (auto simp: manager_ok_def fs)
  have n: "file_of fs (bf_file_id f) = None"
    unfolding file_of_None using manager_ok_distinct [OF ok] image_eqI [of _ bf_file_id] by (fastforce simp: fs)
  show "blob_values (m\<lparr>bl_files := fs @ [f']\<rparr>) p = (if fst p = bf_file_id f then file_values f' (snd p) else blob_values m p)"
    using n f'(2) by (auto simp: blob_values_def fs file_of_append file_of_single split: option.splits)
  show "p \<in> blob_deleted (m\<lparr>bl_files := fs @ [f']\<rparr>)
      \<longleftrightarrow> (if fst p = bf_file_id f then snd p \<in> bf_deleted_offsets f' else p \<in> blob_deleted m)"
    using n f'(2) by (auto simp: blob_deleted_def fs file_of_append file_of_single split: option.splits if_splits)
qed

lemma last_file_values:
  assumes ok: "manager_ok m" and fs: "bl_files m = fs @ [f]"
  shows "blob_values m (bf_file_id f, x) = file_values f x" and "(bf_file_id f, x) \<in> blob_deleted m \<longleftrightarrow> x \<in> bf_deleted_offsets f"
  using file_of_nth [OF manager_ok_distinct [OF ok], of "length fs"] by (auto simp: blob_values_def blob_deleted_def fs)

section \<open>What the operations do to the stored values\<close>

lemma bf_append_done:
  assumes ok: "file_ok f" and p: "length key_prefix = 8" and v: "length val < 2 ^ 32"
    and run: "bf_append f key_prefix val = Some (x, f')"
  shows "x = (bf_offset f, word_of_nat (length val)) \<and> file_ok f' \<and> file_values f' = (file_values f)(bf_offset f \<mapsto> val)
    \<and> file_values f (bf_offset f) = None \<and> bf_file_id f' = bf_file_id f \<and> bf_deleted_offsets f' = bf_deleted_offsets f"
proof -
  let ?n = "record_serialized_size (blob_record_new key_prefix val)"
  have n: "?n = 16 + length val" by (simp add: record_serialized_size_def blob_record_new_def)
  have u: "unat (word_of_nat ?n :: u64) = ?n" by (rule unat_word_of_nat_u64) (use v in \<open>simp add: n\<close>)
  have "checked_add_word (bf_offset f) (word_of_nat ?n) \<noteq> None"
    using run by (auto simp: bf_append_def Let_def bind_eq_Some_conv)
  then have "unat (bf_offset f) + ?n < 2 ^ 64"
    unfolding checked_add_word_def u by (simp split: if_splits)
  then have "total_size (bf_records f) + RECORD_OVERHEAD_SIZE + length val < 2 ^ 64"
    using file_ok_offset [OF ok] file_ok_size [OF ok] by (simp add: n)
  then obtain f1 where "bf_append f key_prefix val = Some ((bf_offset f, word_of_nat (length val)), f1)" and "file_ok f1"
    and "file_values f1 = (file_values f)(bf_offset f \<mapsto> val)" and "file_values f (bf_offset f) = None"
    and "bf_file_id f1 = bf_file_id f" and "bf_deleted_offsets f1 = bf_deleted_offsets f"
    by (rule bf_append_spec [OF ok p v])
  then show ?thesis using run by simp
qed

lemma length_make_key_prefix [simp]: "length (make_key_prefix key) = 8"
  by (simp add: make_key_prefix_def)

lemma begin_compaction_spec:
  assumes ok: "manager_ok m" and run: "begin_compaction_file m = (r, m')"
  shows "case r of None \<Rightarrow> m' = m | Some file_id \<Rightarrow> manager_ok m' \<and> bl_files m' = bl_files m @ [bf_new file_id]
    \<and> blob_values m' = blob_values m \<and> blob_deleted m' = blob_deleted m"
proof (cases r)
  case None
  then show ?thesis using run by (auto simp: begin_compaction_file_def Let_def split: if_splits option.splits)
next
  case (Some file_id)
  then have id: "file_id = bl_next_file_id m" "file_id \<noteq> 0" "checked_add_word file_id 1 \<noteq> None"
    and m': "m' = on_catalog (\<lambda>c. c\<lparr>sc_persisted_lengths := Mapping.default file_id 0 (sc_persisted_lengths c)\<rparr>)
      (m\<lparr>bl_next_file_id := file_id + 1, bl_files := bl_files m @ [bf_new file_id]\<rparr>)"
    using run by (auto simp: begin_compaction_file_def Let_def checked_add_word_Some split: if_splits option.splits)
  have u: "unat (file_id + 1) = unat file_id + 1"
    using id(3) unat_add_no_overflow [of file_id 1] by (auto simp: checked_add_word_def split: if_splits)
  have lt: "x < file_id + 1" if "x \<le> file_id" for x
    using that u by (simp add: word_less_nat_alt word_le_nat_alt)
  have files: "bl_files m' = bl_files m @ [bf_new file_id]" by (simp add: m' on_catalog_def)
  have "manager_ok m'"
    using ok id lt unfolding manager_ok_def files
    by (auto simp: m' on_catalog_def file_ok_new sorted_wrt_append word_gt_0) (simp_all add: bf_new_def)
  moreover have "file_of (bl_files m) file_id = None"
    unfolding file_of_None id(1) using manager_ok_id [OF ok] by (metis less_irrefl)
  then have "file_of (bl_files m') k = (if k = file_id then Some (bf_new file_id) else file_of (bl_files m) k)" for k
    unfolding files file_of_append file_of_single by (auto simp: bf_new_def split: option.splits)
  then have "blob_values m' = blob_values m" and "blob_deleted m' = blob_deleted m"
    using \<open>file_of (bl_files m) file_id = None\<close>
    by (auto simp: blob_values_def blob_deleted_def fun_eq_iff bf_new_def file_values_def split: if_splits)
  ultimately show ?thesis using Some files by simp
qed

text \<open>The file an append goes to: the last one, or a new one.\<close>

definition append_target :: "blob_manager \<Rightarrow> nat \<Rightarrow> (blob_manager_error + unit) \<times> blob_manager" where
  "append_target m len = (if bl_files m = [] \<or> should_rollover m len then create_new_file m else (Inr (), m))"

lemma append_target_spec:
  assumes ok: "manager_ok m"
  shows "case fst (append_target m len) of Inl _ \<Rightarrow> snd (append_target m len) = m
    | Inr _ \<Rightarrow> manager_ok (snd (append_target m len)) \<and> bl_files (snd (append_target m len)) \<noteq> []
      \<and> blob_values (snd (append_target m len)) = blob_values m \<and> blob_deleted (snd (append_target m len)) = blob_deleted m"
proof (cases "bl_files m = [] \<or> should_rollover m len")
  case True
  obtain q m1 where b: "begin_compaction_file m = (q, m1)" by (cases "begin_compaction_file m")
  show ?thesis using begin_compaction_spec [OF ok b] True by (cases q) (simp_all add: append_target_def create_new_file_def b)
next
  case False
  then show ?thesis using ok by (simp add: append_target_def)
qed

lemma bl_append_cases:
  assumes ok: "manager_ok m" and run: "bl_append m key val = Some (r, m')"
  obtains e where "r = Inl e" and "m' = m"
  | m1 fs f x f' where "manager_ok m1" and "blob_values m1 = blob_values m" and "blob_deleted m1 = blob_deleted m" and "bl_files m1 = fs @ [f]"
    and "bf_append f (make_key_prefix key) val = Some (x, f')" and "m' = m1\<lparr>bl_files := fs @ [f']\<rparr>"
    and "r = Inr \<lparr>bp_file_id = bf_file_id f', bp_offset = fst x, bp_length = snd x\<rparr>"
proof (cases "append_target m (length val)")
  case (Pair q m1)
  note spec = append_target_spec [OF ok, of "length val"]
  show thesis
  proof (cases q)
    case (Inl e)
    then have "m1 = m" using spec Pair by simp
    then show thesis using that(1) [of e] run Pair Inl by (simp add: bl_append_def append_target_def [symmetric])
  next
    case (Inr u)
    then have m1: "manager_ok m1" "bl_files m1 \<noteq> []" "blob_values m1 = blob_values m" "blob_deleted m1 = blob_deleted m"
      using spec Pair by simp_all
    obtain fs f where fs: "bl_files m1 = fs @ [f]" using m1(2) by (metis rev_exhaust)
    obtain x f' where "bf_append f (make_key_prefix key) val = Some (x, f')"
      and "r = Inr \<lparr>bp_file_id = bf_file_id f', bp_offset = fst x, bp_length = snd x\<rparr>" and "m' = m1\<lparr>bl_files := fs @ [f']\<rparr>"
      using run by (auto simp: bl_append_def append_target_def [symmetric] Pair Inr fs split: bind_splits)
    then show thesis using that(2) [OF m1(1,3,4) fs] by blast
  qed
qed

lemma bl_append_done:
  assumes ok: "manager_ok m" and v: "length val < 2 ^ 32" and run: "bl_append m key val = Some (r, m')"
  shows "case r of Inl e \<Rightarrow> m' = m | Inr ptr \<Rightarrow> manager_ok m' \<and> blob_values m' = (blob_values m)(place ptr \<mapsto> val)
    \<and> blob_values m (place ptr) = None \<and> unat (bp_length ptr) = length val \<and> blob_deleted m' = blob_deleted m"
  using ok run
proof (cases rule: bl_append_cases)
  case (1 e)
  then show ?thesis by simp
next
  case (2 m1 fs f x f')
  have fok: "file_ok f" using manager_ok_file [OF 2(1), of f] 2(4) by simp
  note d = bf_append_done [OF fok length_make_key_prefix v 2(5)]
  note rl = replace_last_file [OF 2(1,4), of f']
  note lv = last_file_values [OF 2(1,4)]
  have "blob_values m' = (blob_values m)((bf_file_id f, bf_offset f) \<mapsto> val)"
  proof
    fix p show "blob_values m' p = ((blob_values m)((bf_file_id f, bf_offset f) \<mapsto> val)) p"
      using rl(2) [of p] d lv(1) [of "snd p"] 2(2,6) by (cases p) auto
  qed
  moreover have "p \<in> blob_deleted m' \<longleftrightarrow> p \<in> blob_deleted m" for p
    using rl(3) [of p] d lv(2) [of "snd p"] 2(3,6) by (cases p) auto
  then have "blob_deleted m' = blob_deleted m" by blast
  moreover have "blob_values m (bf_file_id f, bf_offset f) = None"
    using lv(1) [of "bf_offset f"] d 2(2) by simp
  moreover have "unat (word_of_nat (length val) :: u32) = length val" using v by simp
  ultimately show ?thesis using rl(1) d by (simp add: 2(6,7) place_def)
qed

text \<open>An append that was just made can be rolled back.\<close>

lemma bl_append_undo:
  assumes ok: "manager_ok m" and v: "length val < 2 ^ 32" and run: "bl_append m key val = Some (Inr ptr, m')"
  shows "fst (bl_rollback_append m' ptr)"
  using ok run
proof (cases rule: bl_append_cases)
  case (2 m1 fs f x f')
  have fok: "file_ok f" using manager_ok_file [OF 2(1), of f] 2(4) by simp
  note d = bf_append_done [OF fok length_make_key_prefix v 2(5)]
  have "bf_offset f \<notin> bf_deleted_offsets f'" using d file_ok_deleted [OF fok] dom_file_values [OF fok] by auto
  moreover have "bf_records f' = bf_records f @ [blob_record_new (make_key_prefix key) val]"
    using 2(5) by (auto simp: bf_append_def Let_def bind_eq_Some_conv)
  moreover have "bf_offset f = word_of_nat (total_size (bf_records f))" using fok by (simp add: file_ok_def)
  moreover have "unat (word_of_nat (length val) :: u32) = length val" using v by simp
  ultimately have "fst (bf_rollback_append f' (fst x) (snd x))"
    using d bf_rollback_spec(1) [of f' "fst x" "snd x"] by (auto simp: blob_record_new_def)
  then show ?thesis using 2 by (auto simp: bl_rollback_append_def split: prod.splits bool.splits)
qed simp

text \<open>Appends return as long as the offsets of the file stay below \<open>2 ^ 64\<close>.\<close>

definition append_fits :: "blob_manager \<Rightarrow> bytes \<Rightarrow> bool" where
  "append_fits m val \<longleftrightarrow> (\<forall>f \<in> set (bl_files m). total_size (bf_records f) + RECORD_OVERHEAD_SIZE + length val < 2 ^ 64)"

lemma bl_append_returns:
  assumes ok: "manager_ok m" and v: "length val < 2 ^ 32" and fit: "append_fits m val"
  obtains r m' where "bl_append m key val = Some (r, m')"
proof -
  obtain q m1 where t: "append_target m (length val) = (q, m1)" by (cases "append_target m (length val)")
  have n: "total_size [] + RECORD_OVERHEAD_SIZE + length val < 2 ^ 64" using v by (simp add: total_size_def)
  show thesis
  proof (cases q)
    case (Inl e)
    then show thesis using that [of "Inl e" m1] t by (simp add: bl_append_def append_target_def [symmetric])
  next
    case (Inr u)
    have m1: "manager_ok m1" "bl_files m1 \<noteq> []" using append_target_spec [OF ok, of "length val"] t Inr by simp_all
    obtain fs f where fs: "bl_files m1 = fs @ [f]" using m1(2) by (metis rev_exhaust)
    have fok: "file_ok f" using manager_ok_file [OF m1(1), of f] fs by simp
    have "f \<in> set (bl_files m) \<or> bf_records f = []"
      using t Inr fs by (auto simp: append_target_def create_new_file_def begin_compaction_file_def on_catalog_def Let_def bf_new_def
          split: if_splits option.splits prod.splits)
    then have "total_size (bf_records f) + RECORD_OVERHEAD_SIZE + length val < 2 ^ 64" using fit n by (auto simp: append_fits_def)
    then obtain f' where "bf_append f (make_key_prefix key) val = Some ((bf_offset f, word_of_nat (length val)), f')"
      using bf_append_spec [OF fok length_make_key_prefix v] by blast
    then show thesis using that t Inr fs by (simp add: bl_append_def append_target_def [symmetric])
  qed
qed

lemma drop_last_file:
  assumes ok: "manager_ok m" and fs: "bl_files m = fs @ [f]"
  shows "manager_ok (m\<lparr>bl_files := fs\<rparr>)"
    and "blob_values (m\<lparr>bl_files := fs\<rparr>) p = (if fst p = bf_file_id f then None else blob_values m p)"
    and "p \<in> blob_deleted (m\<lparr>bl_files := fs\<rparr>) \<longleftrightarrow> fst p \<noteq> bf_file_id f \<and> p \<in> blob_deleted m"
proof -
  show "manager_ok (m\<lparr>bl_files := fs\<rparr>)"
    using ok by (auto simp: manager_ok_def fs sorted_wrt_append)
  have n: "file_of fs (bf_file_id f) = None"
    unfolding file_of_None using manager_ok_distinct [OF ok] image_eqI [of _ bf_file_id] by (fastforce simp: fs)
  show "blob_values (m\<lparr>bl_files := fs\<rparr>) p = (if fst p = bf_file_id f then None else blob_values m p)"
    using n by (auto simp: blob_values_def fs file_of_append file_of_single split: option.splits)
  show "p \<in> blob_deleted (m\<lparr>bl_files := fs\<rparr>) \<longleftrightarrow> fst p \<noteq> bf_file_id f \<and> p \<in> blob_deleted m"
    using n by (auto simp: blob_deleted_def fs file_of_append file_of_single split: option.splits)
qed

lemma bl_rollback_spec:
  assumes ok: "manager_ok m" and run: "bl_rollback_append m ptr = (r, m')"
  shows "if r then manager_ok m' \<and> blob_values m' = (blob_values m)(place ptr := None) \<and> blob_deleted m' = blob_deleted m
      \<and> place ptr \<notin> blob_deleted m \<and> bl_read m ptr \<noteq> None
    else m' = m"
proof (cases r)
  case False
  then show ?thesis using run by (auto simp: bl_rollback_append_def split: if_splits prod.splits bool.splits)
next
  case True
  then have ne: "bl_files m \<noteq> []" using run by (auto simp: bl_rollback_append_def)
  then obtain fs f where fs: "bl_files m = fs @ [f]" by (metis rev_exhaust)
  have fok: "file_ok f" using manager_ok_file [OF ok, of f] fs by simp
  obtain f' where id: "bf_file_id f = bp_file_id ptr" and rb: "bf_rollback_append f (bp_offset ptr) (bp_length ptr) = (True, f')"
    and m': "m' = m\<lparr>bl_files := (if bf_record_count f' = 0 then fs else fs @ [f'])\<rparr>"
    using run True by (auto simp: bl_rollback_append_def fs split: if_splits prod.splits bool.splits)
  obtain rs r0 where rs: "bf_records f = rs @ [r0]" "bf_records f' = rs" and fok': "file_ok f'"
    and vals: "file_values f' = (file_values f)(bp_offset ptr := None)" and fid: "bf_file_id f' = bf_file_id f"
    and del: "bf_deleted_offsets f' = bf_deleted_offsets f" and nd: "bp_offset ptr \<notin> bf_deleted_offsets f"
    and v: "file_values f (bp_offset ptr) = Some (rec_value r0)" "length (rec_value r0) = unat (bp_length ptr)"
    by (rule bf_rollback_done [OF fok rb])
  note lv = last_file_values [OF ok fs]
  have empty: "file_values f' = Map.empty \<and> bf_deleted_offsets f' = {}" if "bf_record_count f' = 0"
    using that file_ok_deleted [OF fok'] file_ok_length [OF fok'] by (auto simp: bf_record_count_def file_values_def)
  note rl = replace_last_file [OF ok fs fok' fid] and dl = drop_last_file [OF ok fs]
  have "manager_ok m'" using rl(1) dl(1) by (simp add: m')
  moreover have "blob_values m' p = ((blob_values m)(place ptr := None)) p" for p
    using rl(2) [of p] dl(2) [of p] fun_cong [OF vals, of "snd p"] empty lv(1) [of "snd p"] id by (cases p) (auto simp: m' place_def split: if_splits)
  moreover have "p \<in> blob_deleted m' \<longleftrightarrow> p \<in> blob_deleted m" for p
    using rl(3) [of p] dl(3) [of p] del empty lv(2) [of "snd p"] by (cases p) (auto simp: m' split: if_splits)
  moreover have "place ptr \<notin> blob_deleted m" using nd lv(2) [of "bp_offset ptr"] id by (simp add: place_def)
  moreover have "bl_read m ptr \<noteq> None"
    using bl_read_values [OF ok, of ptr] lv(1) [of "bp_offset ptr"] v id by (simp add: place_def)
  ultimately show ?thesis using True by auto
qed

lemma bl_mark_deleted_spec:
  assumes ok: "manager_ok m"
  obtains r m' where "bl_mark_deleted m ptr = Some (r, m')" and "manager_ok m'" and "blob_values m' = blob_values m"
    and "r \<longleftrightarrow> blob_values m (place ptr) \<noteq> None \<and> place ptr \<notin> blob_deleted m"
    and "blob_deleted m' = (if r then insert (place ptr) (blob_deleted m) else blob_deleted m)"
proof (cases "file_index m (bp_file_id ptr)")
  case None
  then have "file_of (bl_files m) (bp_file_id ptr) = None" using file_index_spec [OF ok, of "bp_file_id ptr"] by simp
  then show thesis
    using that [of False m] ok None by (simp add: bl_mark_deleted_def blob_values_def place_def)
next
  case (Some i)
  then have i: "i < length (bl_files m)" and id: "bf_file_id (bl_files m ! i) = bp_file_id ptr"
    and fo: "file_of (bl_files m) (bp_file_id ptr) = Some (bl_files m ! i)"
    using file_index_spec [OF ok, of "bp_file_id ptr"] by simp_all
  let ?f = "bl_files m ! i"
  have fok: "file_ok ?f" using manager_ok_file [OF ok] i by simp
  note md = bf_mark_deleted_spec [OF fok, of "bp_offset ptr"]
  let ?r = "fst (bf_mark_deleted ?f (bp_offset ptr))" and ?f' = "snd (bf_mark_deleted ?f (bp_offset ptr))"
  let ?m = "m\<lparr>bl_files := (bl_files m)[i := ?f']\<rparr>"
  have ids: "map bf_file_id ((bl_files m)[i := ?f']) = map bf_file_id (bl_files m)"
    using md(5) i by (simp add: map_update list_update_same_conv)
  have fo': "file_of ((bl_files m)[i := ?f']) k = (if k = bp_file_id ptr then Some ?f' else file_of (bl_files m) k)" for k
  proof (cases "file_of (bl_files m) k")
    case None
    have "\<forall>f \<in> set (bl_files m). bf_file_id f \<noteq> k" using None by (simp add: file_of_None)
    then have "k \<notin> set (map bf_file_id ((bl_files m)[i := ?f']))" unfolding ids by auto
    then have "file_of ((bl_files m)[i := ?f']) k = None" by (auto simp: file_of_None)
    then show ?thesis using None fo by auto
  next
    case (Some g)
    then obtain j where j: "j < length (bl_files m)" "g = bl_files m ! j" "bf_file_id g = k"
      using file_of_Some [OF manager_ok_distinct [OF ok]] by (metis in_set_conv_nth)
    have k: "bf_file_id ((bl_files m)[i := ?f'] ! j) = k" using j md(5) i by (auto simp: nth_list_update)
    have ji: "j = i \<longleftrightarrow> k = bp_file_id ptr"
      using j i id manager_ok_distinct [OF ok] nth_eq_iff_index_eq [of "map bf_file_id (bl_files m)" i j] by auto
    have "file_of ((bl_files m)[i := ?f']) (bf_file_id ((bl_files m)[i := ?f'] ! j)) = Some ((bl_files m)[i := ?f'] ! j)"
      by (rule file_of_nth) (use ids manager_ok_distinct [OF ok] j in simp_all)
    then show ?thesis unfolding k using ji j i Some by (auto simp: nth_list_update)
  qed
  have "manager_ok ?m"
    using ok md(2,5) i ids manager_ok_id [OF ok, of ?f]
    by (auto simp: manager_ok_def list_all_iff dest!: set_update_subset_insert [THEN subsetD])
  moreover have "blob_values ?m = blob_values m"
    using fo md(3) by (auto simp: blob_values_def fo' fun_eq_iff split: option.splits)
  moreover have "?r \<longleftrightarrow> blob_values m (place ptr) \<noteq> None \<and> place ptr \<notin> blob_deleted m"
    using md(1) fo by (simp add: blob_values_def blob_deleted_def place_def)
  moreover have "blob_deleted ?m = (if ?r then insert (place ptr) (blob_deleted m) else blob_deleted m)"
  proof -
    have d': "p \<in> blob_deleted ?m \<longleftrightarrow> (if fst p = bp_file_id ptr then snd p \<in> bf_deleted_offsets ?f' else p \<in> blob_deleted m)" for p
      by (simp add: blob_deleted_def fo')
    have d: "(bp_file_id ptr, x) \<in> blob_deleted m \<longleftrightarrow> x \<in> bf_deleted_offsets ?f" for x
      by (simp add: blob_deleted_def fo)
    have "p \<in> blob_deleted ?m \<longleftrightarrow> p \<in> (if ?r then insert (place ptr) (blob_deleted m) else blob_deleted m)" for p
      using d' [of p] d [of "snd p"] md(6) by (cases p) (simp add: place_def)
    then show ?thesis by blast
  qed
  moreover have "bl_mark_deleted m ptr = Some (?r, ?m)"
    using Some i by (simp add: bl_mark_deleted_def Let_def split: prod.splits)
  ultimately show thesis using that by blast
qed

text \<open>The sweep keeps exactly the files that are not fully dead.\<close>

lemma vec_remove_filter:
  assumes "distinct (map g xs)" and "i < length xs"
  shows "vec_remove i xs = filter (\<lambda>x. g x \<noteq> g (xs ! i)) xs"
proof -
  have xs: "xs = take i xs @ xs ! i # drop (Suc i) xs" by (rule id_take_nth_drop [OF assms(2)])
  have "distinct (map g (take i xs @ xs ! i # drop (Suc i) xs))" using assms(1) xs by simp
  then have "\<forall>x \<in> set (take i xs) \<union> set (drop (Suc i) xs). g x \<noteq> g (xs ! i)"
    by (auto simp: image_iff)
  then have "filter (\<lambda>x. g x \<noteq> g (xs ! i)) (take i xs @ xs ! i # drop (Suc i) xs) = take i xs @ drop (Suc i) xs"
    by (auto simp: filter_id_conv)
  then show ?thesis using xs by (simp add: vec_remove_def)
qed

lemma filter_files:
  assumes ok: "manager_ok m"
  shows "manager_ok (m\<lparr>bl_files := filter P (bl_files m)\<rparr>)"
    and "file_of (filter P (bl_files m)) k = (case file_of (bl_files m) k of Some f \<Rightarrow> if P f then Some f else None | None \<Rightarrow> None)"
proof -
  show "manager_ok (m\<lparr>bl_files := filter P (bl_files m)\<rparr>)"
    using ok by (auto simp: manager_ok_def list_all_iff sorted_wrt_map intro: sorted_wrt_filter)
  have d: "distinct (map bf_file_id (filter P (bl_files m)))"
    using manager_ok_distinct [OF ok] by (rule distinct_map_filter)
  show "file_of (filter P (bl_files m)) k = (case file_of (bl_files m) k of Some f \<Rightarrow> if P f then Some f else None | None \<Rightarrow> None)"
  proof (cases "file_of (bl_files m) k")
    case None
    then have "file_of (filter P (bl_files m)) k = None" by (auto simp: file_of_None)
    then show ?thesis using None by simp
  next
    case (Some f)
    then have f: "f \<in> set (bl_files m)" "bf_file_id f = k" using file_of_Some [OF manager_ok_distinct [OF ok]] by auto
    have only: "g = f" if "g \<in> set (bl_files m)" "bf_file_id g = k" for g
      using that f manager_ok_distinct [OF ok] by (metis distinct_map inj_onD)
    show ?thesis
    proof (cases "P f")
      case True
      then show ?thesis using file_of_Some [OF d, of k f] f Some by simp
    next
      case False
      then have "file_of (filter P (bl_files m)) k = None" using only by (auto simp: file_of_None)
      then show ?thesis using Some False by simp
    qed
  qed
qed

lemma gc_files_eq:
  assumes "manager_ok m"
  shows "\<exists>n. gc_files ids m reclaimed = Some (n, m\<lparr>bl_files := filter (\<lambda>f. bf_file_id f \<notin> set ids) (bl_files m)\<rparr>)"
  using assms
proof (induction ids arbitrary: m reclaimed)
  case Nil
  then show ?case by (simp add: filter_True)
next
  case (Cons k ids)
  have split: "filter (\<lambda>f. bf_file_id f \<notin> set (k # ids)) fs = filter (\<lambda>f. bf_file_id f \<notin> set ids) (filter (\<lambda>f. bf_file_id f \<noteq> k) fs)" for fs
    by (simp add: conj_commute)
  show ?case
  proof (cases "file_index m k")
    case None
    then have "filter (\<lambda>f. bf_file_id f \<noteq> k) (bl_files m) = bl_files m"
      using file_index_spec [OF Cons.prems, of k] by (auto simp: file_of_None filter_id_conv)
    then show ?thesis using None Cons.IH [OF Cons.prems] by (simp only: split) simp
  next
    case (Some i)
    then have i: "i < length (bl_files m)" and k: "bf_file_id (bl_files m ! i) = k"
      using file_index_spec [OF Cons.prems, of k] by simp_all
    let ?m = "m\<lparr>bl_files := filter (\<lambda>f. bf_file_id f \<noteq> k) (bl_files m)\<rparr>"
    have rm: "vec_remove i (bl_files m) = filter (\<lambda>f. bf_file_id f \<noteq> k) (bl_files m)"
      using vec_remove_filter [OF manager_ok_distinct [OF Cons.prems] i] by (simp add: k)
    have vc: "bf_valid_count (bl_files m ! i) \<le> bf_record_count (bl_files m ! i)"
      using file_ok_counts(2) [OF manager_ok_file [OF Cons.prems, of "bl_files m ! i"]] i by (simp add: bf_record_count_def)
    have "\<exists>n. gc_files ids ?m (reclaimed + (bf_record_count (bl_files m ! i) - bf_valid_count (bl_files m ! i)))
        = Some (n, ?m\<lparr>bl_files := filter (\<lambda>f. bf_file_id f \<notin> set ids) (bl_files ?m)\<rparr>)"
      by (rule Cons.IH [OF filter_files(1) [OF Cons.prems]])
    then show ?thesis using Some i vc rm by (simp only: split) (simp add: Let_def)
  qed
qed

lemma fully_dead_deleted:
  assumes "file_ok f" and "fully_dead f"
  shows "bf_deleted_offsets f = set (bf_record_offsets f)"
proof -
  have "card (bf_deleted_offsets f) = length (bf_records f)"
    using assms(2) file_ok_counts(2) [OF assms(1)] file_ok_card(1) [OF assms(1)] by (simp add: fully_dead_def)
  then show ?thesis using file_ok_card(2) [OF assms(1)] by simp
qed

lemma bl_gc_spec:
  assumes ok: "manager_ok m"
  obtains n m' where "bl_gc m = Some (n, m')" and "manager_ok m'"
    and "\<And>p. p \<notin> blob_deleted m \<Longrightarrow> blob_values m' p = blob_values m p"
    and "\<And>p. blob_values m' p \<noteq> None \<Longrightarrow> blob_values m' p = blob_values m p"
    and "blob_deleted m' = blob_deleted m \<inter> dom (blob_values m')"
proof -
  let ?ids = "map bf_file_id (filter fully_dead (bl_files m))"
  let ?fs = "filter (\<lambda>f. \<not> fully_dead f) (bl_files m)"
  have inj: "f = g" if "f \<in> set (bl_files m)" "g \<in> set (bl_files m)" "bf_file_id f = bf_file_id g" for f g
    using that manager_ok_distinct [OF ok] by (metis distinct_map inj_onD)
  have fs: "filter (\<lambda>f. bf_file_id f \<notin> set ?ids) (bl_files m) = ?fs"
    by (rule filter_cong) (use inj in auto)
  obtain n where run: "bl_gc m = Some (n, m\<lparr>bl_files := ?fs\<rparr>)"
  proof (cases "?ids = []")
    case True
    then have "?fs = bl_files m" by (auto simp: filter_empty_conv filter_id_conv)
    then show thesis using that [of 0] True by (simp add: bl_gc_def)
  next
    case False
    then show thesis using that gc_files_eq [OF ok, of ?ids 0] unfolding fs by (auto simp: bl_gc_def Let_def)
  qed
  let ?m = "m\<lparr>bl_files := ?fs\<rparr>"
  note ff = filter_files [OF ok, of "\<lambda>f. \<not> fully_dead f"]
  have member: "file_ok f \<and> f \<in> set (bl_files m)" if "file_of (bl_files m) k = Some f" for k f
    using that file_of_Some [OF manager_ok_distinct [OF ok]] manager_ok_file [OF ok] by blast
  have dead: "file_values f x = None \<or> x \<in> bf_deleted_offsets f" if "file_ok f" "fully_dead f" for f x
    using fully_dead_deleted [OF that] dom_file_values [OF that(1)] by auto
  have "blob_values ?m p = blob_values m p" if "p \<notin> blob_deleted m" for p
    using that dead member by (auto simp: blob_values_def blob_deleted_def ff(2) split: option.splits) metis
  moreover have "blob_values ?m p = blob_values m p" if "blob_values ?m p \<noteq> None" for p
    using that by (auto simp: blob_values_def ff(2) split: option.splits if_splits)
  moreover have "p \<in> blob_deleted ?m \<longleftrightarrow> p \<in> blob_deleted m \<and> blob_values ?m p \<noteq> None" for p
    using member file_ok_deleted dom_file_values
    by (auto simp: blob_values_def blob_deleted_def ff(2) split: option.splits if_splits) blast+
  ultimately show thesis using that [OF run ff(1)] by blast
qed

lemma map_files:
  assumes ok: "manager_ok m" and h: "\<And>f. file_ok f \<Longrightarrow> file_ok (h f) \<and> file_values (h f) = file_values f" "\<And>f. bf_file_id (h f) = bf_file_id f"
  shows "manager_ok (m\<lparr>bl_files := map h (bl_files m)\<rparr>)" and "blob_values (m\<lparr>bl_files := map h (bl_files m)\<rparr>) = blob_values m"
proof -
  show "manager_ok (m\<lparr>bl_files := map h (bl_files m)\<rparr>)"
    using ok h by (auto simp: manager_ok_def list_all_iff comp_def)
  have m: "file_of (map h fs) k = map_option h (file_of fs k)" for fs k
    by (induction fs) (auto simp: file_of_def h(2))
  have "file_values (h f) = file_values f" if "file_of (bl_files m) k = Some f" for k f
    using that file_of_Some [OF manager_ok_distinct [OF ok]] manager_ok_file [OF ok] h(1) by blast
  then show "blob_values (m\<lparr>bl_files := map h (bl_files m)\<rparr>) = blob_values m"
    by (auto simp: blob_values_def m fun_eq_iff split: option.splits)
qed

lemma clear_and_mark_all_spec:
  assumes "manager_ok m"
  shows "manager_ok (bl_clear_deletion_metadata m) \<and> blob_values (bl_clear_deletion_metadata m) = blob_values m"
    and "manager_ok (bl_mark_all_deleted m) \<and> blob_values (bl_mark_all_deleted m) = blob_values m"
  using map_files [OF assms, of bf_clear_deletion_metadata] map_files [OF assms, of bf_mark_all_deleted] bf_clear_ok bf_mark_all_ok
  by (simp_all add: bl_clear_deletion_metadata_def bl_mark_all_deleted_def bf_clear_deletion_metadata_def
    bf_mark_all_deleted_def file_values_def)

section \<open>The bytes of the files\<close>

definition blob_bytes :: "blob_manager \<Rightarrow> nat" where
  "blob_bytes m = sum_list (map (\<lambda>f. total_size (bf_records f)) (bl_files m))"

lemma blob_bytes_fits: "blob_bytes m + RECORD_OVERHEAD_SIZE + length val < 2 ^ 64 \<Longrightarrow> append_fits m val"
  using member_le_sum_list [of _ "map (\<lambda>f. total_size (bf_records f)) (bl_files m)"] by (fastforce simp: append_fits_def blob_bytes_def)

lemma bl_append_bytes:
  assumes run: "bl_append m key val = Some (Inr ptr, m')"
  shows "blob_bytes m' = blob_bytes m + RECORD_OVERHEAD_SIZE + length val"
proof -
  obtain u m1 where t: "append_target m (length val) = (Inr u, m1)" using run
    by (cases "append_target m (length val)"; cases "fst (append_target m (length val))") (auto simp: bl_append_def append_target_def [symmetric])
  have same: "blob_bytes m1 = blob_bytes m"
    using t by (auto simp: append_target_def create_new_file_def begin_compaction_file_def on_catalog_def Let_def bf_new_def blob_bytes_def total_size_def
        split: if_splits option.splits prod.splits)
  obtain f' x where m': "bl_files m1 \<noteq> []" "bf_append (last (bl_files m1)) (make_key_prefix key) val = Some (x, f')" "bl_files m' = butlast (bl_files m1) @ [f']"
    using run t by (auto simp: bl_append_def append_target_def [symmetric] bind_eq_Some_conv split: if_splits)
  obtain fs f where fs: "bl_files m1 = fs @ [f]" using m'(1) by (metis rev_exhaust)
  have "total_size (bf_records f') = total_size (bf_records f) + RECORD_OVERHEAD_SIZE + length val"
    using m'(2) fs by (auto simp: bf_append_def Let_def bind_eq_Some_conv total_size_def record_serialized_size_def blob_record_new_def)
  then show ?thesis using same m'(3) fs by (simp add: blob_bytes_def)
qed

lemma bl_mark_deleted_bytes:
  assumes run: "bl_mark_deleted m ptr = Some (r, m')"
  shows "blob_bytes m' = blob_bytes m"
proof (cases "file_index m (bp_file_id ptr)")
  case (Some i)
  then obtain f' where f': "i < length (bl_files m)" "bf_mark_deleted (bl_files m ! i) (bp_offset ptr) = (r, f')" "bl_files m' = (bl_files m)[i := f']"
    using run by (auto simp: bl_mark_deleted_def Let_def split: if_splits prod.splits)
  have "bf_records f' = bf_records (bl_files m ! i)" using f'(2) by (auto simp: bf_mark_deleted_def split: if_splits)
  then have "map (\<lambda>f. total_size (bf_records f)) (bl_files m') = map (\<lambda>f. total_size (bf_records f)) (bl_files m)"
    using f'(1,3) by (metis list_update_id map_update)
  then show ?thesis by (simp add: blob_bytes_def)
qed (use run in \<open>auto simp: bl_mark_deleted_def\<close>)

section \<open>The blob manager as a store of values\<close>

definition blob_stored :: "blob_manager \<Rightarrow> u32 \<times> u64 \<Rightarrow> bytes \<Rightarrow> blob_manager \<Rightarrow> bool" where
  "blob_stored m p v m' \<longleftrightarrow> length v < 2 ^ 32 \<and> (\<exists>key ptr. bl_append m key v = Some (Inr ptr, m') \<and> place ptr = p)"

definition blob_retired :: "blob_manager \<Rightarrow> u32 \<times> u64 \<Rightarrow> blob_manager \<Rightarrow> bool" where
  "blob_retired m p m' \<longleftrightarrow> (\<exists>ptr r. bl_mark_deleted m ptr = Some (r, m') \<and> place ptr = p)"

definition blob_undone :: "blob_manager \<Rightarrow> u32 \<times> u64 \<Rightarrow> blob_manager \<Rightarrow> bool" where
  "blob_undone m p m' \<longleftrightarrow> (\<exists>ptr. bl_rollback_append m ptr = (True, m') \<and> place ptr = p)"

definition blob_swept :: "blob_manager \<Rightarrow> blob_manager \<Rightarrow> bool" where
  "blob_swept m m' \<longleftrightarrow> (\<exists>n. bl_gc m = Some (n, m'))"

lemma blob_deleted_stored:
  assumes "manager_ok m" and "p \<in> blob_deleted m"
  shows "blob_values m p \<noteq> None"
proof -
  obtain f where f: "file_of (bl_files m) (fst p) = Some f" "snd p \<in> bf_deleted_offsets f" using assms(2) by (auto simp: blob_deleted_def)
  then have "file_ok f" using file_of_Some [OF manager_ok_distinct [OF assms(1)]] manager_ok_file [OF assms(1)] by blast
  then show ?thesis using f file_ok_deleted [of f] dom_file_values [of f] by (auto simp: blob_values_def)
qed

interpretation blobs: value_store manager_ok blob_values blob_deleted blob_stored blob_retired blob_undone blob_swept
proof
  show "blob_values m p \<noteq> None" if "manager_ok m" "p \<in> blob_deleted m" for m p by (rule blob_deleted_stored [OF that])
  show "manager_ok m' \<and> blob_values m p = None \<and> blob_values m' = (blob_values m)(p \<mapsto> v) \<and> blob_deleted m' = blob_deleted m"
    if ok: "manager_ok m" and step: "blob_stored m p v m'" for m p v m'
  proof -
    obtain key ptr where "length v < 2 ^ 32" "bl_append m key v = Some (Inr ptr, m')" "place ptr = p"
      using step by (auto simp: blob_stored_def)
    then show ?thesis using bl_append_done [OF ok, of v key "Inr ptr" m'] by simp
  qed
  show "manager_ok m' \<and> blob_values m' = blob_values m \<and> blob_deleted m' \<subseteq> insert p (blob_deleted m)"
    if ok: "manager_ok m" and step: "blob_retired m p m'" for m p m'
  proof -
    obtain ptr r where ptr: "bl_mark_deleted m ptr = Some (r, m')" "place ptr = p" using step by (auto simp: blob_retired_def)
    obtain r' m1 where "bl_mark_deleted m ptr = Some (r', m1)" and "manager_ok m1" and "blob_values m1 = blob_values m"
      and "blob_deleted m1 = (if r' then insert (place ptr) (blob_deleted m) else blob_deleted m)"
      by (rule bl_mark_deleted_spec [OF ok])
    then show ?thesis using ptr by auto
  qed
  show "manager_ok m' \<and> blob_values m' = (blob_values m)(p := None) \<and> blob_deleted m' = blob_deleted m"
    if ok: "manager_ok m" and step: "blob_undone m p m'" for m p m'
  proof -
    obtain ptr where "bl_rollback_append m ptr = (True, m')" "place ptr = p" using step by (auto simp: blob_undone_def)
    then show ?thesis using bl_rollback_spec [OF ok, of ptr True m'] by simp
  qed
  show "manager_ok m' \<and> (\<forall>p. p \<notin> blob_deleted m \<longrightarrow> blob_values m' p = blob_values m p) \<and> blob_deleted m' \<subseteq> blob_deleted m"
    if ok: "manager_ok m" and step: "blob_swept m m'" for m m'
  proof -
    obtain n where n: "bl_gc m = Some (n, m')" using step by (auto simp: blob_swept_def)
    obtain n1 m1 where "bl_gc m = Some (n1, m1)" and "manager_ok m1" and "\<And>p. p \<notin> blob_deleted m \<Longrightarrow> blob_values m1 p = blob_values m p"
      and "blob_deleted m1 = blob_deleted m \<inter> dom (blob_values m1)"
      by (rule bl_gc_spec [OF ok]) blast
    then show ?thesis using n by auto
  qed
qed

end
