(* ===== verification/Blob_Image.thy ===== *)
theory Blob_Image
  imports Blob_Manager Durable_Format
begin

text \<open>
  The whole-image encoding of the blob manager, \<open>src/src/blob/image_format.rs\<close>: its size without building it, the
  size after one more mutation, the encoder, and the decoders of the versioned and of the legacy format. Decoding
  never panics and yields only well-formed managers; encoding followed by decoding restores the files.
\<close>

section \<open>Sizes\<close>

definition BLOB_FORMAT_MAGIC :: bytes where "BLOB_FORMAT_MAGIC = ascii ''SEERBLB1''"
definition BLOB_FORMAT_VERSION :: u32 where "BLOB_FORMAT_VERSION = 1"

definition checked_mul_word :: "'w::len word \<Rightarrow> 'w word \<Rightarrow> 'w word option" where
  "checked_mul_word a b = (if unat a * unat b < 2 ^ LENGTH('w) then Some (a * b) else None)"

fun add_file_sizes :: "u64 \<Rightarrow> blob_file list \<Rightarrow> u64 option" where
  "add_file_sizes acc [] = Some acc"
| "add_file_sizes acc (f # fs) = do {
     acc1 \<leftarrow> checked_add_word acc (4 + 8 + 4);
     data \<leftarrow> bf_serialized_size f;
     acc2 \<leftarrow> checked_add_word acc1 data;
     marks \<leftarrow> checked_mul_word (word_of_nat (bf_deleted_count f)) 8;
     acc3 \<leftarrow> checked_add_word acc2 marks;
     add_file_sizes acc3 fs
   }"

definition bl_serialized_size :: "blob_manager \<Rightarrow> u64 option" where
  "bl_serialized_size m = do {
     h1 \<leftarrow> usize_checked_add (length BLOB_FORMAT_MAGIC) 4;
     h2 \<leftarrow> usize_checked_add h1 8;
     h3 \<leftarrow> usize_checked_add h2 8;
     header \<leftarrow> usize_checked_add h3 4;
     footer \<leftarrow> usize_checked_add 8 4;
     both \<leftarrow> usize_checked_add header footer;
     add_file_sizes (word_of_nat both) (bl_files m)
   }"

definition projected_serialized_size :: "blob_manager \<Rightarrow> blob_pointer option \<Rightarrow> nat option \<Rightarrow> u64 option" where
  "projected_serialized_size m retired appended_value_len = do {
     current \<leftarrow> bl_serialized_size m;
     marked \<leftarrow> (case retired of
         Some ptr \<Rightarrow> if bl_can_mark_deleted m ptr then checked_add_word current 8 else Some current
       | None \<Rightarrow> Some current);
     (case appended_value_len of
        None \<Rightarrow> Some marked
      | Some value_len \<Rightarrow>
          if value_len \<ge> 2 ^ 32 then None
          else do {
            record_size \<leftarrow> usize_checked_add RECORD_OVERHEAD_SIZE value_len;
            headed \<leftarrow> (if bl_files m = [] then checked_add_word marked (4 + 8 + 4) else Some marked);
            checked_add_word headed (word_of_nat record_size)
          })
   }"

section \<open>Encoding\<close>

definition image_file :: "(bytes \<Rightarrow> u32) \<Rightarrow> blob_file \<Rightarrow> bytes" where
  "image_file crc f =
     (let file_data = bf_to_bytes crc f; deleted_offsets = bf_deleted_list f
      in u32_le (bf_file_id f) @ u64_le (word_of_nat (length file_data)) @ file_data
         @ u32_le (word_of_nat (length deleted_offsets)) @ concat (map u64_le deleted_offsets))"

definition image_payload :: "(bytes \<Rightarrow> u32) \<Rightarrow> blob_manager \<Rightarrow> bytes" where
  "image_payload crc m =
     BLOB_FORMAT_MAGIC @ u32_le BLOB_FORMAT_VERSION @ u64_le (word_of_nat (bl_threshold m)) @ u64_le (bl_generation_id m)
     @ u32_le (word_of_nat (length (bl_files m))) @ concat (map (image_file crc) (bl_files m))"

text \<open>The trailer of the image and of the catalog anchor: the total length and a checksum over all before it.\<close>

definition seal :: "(bytes \<Rightarrow> u32) \<Rightarrow> bytes \<Rightarrow> bytes" where
  "seal crc payload =
     (let buf = payload @ u64_le (word_of_nat (length payload + 12)) in buf @ u32_le (crc buf))"

definition bl_to_bytes :: "(bytes \<Rightarrow> u32) \<Rightarrow> blob_manager \<Rightarrow> bytes" where
  "bl_to_bytes crc m = seal crc (image_payload crc m)"

section \<open>Decoding\<close>

text \<open>Checking the trailer: the payload of a sealed buffer.\<close>

definition unseal :: "(bytes \<Rightarrow> u32) \<Rightarrow> bytes \<Rightarrow> bytes option exec" where
  "unseal crc buf =
     (if length buf < 12 then Some None
      else do {
        total_length \<leftarrow> read_u64 buf (length buf - 12);
        if total_length \<noteq> word_of_nat (length buf) then Some None
        else do {
          stored_checksum \<leftarrow> read_u32 buf (length buf - 4);
          body \<leftarrow> slice_range buf 0 (length buf - 4);
          if stored_checksum \<noteq> crc body then Some None
          else do { payload \<leftarrow> slice_range buf 0 (length buf - 12); Some (Some payload) }
        }
      })"

fun take_u64s :: "nat \<Rightarrow> cursor \<Rightarrow> u64 list cursor_op" where
  "take_u64s 0 c = Some ([], c)"
| "take_u64s (Suc n) c = do { (x, c1) \<leftarrow> cursor_u64 c; (xs, c2) \<leftarrow> take_u64s n c1; Some (x # xs, c2) }"

text \<open>The deletion marks behind the data of a file.\<close>

definition take_marks :: "blob_file \<Rightarrow> cursor \<Rightarrow> (blob_file \<times> u64 list \<times> cursor) option" where
  "take_marks file c = do {
     (deleted_count, c1) \<leftarrow> cursor_u32 c;
     if unat deleted_count > bf_record_count file \<or> unat deleted_count > cursor_remaining c1 div 8 then None
     else do {
       (deleted_offsets, c2) \<leftarrow> take_u64s (unat deleted_count) c1;
       file' \<leftarrow> bf_restore_deleted file deleted_offsets;
       Some (file', deleted_offsets, c2)
     }
   }"

definition file_id_bad :: "u32 \<Rightarrow> u32 set \<Rightarrow> bool" where
  "file_id_bad file_id file_ids \<longleftrightarrow> file_id = 0 \<or> file_id = - 1 \<or> file_id \<in> file_ids"

fun read_image_files ::
  "(bytes \<Rightarrow> u32) \<Rightarrow> nat \<Rightarrow> cursor \<Rightarrow> blob_file list \<Rightarrow> u32 \<Rightarrow> u32 set \<Rightarrow> (blob_file list \<times> u32 \<times> cursor) option exec" where
  "read_image_files crc 0 c files next_file_id file_ids = Some (Some (files, next_file_id, c))"
| "read_image_files crc (Suc n) c files next_file_id file_ids =
     try_option (Some (cursor_u32 c)) (\<lambda>(file_id, c1).
       if file_id_bad file_id file_ids then Some None
       else try_option (Some (cursor_u64 c1)) (\<lambda>(data_len, c2).
         try_option (Some (cursor_take c2 (unat data_len))) (\<lambda>(data, c3).
           try_option (bf_from_bytes crc file_id data) (\<lambda>file.
             try_option (Some (take_marks file c3)) (\<lambda>(file', deleted_offsets, c4).
               try_option (Some (checked_add_word file_id 1)) (\<lambda>succ.
                 read_image_files crc n c4 (files @ [file']) (max next_file_id succ) (insert file_id file_ids)))))))"

text \<open>Identifiers are distinct, so every sort by identifier gives the same list.\<close>

definition from_versioned_bytes :: "(bytes \<Rightarrow> u32) \<Rightarrow> bytes \<Rightarrow> blob_manager option exec" where
  "from_versioned_bytes crc buf =
     try_option (unseal crc buf) (\<lambda>payload.
     try_option (Some (cursor_take (cursor_new payload) (length BLOB_FORMAT_MAGIC))) (\<lambda>(magic, c1).
       if magic \<noteq> BLOB_FORMAT_MAGIC then Some None
       else try_option (Some (cursor_u32 c1)) (\<lambda>(version, c2).
         if version \<noteq> BLOB_FORMAT_VERSION then Some None
         else try_option (Some (cursor_u64 c2)) (\<lambda>(threshold, c3).
           try_option (Some (cursor_u64 c3)) (\<lambda>(generation_id, c4).
             try_option (Some (cursor_u32 c4)) (\<lambda>(num_files, c5).
               if unat num_files > cursor_remaining c5 div 16 then Some None
               else try_option (read_image_files crc (unat num_files) c5 [] 1 {}) (\<lambda>(files, next_file_id, c6).
                 try_option (Some (cursor_finish c6)) (\<lambda>_.
                   Some (Some \<lparr>bl_files = sort_key bf_file_id files, bl_next_file_id = next_file_id,
                     bl_threshold = unat threshold, bl_generation_id = generation_id, bl_segmented = False,
                     bl_catalog = sc_default, bl_segment_target_size = DEFAULT_SEGMENT_TARGET_SIZE\<rparr>)))))))))"

fun read_legacy_files ::
  "(bytes \<Rightarrow> u32) \<Rightarrow> nat \<Rightarrow> cursor \<Rightarrow> blob_file list \<Rightarrow> u32 \<Rightarrow> u32 set \<Rightarrow> (blob_file list \<times> u32 \<times> cursor) option exec" where
  "read_legacy_files crc 0 c files next_file_id file_ids = Some (Some (files, next_file_id, c))"
| "read_legacy_files crc (Suc n) c files next_file_id file_ids =
     try_option (Some (cursor_u32 c)) (\<lambda>(file_id, c1).
       if file_id_bad file_id file_ids then Some None
       else try_option (Some (cursor_u32 c1)) (\<lambda>(data_len, c2).
         try_option (Some (cursor_take c2 (unat data_len))) (\<lambda>(data, c3).
           try_option (bf_from_bytes crc file_id data) (\<lambda>file.
             try_option (Some (checked_add_word file_id 1)) (\<lambda>succ.
               read_legacy_files crc n c3 (files @ [file]) (max next_file_id succ) (insert file_id file_ids))))))"

definition from_legacy_bytes :: "(bytes \<Rightarrow> u32) \<Rightarrow> bytes \<Rightarrow> blob_manager option exec" where
  "from_legacy_bytes crc buf =
     (if length buf < 4 then Some None
      else try_option (Some (cursor_u32 (cursor_new buf))) (\<lambda>(num_files, c1).
        if unat num_files > cursor_remaining c1 div 8 then Some None
        else try_option (read_legacy_files crc (unat num_files) c1 [] 1 {}) (\<lambda>(files, next_file_id, c2).
          try_option (Some (cursor_finish c2)) (\<lambda>_.
            Some (Some \<lparr>bl_files = sort_key bf_file_id files, bl_next_file_id = next_file_id,
              bl_threshold = DEFAULT_BLOB_THRESHOLD, bl_generation_id = 0, bl_segmented = False,
              bl_catalog = sc_default, bl_segment_target_size = DEFAULT_SEGMENT_TARGET_SIZE\<rparr>)))))"

definition bl_from_bytes :: "(bytes \<Rightarrow> u32) \<Rightarrow> bytes \<Rightarrow> blob_manager option exec" where
  "bl_from_bytes crc buf =
     (if take (length BLOB_FORMAT_MAGIC) buf = BLOB_FORMAT_MAGIC then from_versioned_bytes crc buf
      else from_legacy_bytes crc buf)"

section \<open>The trailer\<close>

lemma length_seal [simp]: "length (seal crc payload) = length payload + 12"
  by (simp add: seal_def Let_def)

lemma unseal_total: "unseal crc buf \<noteq> None"
  by (auto simp: unseal_def page_simps slice_sub_bytes)

lemma unseal_seal:
  assumes "length payload + 12 < 2 ^ 64"
  shows "unseal crc (seal crc payload) = Some (Some payload)"
proof -
  let ?n = "length payload" and ?len = "u64_le (word_of_nat (length payload + 12))"
  let ?buf = "seal crc payload"
  have buf: "?buf = payload @ ?len @ u32_le (crc (payload @ ?len))"
    by (simp add: seal_def Let_def del: of_nat_add)
  have "read_u64 ?buf ?n = Some (word_of_nat (?n + 12))"
    by (simp add: page_simps buf append_field_simps del: of_nat_add)
  moreover have "read_u32 ?buf (?n + 8) = Some (crc (payload @ ?len))"
    by (simp add: page_simps buf append_field_simps del: of_nat_add)
  moreover have "slice_range ?buf 0 (?n + 8) = Some (payload @ ?len)"
    by (simp add: slice_sub_bytes buf sub_bytes_def del: of_nat_add)
  moreover have "slice_range ?buf 0 ?n = Some payload"
    by (simp add: slice_sub_bytes buf append_field_simps del: of_nat_add)
  moreover have "length ?buf - 12 = ?n" "length ?buf - 4 = ?n + 8" by simp_all
  moreover have "\<not> length ?buf < 12" and "length ?buf = ?n + 12" by simp_all
  ultimately show ?thesis unfolding unseal_def by (simp del: of_nat_add length_seal add: add.commute)
qed

lemma unseal_sound:
  assumes "unseal crc buf = Some (Some payload)"
  shows "length buf \<ge> 12 \<and> payload = sub_bytes buf 0 (length buf - 12)"
  using assms by (auto simp: unseal_def page_simps slice_sub_bytes split: if_splits)

section \<open>Reading the files back\<close>

lemma cursor_seek_seek [simp]: "cursor_seek (cursor_seek c s) t = cursor_seek c t"
  by (simp add: cursor_seek_def)

lemma take_u64s_at:
  assumes "cursor_ok c" and "rest_of c = concat (map u64_le xs) @ suffix"
  shows "take_u64s (length xs) c = Some (xs, cursor_seek c suffix)"
  using assms
proof (induction xs arbitrary: c)
  case Nil
  then have "cur_position c = length (cur_bytes c) - length suffix"
    using arg_cong [OF Nil(2), of length] by (auto simp: rest_of_def cursor_ok_def)
  then show ?case by (simp add: cursor_seek_def)
next
  case (Cons x xs)
  have u: "cursor_u64 c = Some (x, cursor_seek c (concat (map u64_le xs) @ suffix))"
    by (rule cursor_u64_at) (use Cons.prems in simp_all)
  note at = cursor_seek_rest [OF Cons.prems(1), of "u64_le x" "concat (map u64_le xs) @ suffix"]
  show ?case using Cons.IH [OF at(1,2)] Cons.prems by (simp add: u)
qed

lemma take_u64s_ok: "cursor_ok c \<Longrightarrow> take_u64s n c = Some (xs, c') \<Longrightarrow> cursor_ok c' \<and> length xs = n"
proof (induction n arbitrary: c xs)
  case (Suc n)
  then obtain x c1 ys where "cursor_u64 c = Some (x, c1)" "take_u64s n c1 = Some (ys, c')" "xs = x # ys"
    by (auto simp: bind_eq_Some_conv)
  then show ?case using Suc.IH [of c1 ys] Suc.prems(1) by (simp add: cursor_u64_Some)
qed simp

lemma finite_deleted: "file_ok f \<Longrightarrow> finite (bf_deleted_offsets f)"
  using file_ok_deleted finite_subset by blast

lemma deleted_list:
  assumes "file_ok f"
  shows "set (bf_deleted_list f) = bf_deleted_offsets f" and "distinct (bf_deleted_list f)"
    and "length (bf_deleted_list f) = bf_deleted_count f"
  using finite_deleted [OF assms] file_ok_counts(1) [OF assms] by (simp_all add: bf_deleted_list_def)

lemma restore_cleared:
  assumes ok: "file_ok f"
  shows "bf_restore_deleted (bf_clear_deletion_metadata f) (bf_deleted_list f) = Some f"
proof -
  let ?g = "bf_clear_deletion_metadata f"
  have g: "file_ok ?g" by (rule bf_clear_ok [OF ok])
  have "set (bf_deleted_list f) \<subseteq> dom (file_values ?g) - bf_deleted_offsets ?g"
    using file_ok_deleted [OF ok] dom_file_values [OF g] deleted_list(1) [OF ok]
    by (simp add: bf_clear_deletion_metadata_def)
  then obtain h where h: "bf_restore_deleted ?g (bf_deleted_list f) = Some h"
    using bf_restore_deleted_iff [OF g, of "bf_deleted_list f"] deleted_list(2) [OF ok] by auto
  then have "h = f"
    using bf_restore_deleted_done [OF g h] ok deleted_list(1) [OF ok]
    by (intro file_eqI) (auto simp: bf_clear_deletion_metadata_def)
  then show ?thesis using h by simp
qed

lemma take_marks_at:
  assumes ok: "file_ok f" and few: "bf_deleted_count f < 2 ^ 32" and c: "cursor_ok c"
    and r: "rest_of c = u32_le (word_of_nat (length (bf_deleted_list f))) @ concat (map u64_le (bf_deleted_list f)) @ suffix"
  shows "take_marks (bf_clear_deletion_metadata f) c = Some (f, bf_deleted_list f, cursor_seek c suffix)"
proof -
  let ?ds = "bf_deleted_list f" and ?n = "word_of_nat (length (bf_deleted_list f)) :: u32"
  have n: "unat ?n = length ?ds" using few deleted_list(3) [OF ok] by simp
  note at = cursor_seek_rest [OF c r]
  have u: "cursor_u32 c = Some (?n, cursor_seek c (concat (map u64_le ?ds) @ suffix))" by (rule cursor_u32_at [OF c r])
  have t: "take_u64s (length ?ds) (cursor_seek c (concat (map u64_le ?ds) @ suffix)) = Some (?ds, cursor_seek c suffix)"
    using take_u64s_at [OF at(1,2)] by simp
  have l: "length (concat (map u64_le xs)) = 8 * length xs" for xs by (induction xs) simp_all
  have le: "length ?ds \<le> bf_record_count (bf_clear_deletion_metadata f)"
    using file_ok_card(1) [OF ok] file_ok_counts(1) [OF ok] deleted_list(3) [OF ok]
    by (simp add: bf_record_count_def bf_clear_deletion_metadata_def)
  show ?thesis
    unfolding take_marks_def u bind.bind_lunit prod.case n remaining_rest at(2)
    using le by (simp add: l t restore_cleared [OF ok])
qed

lemma take_marks_ok:
  assumes "file_ok f" and "cursor_ok c" and "take_marks f c = Some (f', ds, c')"
  shows "file_ok f' \<and> bf_file_id f' = bf_file_id f \<and> bf_records f' = bf_records f \<and> cursor_ok c'
    \<and> bf_deleted_offsets f' = bf_deleted_offsets f \<union> set ds"
proof -
  obtain n c1 where u: "cursor_u32 c = Some (n, c1)" and t: "take_u64s (unat n) c1 = Some (ds, c')"
    and r: "bf_restore_deleted f ds = Some f'"
    using assms(3) by (auto simp: take_marks_def bind_eq_Some_conv split: if_splits)
  have "cursor_ok c1" using u assms(2) by (simp add: cursor_u32_Some)
  then have "cursor_ok c'" using take_u64s_ok t by blast
  then show ?thesis using bf_restore_deleted_done [OF assms(1) r] by simp
qed

text \<open>What the three decoding loops keep of the files read so far.\<close>

definition files_wf :: "blob_file list \<Rightarrow> u32 \<Rightarrow> u32 set \<Rightarrow> bool" where
  "files_wf files next_file_id file_ids \<longleftrightarrow>
     list_all file_ok files \<and> distinct (map bf_file_id files) \<and> set (map bf_file_id files) = file_ids
     \<and> (\<forall>f \<in> set files. 0 < bf_file_id f \<and> bf_file_id f < next_file_id)"

lemma files_wf_empty: "files_wf [] 1 {}"
  by (simp add: files_wf_def)

lemma succ_id_less: "checked_add_word (x :: u32) 1 = Some y \<Longrightarrow> x < y"
  using unat_add_no_overflow [of x 1] by (auto simp: checked_add_word_def word_less_nat_alt split: if_splits)

lemma files_wf_snoc:
  assumes "files_wf files n ids" and "file_ok f" and "\<not> file_id_bad (bf_file_id f) ids"
    and "checked_add_word (bf_file_id f) 1 = Some y"
  shows "files_wf (files @ [f]) (max n y) (insert (bf_file_id f) ids)"
  using assms succ_id_less [OF assms(4)]
  by (auto simp: files_wf_def file_id_bad_def word_gt_0 less_max_iff_disj)

lemma bf_from_bytes_ok:
  assumes "cursor_ok c" and "cursor_take c n = Some (data, c')" and "bf_from_bytes crc file_id data = Some (Some f)"
  shows "file_ok f \<and> bf_file_id f = file_id \<and> bf_to_bytes crc f = data \<and> bf_deleted_offsets f = {}"
proof -
  have "length data \<le> length (rest_of c)" using assms(1,2) by (auto simp: cursor_take_Some)
  also have "\<dots> \<le> length (cur_bytes c)" by (simp add: rest_of_def)
  also have "\<dots> < 2 ^ 64" using assms(1) by (simp add: cursor_ok_def)
  finally have "length data < 2 ^ 64" .
  then show ?thesis using bf_from_bytes_sound [OF assms(3)] by simp
qed

lemma read_image_files_total: "read_image_files crc n c files nxt ids \<noteq> None"
  by (induction n arbitrary: c files nxt ids)
    (simp_all del: not_None_eq add: try_option_eq_None bf_from_bytes_total split: prod.splits)

lemma read_image_files_ok:
  assumes "read_image_files crc n c files nxt ids = Some (Some (files', nxt', c'))" and "cursor_ok c" and "files_wf files nxt ids"
  shows "cursor_ok c' \<and> (\<exists>ids'. files_wf files' nxt' ids')"
  using assms
proof (induction n arbitrary: c files nxt ids)
  case (Suc n)
  obtain file_id c1 where u: "cursor_u32 c = Some (file_id, c1)" and b: "\<not> file_id_bad file_id ids"
    using Suc.prems(1) by (auto simp: try_option_eq_Some_Some split: if_splits)
  then obtain len c2 data c3 f g ds c4 y where v: "cursor_u64 c1 = Some (len, c2)" and t: "cursor_take c2 (unat len) = Some (data, c3)"
    and f: "bf_from_bytes crc file_id data = Some (Some f)" and m: "take_marks f c3 = Some (g, ds, c4)"
    and y: "checked_add_word file_id 1 = Some y"
    and rec: "read_image_files crc n c4 (files @ [g]) (max nxt y) (insert file_id ids) = Some (Some (files', nxt', c'))"
    using Suc.prems(1) by (auto simp: try_option_eq_Some_Some)
  have c1: "cursor_ok c1" using u Suc.prems(2) by (simp add: cursor_u32_Some)
  have c2: "cursor_ok c2" using v c1 by (simp add: cursor_u64_Some)
  have c3: "cursor_ok c3" using t c2 by (simp add: cursor_take_Some)
  have f_ok: "file_ok f" "bf_file_id f = file_id" using bf_from_bytes_ok [OF c2 t f] by simp_all
  note g = take_marks_ok [OF f_ok(1) c3 m]
  have "files_wf (files @ [g]) (max nxt y) (insert file_id ids)"
    using files_wf_snoc [OF Suc.prems(3), of g y] g f_ok b y by simp
  then show ?case using Suc.IH [OF rec] g by blast
qed auto

lemma read_legacy_files_total: "read_legacy_files crc n c files nxt ids \<noteq> None"
  by (induction n arbitrary: c files nxt ids)
    (simp_all del: not_None_eq add: try_option_eq_None bf_from_bytes_total split: prod.splits)

lemma read_legacy_files_ok:
  assumes "read_legacy_files crc n c files nxt ids = Some (Some (files', nxt', c'))" and "cursor_ok c" and "files_wf files nxt ids"
  shows "cursor_ok c' \<and> (\<exists>ids'. files_wf files' nxt' ids')"
  using assms
proof (induction n arbitrary: c files nxt ids)
  case (Suc n)
  obtain file_id c1 where u: "cursor_u32 c = Some (file_id, c1)" and b: "\<not> file_id_bad file_id ids"
    using Suc.prems(1) by (auto simp: try_option_eq_Some_Some split: if_splits)
  then obtain len c2 data c3 f y where v: "cursor_u32 c1 = Some (len, c2)" and t: "cursor_take c2 (unat len) = Some (data, c3)"
    and f: "bf_from_bytes crc file_id data = Some (Some f)" and y: "checked_add_word file_id 1 = Some y"
    and rec: "read_legacy_files crc n c3 (files @ [f]) (max nxt y) (insert file_id ids) = Some (Some (files', nxt', c'))"
    using Suc.prems(1) by (auto simp: try_option_eq_Some_Some)
  have c1: "cursor_ok c1" using u Suc.prems(2) by (simp add: cursor_u32_Some)
  have c2: "cursor_ok c2" using v c1 by (simp add: cursor_u32_Some)
  have c3: "cursor_ok c3" using t c2 by (simp add: cursor_take_Some)
  have f_ok: "file_ok f" "bf_file_id f = file_id" using bf_from_bytes_ok [OF c2 t f] by simp_all
  have "files_wf (files @ [f]) (max nxt y) (insert file_id ids)"
    using files_wf_snoc [OF Suc.prems(3), of f y] f_ok b y by simp
  then show ?case using Suc.IH [OF rec c3] by blast
qed auto

text \<open>The files of one image, sorted, are the files of a manager.\<close>

lemma files_wf_manager:
  assumes "files_wf files nxt ids" and "bl_files m = sort_key bf_file_id files" and "bl_next_file_id m = nxt"
  shows "manager_ok m"
proof -
  have "sorted_wrt (<) (map bf_file_id (sort_key bf_file_id files))"
  proof -
    have "distinct (map bf_file_id (sort_key bf_file_id files))"
      using assms(1) by (simp add: files_wf_def distinct_map)
    then show ?thesis using sorted_sort_key strict_sorted_iff by blast
  qed
  then show ?thesis using assms by (simp add: manager_ok_def files_wf_def list_all_iff)
qed

section \<open>Decoding is safe\<close>

lemma from_versioned_bytes_total: "from_versioned_bytes crc buf \<noteq> None"
  unfolding from_versioned_bytes_def
  by (simp_all del: not_None_eq add: try_option_eq_None unseal_total read_image_files_total split: prod.splits)

lemma from_legacy_bytes_total: "from_legacy_bytes crc buf \<noteq> None"
  unfolding from_legacy_bytes_def
  by (simp_all del: not_None_eq add: try_option_eq_None read_legacy_files_total split: prod.splits)

lemma from_versioned_bytes_ok:
  assumes run: "from_versioned_bytes crc buf = Some (Some m)" and len: "length buf < 2 ^ 64"
  shows "manager_ok m"
proof -
  obtain payload where un: "unseal crc buf = Some (Some payload)"
    using run by (auto simp: from_versioned_bytes_def try_option_eq_Some_Some)
  have ok0: "cursor_ok (cursor_new payload)"
    by (rule cursor_ok_new) (use unseal_sound [OF un] len in simp)
  obtain magic c1 ver c2 th c3 g c4 n c5 where c1: "cursor_take (cursor_new payload) (length BLOB_FORMAT_MAGIC) = Some (magic, c1)"
    and c2: "cursor_u32 c1 = Some (ver, c2)" and c3: "cursor_u64 c2 = Some (th, c3)" and c4: "cursor_u64 c3 = Some (g, c4)"
    and c5: "cursor_u32 c4 = Some (n, c5)"
    using run by (auto simp: from_versioned_bytes_def try_option_eq_Some_Some un split: if_splits)
  then obtain files nxt c6 where rd: "read_image_files crc (unat n) c5 [] 1 {} = Some (Some (files, nxt, c6))"
    and m: "bl_files m = sort_key bf_file_id files" "bl_next_file_id m = nxt"
    using run by (auto simp: from_versioned_bytes_def try_option_eq_Some_Some un split: if_splits)
  have "cursor_ok c1" using c1 ok0 by (simp add: cursor_take_Some)
  then have "cursor_ok c2" using c2 by (simp add: cursor_u32_Some)
  then have "cursor_ok c3" using c3 by (simp add: cursor_u64_Some)
  then have "cursor_ok c4" using c4 by (simp add: cursor_u64_Some)
  then have "cursor_ok c5" using c5 by (simp add: cursor_u32_Some)
  then obtain ids where "files_wf files nxt ids" using read_image_files_ok [OF rd _ files_wf_empty] by blast
  then show ?thesis by (rule files_wf_manager) (rule m)+
qed

lemma from_legacy_bytes_ok:
  assumes run: "from_legacy_bytes crc buf = Some (Some m)" and len: "length buf < 2 ^ 64"
  shows "manager_ok m"
proof -
  obtain n c1 where c1: "cursor_u32 (cursor_new buf) = Some (n, c1)"
    using run by (auto simp: from_legacy_bytes_def try_option_eq_Some_Some split: if_splits)
  then obtain files nxt c2 where rd: "read_legacy_files crc (unat n) c1 [] 1 {} = Some (Some (files, nxt, c2))"
    and m: "bl_files m = sort_key bf_file_id files" "bl_next_file_id m = nxt"
    using run by (auto simp: from_legacy_bytes_def try_option_eq_Some_Some split: if_splits)
  have "cursor_ok c1" using c1 cursor_ok_new [OF len] by (simp add: cursor_u32_Some)
  then obtain ids where "files_wf files nxt ids" using read_legacy_files_ok [OF rd _ files_wf_empty] by blast
  then show ?thesis by (rule files_wf_manager) (rule m)+
qed

lemma bl_from_bytes_total: "bl_from_bytes crc buf \<noteq> None"
  unfolding bl_from_bytes_def using from_versioned_bytes_total from_legacy_bytes_total by (simp del: not_None_eq)

lemma bl_from_bytes_ok: "bl_from_bytes crc buf = Some (Some m) \<Longrightarrow> length buf < 2 ^ 64 \<Longrightarrow> manager_ok m"
  by (auto simp: bl_from_bytes_def split: if_splits dest: from_versioned_bytes_ok from_legacy_bytes_ok)

section \<open>The round trip\<close>

definition next_after :: "blob_file list \<Rightarrow> u32 \<Rightarrow> u32" where
  "next_after fs nxt = fold (\<lambda>f n. max n (bf_file_id f + 1)) fs nxt"

definition image_fits :: "(bytes \<Rightarrow> u32) \<Rightarrow> blob_manager \<Rightarrow> bool" where
  "image_fits crc m \<longleftrightarrow>
     length (bl_to_bytes crc m) < 2 ^ 64 \<and> bl_threshold m < 2 ^ 64 \<and> length (bl_files m) < 2 ^ 32
     \<and> list_all (\<lambda>f. bf_deleted_count f < 2 ^ 32) (bl_files m)"

lemma manager_ok_not_max: "manager_ok m \<Longrightarrow> f \<in> set (bl_files m) \<Longrightarrow> bf_file_id f \<noteq> - 1"
  using manager_ok_id [of m f] word_order.extremum_strict by auto

lemma checked_succ: "(x :: u32) \<noteq> - 1 \<Longrightarrow> checked_add_word x 1 = Some (x + 1)"
proof -
  assume "x \<noteq> - 1"
  then have "x < - 1" by (simp add: word_order.not_eq_extremum)
  then have "unat x < 2 ^ 32 - 1" by (simp add: word_less_nat_alt unat_minus_one_word_eq)
  then show ?thesis by (simp add: checked_add_word_def)
qed

lemma read_image_files_encoded:
  assumes "list_all (\<lambda>f. file_ok f \<and> bf_deleted_count f < 2 ^ 32 \<and> bf_file_id f \<noteq> 0 \<and> bf_file_id f \<noteq> - 1) fs"
    and "distinct (map bf_file_id fs)" and "set (map bf_file_id fs) \<inter> ids = {}"
    and "cursor_ok c" and "rest_of c = concat (map (image_file crc) fs) @ suffix"
  shows "read_image_files crc (length fs) c files nxt ids = Some (Some (files @ fs, next_after fs nxt, cursor_seek c suffix))"
  using assms
proof (induction fs arbitrary: c files nxt ids)
  case Nil
  then have "cursor_seek c suffix = c" using take_u64s_at [of c "[]" suffix] by simp
  then show ?case by (simp add: next_after_def)
next
  case (Cons f fs)
  let ?data = "bf_to_bytes crc f" and ?ds = "bf_deleted_list f" and ?t = "concat (map (image_file crc) fs) @ suffix"
  let ?marks = "u32_le (word_of_nat (length ?ds)) @ concat (map u64_le ?ds) @ ?t"
  have ok: "file_ok f" "bf_deleted_count f < 2 ^ 32" "bf_file_id f \<noteq> - 1" using Cons.prems(1) by simp_all
  have r: "rest_of c = u32_le (bf_file_id f) @ u64_le (word_of_nat (length ?data)) @ ?data @ ?marks"
    using Cons.prems(5) by (simp add: image_file_def [of crc f] Let_def)
  have u: "unat (word_of_nat (length ?data) :: u64) = length ?data"
    by (rule unat_word_of_nat_u64) (use file_ok_size [OF ok(1)] length_bf_to_bytes [OF ok(1)] in simp)
  note a1 = cursor_seek_rest [OF Cons.prems(4) r]
  note a2 = cursor_seek_rest [OF a1(1,2), simplified] and a3 = cursor_seek_rest(1,2) [of "cursor_seek c (?data @ ?marks)" ?data ?marks, simplified]
  have s1: "cursor_u32 c = Some (bf_file_id f, cursor_seek c (u64_le (word_of_nat (length ?data)) @ ?data @ ?marks))"
    by (rule cursor_u32_at [OF Cons.prems(4) r])
  have s2: "cursor_u64 (cursor_seek c (u64_le (word_of_nat (length ?data)) @ ?data @ ?marks)) = Some (word_of_nat (length ?data), cursor_seek c (?data @ ?marks))"
    using cursor_u64_at [OF a1(1,2)] by simp
  have s3: "cursor_take (cursor_seek c (?data @ ?marks)) (length ?data) = Some (?data, cursor_seek c ?marks)"
    using cursor_take_at [OF a2(1,2)] by simp
  have s4: "take_marks (bf_clear_deletion_metadata f) (cursor_seek c ?marks) = Some (f, ?ds, cursor_seek c ?t)"
    using take_marks_at [OF ok(1,2) a3(1,2) [OF a2(1,2)]] by simp
  have good: "\<not> file_id_bad (bf_file_id f) ids" using Cons.prems(1,3) by (auto simp: file_id_bad_def)
  have "cursor_ok (cursor_seek c ?t)" and "rest_of (cursor_seek c ?t) = ?t"
    using cursor_seek_rest [OF Cons.prems(4), of "image_file crc f" ?t] Cons.prems(5) by simp_all
  then have "read_image_files crc (length fs) (cursor_seek c ?t) (files @ [f]) (max nxt (bf_file_id f + 1)) (insert (bf_file_id f) ids)
      = Some (Some ((files @ [f]) @ fs, next_after fs (max nxt (bf_file_id f + 1)), cursor_seek (cursor_seek c ?t) suffix))"
    by (intro Cons.IH) (use Cons.prems in auto)
  then show ?case
    using s1 s2 s3 s4 good bf_from_bytes_encoded [OF ok(1)] checked_succ [OF ok(3)] u
    by (simp add: next_after_def)
qed

lemma length_MAGIC [simp]: "length BLOB_FORMAT_MAGIC = 8"
  by (simp add: BLOB_FORMAT_MAGIC_def ascii_def)

lemma image_files_length: "16 * length fs \<le> length (concat (map (image_file crc) fs))"
  by (induction fs) (simp_all add: image_file_def Let_def)

lemma bl_to_bytes_from_bytes:
  assumes ok: "manager_ok m" and fits: "image_fits crc m"
  shows "bl_from_bytes crc (bl_to_bytes crc m) = Some (Some (m\<lparr>bl_next_file_id := next_after (bl_files m) 1, bl_segmented := False,
    bl_catalog := sc_default, bl_segment_target_size := DEFAULT_SEGMENT_TARGET_SIZE\<rparr>))"
proof -
  let ?p = "image_payload crc m" and ?fs = "bl_files m" and ?c = "cursor_new (image_payload crc m)"
  let ?files = "concat (map (image_file crc) ?fs)"
  have len: "length ?p + 12 < 2 ^ 64" and th: "bl_threshold m < 2 ^ 64" and n: "length ?fs < 2 ^ 32"
    and few: "list_all (\<lambda>f. bf_deleted_count f < 2 ^ 32) ?fs"
    using fits by (simp_all add: image_fits_def bl_to_bytes_def)
  have c0: "cursor_ok ?c" by (rule cursor_ok_new) (use len in simp)
  let ?r5 = "?files" let ?r4 = "u32_le (word_of_nat (length ?fs)) @ ?r5"
  let ?r3 = "u64_le (bl_generation_id m) @ ?r4" let ?r2 = "u64_le (word_of_nat (bl_threshold m)) @ ?r3"
  let ?r1 = "u32_le BLOB_FORMAT_VERSION @ ?r2"
  have r0: "rest_of ?c = BLOB_FORMAT_MAGIC @ ?r1" by (simp add: cursor_simps image_payload_def)
  note a1 = cursor_seek_rest(1,2) [OF c0 r0]
  note a2 = cursor_seek_rest(1,2) [OF a1, simplified cursor_seek_seek]
  note a3 = cursor_seek_rest(1,2) [OF a2, simplified cursor_seek_seek]
  note a4 = cursor_seek_rest(1,2) [OF a3, simplified cursor_seek_seek]
  note a5 = cursor_seek_rest(1,2) [OF a4, simplified cursor_seek_seek]
  have wf: "list_all (\<lambda>f. file_ok f \<and> bf_deleted_count f < 2 ^ 32 \<and> bf_file_id f \<noteq> 0 \<and> bf_file_id f \<noteq> - 1) ?fs"
    using ok few manager_ok_not_max [OF ok] manager_ok_id [OF ok] manager_ok_file [OF ok] by (fastforce simp: list_all_iff)
  have rd: "read_image_files crc (length ?fs) (cursor_seek ?c ?r5) [] 1 {} = Some (Some (?fs, next_after ?fs 1, cursor_seek ?c []))"
    using read_image_files_encoded [OF wf manager_ok_distinct [OF ok] _ a5(1), of "{}" crc "[]" "[]" 1] a5(2) by simp
  have fin: "cursor_finish (cursor_seek ?c []) = Some ()"
    using cursor_seek_rest(1,2) [OF a5(1), of ?r5 "[]"] a5(2) by (simp add: cursor_simps)
  have "sort_key bf_file_id ?fs = ?fs"
    using manager_ok_sorted [OF ok] strict_sorted_iff by (intro sort_key_id_if_sorted) blast
  moreover have "length ?fs \<le> cursor_remaining (cursor_seek ?c ?r5) div 16"
    using image_files_length [of ?fs crc] by (simp add: remaining_rest a5(2) less_eq_div_iff_mult_less_eq mult.commute)
  moreover have "take 8 (bl_to_bytes crc m) = BLOB_FORMAT_MAGIC"
    by (simp add: bl_to_bytes_def seal_def Let_def image_payload_def)
  ultimately show ?thesis
    using unseal_seal [OF len, of crc] cursor_take_at [OF c0 r0] cursor_u32_at [OF a1] cursor_u64_at [OF a2] cursor_u64_at [OF a3]
      cursor_u32_at [OF a4] rd fin th n
    by (simp add: bl_from_bytes_def bl_to_bytes_def from_versioned_bytes_def)
qed

section \<open>The size of an image\<close>

text \<open>The size as a number, and that the running sum of the source computes it.\<close>

definition file_image_size :: "blob_file \<Rightarrow> nat" where
  "file_image_size f = 16 + total_size (bf_records f) + 8 * bf_deleted_count f"

definition image_size :: "blob_manager \<Rightarrow> nat" where
  "image_size m = 44 + sum_list (map file_image_size (bl_files m))"

lemma length_concat_u64 [simp]: "length (concat (map u64_le xs)) = 8 * length xs"
  by (induction xs) simp_all

lemma length_image_file: "file_ok f \<Longrightarrow> length (image_file crc f) = file_image_size f"
  by (simp add: image_file_def Let_def file_image_size_def length_bf_to_bytes deleted_list(3))

lemma length_bl_to_bytes:
  assumes "manager_ok m"
  shows "length (bl_to_bytes crc m) = image_size m"
proof -
  have "length (concat (map (image_file crc) fs)) = sum_list (map file_image_size fs)" if "\<forall>f \<in> set fs. file_ok f" for fs
    using that by (induction fs) (simp_all add: length_image_file)
  then show ?thesis
    using manager_ok_file [OF assms] by (simp add: bl_to_bytes_def image_payload_def image_size_def)
qed

lemma add_file_sizes_eq:
  assumes "\<forall>f \<in> set fs. file_ok f" and "a + sum_list (map file_image_size fs) < 2 ^ 64"
  shows "add_file_sizes (word_of_nat a) fs = Some (word_of_nat (a + sum_list (map file_image_size fs)))"
  using assms
proof (induction fs arbitrary: a)
  case (Cons f fs)
  let ?t = "total_size (bf_records f)" and ?d = "bf_deleted_count f"
  have fit: "a + 16 + ?t + 8 * ?d < 2 ^ 64" using Cons.prems(2) by (simp add: file_image_size_def)
  have ok: "file_ok f" using Cons.prems(1) by simp
  have h: "checked_add_word (word_of_nat a) 16 = Some (word_of_nat (a + 16) :: u64)"
    using checked_add_nat [of a 16] fit by simp
  have s: "bf_serialized_size f = Some (word_of_nat ?t)" using bf_serialized_size_eq [OF ok] file_ok_offset [OF ok] by simp
  have t: "checked_add_word (word_of_nat (a + 16)) (word_of_nat ?t) = Some (word_of_nat (a + 16 + ?t) :: u64)"
    by (rule checked_add_nat) (use fit in simp)
  have "unat (word_of_nat ?d :: u64) = ?d" by (rule unat_word_of_nat_u64) (use fit in simp)
  then have m: "checked_mul_word (word_of_nat ?d) 8 = Some (word_of_nat (8 * ?d) :: u64)"
    using fit by (simp add: checked_mul_word_def)
  have d: "checked_add_word (word_of_nat (a + 16 + ?t)) (word_of_nat (8 * ?d)) = Some (word_of_nat (a + 16 + ?t + 8 * ?d) :: u64)"
    by (rule checked_add_nat) (use fit in simp)
  have "add_file_sizes (word_of_nat (a + 16 + ?t + 8 * ?d)) fs = Some (word_of_nat (a + 16 + ?t + 8 * ?d + sum_list (map file_image_size fs)))"
    by (rule Cons.IH) (use Cons.prems in \<open>simp_all add: file_image_size_def\<close>)
  then show ?case using h s t m d by (simp add: file_image_size_def [of f] add.assoc del: of_nat_add of_nat_mult)
qed simp

lemma bl_serialized_size_eq:
  assumes "manager_ok m" and "image_size m < 2 ^ 64"
  shows "bl_serialized_size m = Some (word_of_nat (image_size m))"
  using add_file_sizes_eq [of "bl_files m" 44] manager_ok_file [OF assms(1)] assms(2)
  by (simp add: bl_serialized_size_def usize_checked_add_def image_size_def del: of_nat_add)

text \<open>What one append and one mark add to it.\<close>

lemma bf_append_size:
  assumes "bf_append f p v = Some (x, f')"
  shows "file_image_size f' = file_image_size f + RECORD_OVERHEAD_SIZE + length v"
  using assms by (auto simp: bf_append_def Let_def bind_eq_Some_conv file_image_size_def record_serialized_size_def blob_record_new_def)

lemma bl_append_size:
  assumes "\<not> bl_segmented m" and "bl_append m key v = Some (Inr ptr, m')"
  shows "image_size m' = image_size m + (if bl_files m = [] then 16 else 0) + RECORD_OVERHEAD_SIZE + length v"
proof (cases "bl_files m = []")
  case True
  then obtain m1 where m1: "create_new_file m = (Inr (), m1)"
    using assms(2) by (auto simp: bl_append_def split: prod.splits sum.splits)
  obtain k where fs: "bl_files m1 = [bf_new k]"
    using m1 True by (auto simp: create_new_file_def begin_compaction_file_def on_catalog_def Let_def split: option.splits if_splits)
  obtain x f' where a: "bf_append (bf_new k) (make_key_prefix key) v = Some (x, f')" and m': "bl_files m' = [f']"
    using assms(2) True m1 fs by (auto simp: bl_append_def bind_eq_Some_conv)
  then show ?thesis using bf_append_size [OF a] True m' by (simp add: image_size_def file_image_size_def bf_new_def)
next
  case False
  then obtain fs f where fs: "bl_files m = fs @ [f]" by (metis rev_exhaust)
  obtain x f' where a: "bf_append f (make_key_prefix key) v = Some (x, f')" and m': "bl_files m' = fs @ [f']"
    using assms False fs by (auto simp: bl_append_def should_rollover_def bind_eq_Some_conv)
  then show ?thesis using bf_append_size [OF a] False m' fs by (simp add: image_size_def)
qed

lemma sum_list_update_nat:
  "i < length xs \<Longrightarrow> h y = h (xs ! i) + n \<Longrightarrow> sum_list (map h (xs[i := y])) = sum_list (map h xs) + (n :: nat)"
proof (induction xs arbitrary: i)
  case (Cons x xs)
  then show ?case by (cases i) auto
qed simp

lemma bl_mark_deleted_size:
  assumes "bl_mark_deleted m ptr = Some (r, m')"
  shows "image_size m' = image_size m + (if r then 8 else 0)"
proof (cases "file_index m (bp_file_id ptr)")
  case None
  then show ?thesis using assms by (simp add: bl_mark_deleted_def)
next
  case (Some i)
  then have i: "i < length (bl_files m)" and m': "bl_files m' = (bl_files m)[i := snd (bf_mark_deleted (bl_files m ! i) (bp_offset ptr))]"
    and r: "r = fst (bf_mark_deleted (bl_files m ! i) (bp_offset ptr))"
    using assms by (auto simp: bl_mark_deleted_def Let_def split: if_splits prod.splits)
  have "file_image_size (snd (bf_mark_deleted (bl_files m ! i) (bp_offset ptr))) = file_image_size (bl_files m ! i) + (if r then 8 else 0)"
    by (simp add: r bf_mark_deleted_def file_image_size_def)
  then show ?thesis using sum_list_update_nat [OF i, of file_image_size] m' by (simp add: image_size_def)
qed

lemma bl_can_mark_deleted_iff:
  assumes "manager_ok m"
  shows "bl_can_mark_deleted m ptr \<longleftrightarrow> blob_values m (place ptr) \<noteq> None \<and> place ptr \<notin> blob_deleted m"
proof (cases "file_of (bl_files m) (bp_file_id ptr)")
  case None
  then show ?thesis by (simp add: bl_can_mark_deleted_def file_by_id_eq [OF assms] blob_values_def place_def)
next
  case (Some f)
  then have "file_ok f" using manager_ok_file [OF assms] file_of_Some [OF manager_ok_distinct [OF assms]] by blast
  then show ?thesis
    using Some bf_has_record_values [of f "bp_offset ptr"]
    by (simp add: bl_can_mark_deleted_def file_by_id_eq [OF assms] blob_values_def place_def bf_can_mark_deleted_def blob_deleted_def)
qed

lemma projected_size_eq:
  assumes ok: "manager_ok m" and v: "n < 2 ^ 32"
    and fit: "image_size m + 8 + 16 + RECORD_OVERHEAD_SIZE + n < 2 ^ 64"
  shows "projected_serialized_size m (Some ptr) (Some n) =
    Some (word_of_nat (image_size m + (if bl_can_mark_deleted m ptr then 8 else 0)
      + (if bl_files m = [] then 16 else 0) + RECORD_OVERHEAD_SIZE + n))"
proof -
  let ?a = "image_size m" and ?b = "image_size m + (if bl_can_mark_deleted m ptr then 8 else 0)"
  let ?c = "?b + (if bl_files m = [] then 16 else 0)"
  have s: "bl_serialized_size m = Some (word_of_nat ?a)" by (rule bl_serialized_size_eq [OF ok]) (use fit in simp)
  have b: "(if bl_can_mark_deleted m ptr then checked_add_word (word_of_nat ?a) 8 else Some (word_of_nat ?a)) = Some (word_of_nat ?b :: u64)"
    using checked_add_nat [of ?a 8] fit by simp
  have c: "(if bl_files m = [] then checked_add_word (word_of_nat ?b) (4 + 8 + 4) else Some (word_of_nat ?b)) = Some (word_of_nat ?c :: u64)"
    using checked_add_nat [of ?b 16] fit by simp
  have d: "checked_add_word (word_of_nat ?c) (word_of_nat (16 + n)) = Some (word_of_nat (?c + (16 + n)) :: u64)"
    by (rule checked_add_nat) (use fit in simp)
  have u: "usize_checked_add RECORD_OVERHEAD_SIZE n = Some (16 + n)" using fit by (simp add: usize_checked_add_def)
  show ?thesis
    unfolding projected_serialized_size_def s bind.bind_lunit option.case b u
    using v by (simp only: c d bind.bind_lunit if_False not_le simp_thms) (simp add: add.assoc)
qed

end
