(* ===== verification/Catalog_Format.thy ===== *)
theory Catalog_Format
  imports Blob_Image
begin

text \<open>
  The durable bytes of the segmented blob catalog, \<open>src/src/blob/segment_catalog_format.rs\<close>: the anchor, which
  names a prefix of every segment and its deletion marks, and the append-only log of delta frames. A frame carries
  its own length and checksum, so that a torn suffix of the log is recognised and left out.
\<close>

section \<open>Definitions\<close>

definition SEGMENT_CATALOG_MAGIC :: bytes where "SEGMENT_CATALOG_MAGIC = ascii ''SEERBLC1''"
definition SEGMENT_CATALOG_VERSION :: u32 where "SEGMENT_CATALOG_VERSION = 1"
definition SEGMENT_CATALOG_DELTA_MAGIC :: bytes where "SEGMENT_CATALOG_DELTA_MAGIC = ascii ''SEERBCD1''"
definition SEGMENT_CATALOG_DELTA_VERSION :: u32 where "SEGMENT_CATALOG_DELTA_VERSION = 1"
definition MAX_SEGMENT_CATALOG_DELTAS :: u32 where "MAX_SEGMENT_CATALOG_DELTAS = 64"

datatype delta_entry =
    Upsert (de_file_id: u32) (de_data_len: u64) (de_deleted_offsets: "u64 list")
  | Remove (de_file_id: u32)

record catalog_delta =
  cd_generation_id :: u64
  cd_parent_generation_id :: u64
  cd_entries :: "delta_entry list"

definition is_segment_catalog :: "bytes \<Rightarrow> bool" where
  "is_segment_catalog buf \<longleftrightarrow> take (length SEGMENT_CATALOG_MAGIC) buf = SEGMENT_CATALOG_MAGIC"

definition catalog_file :: "(bytes \<Rightarrow> u32) \<Rightarrow> blob_file \<Rightarrow> bytes" where
  "catalog_file crc f =
     (let deleted_offsets = bf_deleted_list f
      in u32_le (bf_file_id f) @ u64_le (word_of_nat (length (bf_to_bytes crc f)))
         @ u32_le (word_of_nat (length deleted_offsets)) @ concat (map u64_le deleted_offsets))"

definition catalog_payload :: "(bytes \<Rightarrow> u32) \<Rightarrow> blob_manager \<Rightarrow> bytes" where
  "catalog_payload crc m =
     SEGMENT_CATALOG_MAGIC @ u32_le SEGMENT_CATALOG_VERSION @ u64_le (word_of_nat (bl_threshold m)) @ u64_le (bl_generation_id m)
     @ u32_le (word_of_nat (length (bl_files m))) @ concat (map (catalog_file crc) (bl_files m))"

definition encode_segment_catalog :: "(bytes \<Rightarrow> u32) \<Rightarrow> blob_manager \<Rightarrow> bytes" where
  "encode_segment_catalog crc m = seal crc (catalog_payload crc m)"

fun encode_delta_entry :: "delta_entry \<Rightarrow> bytes option" where
  "encode_delta_entry (Upsert file_id data_len deleted_offsets) =
     (if length deleted_offsets < 2 ^ 32
      then Some (u32_le file_id @ u32_le 0 @ u64_le data_len @ u32_le (word_of_nat (length deleted_offsets))
             @ concat (map u64_le deleted_offsets))
      else None)"
| "encode_delta_entry (Remove file_id) = Some (u32_le file_id @ u32_le 1)"

fun encode_delta_entries :: "delta_entry list \<Rightarrow> bytes option" where
  "encode_delta_entries [] = Some []"
| "encode_delta_entries (e # es) = do { x \<leftarrow> encode_delta_entry e; xs \<leftarrow> encode_delta_entries es; Some (x @ xs) }"

text \<open>The frame is built with a zero length field, which is then overwritten.\<close>

definition delta_frame_fields :: "u64 \<Rightarrow> u64 \<Rightarrow> u64 \<Rightarrow> u32 \<Rightarrow> bytes \<Rightarrow> bytes" where
  "delta_frame_fields frame_length generation_id parent_generation_id entry_count body =
     SEGMENT_CATALOG_DELTA_MAGIC @ u32_le SEGMENT_CATALOG_DELTA_VERSION @ u64_le frame_length @ u64_le generation_id
     @ u64_le parent_generation_id @ u32_le entry_count @ body"

definition encode_segment_catalog_delta :: "(bytes \<Rightarrow> u32) \<Rightarrow> blob_manager \<Rightarrow> delta_entry list \<Rightarrow> bytes option exec" where
  "encode_segment_catalog_delta crc m entries =
     (if length entries < 2 ^ 32 then
        try_option (Some (encode_delta_entries entries)) (\<lambda>body.
          let buf = delta_frame_fields 0 (bl_generation_id m) (sc_persisted_generation_id (bl_catalog m))
                      (word_of_nat (length entries)) body
          in try_option (Some (usize_checked_add (length buf) 4)) (\<lambda>frame_length. do {
               buf' \<leftarrow> copy_from_slice buf 12 (u64_le (word_of_nat frame_length));
               Some (Some (buf' @ u32_le (crc buf')))
             }))
      else Some None)"

definition delta_frame_header :: "bytes \<Rightarrow> nat \<Rightarrow> (nat \<times> u64) option" where
  "delta_frame_header buf pos =
     (if pos > length buf then None
      else (let frame = drop pos buf
            in if length frame < 44 then None
               else do {
                 magic \<leftarrow> slice_range frame 0 8;
                 version \<leftarrow> read_u32 frame 8;
                 if magic \<noteq> SEGMENT_CATALOG_DELTA_MAGIC \<or> version \<noteq> SEGMENT_CATALOG_DELTA_VERSION then None
                 else do {
                   frame_length \<leftarrow> map_option unat (read_u64 frame 12);
                   if \<not> (44 \<le> frame_length \<and> frame_length \<le> length frame) then None
                   else do {
                     stop \<leftarrow> usize_checked_add pos frame_length;
                     generation_id \<leftarrow> read_u64 frame 20;
                     Some (stop, generation_id)
                   }
                 }
               }))"

text \<open>Deletion offsets must ascend strictly within an entry, file identifiers within a frame.\<close>

fun take_ascending :: "nat \<Rightarrow> u64 option \<Rightarrow> cursor \<Rightarrow> u64 list cursor_op" where
  "take_ascending 0 previous c = Some ([], c)"
| "take_ascending (Suc n) previous c = do {
     (offset, c1) \<leftarrow> cursor_u64 c;
     if (case previous of Some p \<Rightarrow> offset \<le> p | None \<Rightarrow> False) then None
     else do { (rest, c2) \<leftarrow> take_ascending n (Some offset) c1; Some (offset # rest, c2) }
   }"

definition take_upsert :: "u32 \<Rightarrow> cursor \<Rightarrow> delta_entry cursor_op" where
  "take_upsert file_id c = do {
     (data_len, c1) \<leftarrow> cursor_u64 c;
     (deleted_count, c2) \<leftarrow> cursor_u32 c1;
     if unat deleted_count > cursor_remaining c2 div 8 then None
     else do {
       (deleted_offsets, c3) \<leftarrow> take_ascending (unat deleted_count) None c2;
       Some (Upsert file_id data_len deleted_offsets, c3)
     }
   }"

fun take_delta_entries :: "nat \<Rightarrow> u32 \<Rightarrow> cursor \<Rightarrow> delta_entry list cursor_op" where
  "take_delta_entries 0 previous_file_id c = Some ([], c)"
| "take_delta_entries (Suc n) previous_file_id c = do {
     (file_id, c1) \<leftarrow> cursor_u32 c;
     if file_id = 0 \<or> file_id \<le> previous_file_id then None
     else do {
       (kind, c2) \<leftarrow> cursor_u32 c1;
       (entry, c3) \<leftarrow> (if kind = 0 then take_upsert file_id c2
                       else if kind = 1 then Some (Remove file_id, c2)
                       else None);
       (rest, c4) \<leftarrow> take_delta_entries n file_id c3;
       Some (entry # rest, c4)
     }
   }"

definition parse_segment_catalog_delta_frame :: "(bytes \<Rightarrow> u32) \<Rightarrow> bytes \<Rightarrow> catalog_delta option" where
  "parse_segment_catalog_delta_frame crc buf =
     (if length buf < 44 then None
      else do {
        magic \<leftarrow> slice_range buf 0 8;
        version \<leftarrow> read_u32 buf 8;
        frame_length \<leftarrow> map_option unat (read_u64 buf 12);
        if magic \<noteq> SEGMENT_CATALOG_DELTA_MAGIC \<or> version \<noteq> SEGMENT_CATALOG_DELTA_VERSION \<or> frame_length \<noteq> length buf then None
        else do {
          stored_checksum \<leftarrow> read_u32 buf (length buf - 4);
          checked \<leftarrow> slice_range buf 0 (length buf - 4);
          if stored_checksum \<noteq> crc checked then None
          else do {
            generation_id \<leftarrow> read_u64 buf 20;
            parent_generation_id \<leftarrow> read_u64 buf 28;
            entry_count \<leftarrow> map_option unat (read_u32 buf 36);
            body \<leftarrow> slice_range buf 40 (length buf - 4);
            (entries, c) \<leftarrow> take_delta_entries entry_count 0 (cursor_new body);
            _ \<leftarrow> cursor_finish c;
            Some \<lparr>cd_generation_id = generation_id, cd_parent_generation_id = parent_generation_id, cd_entries = entries\<rparr>
          }
        }
      })"

lemma delta_frame_header_bounds:
  assumes "delta_frame_header buf pos = Some (stop, generation_id)"
  shows "pos + 44 \<le> stop \<and> stop \<le> length buf"
  using assms by (auto simp: delta_frame_header_def Let_def bind_eq_Some_conv usize_checked_add_def split: if_splits)

function delta_prefix_len_through_generation :: "(bytes \<Rightarrow> u32) \<Rightarrow> bytes \<Rightarrow> u64 \<Rightarrow> nat \<Rightarrow> nat option" where
  "delta_prefix_len_through_generation crc buf generation_id pos =
     (case delta_frame_header buf pos of
        None \<Rightarrow> Some pos
      | Some (stop, frame_generation) \<Rightarrow>
          if frame_generation > generation_id then Some pos
          else (case slice_range buf pos stop of
              None \<Rightarrow> None
            | Some frame \<Rightarrow>
                if parse_segment_catalog_delta_frame crc frame = None then Some pos
                else delta_prefix_len_through_generation crc buf generation_id stop))"
  by pat_completeness auto

termination
  by (relation "measure (\<lambda>(crc, buf, g, pos). length buf - pos)") (auto dest!: delta_frame_header_bounds)

function parse_delta_log ::
  "(bytes \<Rightarrow> u32) \<Rightarrow> bytes \<Rightarrow> u64 \<Rightarrow> nat \<Rightarrow> catalog_delta list \<Rightarrow> catalog_delta list option" where
  "parse_delta_log crc buf target_generation pos deltas =
     (case delta_frame_header buf pos of
        None \<Rightarrow> Some deltas
      | Some (stop, frame_generation) \<Rightarrow>
          if frame_generation > target_generation then Some deltas
          else if length deltas \<ge> unat MAX_SEGMENT_CATALOG_DELTAS then None
          else (case slice_range buf pos stop of
              None \<Rightarrow> None
            | Some frame \<Rightarrow>
                (case parse_segment_catalog_delta_frame crc frame of
                   None \<Rightarrow> Some deltas
                 | Some delta \<Rightarrow> parse_delta_log crc buf target_generation stop (deltas @ [delta]))))"
  by pat_completeness auto

termination
  by (relation "measure (\<lambda>(crc, buf, g, pos, ds). length buf - pos)") (auto dest!: delta_frame_header_bounds)

declare delta_prefix_len_through_generation.simps [simp del] parse_delta_log.simps [simp del]

definition parse_segment_catalog_delta_log_through_generation :: "(bytes \<Rightarrow> u32) \<Rightarrow> bytes \<Rightarrow> u64 \<Rightarrow> catalog_delta list option" where
  "parse_segment_catalog_delta_log_through_generation crc buf target_generation = parse_delta_log crc buf target_generation 0 []"

section \<open>One frame\<close>

lemma length_DELTA_MAGIC [simp]: "length SEGMENT_CATALOG_DELTA_MAGIC = 8"
  by (simp add: SEGMENT_CATALOG_DELTA_MAGIC_def ascii_def)

lemma length_CATALOG_MAGIC [simp]: "length SEGMENT_CATALOG_MAGIC = 8"
  by (simp add: SEGMENT_CATALOG_MAGIC_def ascii_def)

text \<open>The entries a frame may carry: identifiers above the previous one and ascending, offsets ascending.\<close>

fun entry_ok :: "delta_entry \<Rightarrow> bool" where
  "entry_ok (Upsert file_id data_len deleted_offsets) \<longleftrightarrow> sorted_wrt (<) deleted_offsets \<and> length deleted_offsets < 2 ^ 32"
| "entry_ok (Remove file_id) \<longleftrightarrow> True"

definition entries_ok :: "u32 \<Rightarrow> delta_entry list \<Rightarrow> bool" where
  "entries_ok previous es \<longleftrightarrow> list_all entry_ok es \<and> sorted_wrt (<) (previous # map de_file_id es)"

lemma take_ascending_at:
  assumes "sorted_wrt (<) (case previous of None \<Rightarrow> xs | Some p \<Rightarrow> p # xs)" and "cursor_ok c" and "rest_of c = concat (map u64_le xs) @ suffix"
  shows "take_ascending (length xs) previous c = Some (xs, cursor_seek c suffix)"
  using assms
proof (induction xs arbitrary: previous c)
  case Nil
  then have "cursor_seek c suffix = c" using take_u64s_at [of c "[]" suffix] by simp
  then show ?case by simp
next
  case (Cons x xs)
  have r: "rest_of c = u64_le x @ concat (map u64_le xs) @ suffix" using Cons.prems(3) by simp
  note at = cursor_seek_rest(1,2) [OF Cons.prems(2) r]
  have "take_ascending (length xs) (Some x) (cursor_seek c (concat (map u64_le xs) @ suffix)) = Some (xs, cursor_seek c suffix)"
    using Cons.IH [of "Some x", OF _ at] Cons.prems(1) by (auto split: option.splits)
  moreover have "\<not> (case previous of Some p \<Rightarrow> x \<le> p | None \<Rightarrow> False)"
    using Cons.prems(1) by (auto split: option.splits)
  ultimately show ?case using cursor_u64_at [OF Cons.prems(2) r] by (simp split del: option.split)
qed

lemma take_upsert_at:
  assumes ok: "entry_ok (Upsert file_id data_len ds)" and c: "cursor_ok c"
    and r: "rest_of c = u64_le data_len @ u32_le (word_of_nat (length ds)) @ concat (map u64_le ds) @ suffix"
  shows "take_upsert file_id c = Some (Upsert file_id data_len ds, cursor_seek c suffix)"
proof -
  note a1 = cursor_seek_rest(1,2) [OF c r]
  note a2 = cursor_seek_rest(1,2) [OF a1, simplified cursor_seek_seek]
  have n: "unat (word_of_nat (length ds) :: u32) = length ds" using ok by simp
  have t: "take_ascending (length ds) None (cursor_seek c (concat (map u64_le ds) @ suffix)) = Some (ds, cursor_seek c suffix)"
    using take_ascending_at [OF _ a2, of None] ok by simp
  have l: "\<not> length ds > cursor_remaining (cursor_seek c (concat (map u64_le ds) @ suffix)) div 8"
    by (simp add: remaining_rest a2(2))
  show ?thesis
    using cursor_u64_at [OF c r] cursor_u32_at [OF a1] l t by (simp add: take_upsert_def n)
qed

lemma take_delta_entries_at:
  assumes "entries_ok previous es" and "encode_delta_entries es = Some body" and "cursor_ok c" and "rest_of c = body @ suffix"
  shows "take_delta_entries (length es) previous c = Some (es, cursor_seek c suffix)"
  using assms
proof (induction es arbitrary: previous c body)
  case Nil
  then have "cursor_seek c suffix = c" using take_u64s_at [of c "[]" suffix] by simp
  then show ?case by simp
next
  case (Cons e es)
  obtain x xs where x: "encode_delta_entry e = Some x" and xs: "encode_delta_entries es = Some xs" and b: "body = x @ xs"
    using Cons.prems(2) by (auto simp: bind_eq_Some_conv)
  have e: "entry_ok e" and id: "previous < de_file_id e" and rest: "entries_ok (de_file_id e) es"
    using Cons.prems(1) by (auto simp: entries_ok_def)
  have nz: "de_file_id e \<noteq> 0" using id by auto
  have end_at: "cursor_ok (cursor_seek c (xs @ suffix))" "rest_of (cursor_seek c (xs @ suffix)) = xs @ suffix"
    using cursor_seek_rest(1,2) [OF Cons.prems(3), of x "xs @ suffix"] Cons.prems(4) b by simp_all
  have ih: "take_delta_entries (length es) (de_file_id e) (cursor_seek c (xs @ suffix)) = Some (es, cursor_seek c suffix)"
    using Cons.IH [OF rest xs end_at] by simp
  show ?case
  proof (cases e)
    case (Upsert file_id data_len ds)
    let ?w = "u64_le data_len @ u32_le (word_of_nat (length ds)) @ concat (map u64_le ds) @ xs @ suffix"
    have r: "rest_of c = u32_le file_id @ u32_le 0 @ ?w"
      using Cons.prems(4) b x e by (simp add: Upsert)
    note a1 = cursor_seek_rest(1,2) [OF Cons.prems(3) r]
    note a2 = cursor_seek_rest(1,2) [OF a1, simplified cursor_seek_seek]
    have "take_upsert file_id (cursor_seek c ?w) = Some (e, cursor_seek c (xs @ suffix))"
      using take_upsert_at [OF _ a2] e by (simp add: Upsert)
    then show ?thesis
      using cursor_u32_at [OF Cons.prems(3) r] cursor_u32_at [OF a1] ih id nz by (simp add: Upsert)
  next
    case (Remove file_id)
    have r: "rest_of c = u32_le file_id @ u32_le 1 @ xs @ suffix" using Cons.prems(4) b x by (simp add: Remove)
    note a1 = cursor_seek_rest(1,2) [OF Cons.prems(3) r]
    show ?thesis
      using cursor_u32_at [OF Cons.prems(3) r] cursor_u32_at [OF a1] ih id nz by (simp add: Remove)
  qed
qed

text \<open>The frame of given fields.\<close>

definition delta_frame :: "(bytes \<Rightarrow> u32) \<Rightarrow> catalog_delta \<Rightarrow> bytes \<Rightarrow> bytes" where
  "delta_frame crc d body =
     (let buf = delta_frame_fields (word_of_nat (44 + length body)) (cd_generation_id d) (cd_parent_generation_id d)
                  (word_of_nat (length (cd_entries d))) body
      in buf @ u32_le (crc buf))"

lemma length_delta_frame_fields [simp]: "length (delta_frame_fields l g p n body) = 40 + length body"
  by (simp add: delta_frame_fields_def)

lemma length_delta_frame [simp]: "length (delta_frame crc d body) = 44 + length body"
  by (simp add: delta_frame_def delta_frame_fields_def Let_def)

lemma encode_delta_total: "encode_segment_catalog_delta crc m es \<noteq> None"
  by (simp del: not_None_eq add: encode_segment_catalog_delta_def try_option_eq_None Let_def copy_from_slice_def delta_frame_fields_def)

lemma encode_delta_done:
  assumes "encode_segment_catalog_delta crc m es = Some (Some frame)"
  obtains body where "encode_delta_entries es = Some body" and "length es < 2 ^ 32" and "44 + length body < 2 ^ 64"
    and "frame = delta_frame crc \<lparr>cd_generation_id = bl_generation_id m,
      cd_parent_generation_id = sc_persisted_generation_id (bl_catalog m), cd_entries = es\<rparr> body"
proof -
  obtain body where b: "encode_delta_entries es = Some body" and n: "length es < 2 ^ 32" and l: "44 + length body < 2 ^ 64"
    using assms
    by (auto simp: encode_segment_catalog_delta_def try_option_eq_Some_Some usize_checked_add_def Let_def split: if_splits)
  moreover have "write_at (delta_frame_fields 0 g p k body) 12 (u64_le x) = delta_frame_fields x g p k body" for g p k x
    by (simp add: delta_frame_fields_def write_at_def)
  ultimately have "frame = delta_frame crc \<lparr>cd_generation_id = bl_generation_id m,
      cd_parent_generation_id = sc_persisted_generation_id (bl_catalog m), cd_entries = es\<rparr> body"
    using assms
    by (simp add: encode_segment_catalog_delta_def usize_checked_add_def delta_frame_def Let_def copy_from_slice_def
        length_delta_frame_fields del: of_nat_add)
  then show thesis using that b n l by blast
qed

lemma parse_delta_frame:
  assumes es: "entries_ok 0 (cd_entries d)" and b: "encode_delta_entries (cd_entries d) = Some body"
    and n: "length (cd_entries d) < 2 ^ 32" and l: "44 + length body < 2 ^ 64"
  shows "parse_segment_catalog_delta_frame crc (delta_frame crc d body) = Some d"
proof -
  let ?f = "delta_frame crc d body"
  let ?buf = "delta_frame_fields (word_of_nat (44 + length body)) (cd_generation_id d) (cd_parent_generation_id d)
    (word_of_nat (length (cd_entries d))) body"
  have f: "?f = ?buf @ u32_le (crc ?buf)" by (simp add: delta_frame_def Let_def del: of_nat_add)
  have u: "unat (word_of_nat (44 + length body) :: u64) = 44 + length body" by (rule unat_word_of_nat_u64 [OF l])
  have r: "slice_range ?f 0 8 = Some SEGMENT_CATALOG_DELTA_MAGIC" "read_u32 ?f 8 = Some SEGMENT_CATALOG_DELTA_VERSION"
    "read_u64 ?f 12 = Some (word_of_nat (44 + length body))" "read_u64 ?f 20 = Some (cd_generation_id d)"
    "read_u64 ?f 28 = Some (cd_parent_generation_id d)" "read_u32 ?f 36 = Some (word_of_nat (length (cd_entries d)))"
    by (simp_all add: f delta_frame_fields_def slice_sub_bytes page_simps append_field_simps del: of_nat_add)
  have s: "slice_range ?f 0 (40 + length body) = Some ?buf" "slice_range ?f 40 (40 + length body) = Some body"
    and k: "read_u32 ?f (40 + length body) = Some (crc ?buf)"
    by (simp_all add: f delta_frame_fields_def slice_sub_bytes page_simps append_field_simps sub_bytes_def del: of_nat_add)
  have c: "cursor_ok (cursor_new body)" by (rule cursor_ok_new) (use l in simp)
  have "take_delta_entries (length (cd_entries d)) 0 (cursor_new body) = Some (cd_entries d, cursor_seek (cursor_new body) [])"
    by (rule take_delta_entries_at [OF es b c]) (simp add: cursor_simps)
  moreover have "cursor_finish (cursor_seek (cursor_new body) []) = Some ()"
    using cursor_seek_rest(1,2) [OF c, of body "[]"] by (simp add: cursor_simps)
  moreover have "length ?f - 4 = 40 + length body" "length ?f = 44 + length body" by simp_all
  ultimately show ?thesis
    using r s k n u unfolding parse_segment_catalog_delta_frame_def by (simp del: of_nat_add length_delta_frame)
qed

section \<open>The log\<close>

lemma delta_frame_header_at:
  assumes "length (pre @ delta_frame crc d body @ suffix) < 2 ^ 64"
  shows "delta_frame_header (pre @ delta_frame crc d body @ suffix) (length pre)
    = Some (length pre + (44 + length body), cd_generation_id d)"
proof -
  let ?f = "delta_frame crc d body @ suffix"
  have l: "44 + length body < 2 ^ 64" using assms by simp
  have u: "unat (word_of_nat (44 + length body) :: u64) = 44 + length body" by (rule unat_word_of_nat_u64 [OF l])
  have r: "slice_range ?f 0 8 = Some SEGMENT_CATALOG_DELTA_MAGIC" "read_u32 ?f 8 = Some SEGMENT_CATALOG_DELTA_VERSION"
    "read_u64 ?f 12 = Some (word_of_nat (44 + length body))" "read_u64 ?f 20 = Some (cd_generation_id d)"
    by (simp_all add: delta_frame_def delta_frame_fields_def Let_def slice_sub_bytes page_simps append_field_simps del: of_nat_add)
  show ?thesis
    using assms by (simp add: delta_frame_header_def r u usize_checked_add_def del: of_nat_add)
qed

text \<open>Where a reader of the log stops: at a frame that is absent, torn, or of a later generation.\<close>

definition log_ends :: "(bytes \<Rightarrow> u32) \<Rightarrow> u64 \<Rightarrow> bytes \<Rightarrow> bool" where
  "log_ends crc target tail \<longleftrightarrow>
     (case delta_frame_header tail 0 of
        None \<Rightarrow> True
      | Some (stop, generation_id) \<Rightarrow> generation_id > target \<or> parse_segment_catalog_delta_frame crc (take stop tail) = None)"

text \<open>The reader counts a frame before it checks it: with 64 frames read, only an absent or later frame ends the log.\<close>

definition log_room :: "u64 \<Rightarrow> bytes \<Rightarrow> nat" where
  "log_room target tail =
     (case delta_frame_header tail 0 of None \<Rightarrow> 64 | Some (stop, generation_id) \<Rightarrow> if generation_id > target then 64 else 63)"

lemma delta_frame_header_shift:
  assumes "length (pre @ tail) < 2 ^ 64"
  shows "delta_frame_header (pre @ tail) (length pre) = map_option (\<lambda>(stop, g). (length pre + stop, g)) (delta_frame_header tail 0)"
proof -
  have a: "usize_checked_add (length pre) n = Some (length pre + n) \<and> usize_checked_add 0 n = Some n" if "n \<le> length tail" for n
    using that assms by (simp add: usize_checked_add_def)
  show ?thesis
    by (auto simp: delta_frame_header_def Let_def a page_simps slice_sub_bytes)
qed

lemma log_room_le: "log_room target tail \<le> 64"
  by (simp add: log_room_def split: option.splits prod.splits)

lemma parse_delta_log_end:
  assumes "log_ends crc target tail" and "length (pre @ tail) < 2 ^ 64" and "length deltas \<le> log_room target tail"
  shows "parse_delta_log crc (pre @ tail) target (length pre) deltas = Some deltas"
proof (cases "delta_frame_header tail 0")
  case None
  then show ?thesis by (subst parse_delta_log.simps) (simp add: delta_frame_header_shift [OF assms(2)])
next
  case (Some x)
  then obtain stop g where x: "delta_frame_header tail 0 = Some (stop, g)" by (cases x) simp
  have "stop \<le> length tail" using delta_frame_header_bounds [OF x] by simp
  then have "slice_range (pre @ tail) (length pre) (length pre + stop) = Some (take stop tail)"
    by (simp add: slice_range_def)
  then show ?thesis
    using assms(1,3) by (subst parse_delta_log.simps)
      (auto simp: delta_frame_header_shift [OF assms(2)] x log_ends_def log_room_def MAX_SEGMENT_CATALOG_DELTAS_def
        split: if_splits)
qed

text \<open>
  A log is a concatenation of frames. Reading it through a generation yields the frames, whatever torn or
  abandoned bytes follow them.
\<close>

fun log_of :: "(bytes \<Rightarrow> u32) \<Rightarrow> catalog_delta list \<Rightarrow> bytes option" where
  "log_of crc [] = Some []"
| "log_of crc (d # ds) = do {
     body \<leftarrow> encode_delta_entries (cd_entries d);
     rest \<leftarrow> log_of crc ds;
     if length (cd_entries d) < 2 ^ 32 \<and> 44 + length body < 2 ^ 64 then Some (delta_frame crc d body @ rest) else None
   }"

lemma parse_delta_log_frames:
  assumes "log_of crc ds = Some bytes" and "list_all (\<lambda>d. entries_ok 0 (cd_entries d) \<and> cd_generation_id d \<le> target) ds"
    and "log_ends crc target tail" and "length (pre @ bytes @ tail) < 2 ^ 64" and "length deltas + length ds \<le> log_room target tail"
  shows "parse_delta_log crc (pre @ bytes @ tail) target (length pre) deltas = Some (deltas @ ds)"
  using assms
proof (induction ds arbitrary: pre bytes deltas)
  case Nil
  then show ?case using parse_delta_log_end [of crc target tail pre deltas] by simp
next
  case (Cons d ds)
  obtain body rest where b: "encode_delta_entries (cd_entries d) = Some body" and r: "log_of crc ds = Some rest"
    and n: "length (cd_entries d) < 2 ^ 32" "44 + length body < 2 ^ 64" and bytes: "bytes = delta_frame crc d body @ rest"
    using Cons.prems(1) by (auto simp: bind_eq_Some_conv split: if_splits)
  have ok: "entries_ok 0 (cd_entries d)" and g: "cd_generation_id d \<le> target" using Cons.prems(2) by simp_all
  have h: "delta_frame_header (pre @ bytes @ tail) (length pre) = Some (length pre + (44 + length body), cd_generation_id d)"
    using delta_frame_header_at [of pre crc d body "rest @ tail"] Cons.prems(4) by (simp add: bytes)
  have s: "slice_range (pre @ bytes @ tail) (length pre) (length pre + (44 + length body)) = Some (delta_frame crc d body)"
    by (simp add: slice_range_def bytes)
  have "parse_delta_log crc ((pre @ delta_frame crc d body) @ rest @ tail) target (length (pre @ delta_frame crc d body)) (deltas @ [d])
      = Some ((deltas @ [d]) @ ds)"
    by (rule Cons.IH [OF r]) (use Cons.prems bytes in simp_all)
  then show ?case
    using h s parse_delta_frame [OF ok b n] g Cons.prems(5) log_room_le [of target tail]
    by (subst parse_delta_log.simps) (simp add: MAX_SEGMENT_CATALOG_DELTAS_def bytes)
qed

text \<open>The writer keeps the same prefix and drops the rest.\<close>

lemma delta_prefix_frames:
  assumes "log_of crc ds = Some bytes" and "list_all (\<lambda>d. entries_ok 0 (cd_entries d) \<and> cd_generation_id d \<le> target) ds"
    and "log_ends crc target tail" and "length (pre @ bytes @ tail) < 2 ^ 64"
  shows "delta_prefix_len_through_generation crc (pre @ bytes @ tail) target (length pre) = Some (length pre + length bytes)"
  using assms
proof (induction ds arbitrary: pre bytes)
  case Nil
  have l: "length (pre @ tail) < 2 ^ 64" and bytes: "bytes = []" using Nil by simp_all
  show ?case
  proof (cases "delta_frame_header tail 0")
    case None
    then show ?thesis by (subst delta_prefix_len_through_generation.simps) (simp add: delta_frame_header_shift [OF l] bytes)
  next
    case (Some x)
    then obtain stop g where x: "delta_frame_header tail 0 = Some (stop, g)" by (cases x) simp
    have "stop \<le> length tail" using delta_frame_header_bounds [OF x] by simp
    then have "slice_range (pre @ tail) (length pre) (length pre + stop) = Some (take stop tail)"
      by (simp add: slice_range_def)
    then show ?thesis
      using Nil.prems(3) by (subst delta_prefix_len_through_generation.simps)
        (auto simp: delta_frame_header_shift [OF l] x log_ends_def bytes)
  qed
next
  case (Cons d ds)
  obtain body rest where b: "encode_delta_entries (cd_entries d) = Some body" and r: "log_of crc ds = Some rest"
    and n: "length (cd_entries d) < 2 ^ 32" "44 + length body < 2 ^ 64" and bytes: "bytes = delta_frame crc d body @ rest"
    using Cons.prems(1) by (auto simp: bind_eq_Some_conv split: if_splits)
  have ok: "entries_ok 0 (cd_entries d)" and g: "cd_generation_id d \<le> target" using Cons.prems(2) by simp_all
  have h: "delta_frame_header (pre @ bytes @ tail) (length pre) = Some (length pre + (44 + length body), cd_generation_id d)"
    using delta_frame_header_at [of pre crc d body "rest @ tail"] Cons.prems(4) by (simp add: bytes)
  have s: "slice_range (pre @ bytes @ tail) (length pre) (length pre + (44 + length body)) = Some (delta_frame crc d body)"
    by (simp add: slice_range_def bytes)
  have "delta_prefix_len_through_generation crc ((pre @ delta_frame crc d body) @ rest @ tail) target (length (pre @ delta_frame crc d body))
      = Some (length (pre @ delta_frame crc d body) + length rest)"
    by (rule Cons.IH [OF r]) (use Cons.prems bytes in simp_all)
  then show ?case
    using h s parse_delta_frame [OF ok b n] g
    by (subst delta_prefix_len_through_generation.simps) (simp add: bytes)
qed

end
