(* ===== verification/Blob_Catalog.thy ===== *)
theory Blob_Catalog
  imports Catalog_Format
begin

text \<open>
  The durable frontier of the segmented blob catalog and its replay, \<open>src/src/blob/segment_catalog.rs\<close>: the delta
  from the frontier to the live files, what a publication captures, and the recovery of a manager from the anchor,
  the segments and the delta log.
\<close>

section \<open>Projection\<close>

definition previous_marks :: "segment_catalog_state \<Rightarrow> u32 \<Rightarrow> u64 set" where
  "previous_marks s file_id = (case Mapping.lookup (sc_persisted_deleted_offsets s) file_id of None \<Rightarrow> {} | Some ds \<Rightarrow> ds)"

fun delta_entries_for :: "blob_manager \<Rightarrow> u32 list \<Rightarrow> delta_entry list option" where
  "delta_entries_for m [] = Some []"
| "delta_entries_for m (file_id # rest) =
     (case file_by_id m file_id of
        None \<Rightarrow> do { es \<leftarrow> delta_entries_for m rest; Some (Remove file_id # es) }
      | Some file \<Rightarrow> do {
          data_len \<leftarrow> bf_serialized_size file;
          let previous_len = Mapping.lookup (sc_persisted_lengths (bl_catalog m)) file_id;
          let deleted_offsets = filter (\<lambda>x. x \<notin> previous_marks (bl_catalog m) file_id) (bf_deleted_list file);
          es \<leftarrow> delta_entries_for m rest;
          Some (if previous_len \<noteq> Some data_len
                  \<or> Mapping.lookup (sc_persisted_deleted_offsets (bl_catalog m)) file_id = None
                  \<or> deleted_offsets \<noteq> []
                then Upsert file_id data_len deleted_offsets # es else es)
        })"

definition segment_catalog_delta_entries :: "blob_manager \<Rightarrow> delta_entry list option" where
  "segment_catalog_delta_entries m =
     delta_entries_for m (sorted_list_of_set (set (map bf_file_id (bl_files m)) \<union> Mapping.keys (sc_persisted_lengths (bl_catalog m))))"

definition to_segment_catalog_delta_bytes :: "(bytes \<Rightarrow> u32) \<Rightarrow> blob_manager \<Rightarrow> bytes option exec" where
  "to_segment_catalog_delta_bytes crc m =
     try_option (Some (segment_catalog_delta_entries m)) (encode_segment_catalog_delta crc m)"

definition segment_bytes :: "(bytes \<Rightarrow> u32) \<Rightarrow> blob_manager \<Rightarrow> u32 \<Rightarrow> bytes option" where
  "segment_bytes crc m file_id = map_option (bf_to_bytes crc) (file_by_id m file_id)"

definition persisted_segment_length :: "blob_manager \<Rightarrow> u32 \<Rightarrow> u64" where
  "persisted_segment_length m file_id = (case Mapping.lookup (sc_persisted_lengths (bl_catalog m)) file_id of None \<Rightarrow> 0 | Some n \<Rightarrow> n)"

definition catalog_needs_consolidation :: "blob_manager \<Rightarrow> bool" where
  "catalog_needs_consolidation m \<longleftrightarrow> sc_catalog_persisted (bl_catalog m) \<and> sc_catalog_delta_count (bl_catalog m) \<ge> MAX_SEGMENT_CATALOG_DELTAS"

fun add_unpersisted :: "blob_manager \<Rightarrow> u64 \<Rightarrow> blob_file list \<Rightarrow> u64 option" where
  "add_unpersisted m acc [] = Some acc"
| "add_unpersisted m acc (f # fs) = do {
     current \<leftarrow> bf_serialized_size f;
     let persisted = persisted_segment_length m (bf_file_id f);
     if current < persisted then None
     else do { acc' \<leftarrow> checked_add_word acc (current - persisted); add_unpersisted m acc' fs }
   }"

definition segment_write_size :: "(bytes \<Rightarrow> u32) \<Rightarrow> blob_manager \<Rightarrow> u64 option exec" where
  "segment_write_size crc m =
     try_option
       (if \<not> sc_catalog_persisted (bl_catalog m) \<or> catalog_needs_consolidation m
        then Some (Some (length (encode_segment_catalog crc m)))
        else try_option (to_segment_catalog_delta_bytes crc m) (\<lambda>bs. Some (Some (length bs))))
       (\<lambda>n. Some (add_unpersisted m (word_of_nat n) (bl_files m)))"

definition projected_segment_write_size ::
  "(bytes \<Rightarrow> u32) \<Rightarrow> blob_manager \<Rightarrow> blob_pointer option \<Rightarrow> nat option \<Rightarrow> u64 option exec" where
  "projected_segment_write_size crc m retired appended_value_len =
     try_option (segment_write_size crc m) (\<lambda>current.
     try_option
       (Some (case retired of
           Some ptr \<Rightarrow> if bl_can_mark_deleted m ptr then checked_add_word current 8 else Some current
         | None \<Rightarrow> Some current)) (\<lambda>marked.
     Some (case appended_value_len of
         None \<Rightarrow> Some marked
       | Some value_len \<Rightarrow> do {
           record_size \<leftarrow> usize_checked_add RECORD_OVERHEAD_SIZE value_len;
           headed \<leftarrow> (if bl_files m = [] \<or> should_rollover m value_len
             then checked_add_word marked
                    (if \<not> sc_catalog_persisted (bl_catalog m) \<or> catalog_needs_consolidation m then 4 + 8 + 4 else 4 + 4 + 8 + 4)
             else Some marked);
           checked_add_word headed (word_of_nat record_size)
         })))"

section \<open>The frontier\<close>

fun capture_files :: "(bytes \<Rightarrow> u32) \<Rightarrow> blob_file list \<Rightarrow> segment_catalog_state \<Rightarrow> segment_catalog_state" where
  "capture_files crc [] s = s"
| "capture_files crc (f # fs) s =
     capture_files crc fs (s\<lparr>
       sc_persisted_lengths := Mapping.update (bf_file_id f) (word_of_nat (length (bf_to_bytes crc f))) (sc_persisted_lengths s),
       sc_persisted_deleted_offsets := Mapping.update (bf_file_id f) (bf_deleted_offsets f) (sc_persisted_deleted_offsets s)\<rparr>)"

definition capture_persisted_state :: "(bytes \<Rightarrow> u32) \<Rightarrow> blob_manager \<Rightarrow> blob_manager" where
  "capture_persisted_state crc m =
     (let live_file_ids = set (map bf_file_id (bl_files m)); s = capture_files crc (bl_files m) (bl_catalog m)
      in m\<lparr>bl_catalog := s\<lparr>
           sc_persisted_lengths := Mapping.filter (\<lambda>file_id _. file_id \<in> live_file_ids) (sc_persisted_lengths s),
           sc_persisted_deleted_offsets := Mapping.filter (\<lambda>file_id _. file_id \<in> live_file_ids) (sc_persisted_deleted_offsets s),
           sc_persisted_generation_id := bl_generation_id m,
           sc_catalog_persisted := True\<rparr>\<rparr>)"

definition mark_segment_delta_persisted :: "(bytes \<Rightarrow> u32) \<Rightarrow> blob_manager \<Rightarrow> blob_manager" where
  "mark_segment_delta_persisted crc m =
     on_catalog (\<lambda>s. s\<lparr>sc_catalog_delta_count := saturating_add_word (sc_catalog_delta_count s) 1\<rparr>) (capture_persisted_state crc m)"

definition mark_segment_catalog_consolidated :: "(bytes \<Rightarrow> u32) \<Rightarrow> blob_manager \<Rightarrow> blob_manager" where
  "mark_segment_catalog_consolidated crc m =
     on_catalog (\<lambda>s. s\<lparr>sc_catalog_delta_count := 0\<rparr>) (capture_persisted_state crc m)"

definition segment_file_ids :: "blob_manager \<Rightarrow> u32 list" where
  "segment_file_ids m = map bf_file_id (bl_files m)"

section \<open>Recovery\<close>

text \<open>The loop over the anchor reads the data of a file from its segment; \<open>s\<close> collects the frontier.\<close>

fun read_catalog_files ::
  "(bytes \<Rightarrow> u32) \<Rightarrow> (u32, bytes) mapping \<Rightarrow> nat \<Rightarrow> cursor \<Rightarrow> blob_file list \<Rightarrow> u32 \<Rightarrow> u32 set
    \<Rightarrow> (u32, u64) mapping \<Rightarrow> (u32, u64 set) mapping
    \<Rightarrow> (blob_file list \<times> u32 \<times> (u32, u64) mapping \<times> (u32, u64 set) mapping \<times> cursor) option exec" where
  "read_catalog_files crc segments 0 c files next_file_id file_ids lens marks = Some (Some (files, next_file_id, lens, marks, c))"
| "read_catalog_files crc segments (Suc n) c files next_file_id file_ids lens marks =
     try_option (Some (cursor_u32 c)) (\<lambda>(file_id, c1).
       if file_id_bad file_id file_ids then Some None
       else try_option (Some (cursor_u64 c1)) (\<lambda>(data_len, c2).
         try_option (Some (Mapping.lookup segments file_id)) (\<lambda>segment.
           try_option (Some (slice_range segment 0 (unat data_len))) (\<lambda>data.
             try_option (bf_from_bytes crc file_id data) (\<lambda>file.
               try_option (Some (take_marks file c2)) (\<lambda>(file', deleted_offsets, c3).
                 try_option (Some (checked_add_word file_id 1)) (\<lambda>succ.
                   read_catalog_files crc segments n c3 (files @ [file']) (max next_file_id succ) (insert file_id file_ids)
                     (Mapping.update file_id data_len lens) (Mapping.update file_id (set deleted_offsets) marks))))))))"

definition from_segment_catalog_base :: "(bytes \<Rightarrow> u32) \<Rightarrow> bytes \<Rightarrow> (u32, bytes) mapping \<Rightarrow> blob_manager option exec" where
  "from_segment_catalog_base crc buf segments =
     try_option (unseal crc buf) (\<lambda>payload.
     try_option (Some (cursor_take (cursor_new payload) (length SEGMENT_CATALOG_MAGIC))) (\<lambda>(magic, c1).
       if magic \<noteq> SEGMENT_CATALOG_MAGIC then Some None
       else try_option (Some (cursor_u32 c1)) (\<lambda>(version, c2).
         if version \<noteq> SEGMENT_CATALOG_VERSION then Some None
         else try_option (Some (cursor_u64 c2)) (\<lambda>(threshold, c3).
           try_option (Some (cursor_u64 c3)) (\<lambda>(generation_id, c4).
             try_option (Some (cursor_u32 c4)) (\<lambda>(num_files, c5).
               if unat num_files > cursor_remaining c5 div 16 then Some None
               else try_option (read_catalog_files crc segments (unat num_files) c5 [] 1 {} Mapping.empty Mapping.empty)
                 (\<lambda>(files, next_file_id, lens, marks, c6).
                 try_option (Some (cursor_finish c6)) (\<lambda>_.
                   Some (Some \<lparr>bl_files = sort_key bf_file_id files, bl_next_file_id = next_file_id,
                     bl_threshold = unat threshold, bl_generation_id = generation_id, bl_segmented = True,
                     bl_catalog = \<lparr>sc_persisted_lengths = lens, sc_persisted_deleted_offsets = marks,
                       sc_persisted_generation_id = generation_id, sc_catalog_delta_count = 0, sc_catalog_persisted = True\<rparr>,
                     bl_segment_target_size = DEFAULT_SEGMENT_TARGET_SIZE\<rparr>)))))))))"

text \<open>The deletion offsets of an entry must be new.\<close>

fun insert_new :: "u64 list \<Rightarrow> u64 set \<Rightarrow> u64 set option" where
  "insert_new [] s = Some s"
| "insert_new (x # xs) s = (if x \<in> s then None else insert_new xs (insert x s))"

definition place_file :: "blob_manager \<Rightarrow> u32 \<Rightarrow> blob_file \<Rightarrow> blob_file list" where
  "place_file m file_id file =
     (case file_index m file_id of
        Some index \<Rightarrow> (bl_files m)[index := file]
      | None \<Rightarrow> (let insert_at = (case binary_search bf_file_id (bl_files m) file_id of Inr i \<Rightarrow> i | Inl i \<Rightarrow> i)
                 in take insert_at (bl_files m) @ file # drop insert_at (bl_files m)))"

fun apply_delta_entry :: "(bytes \<Rightarrow> u32) \<Rightarrow> (u32, bytes) mapping \<Rightarrow> delta_entry \<Rightarrow> blob_manager \<Rightarrow> blob_manager option exec" where
  "apply_delta_entry crc segments (Upsert file_id data_len deleted_offsets) m =
     (if (case Mapping.lookup (sc_persisted_lengths (bl_catalog m)) file_id of Some previous \<Rightarrow> data_len < previous | None \<Rightarrow> False)
      then Some None
      else try_option (Some (Mapping.lookup segments file_id)) (\<lambda>whole.
        try_option (Some (slice_range whole 0 (unat data_len))) (\<lambda>segment.
          try_option (bf_from_bytes crc file_id segment) (\<lambda>file.
            try_option (Some (insert_new deleted_offsets (previous_marks (bl_catalog m) file_id))) (\<lambda>all_deleted.
              try_option (Some (bf_restore_deleted file (sorted_list_of_set all_deleted))) (\<lambda>file'.
                try_option (Some (checked_add_word file_id 1)) (\<lambda>succ.
                  Some (Some (on_catalog (\<lambda>s. s\<lparr>
                      sc_persisted_lengths := Mapping.update file_id data_len (sc_persisted_lengths s),
                      sc_persisted_deleted_offsets := Mapping.update file_id all_deleted (sc_persisted_deleted_offsets s)\<rparr>)
                    (m\<lparr>bl_files := place_file m file_id file', bl_next_file_id := max (bl_next_file_id m) succ\<rparr>))))))))))"
| "apply_delta_entry crc segments (Remove file_id) m =
     try_option (Some (file_index m file_id)) (\<lambda>index.
       if index < length (bl_files m)
       then Some (Some (on_catalog (\<lambda>s. s\<lparr>
           sc_persisted_lengths := Mapping.delete file_id (sc_persisted_lengths s),
           sc_persisted_deleted_offsets := Mapping.delete file_id (sc_persisted_deleted_offsets s)\<rparr>)
         (m\<lparr>bl_files := vec_remove index (bl_files m)\<rparr>)))
       else None)"

fun apply_delta_entries :: "(bytes \<Rightarrow> u32) \<Rightarrow> (u32, bytes) mapping \<Rightarrow> delta_entry list \<Rightarrow> blob_manager \<Rightarrow> blob_manager option exec" where
  "apply_delta_entries crc segments [] m = Some (Some m)"
| "apply_delta_entries crc segments (e # es) m =
     try_option (apply_delta_entry crc segments e m) (apply_delta_entries crc segments es)"

definition apply_segment_catalog_delta ::
  "(bytes \<Rightarrow> u32) \<Rightarrow> (u32, bytes) mapping \<Rightarrow> catalog_delta \<Rightarrow> blob_manager \<Rightarrow> blob_manager option exec" where
  "apply_segment_catalog_delta crc segments delta m =
     (if bl_generation_id m \<noteq> cd_parent_generation_id delta then Some None
      else try_option (apply_delta_entries crc segments (cd_entries delta) m) (\<lambda>m'.
        Some (Some (on_catalog (\<lambda>s. s\<lparr>sc_persisted_generation_id := cd_generation_id delta,
            sc_catalog_delta_count := saturating_add_word (sc_catalog_delta_count s) 1, sc_catalog_persisted := True\<rparr>)
          (m'\<lparr>bl_generation_id := cd_generation_id delta\<rparr>)))))"

text \<open>The walk from the selected generation back to the anchor.\<close>

function delta_path :: "u64 \<Rightarrow> catalog_delta list \<Rightarrow> u64 \<Rightarrow> u64 set \<Rightarrow> catalog_delta list \<Rightarrow> catalog_delta list option" where
  "delta_path base deltas current visited path =
     (if current = base then Some path
      else if current \<in> visited \<or> length path \<ge> unat MAX_SEGMENT_CATALOG_DELTAS then None
      else (case filter (\<lambda>d. cd_generation_id d = current) deltas of
          [] \<Rightarrow> None
        | delta # others \<Rightarrow>
            if others \<noteq> [] \<or> cd_parent_generation_id delta \<ge> cd_generation_id delta \<or> cd_parent_generation_id delta < base then None
            else delta_path base deltas (cd_parent_generation_id delta) (insert current visited) (path @ [delta])))"
  by pat_completeness auto

termination
  by (relation "measure (\<lambda>(base, deltas, current, visited, path). unat MAX_SEGMENT_CATALOG_DELTAS - length path)") auto

declare delta_path.simps [simp del]

fun apply_deltas :: "(bytes \<Rightarrow> u32) \<Rightarrow> (u32, bytes) mapping \<Rightarrow> catalog_delta list \<Rightarrow> blob_manager \<Rightarrow> blob_manager option exec" where
  "apply_deltas crc segments [] m = Some (Some m)"
| "apply_deltas crc segments (d # ds) m = try_option (apply_segment_catalog_delta crc segments d m) (apply_deltas crc segments ds)"

definition from_segment_catalog_with_delta_log ::
  "(bytes \<Rightarrow> u32) \<Rightarrow> bytes \<Rightarrow> (u32, bytes) mapping \<Rightarrow> bytes \<Rightarrow> u64 option \<Rightarrow> blob_manager option exec" where
  "from_segment_catalog_with_delta_log crc buf segments delta_log target =
     try_option (from_segment_catalog_base crc buf segments) (\<lambda>m.
       let target_generation = (case target of Some g \<Rightarrow> g | None \<Rightarrow> bl_generation_id m)
       in if target_generation < bl_generation_id m then Some None
          else try_option (Some (parse_segment_catalog_delta_log_through_generation crc delta_log target_generation)) (\<lambda>deltas.
            try_option (Some (delta_path (bl_generation_id m) deltas target_generation {} [])) (\<lambda>path.
              apply_deltas crc segments (rev path) m)))"

end
