(* ===== verification/Catalog_Replay.thy ===== *)
theory Catalog_Replay
  imports Blob_Catalog
begin

text \<open>
  Replaying catalog deltas. A recovered manager stands for a map from file identifiers to files: its files are that map
  and its frontier records their lengths and marks. Applying the delta that a live manager projects from its frontier
  turns that map into the files of the live manager.
\<close>

section \<open>The recovered files\<close>

definition file_length :: "blob_file \<Rightarrow> u64" where
  "file_length f = word_of_nat (total_size (bf_records f))"

definition recovered_as :: "blob_manager \<Rightarrow> (u32 \<rightharpoonup> blob_file) \<Rightarrow> bool" where
  "recovered_as r F \<longleftrightarrow> manager_ok r \<and> file_of (bl_files r) = F
     \<and> Mapping.lookup (sc_persisted_lengths (bl_catalog r)) = (\<lambda>k. map_option file_length (F k))
     \<and> Mapping.lookup (sc_persisted_deleted_offsets (bl_catalog r)) = (\<lambda>k. map_option bf_deleted_offsets (F k))"

lemma manager_files_eqI:
  assumes "manager_ok m" and "manager_ok m'" and "file_of (bl_files m) = file_of (bl_files m')"
  shows "bl_files m = bl_files m'"
proof (rule map_sorted_distinct_set_unique)
  have "set (bl_files m) = set (bl_files m')"
    using assms(3) file_of_Some [OF manager_ok_distinct [OF assms(1)]] file_of_Some [OF manager_ok_distinct [OF assms(2)]]
    by (metis set_eqI)
  then show "set (bl_files m) = set (bl_files m')" and "inj_on bf_file_id (set (bl_files m) \<union> set (bl_files m'))"
    using manager_ok_distinct [OF assms(1)] by (simp_all add: distinct_map)
qed (use assms manager_ok_sorted strict_sorted_iff in blast)+

lemma file_of_id: "manager_ok m \<Longrightarrow> file_of (bl_files m) k = Some f \<Longrightarrow> file_ok f \<and> bf_file_id f = k \<and> f \<in> set (bl_files m)"
  using file_of_Some [OF manager_ok_distinct] manager_ok_file by blast

text \<open>Putting a file at its place keeps the files sorted.\<close>

lemma place_file_spec:
  assumes ok: "manager_ok m" and f: "file_ok f" "bf_file_id f = k" and k: "0 < k" "k < nxt" and n: "bl_next_file_id m \<le> nxt"
  shows "manager_ok (m\<lparr>bl_files := place_file m k f, bl_next_file_id := nxt\<rparr>)"
    and "file_of (place_file m k f) = (file_of (bl_files m))(k \<mapsto> f)"
proof -
  let ?fs = "bl_files m" and ?m = "m\<lparr>bl_files := place_file m k f, bl_next_file_id := nxt\<rparr>"
  have "sorted_wrt (<) (map bf_file_id (place_file m k f)) \<and> set (place_file m k f) = insert f {g \<in> set ?fs. bf_file_id g \<noteq> k}"
  proof (cases "file_index m k")
    case (Some i)
    then have i: "i < length ?fs" "bf_file_id (?fs ! i) = k" using file_index_spec [OF ok, of k] by simp_all
    have "map bf_file_id (?fs[i := f]) = map bf_file_id ?fs"
      using f i by (simp add: map_update list_update_same_conv)
    moreover have "set (?fs[i := f]) = insert f {g \<in> set ?fs. bf_file_id g \<noteq> k}"
    proof -
      have d: "distinct ?fs" "inj_on bf_file_id (set ?fs)" using manager_ok_distinct [OF ok] by (simp_all add: distinct_map)
      have "set ?fs - {?fs ! i} = {g \<in> set ?fs. bf_file_id g \<noteq> k}"
      proof -
        have "g = ?fs ! i \<longleftrightarrow> bf_file_id g = k" if "g \<in> set ?fs" for g
          using that i inj_on_eq_iff [OF d(2), of g "?fs ! i"] by simp
        then show ?thesis by auto
      qed
      then show ?thesis using set_update_distinct [OF d(1) i(1)] by simp
    qed
    ultimately show ?thesis using Some manager_ok_sorted [OF ok] by (simp add: place_file_def)
  next
    case None
    then have absent: "\<forall>g \<in> set ?fs. bf_file_id g \<noteq> k" using file_index_spec [OF ok, of k] by (simp add: file_of_None)
    define lo where "lo = takeWhile (\<lambda>g. bf_file_id g < k) ?fs"
    define hi where "hi = dropWhile (\<lambda>g. bf_file_id g < k) ?fs"
    have fs: "?fs = lo @ hi" by (simp add: lo_def hi_def)
    have pos: "position (\<lambda>g. bf_file_id g = k) ?fs = None" using absent by (simp add: position_None)
    have "take (length lo) ?fs = lo" "drop (length lo) ?fs = hi" by (simp_all add: fs)
    then have p: "place_file m k f = lo @ f # hi"
      using None pos by (simp add: place_file_def binary_search_def lo_def [symmetric])
    have lo: "\<forall>g \<in> set lo. bf_file_id g < k" by (auto simp: lo_def dest: set_takeWhileD)
    have "\<forall>g \<in> set hi. k < bf_file_id g"
    proof (cases hi)
      case (Cons h hs)
      have "\<not> bf_file_id h < k" using Cons hd_dropWhile [of "\<lambda>g. bf_file_id g < k" ?fs] unfolding hi_def by force
      moreover have "bf_file_id h \<noteq> k" using absent Cons fs by simp
      ultimately have h: "k < bf_file_id h" by simp
      have "\<forall>g \<in> set hs. bf_file_id h < bf_file_id g"
        using manager_ok_sorted [OF ok] by (simp add: fs Cons sorted_wrt_append)
      then show ?thesis using h Cons by (auto intro: less_trans)
    qed simp
    then show ?thesis
      using manager_ok_sorted [OF ok] lo f(2) absent unfolding p by (auto simp: fs sorted_wrt_append)
  qed
  then have sorted: "sorted_wrt (<) (map bf_file_id (place_file m k f))"
    and set: "set (place_file m k f) = insert f {g \<in> set ?fs. bf_file_id g \<noteq> k}" by simp_all
  show "manager_ok ?m"
    using sorted set f k n manager_ok_file [OF ok] manager_ok_id [OF ok]
    by (auto simp: manager_ok_def list_all_iff intro: less_le_trans)
  have d: "distinct (map bf_file_id (place_file m k f))" using sorted strict_sorted_iff by blast
  have "file_of (place_file m k f) j = Some g \<longleftrightarrow> ((file_of ?fs)(k \<mapsto> f)) j = Some g" for j g
    using file_of_Some [OF d, of j g] file_of_Some [OF manager_ok_distinct [OF ok], of j g] set f(2) by auto
  then show "file_of (place_file m k f) = (file_of ?fs)(k \<mapsto> f)" by (metis ext option.exhaust)
qed

lemma insert_new_eq: "distinct xs \<Longrightarrow> set xs \<inter> s = {} \<Longrightarrow> insert_new xs s = Some (s \<union> set xs)"
  by (induction xs arbitrary: s) auto

lemma previous_marks_tracks:
  "recovered_as r F \<Longrightarrow> previous_marks (bl_catalog r) k = (case F k of None \<Rightarrow> {} | Some f \<Rightarrow> bf_deleted_offsets f)"
  by (simp add: recovered_as_def previous_marks_def split: option.splits)

section \<open>One entry\<close>

text \<open>A segment holds the bytes of a file when they are a prefix of it.\<close>

definition segment_holds :: "(bytes \<Rightarrow> u32) \<Rightarrow> (u32, bytes) mapping \<Rightarrow> blob_file \<Rightarrow> bool" where
  "segment_holds crc segments f \<longleftrightarrow>
     (\<exists>tail. Mapping.lookup segments (bf_file_id f) = Some (bf_to_bytes crc f @ tail))"

lemma unat_file_length: "file_ok f \<Longrightarrow> unat (file_length f) = total_size (bf_records f)"
  unfolding file_length_def by (rule unat_word_of_nat_u64 [OF file_ok_size])

text \<open>A file grows: its old records stay a prefix and its marks stay.\<close>

definition file_extends :: "blob_file \<Rightarrow> blob_file \<Rightarrow> bool" where
  "file_extends f g \<longleftrightarrow> (\<exists>rs. bf_records g = bf_records f @ rs) \<and> bf_deleted_offsets f \<subseteq> bf_deleted_offsets g"

lemma file_extends_length: "file_ok f \<Longrightarrow> file_ok g \<Longrightarrow> file_extends f g \<Longrightarrow> file_length f \<le> file_length g"
  by (auto simp: file_extends_def word_le_nat_alt unat_file_length)

lemma read_segment:
  assumes "file_ok f" and "segment_holds crc segments f"
  obtains whole where "Mapping.lookup segments (bf_file_id f) = Some whole"
    and "slice_range whole 0 (unat (file_length f)) = Some (bf_to_bytes crc f)"
    and "bf_from_bytes crc (bf_file_id f) (bf_to_bytes crc f) = Some (Some (bf_clear_deletion_metadata f))"
proof -
  obtain tail where l: "Mapping.lookup segments (bf_file_id f) = Some (bf_to_bytes crc f @ tail)"
    using assms(2) by (auto simp: segment_holds_def)
  have "slice_range (bf_to_bytes crc f @ tail) 0 (unat (file_length f)) = Some (bf_to_bytes crc f)"
    by (simp add: slice_range_def unat_file_length [OF assms(1)] length_bf_to_bytes [OF assms(1)])
  then show thesis using that l bf_from_bytes_encoded [OF assms(1)] by blast
qed

lemma apply_upsert:
  assumes r: "recovered_as r F" and f: "file_ok f" and id: "bf_file_id f = k" "0 < k" "k \<noteq> - 1"
    and seg: "segment_holds crc segments f" and old: "\<And>f0. F k = Some f0 \<Longrightarrow> file_extends f0 f"
    and ds: "ds = filter (\<lambda>x. x \<notin> (case F k of None \<Rightarrow> {} | Some f0 \<Rightarrow> bf_deleted_offsets f0)) (bf_deleted_list f)"
  obtains r' where "apply_delta_entry crc segments (Upsert k (file_length f) ds) r = Some (Some r')" and "recovered_as r' (F(k \<mapsto> f))"
    and "bl_generation_id r' = bl_generation_id r" and "bl_threshold r' = bl_threshold r" and "bl_segmented r' = bl_segmented r"
proof -
  let ?old = "case F k of None \<Rightarrow> {} | Some f0 \<Rightarrow> bf_deleted_offsets f0"
  have r_ok: "manager_ok r" and fo: "file_of (bl_files r) = F" using r by (simp_all add: recovered_as_def)
  obtain whole where w: "Mapping.lookup segments k = Some whole" "slice_range whole 0 (unat (file_length f)) = Some (bf_to_bytes crc f)"
    "bf_from_bytes crc k (bf_to_bytes crc f) = Some (Some (bf_clear_deletion_metadata f))"
    using read_segment [OF f seg] id(1) by metis
  have sub: "?old \<subseteq> bf_deleted_offsets f" using old by (auto simp: file_extends_def split: option.splits)
  have sds: "set ds = bf_deleted_offsets f - ?old" "distinct ds" using deleted_list(1,2) [OF f] by (auto simp: ds)
  have "insert_new ds ?old = Some (?old \<union> set ds)" by (rule insert_new_eq [OF sds(2)]) (use sds(1) in blast)
  then have ins: "insert_new ds ?old = Some (bf_deleted_offsets f)" using sub by (simp add: sds(1) Un_absorb1)
  have rest: "bf_restore_deleted (bf_clear_deletion_metadata f) (sorted_list_of_set (bf_deleted_offsets f)) = Some f"
    using restore_cleared [OF f] by (simp add: bf_deleted_list_def)
  have len: "\<not> (case Mapping.lookup (sc_persisted_lengths (bl_catalog r)) k of Some p \<Rightarrow> file_length f < p | None \<Rightarrow> False)"
  proof (cases "F k")
    case (Some f0)
    then have "file_length f0 \<le> file_length f"
      using old [OF Some] file_extends_length f file_of_id [OF r_ok, of k f0] fo by simp
    then show ?thesis using r Some by (simp add: recovered_as_def)
  qed (use r in \<open>simp add: recovered_as_def\<close>)
  have succ: "checked_add_word k 1 = Some (k + 1)" by (rule checked_succ [OF id(3)])
  let ?r1 = "r\<lparr>bl_files := place_file r k f, bl_next_file_id := max (bl_next_file_id r) (k + 1)\<rparr>"
  let ?r' = "on_catalog (\<lambda>s. s\<lparr>sc_persisted_lengths := Mapping.update k (file_length f) (sc_persisted_lengths s),
      sc_persisted_deleted_offsets := Mapping.update k (bf_deleted_offsets f) (sc_persisted_deleted_offsets s)\<rparr>) ?r1"
  have run: "apply_delta_entry crc segments (Upsert k (file_length f) ds) r = Some (Some ?r')"
    using len w ins rest succ previous_marks_tracks [OF r, of k] by (simp split del: option.split)
  have kn: "k < max (bl_next_file_id r) (k + 1)" using succ_id_less [OF succ] by (simp add: less_max_iff_disj)
  note pf = place_file_spec [OF r_ok f id(1,2) kn, simplified]
  have "recovered_as ?r' (F(k \<mapsto> f))"
    using r pf by (auto simp: recovered_as_def on_catalog_def fun_eq_iff lookup_update_if manager_ok_def)
  then show thesis using that run by (simp add: on_catalog_def)
qed

lemma apply_remove:
  assumes r: "recovered_as r F" and k: "F k \<noteq> None"
  obtains r' where "apply_delta_entry crc segments (Remove k) r = Some (Some r')" and "recovered_as r' (F(k := None))"
    and "bl_generation_id r' = bl_generation_id r" and "bl_threshold r' = bl_threshold r" and "bl_segmented r' = bl_segmented r"
proof -
  have r_ok: "manager_ok r" and fo: "file_of (bl_files r) = F" using r by (simp_all add: recovered_as_def)
  obtain i where i: "file_index r k = Some i" "i < length (bl_files r)" "bf_file_id (bl_files r ! i) = k"
    using file_index_spec [OF r_ok, of k] k fo by (auto split: option.splits)
  have rm: "vec_remove i (bl_files r) = filter (\<lambda>f. bf_file_id f \<noteq> k) (bl_files r)"
    using vec_remove_filter [OF manager_ok_distinct [OF r_ok] i(2)] i(3) by simp
  let ?r' = "on_catalog (\<lambda>s. s\<lparr>sc_persisted_lengths := Mapping.delete k (sc_persisted_lengths s),
      sc_persisted_deleted_offsets := Mapping.delete k (sc_persisted_deleted_offsets s)\<rparr>)
    (r\<lparr>bl_files := vec_remove i (bl_files r)\<rparr>)"
  note ff = filter_files [OF r_ok, of "\<lambda>f. bf_file_id f \<noteq> k"]
  have "file_of (vec_remove i (bl_files r)) j = (F(k := None)) j" for j
    unfolding rm ff(2) fo using file_of_id [OF r_ok, of j] fo by (auto split: option.splits)
  moreover have "manager_ok (r\<lparr>bl_files := vec_remove i (bl_files r)\<rparr>)" unfolding rm by (rule ff(1))
  ultimately have "recovered_as ?r' (F(k := None))"
    using r by (auto simp: recovered_as_def on_catalog_def fun_eq_iff lookup_delete_if manager_ok_def)
  moreover have "apply_delta_entry crc segments (Remove k) r = Some (Some ?r')" using i by simp
  ultimately show thesis using that by (simp add: on_catalog_def)
qed

section \<open>A live manager and its frontier\<close>

text \<open>
  The frontier of a live manager describes the files \<open>F\<close> of the last publication. Since then files have grown or
  gone, and files have been started, whose entry in the frontier is absent or zero.
\<close>

definition on_frontier :: "(u32 \<rightharpoonup> blob_file) \<Rightarrow> blob_manager \<Rightarrow> bool" where
  "on_frontier F m \<longleftrightarrow> manager_ok m \<and> finite (dom F)
     \<and> (\<forall>k f. F k = Some f \<longrightarrow> file_ok f \<and> bf_file_id f = k \<and> 0 < k \<and> k < bl_next_file_id m)
     \<and> (\<forall>k. Mapping.lookup (sc_persisted_deleted_offsets (bl_catalog m)) k = map_option bf_deleted_offsets (F k))
     \<and> (\<forall>k f. F k = Some f \<longrightarrow> Mapping.lookup (sc_persisted_lengths (bl_catalog m)) k = Some (file_length f))
     \<and> (\<forall>k. F k = None \<longrightarrow> Mapping.lookup (sc_persisted_lengths (bl_catalog m)) k = None
          \<or> Mapping.lookup (sc_persisted_lengths (bl_catalog m)) k = Some 0 \<and> file_of (bl_files m) k \<noteq> None)
     \<and> (\<forall>k f g. F k = Some f \<longrightarrow> file_of (bl_files m) k = Some g \<longrightarrow> file_extends f g)"

lemma liveD:
  assumes "on_frontier F m"
  shows live_ok: "manager_ok m" and live_finite: "finite (dom F)"
    and live_file: "F k = Some f \<Longrightarrow> file_ok f \<and> bf_file_id f = k \<and> 0 < k \<and> k < bl_next_file_id m"
    and live_marks: "Mapping.lookup (sc_persisted_deleted_offsets (bl_catalog m)) k = map_option bf_deleted_offsets (F k)"
    and live_length: "F k = Some f \<Longrightarrow> Mapping.lookup (sc_persisted_lengths (bl_catalog m)) k = Some (file_length f)"
    and live_new: "F k = None \<Longrightarrow> Mapping.lookup (sc_persisted_lengths (bl_catalog m)) k = None
          \<or> Mapping.lookup (sc_persisted_lengths (bl_catalog m)) k = Some 0 \<and> file_of (bl_files m) k \<noteq> None"
    and live_extends: "F k = Some f \<Longrightarrow> file_of (bl_files m) k = Some g \<Longrightarrow> file_extends f g"
  using assms unfolding on_frontier_def by blast+

lemma live_previous_marks:
  "on_frontier F m \<Longrightarrow> previous_marks (bl_catalog m) k = (case F k of None \<Rightarrow> {} | Some f \<Rightarrow> bf_deleted_offsets f)"
  by (simp add: previous_marks_def live_marks split: option.splits)

text \<open>A file that has not grown and has no new marks is the published one.\<close>

lemma file_extends_same:
  assumes "file_ok f" and "file_ok g" and "bf_file_id f = bf_file_id g" and "file_extends f g"
    and "file_length f = file_length g" and "bf_deleted_offsets g \<subseteq> bf_deleted_offsets f"
  shows "f = g"
proof -
  obtain rs where rs: "bf_records g = bf_records f @ rs" using assms(4) by (auto simp: file_extends_def)
  have "total_size rs = 0"
    using arg_cong [OF assms(5), of unat] unfolding unat_file_length [OF assms(1)] unat_file_length [OF assms(2)] rs by simp
  then have "rs = []" by (cases rs) (simp_all add: record_serialized_size_def)
  then show ?thesis using assms rs by (intro file_eqI) (auto simp: file_extends_def)
qed

lemma bf_size_length: "file_ok f \<Longrightarrow> bf_serialized_size f = Some (file_length f)"
  by (simp add: bf_serialized_size_eq file_ok_offset file_length_def)

definition same_settings :: "blob_manager \<Rightarrow> blob_manager \<Rightarrow> bool" where
  "same_settings r r' \<longleftrightarrow> bl_generation_id r' = bl_generation_id r \<and> bl_threshold r' = bl_threshold r \<and> bl_segmented r' = bl_segmented r"

lemma replay_entries:
  assumes m: "on_frontier F m" and "recovered_as r G" and "\<forall>k \<in> set ids. G k = F k" and "distinct ids"
    and "\<forall>k \<in> set ids. file_of (bl_files m) k \<noteq> None \<or> F k \<noteq> None"
    and seg: "\<forall>f \<in> set (bl_files m). segment_holds crc segments f"
  shows "\<exists>es r'. delta_entries_for m ids = Some es \<and> apply_delta_entries crc segments es r = Some (Some r')
    \<and> recovered_as r' (\<lambda>k. if k \<in> set ids then file_of (bl_files m) k else G k) \<and> same_settings r r'"
  using assms(2-5)
proof (induction ids arbitrary: r G)
  case Nil
  then show ?case by (simp add: same_settings_def)
next
  case (Cons k ids)
  let ?H = "\<lambda>G j. if j \<in> set ids then file_of (bl_files m) j else G j"
  have ok: "manager_ok m" by (rule live_ok [OF m])
  have step: "\<exists>es r'. delta_entries_for m ids = Some es \<and> apply_delta_entries crc segments es r1 = Some (Some r')
      \<and> recovered_as r' (\<lambda>j. if j \<in> set (k # ids) then file_of (bl_files m) j else G j) \<and> same_settings r r'"
    if "recovered_as r1 (G(k := file_of (bl_files m) k))" and "same_settings r r1" for r1
  proof -
    have h: "?H (G(k := file_of (bl_files m) k)) = (\<lambda>j. if j \<in> set (k # ids) then file_of (bl_files m) j else G j)"
      using Cons.prems(3) by auto
    show ?thesis using Cons.IH [OF that(1)] Cons.prems that(2) unfolding h by (auto simp: same_settings_def)
  qed
  show ?case
  proof (cases "file_of (bl_files m) k")
    case None
    obtain r1 where "apply_delta_entry crc segments (Remove k) r = Some (Some r1)" and "recovered_as r1 (G(k := None))" and "same_settings r r1"
      using apply_remove [OF Cons.prems(1), of k crc segments] Cons.prems(2,4) None unfolding same_settings_def
      by (metis list.set_intros(1))
    then show ?thesis using step [of r1] None by (auto simp: file_by_id_eq [OF ok])
  next
    case (Some f)
    note f = file_of_id [OF ok Some]
    have kid: "0 < k" "k \<noteq> - 1" using f manager_ok_id [OF ok, of f] manager_ok_not_max [OF ok, of f] by auto
    let ?ds = "filter (\<lambda>x. x \<notin> previous_marks (bl_catalog m) k) (bf_deleted_list f)"
    let ?emit = "Mapping.lookup (sc_persisted_lengths (bl_catalog m)) k \<noteq> Some (file_length f)
      \<or> Mapping.lookup (sc_persisted_deleted_offsets (bl_catalog m)) k = None \<or> ?ds \<noteq> []"
    have G: "G k = F k" using Cons.prems(2) by simp
    have size: "bf_serialized_size f = Some (file_length f)" using bf_size_length f by blast
    show ?thesis
    proof (cases ?emit)
      case True
      have old: "file_extends f0 f" if "G k = Some f0" for f0 using that live_extends [OF m _ Some] G by simp
      have ds: "?ds = filter (\<lambda>x. x \<notin> (case G k of None \<Rightarrow> {} | Some f0 \<Rightarrow> bf_deleted_offsets f0)) (bf_deleted_list f)"
        by (simp add: live_previous_marks [OF m] G)
      obtain r1 where a: "apply_delta_entry crc segments (Upsert k (file_length f) ?ds) r = Some (Some r1)"
        and t: "recovered_as r1 (G(k \<mapsto> f))" and s: "same_settings r r1"
        using apply_upsert [OF Cons.prems(1) _ _ kid _ old ds, of crc segments] f seg unfolding same_settings_def by metis
      show ?thesis using step [of r1] t s a True size Some by (auto simp: file_by_id_eq [OF ok] Let_def simp del: apply_delta_entry.simps)
    next
      case False
      then obtain f0 where f0: "F k = Some f0" using live_marks [OF m, of k] by auto
      have "bf_deleted_offsets f \<subseteq> bf_deleted_offsets f0"
        using False deleted_list(1) [of f] f by (auto simp: live_previous_marks [OF m] f0 filter_empty_conv)
      then have "f0 = f"
        using live_file [OF m f0] f live_extends [OF m f0 Some] live_length [OF m f0] False by (intro file_extends_same) auto
      then have "G(k := file_of (bl_files m) k) = G" using G f0 Some by (simp add: fun_upd_idem)
      then show ?thesis
        using step [of r] Cons.prems(1) False size Some by (auto simp: file_by_id_eq [OF ok] Let_def same_settings_def)
    qed
  qed
qed

text \<open>The whole delta: the recovered manager has the files of the live one.\<close>

definition delta_ids :: "blob_manager \<Rightarrow> u32 set" where
  "delta_ids m = set (map bf_file_id (bl_files m)) \<union> Mapping.keys (sc_persisted_lengths (bl_catalog m))"

lemma keys_lookup: "k \<in> Mapping.keys h \<longleftrightarrow> Mapping.lookup h k \<noteq> None"
  by (auto simp: keys_dom_lookup)

lemma delta_ids_live:
  assumes "on_frontier F m"
  shows "finite (delta_ids m)" and "k \<in> delta_ids m \<longleftrightarrow> file_of (bl_files m) k \<noteq> None \<or> F k \<noteq> None"
proof -
  have ids: "k \<in> set (map bf_file_id (bl_files m)) \<longleftrightarrow> file_of (bl_files m) k \<noteq> None" for k
    using file_of_None [of "bl_files m" k] by auto
  show mem: "k \<in> delta_ids m \<longleftrightarrow> file_of (bl_files m) k \<noteq> None \<or> F k \<noteq> None" for k
    unfolding delta_ids_def Un_iff ids keys_lookup using live_length [OF assms, of k] live_new [OF assms, of k] by (cases "F k") auto
  have "delta_ids m \<subseteq> set (map bf_file_id (bl_files m)) \<union> dom F"
    using mem ids by auto
  then show "finite (delta_ids m)" using live_finite [OF assms] finite_subset by blast
qed

lemma replay_delta:
  assumes m: "on_frontier F m" and r: "recovered_as r F" and seg: "\<forall>f \<in> set (bl_files m). segment_holds crc segments f"
  obtains es r' where "segment_catalog_delta_entries m = Some es" and "apply_delta_entries crc segments es r = Some (Some r')"
    and "recovered_as r' (file_of (bl_files m))" and "same_settings r r'"
proof -
  let ?ids = "sorted_list_of_set (delta_ids m)"
  have set: "set ?ids = delta_ids m" using delta_ids_live(1) [OF m] by simp
  have "\<exists>es r'. delta_entries_for m ?ids = Some es \<and> apply_delta_entries crc segments es r = Some (Some r')
      \<and> recovered_as r' (\<lambda>k. if k \<in> set ?ids then file_of (bl_files m) k else F k) \<and> same_settings r r'"
    by (rule replay_entries [OF m r _ _ _ seg]) (use set delta_ids_live(2) [OF m] in auto)
  moreover have "(\<lambda>k. if k \<in> set ?ids then file_of (bl_files m) k else F k) = file_of (bl_files m)"
    using delta_ids_live(2) [OF m] set by (auto simp: fun_eq_iff)
  ultimately show thesis using that by (auto simp: segment_catalog_delta_entries_def delta_ids_def)
qed

text \<open>The entries of a delta ascend, as the reader of a frame demands.\<close>

lemma delta_entries_sorted:
  assumes "delta_entries_for m ids = Some es" and "sorted_wrt (<) (p # ids)" and "manager_ok m"
  shows "sorted_wrt (<) (p # map de_file_id es) \<and> (\<forall>e \<in> set es. de_file_id e \<in> set ids)
    \<and> (\<forall>k n ds. Upsert k n ds \<in> set es \<longrightarrow> sorted_wrt (<) ds)"
  using assms
proof (induction ids arbitrary: es p)
  case (Cons k ids)
  obtain es' where es': "delta_entries_for m ids = Some es'"
    using Cons.prems(1) by (auto simp: bind_eq_Some_conv Let_def split: option.splits)
  have ih: "sorted_wrt (<) (k # map de_file_id es') \<and> (\<forall>e \<in> set es'. de_file_id e \<in> set ids)
    \<and> (\<forall>k n ds. Upsert k n ds \<in> set es' \<longrightarrow> sorted_wrt (<) ds)"
    by (rule Cons.IH [OF es' _ Cons.prems(3)]) (use Cons.prems(2) in simp)
  have ds: "sorted_wrt (<) (filter P (bf_deleted_list f))" if "file_of (bl_files m) k = Some f" for f P
    using file_of_id [OF Cons.prems(3) that] finite_deleted [of f]
    by (auto simp: bf_deleted_list_def intro: sorted_wrt_filter)
  obtain e where "es = e # es' \<and> de_file_id e = k \<and> (\<forall>n ds. e = Upsert k n ds \<longrightarrow> sorted_wrt (<) ds) \<or> es = es'"
    using Cons.prems(1) ds es' file_by_id_eq [OF Cons.prems(3), of k]
    by (auto simp: bind_eq_Some_conv Let_def split: option.splits if_splits)
  moreover have "p < k" using Cons.prems(2) by simp
  ultimately show ?case using ih by (auto intro: less_trans)
qed simp

lemma encode_entries_short: "encode_delta_entries es = Some body \<Longrightarrow> Upsert k n ds \<in> set es \<Longrightarrow> length ds < 2 ^ 32"
  by (induction es arbitrary: body) (auto simp: bind_eq_Some_conv split: if_splits)

lemma delta_entries_ok:
  assumes m: "on_frontier F m" and es: "segment_catalog_delta_entries m = Some es" and b: "encode_delta_entries es = Some body"
  shows "entries_ok 0 es"
proof -
  let ?ids = "sorted_list_of_set (delta_ids m)"
  have pos: "0 < k" if k: "k \<in> delta_ids m" for k
  proof (cases "F k")
    case None
    then obtain f where "file_of (bl_files m) k = Some f" using k delta_ids_live(2) [OF m] by auto
    then show ?thesis using file_of_id [OF live_ok [OF m]] manager_ok_id [OF live_ok [OF m], of f] by blast
  qed (use live_file [OF m] in blast)
  have "sorted_wrt (<) (0 # ?ids)" using pos delta_ids_live(1) [OF m] by simp
  then have s: "sorted_wrt (<) (0 # map de_file_id es) \<and> (\<forall>k n ds. Upsert k n ds \<in> set es \<longrightarrow> sorted_wrt (<) ds)"
    using delta_entries_sorted [of m ?ids es 0] es live_ok [OF m] by (auto simp: segment_catalog_delta_entries_def delta_ids_def)
  have "entry_ok e" if "e \<in> set es" for e
    by (cases e) (use that s encode_entries_short [OF b] in auto)
  then show ?thesis using s by (simp add: entries_ok_def list_all_iff)
qed

end
