(* ===== verification/Catalog_Recovery.thy ===== *)
theory Catalog_Recovery
  imports Catalog_Replay
begin

text \<open>
  Recovery of the segmented blob store from what is on disk: the catalog anchor, the segments and the delta log.
  The anchor restores the files it was written from, a publication captures the live files as the new frontier,
  and the deltas of the log, read up to the selected generation, lead from the anchor to the last publication.
\<close>

section \<open>The anchor\<close>

lemma file_length_bytes: "file_ok f \<Longrightarrow> word_of_nat (length (bf_to_bytes crc f)) = file_length f"
  by (simp add: file_length_def length_bf_to_bytes)

lemma read_catalog_files_encoded:
  assumes "list_all (\<lambda>f. file_ok f \<and> bf_deleted_count f < 2 ^ 32 \<and> bf_file_id f \<noteq> 0 \<and> bf_file_id f \<noteq> - 1 \<and> segment_holds crc segments f) fs"
    and "distinct (map bf_file_id fs)" and "set (map bf_file_id fs) \<inter> ids = {}"
    and "cursor_ok c" and "rest_of c = concat (map (catalog_file crc) fs) @ suffix"
  shows "read_catalog_files crc segments (length fs) c files nxt ids lens marks
    = Some (Some (files @ fs, next_after fs nxt, fold (\<lambda>f. Mapping.update (bf_file_id f) (file_length f)) fs lens,
        fold (\<lambda>f. Mapping.update (bf_file_id f) (bf_deleted_offsets f)) fs marks, cursor_seek c suffix))"
  using assms
proof (induction fs arbitrary: c files nxt ids lens marks)
  case Nil
  then have "cursor_seek c suffix = c" using take_u64s_at [of c "[]" suffix] by simp
  then show ?case by (simp add: next_after_def)
next
  case (Cons f fs)
  let ?ds = "bf_deleted_list f" and ?t = "concat (map (catalog_file crc) fs) @ suffix"
  let ?marks = "u32_le (word_of_nat (length ?ds)) @ concat (map u64_le ?ds) @ ?t"
  have ok: "file_ok f" "bf_deleted_count f < 2 ^ 32" "bf_file_id f \<noteq> - 1" and seg: "segment_holds crc segments f"
    using Cons.prems(1) by simp_all
  have r: "rest_of c = u32_le (bf_file_id f) @ u64_le (file_length f) @ ?marks"
    using Cons.prems(5) file_length_bytes [OF ok(1), of crc] by (simp add: catalog_file_def [of crc f] Let_def)
  note a1 = cursor_seek_rest(1,2) [OF Cons.prems(4) r]
  note a2 = cursor_seek_rest(1,2) [OF a1, simplified cursor_seek_seek]
  have s1: "cursor_u32 c = Some (bf_file_id f, cursor_seek c (u64_le (file_length f) @ ?marks))" by (rule cursor_u32_at [OF Cons.prems(4) r])
  have s2: "cursor_u64 (cursor_seek c (u64_le (file_length f) @ ?marks)) = Some (file_length f, cursor_seek c ?marks)"
    using cursor_u64_at [OF a1] by simp
  obtain whole where w: "Mapping.lookup segments (bf_file_id f) = Some whole"
    "slice_range whole 0 (unat (file_length f)) = Some (bf_to_bytes crc f)"
    "bf_from_bytes crc (bf_file_id f) (bf_to_bytes crc f) = Some (Some (bf_clear_deletion_metadata f))"
    by (rule read_segment [OF ok(1) seg])
  have s4: "take_marks (bf_clear_deletion_metadata f) (cursor_seek c ?marks) = Some (f, ?ds, cursor_seek c ?t)"
    using take_marks_at [OF ok(1,2) a2] by simp
  have good: "\<not> file_id_bad (bf_file_id f) ids" using Cons.prems(1,3) by (auto simp: file_id_bad_def)
  have "cursor_ok (cursor_seek c ?t)" and "rest_of (cursor_seek c ?t) = ?t"
    using cursor_seek_rest [OF Cons.prems(4), of "catalog_file crc f" ?t] Cons.prems(5) by simp_all
  then have "read_catalog_files crc segments (length fs) (cursor_seek c ?t) (files @ [f]) (max nxt (bf_file_id f + 1)) (insert (bf_file_id f) ids)
        (Mapping.update (bf_file_id f) (file_length f) lens) (Mapping.update (bf_file_id f) (bf_deleted_offsets f) marks)
      = Some (Some ((files @ [f]) @ fs, next_after fs (max nxt (bf_file_id f + 1)),
          fold (\<lambda>f. Mapping.update (bf_file_id f) (file_length f)) fs (Mapping.update (bf_file_id f) (file_length f) lens),
          fold (\<lambda>f. Mapping.update (bf_file_id f) (bf_deleted_offsets f)) fs (Mapping.update (bf_file_id f) (bf_deleted_offsets f) marks),
          cursor_seek (cursor_seek c ?t) suffix))"
    by (intro Cons.IH) (use Cons.prems in auto)
  then show ?case
    using s1 s2 s4 good w checked_succ [OF ok(3)] deleted_list(1) [OF ok(1)] by (simp add: next_after_def)
qed

lemma lookup_fold_update:
  "distinct (map bf_file_id fs) \<Longrightarrow> Mapping.lookup (fold (\<lambda>f. Mapping.update (bf_file_id f) (g f)) fs h) k
    = (case file_of fs k of Some f \<Rightarrow> Some (g f) | None \<Rightarrow> Mapping.lookup h k)"
proof (induction fs arbitrary: h)
  case (Cons f fs)
  have "file_of fs (bf_file_id f) = None" using Cons.prems by (simp add: file_of_None image_iff) metis
  then show ?case
    using Cons.IH [of "Mapping.update (bf_file_id f) (g f) h"] Cons.prems
    by (auto simp: file_of_def lookup_update_if split: option.splits)
qed (simp add: file_of_def)

definition anchor_fits :: "(bytes \<Rightarrow> u32) \<Rightarrow> blob_manager \<Rightarrow> bool" where
  "anchor_fits crc m \<longleftrightarrow>
     length (encode_segment_catalog crc m) < 2 ^ 64 \<and> bl_threshold m < 2 ^ 64 \<and> length (bl_files m) < 2 ^ 32
     \<and> list_all (\<lambda>f. bf_deleted_count f < 2 ^ 32) (bl_files m)"

lemma next_after_bound:
  assumes "\<forall>f \<in> set fs. bf_file_id f \<noteq> - 1"
  shows "nxt \<le> next_after fs nxt \<and> (\<forall>f \<in> set fs. bf_file_id f < next_after fs nxt)"
  using assms
proof (induction fs arbitrary: nxt)
  case (Cons f fs)
  have "bf_file_id f < bf_file_id f + 1" using succ_id_less [OF checked_succ] Cons.prems by simp
  then show ?case
    using Cons.IH [of "max nxt (bf_file_id f + 1)"] Cons.prems by (auto simp: next_after_def intro: less_le_trans)
qed (simp add: next_after_def)

lemma catalog_files_length: "16 * length fs \<le> length (concat (map (catalog_file crc) fs))"
  by (induction fs) (simp_all add: catalog_file_def Let_def)

lemma anchor_read:
  assumes ok: "manager_ok m" and fits: "anchor_fits crc m" and seg: "\<forall>f \<in> set (bl_files m). segment_holds crc segments f"
  obtains r where "from_segment_catalog_base crc (encode_segment_catalog crc m) segments = Some (Some r)"
    and "recovered_as r (file_of (bl_files m))" and "bl_generation_id r = bl_generation_id m" and "bl_threshold r = bl_threshold m"
proof -
  let ?p = "catalog_payload crc m" and ?fs = "bl_files m" and ?c = "cursor_new (catalog_payload crc m)"
  have len: "length ?p + 12 < 2 ^ 64" and th: "bl_threshold m < 2 ^ 64" and n: "length ?fs < 2 ^ 32"
    and few: "list_all (\<lambda>f. bf_deleted_count f < 2 ^ 32) ?fs"
    using fits by (simp_all add: anchor_fits_def encode_segment_catalog_def)
  have c0: "cursor_ok ?c" by (rule cursor_ok_new) (use len in simp)
  let ?r5 = "concat (map (catalog_file crc) ?fs)" let ?r4 = "u32_le (word_of_nat (length ?fs)) @ ?r5"
  let ?r3 = "u64_le (bl_generation_id m) @ ?r4" let ?r2 = "u64_le (word_of_nat (bl_threshold m)) @ ?r3"
  let ?r1 = "u32_le SEGMENT_CATALOG_VERSION @ ?r2"
  have r0: "rest_of ?c = SEGMENT_CATALOG_MAGIC @ ?r1" by (simp add: cursor_simps catalog_payload_def)
  note a1 = cursor_seek_rest(1,2) [OF c0 r0]
  note a2 = cursor_seek_rest(1,2) [OF a1, simplified cursor_seek_seek]
  note a3 = cursor_seek_rest(1,2) [OF a2, simplified cursor_seek_seek]
  note a4 = cursor_seek_rest(1,2) [OF a3, simplified cursor_seek_seek]
  note a5 = cursor_seek_rest(1,2) [OF a4, simplified cursor_seek_seek]
  have wf: "list_all (\<lambda>f. file_ok f \<and> bf_deleted_count f < 2 ^ 32 \<and> bf_file_id f \<noteq> 0 \<and> bf_file_id f \<noteq> - 1 \<and> segment_holds crc segments f) ?fs"
    using ok few manager_ok_not_max [OF ok] manager_ok_id [OF ok] manager_ok_file [OF ok] seg by (fastforce simp: list_all_iff)
  let ?lens = "fold (\<lambda>f. Mapping.update (bf_file_id f) (file_length f)) ?fs Mapping.empty"
  let ?marks = "fold (\<lambda>f. Mapping.update (bf_file_id f) (bf_deleted_offsets f)) ?fs Mapping.empty"
  have rd: "read_catalog_files crc segments (length ?fs) (cursor_seek ?c ?r5) [] 1 {} Mapping.empty Mapping.empty
      = Some (Some (?fs, next_after ?fs 1, ?lens, ?marks, cursor_seek ?c []))"
    using read_catalog_files_encoded [OF wf manager_ok_distinct [OF ok] _ a5(1), of "{}" "[]" "[]" 1 Mapping.empty Mapping.empty] a5(2) by simp
  have fin: "cursor_finish (cursor_seek ?c []) = Some ()"
    using cursor_seek_rest(1,2) [OF a5(1), of ?r5 "[]"] a5(2) by (simp add: cursor_simps)
  have srt: "sort_key bf_file_id ?fs = ?fs"
    using manager_ok_sorted [OF ok] strict_sorted_iff by (intro sort_key_id_if_sorted) blast
  have rem: "\<not> length ?fs > cursor_remaining (cursor_seek ?c ?r5) div 16"
    using catalog_files_length [of ?fs crc] by (simp add: remaining_rest a5(2) less_eq_div_iff_mult_less_eq mult.commute not_less)
  let ?r = "\<lparr>bl_files = ?fs, bl_next_file_id = next_after ?fs 1, bl_threshold = bl_threshold m, bl_generation_id = bl_generation_id m,
    bl_segmented = True, bl_catalog = \<lparr>sc_persisted_lengths = ?lens, sc_persisted_deleted_offsets = ?marks,
      sc_persisted_generation_id = bl_generation_id m, sc_catalog_delta_count = 0, sc_catalog_persisted = True\<rparr>,
    bl_segment_target_size = DEFAULT_SEGMENT_TARGET_SIZE\<rparr>"
  have "from_segment_catalog_base crc (encode_segment_catalog crc m) segments = Some (Some ?r)"
    using unseal_seal [OF len, of crc] cursor_take_at [OF c0 r0] cursor_u32_at [OF a1] cursor_u64_at [OF a2] cursor_u64_at [OF a3]
      cursor_u32_at [OF a4] rd fin th n srt rem
    by (simp add: encode_segment_catalog_def from_segment_catalog_base_def)
  moreover have "manager_ok ?r"
    using ok next_after_bound [of ?fs 1] manager_ok_not_max [OF ok] by (auto simp: manager_ok_def)
  then have "recovered_as ?r (file_of ?fs)"
    by (auto simp: recovered_as_def fun_eq_iff lookup_fold_update [OF manager_ok_distinct [OF ok]] split: option.splits)
  ultimately show thesis using that by simp
qed

section \<open>Publications\<close>

lemma capture_files_eq:
  "capture_files crc fs s = s\<lparr>
     sc_persisted_lengths := fold (\<lambda>f. Mapping.update (bf_file_id f) (word_of_nat (length (bf_to_bytes crc f)))) fs (sc_persisted_lengths s),
     sc_persisted_deleted_offsets := fold (\<lambda>f. Mapping.update (bf_file_id f) (bf_deleted_offsets f)) fs (sc_persisted_deleted_offsets s)\<rparr>"
  by (induction fs arbitrary: s) simp_all

lemma lookup_filter_key: "Mapping.lookup (Mapping.filter (\<lambda>k _. P k) h) k = (if P k then Mapping.lookup h k else None)"
  by (simp add: lookup_filter split: option.splits)

lemma capture_live:
  assumes ok: "manager_ok m"
  shows "on_frontier (file_of (bl_files m)) (on_catalog (\<lambda>s. s\<lparr>sc_catalog_delta_count := n\<rparr>) (capture_persisted_state crc m))"
proof -
  have id: "k \<in> set (map bf_file_id (bl_files m)) \<longleftrightarrow> file_of (bl_files m) k \<noteq> None" for k
    using file_of_None [of "bl_files m" k] by auto
  note d = manager_ok_distinct [OF ok]
  have l: "Mapping.lookup (sc_persisted_lengths (bl_catalog (capture_persisted_state crc m))) k = map_option file_length (file_of (bl_files m) k)"
    and k: "Mapping.lookup (sc_persisted_deleted_offsets (bl_catalog (capture_persisted_state crc m))) k
      = map_option bf_deleted_offsets (file_of (bl_files m) k)" for k
    using file_of_id [OF ok, of k] file_length_bytes id [of k]
    by (auto simp: capture_persisted_state_def Let_def capture_files_eq lookup_filter_key lookup_fold_update [OF d] split: option.splits)
  have m: "bl_files (capture_persisted_state crc m) = bl_files m" "bl_next_file_id (capture_persisted_state crc m) = bl_next_file_id m"
    by (simp_all add: capture_persisted_state_def Let_def)
  have "dom (file_of (bl_files m)) \<subseteq> set (map bf_file_id (bl_files m))" using id by auto
  then have "finite (dom (file_of (bl_files m)))" by (rule finite_subset) simp
  moreover have "file_ok f \<and> bf_file_id f = k \<and> 0 < k \<and> k < bl_next_file_id m" if "file_of (bl_files m) k = Some f" for k f
    using file_of_id [OF ok that] manager_ok_id [OF ok, of f] by auto
  ultimately show ?thesis
    using ok l k m by (simp add: on_frontier_def on_catalog_def manager_ok_def file_extends_def)
qed

section \<open>Between publications\<close>

lemma file_extends_trans: "file_extends f g \<Longrightarrow> file_extends g h \<Longrightarrow> file_extends f h"
  by (auto simp: file_extends_def)

lemma file_extends_refl [simp]: "file_extends f f"
  by (simp add: file_extends_def)

lemma live_change:
  assumes m: "on_frontier F m" and ok: "manager_ok m'" and same: "bl_catalog m' = bl_catalog m" "bl_next_file_id m' = bl_next_file_id m"
    and grow: "\<And>k g. F k \<noteq> None \<Longrightarrow> file_of (bl_files m') k = Some g \<Longrightarrow> \<exists>h. file_of (bl_files m) k = Some h \<and> file_extends h g"
    and keep: "\<And>k. F k = None \<Longrightarrow> file_of (bl_files m) k \<noteq> None \<Longrightarrow> file_of (bl_files m') k \<noteq> None"
  shows "on_frontier F m'"
proof -
  have "file_extends f g" if "F k = Some f" and "file_of (bl_files m') k = Some g" for k f g
    using grow [of k g] that live_extends [OF m that(1)] file_extends_trans by blast
  then show ?thesis
    using m ok keep unfolding on_frontier_def same by blast
qed

lemma live_new_file:
  assumes m: "on_frontier F m" and run: "begin_compaction_file m = (Some file_id, m')"
  shows "on_frontier F m'"
proof -
  note b = begin_compaction_spec [OF live_ok [OF m] run, simplified]
  have id: "file_id = bl_next_file_id m" and nxt: "checked_add_word file_id 1 = Some (bl_next_file_id m')"
    and cat: "bl_catalog m' = (bl_catalog m)\<lparr>sc_persisted_lengths := Mapping.default file_id 0 (sc_persisted_lengths (bl_catalog m))\<rparr>"
    using run by (auto simp: begin_compaction_file_def Let_def on_catalog_def split: if_splits option.splits)
  have F: "F file_id = None" using live_file [OF m, of file_id] id by (cases "F file_id") auto
  have absent: "file_of (bl_files m) file_id = None"
    unfolding file_of_None id using manager_ok_id [OF live_ok [OF m]] by (metis less_irrefl)
  have files: "file_of (bl_files m') k = (if k = file_id then Some (bf_new file_id) else file_of (bl_files m) k)" for k
    using b absent by (auto simp: file_of_append file_of_single bf_new_def split: option.splits)
  have lens: "Mapping.lookup (sc_persisted_lengths (bl_catalog m')) k
      = (if k = file_id then Some 0 else Mapping.lookup (sc_persisted_lengths (bl_catalog m)) k)" for k
    using live_new [OF m F] absent by (simp add: cat Mapping.default_def lookup_default_update' keys_lookup)
  have lt: "bl_next_file_id m < bl_next_file_id m'" using succ_id_less [OF nxt] by (simp add: id)
  have wf: "file_ok f \<and> bf_file_id f = k \<and> 0 < k \<and> k < bl_next_file_id m'" if "F k = Some f" for k f
    using live_file [OF m that] lt by auto
  have "Mapping.lookup (sc_persisted_lengths (bl_catalog m')) k = None
      \<or> Mapping.lookup (sc_persisted_lengths (bl_catalog m')) k = Some 0 \<and> file_of (bl_files m') k \<noteq> None" if "F k = None" for k
    using live_new [OF m that] by (simp add: lens files)
  moreover have "Mapping.lookup (sc_persisted_lengths (bl_catalog m')) k = Some (file_length f)" if "F k = Some f" for k f
    using live_length [OF m that] that F by (auto simp: lens)
  moreover have "file_extends f g" if "F k = Some f" "file_of (bl_files m') k = Some g" for k f g
    using live_extends [OF m that(1)] that F by (auto simp: files split: if_splits)
  moreover have "Mapping.lookup (sc_persisted_deleted_offsets (bl_catalog m')) k = map_option bf_deleted_offsets (F k)" for k
    using live_marks [OF m] by (simp add: cat)
  ultimately show ?thesis using b live_finite [OF m] wf by (simp add: on_frontier_def)
qed

text \<open>Growing the last file.\<close>

lemma file_of_last:
  assumes "manager_ok m" and "bl_files m = fs @ [f]" and "bf_file_id f' = bf_file_id f"
  shows "file_of (fs @ [f']) k = (if k = bf_file_id f then Some f' else file_of (bl_files m) k)"
proof -
  have "file_of fs (bf_file_id f) = None"
    unfolding file_of_None using manager_ok_distinct [OF assms(1)] image_eqI [of _ bf_file_id] by (fastforce simp: assms(2))
  then show ?thesis using assms(2,3) by (auto simp: file_of_append file_of_single split: option.splits)
qed

lemma live_grow_last:
  assumes m: "on_frontier F m" and fs: "bl_files m = fs @ [f]" and f': "file_ok f'" "bf_file_id f' = bf_file_id f" "file_extends f f'"
  shows "on_frontier F (m\<lparr>bl_files := fs @ [f']\<rparr>)"
proof (rule live_change [OF m])
  note ok = live_ok [OF m]
  show "manager_ok (m\<lparr>bl_files := fs @ [f']\<rparr>)" by (rule replace_last_file(1) [OF ok fs f'(1,2)])
  have last: "file_of (bl_files m) (bf_file_id f) = Some f" using file_of_last [OF ok fs, of f "bf_file_id f"] by (simp add: fs)
  note new = file_of_last [OF ok fs f'(2)]
  show "\<exists>h. file_of (bl_files m) k = Some h \<and> file_extends h g"
    if "file_of (bl_files (m\<lparr>bl_files := fs @ [f']\<rparr>)) k = Some g" for k g
    using that new [of k] last f'(3) by (auto split: if_splits)
  show "file_of (bl_files (m\<lparr>bl_files := fs @ [f']\<rparr>)) k \<noteq> None" if "file_of (bl_files m) k \<noteq> None" for k
    using that new [of k] by auto
qed simp_all

lemma live_append:
  assumes m: "on_frontier F m" and v: "length val < 2 ^ 32" and run: "bl_append m key val = Some (Inr ptr, m')"
  shows "on_frontier F m'"
proof -
  define c where "c = (if bl_files m = [] \<or> should_rollover m (length val) then create_new_file m else (Inr (), m))"
  obtain u m1 where c: "c = (Inr u, m1)" and ne: "bl_files m1 \<noteq> []"
    using run by (auto simp: bl_append_def c_def [symmetric] split: prod.splits sum.splits if_splits)
  have m1: "on_frontier F m1"
  proof (cases "bl_files m = [] \<or> should_rollover m (length val)")
    case True
    then obtain file_id where "begin_compaction_file m = (Some file_id, m1)"
      using c by (auto simp: c_def create_new_file_def split: prod.splits option.splits)
    then show ?thesis by (rule live_new_file [OF m])
  next
    case False
    then show ?thesis using c m by (simp add: c_def)
  qed
  obtain fs f where fs: "bl_files m1 = fs @ [f]" using ne by (metis rev_exhaust)
  obtain x f' where a: "bf_append f (make_key_prefix key) val = Some (x, f')" and m': "m' = m1\<lparr>bl_files := fs @ [f']\<rparr>"
    using run ne by (auto simp: bl_append_def c_def [symmetric] c fs bind_eq_Some_conv)
  have f: "file_ok f" using manager_ok_file [OF live_ok [OF m1], of f] fs by simp
  have "file_extends f f'" using a by (auto simp: bf_append_def Let_def bind_eq_Some_conv file_extends_def)
  then show ?thesis
    unfolding m' using bf_append_done [OF f length_make_key_prefix v a] by (intro live_grow_last [OF m1 fs]) auto
qed

lemma live_mark:
  assumes m: "on_frontier F m" and run: "bl_mark_deleted m ptr = Some (r, m')"
  shows "on_frontier F m'"
proof (cases "file_index m (bp_file_id ptr)")
  case None
  then show ?thesis using run m by (simp add: bl_mark_deleted_def)
next
  case (Some i)
  note ok = live_ok [OF m]
  let ?f = "bl_files m ! i"
  let ?g = "snd (bf_mark_deleted ?f (bp_offset ptr))"
  have i: "i < length (bl_files m)" "file_of (bl_files m) (bp_file_id ptr) = Some ?f" "bf_file_id ?f = bp_file_id ptr"
    using file_index_spec [OF ok, of "bp_file_id ptr"] Some by simp_all
  have m': "m' = m\<lparr>bl_files := (bl_files m)[i := ?g]\<rparr>"
    using run Some i by (auto simp: bl_mark_deleted_def Let_def split: prod.splits)
  have ok': "manager_ok m'" using bl_mark_deleted_spec [OF ok, of ptr] run by (metis option.inject prod.inject)
  have fo: "file_ok ?f" using file_of_id [OF ok i(2)] by simp
  note md = bf_mark_deleted_spec [OF fo, of "bp_offset ptr"]
  have ext: "file_extends ?f ?g" using md(4,6) by (auto simp: file_extends_def)
  have member: "h \<in> set (bl_files m) \<and> h = g \<or> h = ?f \<and> g = ?g" if g: "file_of (bl_files m') k = Some g" and h: "file_of (bl_files m) k = Some h" for k g h
  proof -
    obtain j where j: "j < length (bl_files m)" "(bl_files m)[i := ?g] ! j = g" "bf_file_id g = k"
      using file_of_id [OF ok' g] by (auto simp: m' in_set_conv_nth)
    show ?thesis
    proof (cases "j = i")
      case True
      then have "g = ?g" using j i by simp
      then show ?thesis using i h j(3) md(5) by simp
    next
      case False
      then have "g = bl_files m ! j" using j by simp
      then show ?thesis using file_of_nth [OF manager_ok_distinct [OF ok] j(1)] h j(1,3) by simp
    qed
  qed
  have ids: "map bf_file_id (bl_files m') = map bf_file_id (bl_files m)"
    using md(5) i by (simp add: m' map_update list_update_same_conv)
  have dom: "file_of (bl_files m') k = None \<longleftrightarrow> file_of (bl_files m) k = None" for k
  proof -
    have "file_of fs k = None \<longleftrightarrow> k \<notin> set (map bf_file_id fs)" for fs by (auto simp: file_of_None)
    then show ?thesis by (simp only: ids)
  qed
  show ?thesis
  proof (rule live_change [OF m ok'])
    show "\<exists>h. file_of (bl_files m) k = Some h \<and> file_extends h g" if "file_of (bl_files m') k = Some g" for k g
      using that dom [of k] member [OF that] ext by (cases "file_of (bl_files m) k") auto
    show "file_of (bl_files m') k \<noteq> None" if "file_of (bl_files m) k \<noteq> None" for k using that dom by simp
  qed (simp_all add: m')
qed

lemma bl_gc_files:
  assumes ok: "manager_ok m" and run: "bl_gc m = Some (n, m')"
  shows "m' = m\<lparr>bl_files := filter (\<lambda>f. bf_file_id f \<notin> set (map bf_file_id (filter fully_dead (bl_files m)))) (bl_files m)\<rparr>"
proof (cases "filter fully_dead (bl_files m) = []")
  case True
  then show ?thesis using run by (simp add: bl_gc_def filter_True)
next
  case False
  then show ?thesis using run gc_files_eq [OF ok, of "map bf_file_id (filter fully_dead (bl_files m))" 0] by (auto simp: bl_gc_def Let_def)
qed

lemma live_sweep:
  assumes m: "on_frontier F m" and run: "bl_gc m = Some (n, m')" and published: "\<forall>f \<in> set (bl_files m). F (bf_file_id f) \<noteq> None"
  shows "on_frontier F m'"
proof (rule live_change [OF m])
  note ok = live_ok [OF m]
  let ?P = "\<lambda>f. bf_file_id f \<notin> set (map bf_file_id (filter fully_dead (bl_files m)))"
  have m': "m' = m\<lparr>bl_files := filter ?P (bl_files m)\<rparr>" by (rule bl_gc_files [OF ok run])
  note ff = filter_files [OF ok, of ?P]
  show "manager_ok m'" unfolding m' by (rule ff(1))
  have "bl_files m' = filter ?P (bl_files m)" by (simp add: m')
  then have fo: "file_of (bl_files m') k = (case file_of (bl_files m) k of Some f \<Rightarrow> if ?P f then Some f else None | None \<Rightarrow> None)" for k
    by (simp only: ff(2))
  show "\<exists>h. file_of (bl_files m) k = Some h \<and> file_extends h g" if "file_of (bl_files m') k = Some g" for k g
    using that unfolding fo by (auto split: option.splits if_splits)
  show "file_of (bl_files m') k \<noteq> None" if "F k = None" "file_of (bl_files m) k \<noteq> None" for k
    using that published file_of_id [OF ok, of k] by (metis option.exhaust)
qed (simp_all add: bl_gc_files [OF live_ok [OF m] run])

text \<open>An append that is rolled back leaves the manager as it was, as long as it did not start the file.\<close>

lemma append_rollback_same:
  assumes ok: "manager_ok m" and v: "length val < 2 ^ 32" and ne: "bl_files m \<noteq> []" "\<not> should_rollover m (length val)"
    and rec: "bf_records (last (bl_files m)) \<noteq> []"
    and run: "bl_append m key val = Some (Inr ptr, m1)" and undo: "bl_rollback_append m1 ptr = (True, m2)"
  shows "m2 = m"
proof -
  obtain fs f where fs: "bl_files m = fs @ [f]" using ne(1) by (metis rev_exhaust)
  have f: "file_ok f" using manager_ok_file [OF ok, of f] fs by simp
  obtain x f' where a: "bf_append f (make_key_prefix key) val = Some (x, f')" and m1: "m1 = m\<lparr>bl_files := fs @ [f']\<rparr>"
    and ptr: "ptr = \<lparr>bp_file_id = bf_file_id f', bp_offset = fst x, bp_length = snd x\<rparr>"
    using run ne fs by (auto simp: bl_append_def bind_eq_Some_conv)
  note d = bf_append_done [OF f length_make_key_prefix v a]
  have recs: "\<exists>r. bf_records f' = bf_records f @ [r]" using a by (auto simp: bf_append_def Let_def bind_eq_Some_conv)
  obtain f'' where rb: "bf_rollback_append f' (fst x) (snd x) = (True, f'')"
    and m2: "m2 = m1\<lparr>bl_files := (if bf_record_count f'' = 0 then fs else fs @ [f''])\<rparr>"
    using undo by (auto simp: bl_rollback_append_def m1 ptr split: if_splits prod.splits bool.splits)
  have "f'' = f"
    by (rule bf_rollback_done [OF _ rb]) (use d recs f in \<open>auto intro!: file_eqI\<close>)
  then show ?thesis using m2 m1 rec fs by (simp add: bf_record_count_def)
qed

section \<open>The published history\<close>

text \<open>
  What happens to the blob manager between two publications. Appends and marks come from puts and deletes; an append
  whose pointer could not be installed is rolled back; the sweep runs after a publication only, as \<open>DB::gc\<close> does.
\<close>

inductive blob_step :: "blob_manager \<Rightarrow> blob_manager \<Rightarrow> bool" where
  append: "length val < 2 ^ 32 \<Longrightarrow> bl_append m key val = Some (Inr ptr, m') \<Longrightarrow> blob_step m m'"
| mark: "bl_mark_deleted m ptr = Some (r, m') \<Longrightarrow> blob_step m m'"
| sweep: "bl_gc m = Some (n, m') \<Longrightarrow> set (segment_file_ids m) \<subseteq> Mapping.keys (sc_persisted_deleted_offsets (bl_catalog m)) \<Longrightarrow> blob_step m m'"
| undone: "length val < 2 ^ 32 \<Longrightarrow> bl_files m \<noteq> [] \<Longrightarrow> \<not> should_rollover m (length val) \<Longrightarrow> bf_records (last (bl_files m)) \<noteq> []
    \<Longrightarrow> bl_append m key val = Some (Inr ptr, m1) \<Longrightarrow> bl_rollback_append m1 ptr = (True, m2) \<Longrightarrow> blob_step m m2"

lemma live_step:
  assumes m: "on_frontier F m" and step: "blob_step m m'"
  shows "on_frontier F m'"
  using step
proof (cases rule: blob_step.cases)
  case (append val key ptr)
  then show ?thesis using live_append [OF m] by blast
next
  case (mark ptr r)
  then show ?thesis using live_mark [OF m] by blast
next
  case (sweep n)
  have "\<forall>f \<in> set (bl_files m). F (bf_file_id f) \<noteq> None"
    using sweep(2) live_marks [OF m] by (auto simp: segment_file_ids_def keys_lookup)
  then show ?thesis by (rule live_sweep [OF m sweep(1)])
next
  case (undone val key ptr m1)
  then have "m' = m" by (intro append_rollback_same [OF live_ok [OF m]]) auto
  then show ?thesis using m by simp
qed

text \<open>
  The anchor \<open>a\<close>, the managers at each publication since, the deltas of the log, and the live manager.
\<close>

inductive published :: "(bytes \<Rightarrow> u32) \<Rightarrow> blob_manager \<Rightarrow> blob_manager list \<Rightarrow> catalog_delta list \<Rightarrow> blob_manager \<Rightarrow> bool"
  for crc a where
  anchored: "manager_ok a \<Longrightarrow> published crc a [] [] (mark_segment_catalog_consolidated crc a)"
| worked: "published crc a ms ds m \<Longrightarrow> blob_step m m' \<Longrightarrow> published crc a ms ds m'"
| published: "published crc a ms ds m \<Longrightarrow> sc_persisted_generation_id (bl_catalog m) < g
    \<Longrightarrow> segment_catalog_delta_entries (bl_set_generation m g) = Some es
    \<Longrightarrow> d = \<lparr>cd_generation_id = g, cd_parent_generation_id = sc_persisted_generation_id (bl_catalog m), cd_entries = es\<rparr>
    \<Longrightarrow> published crc a (ms @ [m]) (ds @ [d]) (mark_segment_delta_persisted crc (bl_set_generation m g))"

definition last_published :: "blob_manager \<Rightarrow> blob_manager list \<Rightarrow> blob_manager" where
  "last_published a ms = last (a # ms)"

lemma live_set_generation: "on_frontier F m \<Longrightarrow> on_frontier F (bl_set_generation m g)"
  by (auto simp: on_frontier_def bl_set_generation_def manager_ok_def)

lemma mark_persisted_catalog:
  "bl_generation_id (mark_segment_delta_persisted crc m) = bl_generation_id m"
  "sc_persisted_generation_id (bl_catalog (mark_segment_delta_persisted crc m)) = bl_generation_id m"
  "sc_persisted_generation_id (bl_catalog (mark_segment_catalog_consolidated crc m)) = bl_generation_id m"
  by (simp_all add: mark_segment_delta_persisted_def mark_segment_catalog_consolidated_def on_catalog_def capture_persisted_state_def Let_def)

lemma blob_step_catalog:
  assumes "blob_step m m'"
  shows "sc_persisted_generation_id (bl_catalog m') = sc_persisted_generation_id (bl_catalog m)"
proof -
  have b: "sc_persisted_generation_id (bl_catalog (snd (begin_compaction_file m))) = sc_persisted_generation_id (bl_catalog m)" for m
    by (simp add: begin_compaction_file_def Let_def on_catalog_def split: option.splits)
  have a: "sc_persisted_generation_id (bl_catalog m') = sc_persisted_generation_id (bl_catalog m)"
    if "bl_append m key val = Some (r, m')" for m m' key val r
    using that b [of m]
    by (auto simp: bl_append_def create_new_file_def bind_eq_Some_conv split: if_splits prod.splits sum.splits option.splits)
  have gc: "bl_catalog m' = bl_catalog m" if "gc_files ids m k = Some (n, m')" for ids m k n m'
    using that by (induction ids m k rule: gc_files.induct) (auto simp: Let_def split: option.splits if_splits)
  show ?thesis
    using assms
  proof (cases rule: blob_step.cases)
    case (undone val key ptr m1)
    then show ?thesis using a [of m key val "Inr ptr" m1]
      by (auto simp: bl_rollback_append_def split: if_splits prod.splits bool.splits)
  qed (auto simp: a bl_mark_deleted_def bl_gc_def Let_def dest: gc split: option.splits if_splits prod.splits)
qed

text \<open>The generations of a history ascend, and its live manager stands on the last publication.\<close>

lemma published_live:
  assumes "published crc a ms ds m"
  shows "on_frontier (file_of (bl_files (last_published a ms))) m"
  using assms
proof induction
  case anchored
  then show ?case using capture_live [of a 0 crc] by (simp add: last_published_def mark_segment_catalog_consolidated_def)
next
  case (worked ms ds m m')
  then show ?case using live_step by blast
next
  case (published ms ds m g es d)
  have "manager_ok (bl_set_generation m g)" by (rule live_ok [OF live_set_generation [OF published.IH]])
  then show ?case
    using capture_live [of "bl_set_generation m g" _ crc]
    by (simp add: last_published_def mark_segment_delta_persisted_def on_catalog_def bl_set_generation_def)
qed

fun chained :: "u64 \<Rightarrow> catalog_delta list \<Rightarrow> bool" where
  "chained g [] \<longleftrightarrow> True"
| "chained g (d # ds) \<longleftrightarrow> cd_parent_generation_id d = g \<and> g < cd_generation_id d \<and> chained (cd_generation_id d) ds"

definition final_generation :: "u64 \<Rightarrow> catalog_delta list \<Rightarrow> u64" where
  "final_generation g ds = (if ds = [] then g else cd_generation_id (last ds))"

lemma chained_snoc:
  "chained g (ds @ [d]) \<longleftrightarrow> chained g ds \<and> cd_parent_generation_id d = final_generation g ds \<and> final_generation g ds < cd_generation_id d"
  by (induction ds arbitrary: g) (auto simp: final_generation_def)

lemma published_chained:
  assumes "published crc a ms ds m"
  shows "chained (bl_generation_id a) ds \<and> final_generation (bl_generation_id a) ds = sc_persisted_generation_id (bl_catalog m)"
  using assms
  by induction
    (auto simp: chained_snoc mark_persisted_catalog blob_step_catalog bl_set_generation_def, simp_all add: final_generation_def mark_persisted_catalog)

section \<open>The walk and the replay\<close>

lemma chained_sorted: "chained g ds \<Longrightarrow> sorted_wrt (<) (g # map cd_generation_id ds)"
proof (induction ds arbitrary: g)
  case (Cons d ds)
  have "sorted_wrt (<) (cd_generation_id d # map cd_generation_id ds)" by (rule Cons.IH) (use Cons.prems in simp)
  then show ?case using Cons.prems by (auto intro: less_trans)
qed simp

lemma final_generation_ge: "chained g ds \<Longrightarrow> g \<le> final_generation g ds"
  using chained_sorted [of g ds] by (cases ds rule: rev_cases) (auto simp: final_generation_def)

lemma chained_append: "chained g (ds @ es) \<Longrightarrow> chained g ds"
  by (induction ds arbitrary: g) auto

lemma delta_path_chained:
  assumes "chained base (ds @ more_ds)" and "\<forall>g \<in> visited. final_generation base ds < g" and "length path + length ds \<le> 64"
  shows "delta_path base (ds @ more_ds) (final_generation base ds) visited path = Some (path @ rev ds)"
  using assms
proof (induction ds arbitrary: more_ds visited path rule: rev_induct)
  case Nil
  then show ?case by (subst delta_path.simps) (simp add: final_generation_def)
next
  case (snoc d ds)
  let ?g = "final_generation base ds"
  have c: "chained base (ds @ [d])" using chained_append [of base "ds @ [d]" more_ds] snoc.prems(1) by simp
  then have d: "cd_parent_generation_id d = ?g" "?g < cd_generation_id d" and b: "base \<le> ?g"
    using final_generation_ge [OF chained_append [OF c]] by (simp_all add: chained_snoc)
  have fin: "final_generation base (ds @ [d]) = cd_generation_id d" by (simp add: final_generation_def)
  have srt: "sorted_wrt (<) (map cd_generation_id ((ds @ [d]) @ more_ds))" using chained_sorted [OF snoc.prems(1)] by simp
  then have "\<forall>e \<in> set ds \<union> set more_ds. cd_generation_id e \<noteq> cd_generation_id d"
    by (auto simp: sorted_wrt_append)
  then have flt: "filter (\<lambda>e. cd_generation_id e = cd_generation_id d) ((ds @ [d]) @ more_ds) = [d]"
    by (simp add: filter_empty_conv)
  have ih: "delta_path base (ds @ [d] @ more_ds) ?g (insert (cd_generation_id d) visited) (path @ [d]) = Some ((path @ [d]) @ rev ds)"
    by (rule snoc.IH) (use snoc.prems d fin in \<open>auto intro: less_trans\<close>)
  have "cd_generation_id d \<noteq> base" "cd_generation_id d \<notin> visited" "length path < 64" using d b snoc.prems(2,3) fin by auto
  then show ?case
    unfolding fin using flt d b ih by (subst delta_path.simps) (simp add: MAX_SEGMENT_CATALOG_DELTAS_def not_le not_less)
qed

lemma apply_deltas_snoc: "apply_deltas crc segments (ds @ [d]) r = try_option (apply_deltas crc segments ds r) (apply_segment_catalog_delta crc segments d)"
proof (induction ds arbitrary: r)
  case Nil
  show ?case
    by (cases "apply_segment_catalog_delta crc segments d r"; cases "the (apply_segment_catalog_delta crc segments d r)") auto
next
  case (Cons e ds)
  show ?case
    using Cons.IH by (cases "apply_segment_catalog_delta crc segments e r"; cases "the (apply_segment_catalog_delta crc segments e r)") auto
qed

lemma replay_published:
  assumes "published crc a ms ds m" and r: "recovered_as r (file_of (bl_files a))" "bl_generation_id r = bl_generation_id a"
    and "\<forall>x \<in> set ms. \<forall>f \<in> set (bl_files x). segment_holds crc segments f"
  shows "\<exists>r'. apply_deltas crc segments ds r = Some (Some r') \<and> recovered_as r' (file_of (bl_files (last_published a ms)))
    \<and> bl_generation_id r' = final_generation (bl_generation_id a) ds"
  using assms(1,4)
proof (induction rule: published.induct)
  case anchored
  then show ?case using r by (simp add: last_published_def final_generation_def)
next
  case (worked ms ds m m')
  then show ?case by blast
next
  case (published ms ds m g es d)
  obtain r1 where r1: "apply_deltas crc segments ds r = Some (Some r1)" "recovered_as r1 (file_of (bl_files (last_published a ms)))"
    "bl_generation_id r1 = final_generation (bl_generation_id a) ds"
    using published.IH published.prems by auto
  have m: "on_frontier (file_of (bl_files (last_published a ms))) (bl_set_generation m g)"
    by (rule live_set_generation [OF published_live [OF published.hyps(1)]])
  have files: "bl_files (bl_set_generation m g) = bl_files m" by (simp add: bl_set_generation_def)
  have seg: "\<forall>f \<in> set (bl_files (bl_set_generation m g)). segment_holds crc segments f" using published.prems files by simp
  obtain es' r2 where es': "segment_catalog_delta_entries (bl_set_generation m g) = Some es'"
    and r2: "apply_delta_entries crc segments es' r1 = Some (Some r2)" "recovered_as r2 (file_of (bl_files (bl_set_generation m g)))"
    by (rule replay_delta [OF m r1(2) seg])
  have gen: "bl_generation_id r1 = sc_persisted_generation_id (bl_catalog m)"
    using published_chained [OF published.hyps(1)] r1(3) by simp
  let ?r3 = "on_catalog (\<lambda>s. s\<lparr>sc_persisted_generation_id := g, sc_catalog_delta_count := saturating_add_word (sc_catalog_delta_count s) 1,
      sc_catalog_persisted := True\<rparr>) (r2\<lparr>bl_generation_id := g\<rparr>)"
  have "apply_segment_catalog_delta crc segments d r1 = Some (Some ?r3)"
    using es' published.hyps(3,4) r2(1) gen by (simp add: apply_segment_catalog_delta_def)
  moreover have "recovered_as ?r3 (file_of (bl_files m))"
    using r2(2) files by (simp add: recovered_as_def on_catalog_def manager_ok_def)
  ultimately show ?case
    using r1(1) published.hyps(4) by (simp add: apply_deltas_snoc last_published_def final_generation_def on_catalog_def)
qed

lemma log_of_entries: "log_of crc ds = Some bytes \<Longrightarrow> d \<in> set ds \<Longrightarrow> \<exists>body. encode_delta_entries (cd_entries d) = Some body"
  by (induction ds arbitrary: bytes) (auto simp: bind_eq_Some_conv)

lemma published_entries:
  assumes "published crc a ms ds m" and "d \<in> set ds"
  shows "\<exists>F x. on_frontier F x \<and> segment_catalog_delta_entries x = Some (cd_entries d)"
  using assms
proof (induction rule: published.induct)
  case (published ms ds m g es e)
  show ?case
  proof (cases "d \<in> set ds")
    case False
    then have "cd_entries d = es" using published.prems published.hyps(4) by simp
    then show ?thesis using live_set_generation [OF published_live [OF published.hyps(1)]] published.hyps(3) by blast
  qed (use published.IH in blast)
qed auto

lemma published_frames_ok:
  assumes p: "published crc a ms ds m" and l: "log_of crc ds = Some bytes"
  shows "list_all (\<lambda>d. entries_ok 0 (cd_entries d) \<and> cd_generation_id d \<le> sc_persisted_generation_id (bl_catalog m)) ds"
proof -
  have fin: "final_generation (bl_generation_id a) ds = sc_persisted_generation_id (bl_catalog m)" and c: "chained (bl_generation_id a) ds"
    using published_chained [OF p] by simp_all
  have "cd_generation_id d \<le> final_generation (bl_generation_id a) ds" if "d \<in> set ds" for d
    using chained_sorted [OF c] that by (cases ds rule: rev_cases) (auto simp: final_generation_def sorted_wrt_append less_imp_le)
  moreover have "entries_ok 0 (cd_entries d)" if "d \<in> set ds" for d
    using published_entries [OF p that] log_of_entries [OF l that] delta_entries_ok by blast
  ultimately show ?thesis using fin by (simp add: list_all_iff)
qed

lemma catalog_recovers:
  assumes p: "published crc a ms ds m" and fits: "anchor_fits crc a" and l: "log_of crc ds = Some bytes"
    and ends: "log_ends crc (sc_persisted_generation_id (bl_catalog m)) tail"
    and room: "length ds \<le> log_room (sc_persisted_generation_id (bl_catalog m)) tail" and len: "length (bytes @ tail) < 2 ^ 64"
    and seg: "\<forall>x \<in> set (a # ms). \<forall>f \<in> set (bl_files x). segment_holds crc segments f"
  shows "\<exists>r. from_segment_catalog_with_delta_log crc (encode_segment_catalog crc a) segments (bytes @ tail)
      (Some (sc_persisted_generation_id (bl_catalog m))) = Some (Some r)
    \<and> manager_ok r \<and> bl_files r = bl_files (last_published a ms)"
proof -
  let ?g = "sc_persisted_generation_id (bl_catalog m)" and ?b = "bl_generation_id a"
  have ok: "manager_ok a" using p by induction simp_all
  obtain r where r: "from_segment_catalog_base crc (encode_segment_catalog crc a) segments = Some (Some r)"
    "recovered_as r (file_of (bl_files a))" "bl_generation_id r = ?b"
    by (rule anchor_read [OF ok fits, of segments]) (use seg in auto)
  have c: "chained ?b ds" and fin: "final_generation ?b ds = ?g" using published_chained [OF p] by simp_all
  obtain r' where r': "apply_deltas crc segments ds r = Some (Some r')" "recovered_as r' (file_of (bl_files (last_published a ms)))"
    using replay_published [OF p r(2,3), of segments] seg by auto
  have log: "parse_segment_catalog_delta_log_through_generation crc (bytes @ tail) ?g = Some ds"
    using parse_delta_log_frames [OF l published_frames_ok [OF p l] ends, of "[]" "[]"] len room
    by (simp add: parse_segment_catalog_delta_log_through_generation_def)
  have path: "delta_path ?b ds ?g {} [] = Some (rev ds)"
    using delta_path_chained [of ?b ds "[]" "{}" "[]"] c fin room log_room_le [of ?g tail] by simp
  have "\<not> ?g < ?b" using final_generation_ge [OF c] fin by simp
  then have "from_segment_catalog_with_delta_log crc (encode_segment_catalog crc a) segments (bytes @ tail) (Some ?g) = Some (Some r')"
    using r log path r'(1) by (simp add: from_segment_catalog_with_delta_log_def Let_def)
  moreover have "manager_ok r'" and "file_of (bl_files r') = file_of (bl_files (last_published a ms))"
    using r'(2) by (simp_all add: recovered_as_def)
  moreover have "manager_ok (last_published a ms)"
    using p by (induction) (auto simp: last_published_def dest: published_live intro: live_ok)
  ultimately show ?thesis using manager_files_eqI by blast
qed

end
