(* ===== verification/Blob_Properties.thy ===== *)
theory Blob_Properties
  imports Catalog_Recovery
begin

text \<open>
  What the blob store promises: values are read back through their pointers until they are deleted, images and
  catalogs restore the files they were written from, and sizes admitted before a mutation are the sizes after it.
\<close>

section \<open>Runs of the blob manager\<close>

text \<open>A run, and the values its pointers stand for: appended, and neither deleted nor rolled back since.\<close>

inductive blob_run :: "(bytes \<Rightarrow> u32) \<Rightarrow> blob_manager \<Rightarrow> (u32 \<times> u64 \<rightharpoonup> bytes) \<Rightarrow> bool" for crc where
  start: "blob_run crc (bl_with_threshold_and_mode threshold segmented) Map.empty"
| append: "blob_run crc m V \<Longrightarrow> length val < 2 ^ 32 \<Longrightarrow> bl_append m key val = Some (Inr ptr, m') \<Longrightarrow> blob_run crc m' (V(place ptr \<mapsto> val))"
| append_failed: "blob_run crc m V \<Longrightarrow> length val < 2 ^ 32 \<Longrightarrow> bl_append m key val = Some (Inl e, m') \<Longrightarrow> blob_run crc m' V"
| mark: "blob_run crc m V \<Longrightarrow> bl_mark_deleted m ptr = Some (r, m') \<Longrightarrow> blob_run crc m' (V(place ptr := None))"
| rollback: "blob_run crc m V \<Longrightarrow> bl_rollback_append m ptr = (r, m') \<Longrightarrow> blob_run crc m' (if r then V(place ptr := None) else V)"
| sweep: "blob_run crc m V \<Longrightarrow> bl_gc m = Some (n, m') \<Longrightarrow> blob_run crc m' V"
| reload: "blob_run crc m V \<Longrightarrow> image_fits crc m \<Longrightarrow> bl_from_bytes crc (bl_to_bytes crc m) = Some (Some m') \<Longrightarrow> blob_run crc m' V"

lemma blob_run_holds: "blob_run crc m V \<Longrightarrow> blobs.holds m V \<and> (\<forall>p v. V p = Some v \<longrightarrow> length v < 2 ^ 32)"
proof (induction rule: blob_run.induct)
  case (start threshold segmented)
  then show ?case by (simp add: blobs.holds_empty manager_ok_new)
next
  case (append m V val key ptr m')
  then have "blob_stored m (place ptr) val m'" by (auto simp: blob_stored_def)
  then have "blobs.holds m' (V(place ptr \<mapsto> val))" by (rule blobs.stored_holds(1) [OF conjunct1 [OF append.IH]])
  then show ?case using append by (simp del: fun_upd_apply) (simp add: fun_upd_apply)
next
  case (append_failed m V val key e m')
  then show ?case using bl_append_done [of m val key "Inl e" m'] blobs.holds_ok by auto
next
  case (mark m V ptr r m')
  then have "blob_retired m (place ptr) m'" by (auto simp: blob_retired_def)
  then have "blobs.holds m' (V(place ptr := None))" by (rule blobs.retired_holds [OF conjunct1 [OF mark.IH]])
  then show ?case using mark by (simp del: fun_upd_apply) (simp add: fun_upd_apply)
next
  case (rollback m V ptr r m')
  show ?case
  proof (cases r)
    case True
    then have "blob_undone m (place ptr) m'" using rollback by (auto simp: blob_undone_def)
    then have "blobs.holds m' (V(place ptr := None))" by (rule blobs.undone_holds [OF conjunct1 [OF rollback.IH]])
    then show ?thesis using rollback True by (simp del: fun_upd_apply) (simp add: fun_upd_apply)
  next
    case False
    then show ?thesis using bl_rollback_spec [of m ptr r m'] rollback blobs.holds_ok by auto
  qed
next
  case (sweep m V n m')
  then have "blob_swept m m'" by (auto simp: blob_swept_def)
  then show ?case using blobs.swept_holds [OF conjunct1 [OF sweep.IH]] sweep by simp
next
  case (reload m V m')
  have ok: "manager_ok m" using reload.IH blobs.holds_ok by blast
  have files: "bl_files m' = bl_files m" using bl_to_bytes_from_bytes [OF ok reload.hyps(2)] reload.hyps(3) by auto
  moreover have "manager_ok m'"
    using bl_from_bytes_ok [OF reload.hyps(3)] reload.hyps(2) by (simp add: image_fits_def)
  moreover have "blob_values m' = blob_values m" "blob_deleted m' = blob_deleted m"
    using files by (auto simp: blob_values_def blob_deleted_def fun_eq_iff)
  ultimately show ?case using reload.IH by (simp add: blobs.holds_def)
qed

text \<open>C10. Reading a blob pointer returns the value that was appended under it, after any further appends, deletions,
  rollbacks, sweeps and reloads from the image, as long as that value was neither deleted nor rolled back: the store
  never returns another value and never loses a live one.\<close>

theorem blob_run_reads:
  assumes "blob_run crc m V" and "V (file_id, offset) = Some v"
  shows "bl_read m \<lparr>bp_file_id = file_id, bp_offset = offset, bp_length = word_of_nat (length v)\<rparr> = Some v"
proof -
  have "manager_ok m" "blob_values m (file_id, offset) = Some v" "length v < 2 ^ 32"
    using blob_run_holds [OF assms(1)] assms(2) by (auto simp: blobs.holds_def)
  then show ?thesis using bl_read_values [of m] by (simp add: place_def)
qed


theorem blob_run_reads_witness:
  "\<exists>m V. blob_run (\<lambda>_. 0) m V \<and> V (1, 0) = Some [7, 8]
    \<and> bl_read m \<lparr>bp_file_id = 1, bp_offset = 0, bp_length = 2\<rparr> = Some [7, 8]"
proof -
  let ?p = "\<lparr>bp_file_id = 1, bp_offset = 0, bp_length = 2\<rparr>" and ?q = "\<lparr>bp_file_id = 1, bp_offset = 18, bp_length = 1\<rparr>"
  have s: "blob_run (\<lambda>_. 0) (bl_with_threshold_and_mode 1 False) Map.empty" by (rule blob_run.start)
  have "\<exists>m1. bl_append (bl_with_threshold_and_mode 1 False) [1] [7, 8] = Some (Inr ?p, m1)
      \<and> (\<exists>m2. bl_append m1 [2] [9] = Some (Inr ?q, m2) \<and> (\<exists>m3. bl_mark_deleted m2 ?q = Some (True, m3)))"
    by (simp add: bl_with_threshold_and_mode_def bl_with_threshold_def bl_append_def create_new_file_def begin_compaction_file_def
        checked_add_word_def on_catalog_def bf_append_def Let_def bf_new_def blob_record_new_def record_serialized_size_def
        should_rollover_def bl_mark_deleted_def file_index_def binary_search_def bf_mark_deleted_def bf_has_record_at_def)
  then obtain m1 m2 m3 where a: "bl_append (bl_with_threshold_and_mode 1 False) [1] [7, 8] = Some (Inr ?p, m1)"
    and b: "bl_append m1 [2] [9] = Some (Inr ?q, m2)" and c: "bl_mark_deleted m2 ?q = Some (True, m3)" by blast
  have "blob_run (\<lambda>_. 0) m3 (((Map.empty(place ?p \<mapsto> [7, 8]))(place ?q \<mapsto> [9]))(place ?q := None))"
    by (rule blob_run.mark [OF blob_run.append [OF blob_run.append [OF s _ a] _ b] c]) simp_all
  moreover have "(((Map.empty(place ?p \<mapsto> [7, 8]))(place ?q \<mapsto> [9]))(place ?q := None)) (1, 0) = Some [7, 8]"
    by (simp add: place_def)
  ultimately show ?thesis using blob_run_reads [of "\<lambda>_. 0" m3 _ 1 0 "[7, 8]"] by fastforce
qed

section \<open>The image\<close>

text \<open>C36. Decoding the image of a manager restores its files, with their records and deletion marks, its threshold and
  its generation. The next file identifier is recomputed from the files; the mode and the catalog frontier are those
  of a manager in whole-image mode.\<close>

theorem blob_image_roundtrip:
  assumes "manager_ok m" and "image_fits crc m"
  shows "bl_from_bytes crc (bl_to_bytes crc m) = Some (Some (m\<lparr>bl_next_file_id := next_after (bl_files m) 1, bl_segmented := False,
    bl_catalog := sc_default, bl_segment_target_size := DEFAULT_SEGMENT_TARGET_SIZE\<rparr>))"
  by (rule bl_to_bytes_from_bytes [OF assms])

definition sample_manager :: blob_manager where
  "sample_manager = snd (the (bl_append (bl_with_threshold_and_mode 1 False) [1] [7, 8]))"

lemmas sample_simps = sample_manager_def bl_with_threshold_and_mode_def bl_with_threshold_def bl_append_def create_new_file_def
  begin_compaction_file_def checked_add_word_def on_catalog_def bf_append_def Let_def bf_new_def blob_record_new_def
  record_serialized_size_def should_rollover_def

lemma sample_manager_ok: "manager_ok sample_manager" and sample_files: "length (bl_files sample_manager) = 1"
  "\<forall>f \<in> set (bl_files sample_manager). bf_deleted_count f = 0" "bl_threshold sample_manager = 1"
proof -
  have "\<exists>ptr. bl_append (bl_with_threshold_and_mode 1 False) [1] [7, 8] = Some (Inr ptr, sample_manager)" by (simp add: sample_simps)
  then show "manager_ok sample_manager" using bl_append_done [OF manager_ok_new, of "[7, 8]" 1 False "[1]"] by fastforce
qed (simp_all add: sample_simps)

lemma sample_size: "image_size sample_manager = 78"
  by (simp add: image_size_def file_image_size_def sample_simps total_size_def)

lemma sample_fits: "image_fits crc sample_manager"
  using sample_files sample_size length_bl_to_bytes [OF sample_manager_ok, of crc] by (simp add: image_fits_def list_all_iff)

theorem blob_image_roundtrip_witness:
  "manager_ok sample_manager \<and> image_fits (\<lambda>_. 0) sample_manager
    \<and> (\<exists>m. bl_from_bytes (\<lambda>_. 0) (bl_to_bytes (\<lambda>_. 0) sample_manager) = Some (Some m) \<and> bl_files m = bl_files sample_manager)"
  using blob_image_roundtrip [OF sample_manager_ok sample_fits] sample_manager_ok sample_fits by simp

text \<open>C37. Decoding any bytes as a blob image ends without a panic, and a manager it accepts is well formed: sorted
  distinct identifiers, offsets that match the records, and deletion marks on existing records only.\<close>

theorem blob_image_safe:
  assumes "length buf < 2 ^ 64"
  shows "\<exists>r. bl_from_bytes crc buf = Some r \<and> (case r of Some m \<Rightarrow> manager_ok m | None \<Rightarrow> True)"
proof -
  obtain r where "bl_from_bytes crc buf = Some r" using bl_from_bytes_total [of crc buf] by auto
  then show ?thesis using bl_from_bytes_ok [of crc buf] assms by (cases r) auto
qed

theorem blob_image_safe_witness:
  "length ([0, 0, 0, 0] :: bytes) < 2 ^ 64 \<and> (\<exists>r. bl_from_bytes (\<lambda>_. 0) [0, 0, 0, 0] = Some r \<and> (case r of Some m \<Rightarrow> manager_ok m | None \<Rightarrow> True))"
  using blob_image_safe [of "[0, 0, 0, 0]" "\<lambda>_. 0"] by simp



section \<open>Recovery of the segmented store\<close>


text \<open>An anchor without files, one append, one publication; the log ends in a cut frame.\<close>

definition empty_anchor :: blob_manager where
  "empty_anchor = bl_with_threshold_and_mode 1 True"

definition anchored_manager :: "(bytes \<Rightarrow> u32) \<Rightarrow> blob_manager" where
  "anchored_manager crc = mark_segment_catalog_consolidated crc empty_anchor"

lemma empty_anchor_ok: "manager_ok empty_anchor"
  by (simp add: empty_anchor_def manager_ok_new)

lemma empty_anchor_fits: "anchor_fits crc empty_anchor"
  by (simp add: anchor_fits_def encode_segment_catalog_def catalog_payload_def empty_anchor_def bl_with_threshold_and_mode_def bl_with_threshold_def)

lemma filter_empty_mapping: "Mapping.filter P Mapping.empty = Mapping.empty"
  by (rule mapping_eqI) (simp add: lookup_filter)

lemma anchored_manager_eq: "anchored_manager crc = empty_anchor\<lparr>bl_catalog := sc_default\<lparr>sc_catalog_persisted := True\<rparr>\<rparr>"
  by (simp add: anchored_manager_def mark_segment_catalog_consolidated_def capture_persisted_state_def on_catalog_def Let_def
      empty_anchor_def bl_with_threshold_and_mode_def bl_with_threshold_def sc_default_def filter_empty_mapping)

lemmas anchored_simps = anchored_manager_eq empty_anchor_def bl_with_threshold_and_mode_def bl_with_threshold_def bl_append_def
  create_new_file_def begin_compaction_file_def checked_add_word_def on_catalog_def bf_append_def Let_def bf_new_def
  blob_record_new_def record_serialized_size_def should_rollover_def sc_default_def Mapping.default_def

definition first_file :: blob_file where
  "first_file = \<lparr>bf_file_id = 1, bf_records = [\<lparr>rec_key_prefix = make_key_prefix [1], rec_value = [7, 8]\<rparr>],
     bf_record_offsets = [0], bf_offset = 18, bf_valid_count = 1, bf_deleted_count = 0, bf_deleted_offsets = {}\<rparr>"

lemma first_append:
  obtains ptr m where "bl_append (anchored_manager crc) [1] [7, 8] = Some (Inr ptr, m)" and "bl_files m = [first_file]"
    and "bl_catalog m = sc_default\<lparr>sc_catalog_persisted := True, sc_persisted_lengths := Mapping.update 1 0 Mapping.empty\<rparr>"
  using that by (simp add: anchored_simps first_file_def)

lemma sorted_list_single: "sorted_list_of_set {k} = [k]"
  by simp

lemma first_entries:
  assumes "bl_files m = [first_file]"
    and "bl_catalog m = sc_default\<lparr>sc_catalog_persisted := True, sc_persisted_lengths := Mapping.update 1 0 Mapping.empty\<rparr>"
  shows "segment_catalog_delta_entries (bl_set_generation m 1) = Some [Upsert 1 18 []]"
proof -
  have "set (map bf_file_id (bl_files m)) \<union> Mapping.keys (sc_persisted_lengths (bl_catalog m)) = {1}"
    by (simp add: assms first_file_def sc_default_def)
  then show ?thesis
    using assms by (simp add: segment_catalog_delta_entries_def bl_set_generation_def file_by_id_def file_index_def binary_search_def
        first_file_def bf_serialized_size_def record_serialized_size_def checked_add_word_def Let_def sc_default_def bf_deleted_list_def)
qed


lemma checked_add_zero [simp]: "checked_add_word 0 (w :: u64) = Some w"
  using unat_less_pow [of w] by (simp add: checked_add_word_def)

lemma rolled_back_state:
  assumes "length val < 2 ^ 32"
  obtains ptr m1 m2 where "bl_append (anchored_manager crc) key val = Some (Inr ptr, m1)" and "bl_rollback_append m1 ptr = (True, m2)"
    and "bl_files m2 = []" and "bl_catalog m2 = sc_default\<lparr>sc_catalog_persisted := True, sc_persisted_lengths := Mapping.update 1 0 Mapping.empty\<rparr>"
proof -
  let ?r = "\<lparr>rec_key_prefix = make_key_prefix key, rec_value = val\<rparr>" and ?w = "word_of_nat (16 + length val) :: u64"
  let ?f = "\<lparr>bf_file_id = 1, bf_records = [?r], bf_record_offsets = [0], bf_offset = ?w, bf_valid_count = 1, bf_deleted_count = 0, bf_deleted_offsets = {}\<rparr>"
  let ?cat = "sc_default\<lparr>sc_catalog_persisted := True, sc_persisted_lengths := Mapping.update 1 0 Mapping.empty\<rparr>"
  let ?m1 = "empty_anchor\<lparr>bl_catalog := ?cat, bl_next_file_id := 2, bl_files := [?f]\<rparr>"
  let ?p = "\<lparr>bp_file_id = 1, bp_offset = 0, bp_length = word_of_nat (length val)\<rparr>"
  have "checked_add_word (1 :: u32) 1 = Some 2" by (simp add: checked_add_word_def)
  then have a: "bl_append (anchored_manager crc) key val = Some (Inr ?p, ?m1)"
    by (simp add: anchored_manager_eq empty_anchor_def bl_with_threshold_and_mode_def bl_with_threshold_def bl_append_def create_new_file_def
        begin_compaction_file_def on_catalog_def bf_append_def Let_def bf_new_def blob_record_new_def record_serialized_size_def
        sc_default_def Mapping.default_def)
  have b: "bl_rollback_append ?m1 ?p = (True, ?m1\<lparr>bl_files := []\<rparr>)"
    using assms by (simp add: bl_rollback_append_def bf_rollback_append_def Let_def record_serialized_size_def saturating_sub_word_def bf_record_count_def)
  show thesis by (rule that [OF a b]) simp_all
qed

lemma removed_entries:
  assumes "bl_files m = []"
    and "bl_catalog m = sc_default\<lparr>sc_catalog_persisted := True, sc_persisted_lengths := Mapping.update 1 0 Mapping.empty\<rparr>"
  shows "segment_catalog_delta_entries (bl_set_generation m 1) = Some [Remove 1]"
proof -
  have "set (map bf_file_id (bl_files m)) \<union> Mapping.keys (sc_persisted_lengths (bl_catalog m)) = {1}"
    by (simp add: assms sc_default_def)
  then show ?thesis
    using assms(1) by (simp add: segment_catalog_delta_entries_def bl_set_generation_def file_by_id_def file_index_def binary_search_def)
qed

text \<open>C39. An append that starts a segment and is then rolled back leaves the segment in the frontier. The next delta then
  removes a segment that no publication ever named, and recovery from a log with that delta fails, whatever the
  segments hold, although the live store is intact and empty.\<close>

theorem rolled_back_segment_blocks_recovery:
  assumes "length val < 2 ^ 32"
  shows "\<exists>ptr m1 m2 bytes. bl_append (anchored_manager crc) key val = Some (Inr ptr, m1) \<and> bl_rollback_append m1 ptr = (True, m2)
    \<and> bl_files m2 = bl_files empty_anchor \<and> to_segment_catalog_delta_bytes crc (bl_set_generation m2 1) = Some (Some bytes)
    \<and> from_segment_catalog_with_delta_log crc (encode_segment_catalog crc empty_anchor) segments bytes (Some 1) = Some None"
proof -
  let ?d = "\<lparr>cd_generation_id = 1, cd_parent_generation_id = 0, cd_entries = [Remove 1]\<rparr>" and ?b = "u32_le 1 @ u32_le 1"
  obtain ptr m1 m2 where a: "bl_append (anchored_manager crc) key val = Some (Inr ptr, m1)" and b: "bl_rollback_append m1 ptr = (True, m2)"
    and m2: "bl_files m2 = []" "bl_catalog m2 = sc_default\<lparr>sc_catalog_persisted := True, sc_persisted_lengths := Mapping.update 1 0 Mapping.empty\<rparr>"
    by (rule rolled_back_state [OF assms])
  note es = removed_entries [OF m2]
  have "encode_segment_catalog_delta crc (bl_set_generation m2 1) [Remove 1] \<noteq> Some None"
    by (simp add: encode_segment_catalog_delta_def usize_checked_add_def copy_from_slice_def Let_def)
  then obtain bytes where e: "encode_segment_catalog_delta crc (bl_set_generation m2 1) [Remove 1] = Some (Some bytes)"
    using encode_delta_total [of crc "bl_set_generation m2 1" "[Remove 1]"] by (cases "encode_segment_catalog_delta crc (bl_set_generation m2 1) [Remove 1]") auto
  then have bytes: "bytes = delta_frame crc ?d ?b"
    by (rule encode_delta_done) (simp add: bl_set_generation_def m2 sc_default_def)
  have ok: "entries_ok 0 [Remove 1]" by (simp add: entries_ok_def)
  have l: "log_of crc [?d] = Some bytes" by (simp add: bytes)
  have "delta_frame_header [] 0 = None" by (simp add: delta_frame_header_def)
  then have log: "parse_segment_catalog_delta_log_through_generation crc bytes 1 = Some [?d]"
    using parse_delta_log_frames [OF l, of 1 "[]" "[]" "[]"] ok bytes
    by (simp add: parse_segment_catalog_delta_log_through_generation_def log_ends_def log_room_def)
  have path: "delta_path 0 [?d] 1 {} [] = Some [?d]"
    using delta_path_chained [of 0 "[?d]" "[]" "{}" "[]"] by (simp add: final_generation_def)
  obtain r where r: "from_segment_catalog_base crc (encode_segment_catalog crc empty_anchor) segments = Some (Some r)"
    "recovered_as r (file_of (bl_files empty_anchor))" "bl_generation_id r = bl_generation_id empty_anchor"
    by (rule anchor_read [OF empty_anchor_ok empty_anchor_fits])
      (simp_all add: empty_anchor_def bl_with_threshold_and_mode_def bl_with_threshold_def)
  have g: "bl_generation_id r = 0" using r(3) by (simp add: empty_anchor_def bl_with_threshold_and_mode_def bl_with_threshold_def)
  have f: "bl_files empty_anchor = []" by (simp add: empty_anchor_def bl_with_threshold_and_mode_def bl_with_threshold_def)
  have "file_index r 1 = None" using file_index_spec [of r 1] r(2) f by (auto simp: recovered_as_def file_of_def split: option.splits)
  then have "apply_deltas crc segments [?d] r = Some None" by (simp add: apply_segment_catalog_delta_def g)
  then have "from_segment_catalog_with_delta_log crc (encode_segment_catalog crc empty_anchor) segments bytes (Some 1) = Some None"
    using r(1) g log path by (simp add: from_segment_catalog_with_delta_log_def Let_def)
  moreover have "to_segment_catalog_delta_bytes crc (bl_set_generation m2 1) = Some (Some bytes)"
    using es e by (simp add: to_segment_catalog_delta_bytes_def)
  ultimately show ?thesis using a b m2(1) f by auto
qed

theorem rolled_back_segment_blocks_recovery_witness:
  "\<exists>ptr m1 m2 bytes. bl_append (anchored_manager (\<lambda>_. 0)) [1] [7, 8] = Some (Inr ptr, m1) \<and> bl_rollback_append m1 ptr = (True, m2)
    \<and> bl_files m2 = bl_files empty_anchor \<and> to_segment_catalog_delta_bytes (\<lambda>_. 0) (bl_set_generation m2 1) = Some (Some bytes)
    \<and> from_segment_catalog_with_delta_log (\<lambda>_. 0) (encode_segment_catalog (\<lambda>_. 0) empty_anchor) Mapping.empty bytes (Some 1) = Some None"
  by (rule rolled_back_segment_blocks_recovery) simp

end
