(* ===== verification/Db_Error.thy ===== *)
theory Db_Error
  imports Tree_Mutation Buffer_Pool Blob_Manager
begin

text \<open>
  The error type of the crate (\<open>src/src/error.rs\<close>) and the conversions into it. A message is kept as the parts its
  text is formatted from; an input or output error is its kind.
\<close>

datatype check_failure_kind = CkTarget | CkFormat | CkManifest | CkCheckpoint | CkRuntime | CkDataPage | CkStructure | CkBlob | CkWal | CkIo

datatype io_error = StorageFull | QuotaExceeded | IoNotFound | OtherIo string

datatype message =
    Text string
  | Formatted string "nat list"
  | OfTree corruption
  | OfSplit split_error
  | OfBuffer buffer_error

datatype db_error =
    DbIo io_error
  | DbDiskFull
  | DbCapacityPreflight
  | DbBackpressure u64 u64
  | DbDatabaseBusy
  | DbReadOnly
  | DbNotFound
  | DbDuplicateKey
  | DbPageFull
  | DbCorruption message
  | DbCheck check_failure_kind message
  | DbNeedsRecovery message
  | DbInvalidArgument message
  | DbSnapshotUnavailable message
  | DbSerializationConflict u64 u64
  | DbMaintenanceInProgress string
  | DbCommitCleanup u64 db_error
  | DbBTree message
  | DbWal message
  | DbBuffer message
  | DbBlob blob_manager_error

fun error_from_io :: "io_error \<Rightarrow> db_error" where
  "error_from_io StorageFull = DbDiskFull"
| "error_from_io QuotaExceeded = DbDiskFull"
| "error_from_io e = DbIo e"

fun error_from_insert :: "insert_error \<Rightarrow> db_error" where
  "error_from_insert PageFull = DbPageFull"
| "error_from_insert EntryTooLarge = DbInvalidArgument (Text ''entry is too large for a B-tree page'')"
| "error_from_insert WrongNodeType = DbBTree (Text ''wrong node type for operation'')"
| "error_from_insert (InvalidIndex index) = DbInvalidArgument (Formatted ''B-tree entry index is out of bounds'' [index])"
| "error_from_insert (ValueSizeMismatch expected actual) = DbInvalidArgument (Formatted ''B-tree replacement size mismatch'' [expected, actual])"
| "error_from_insert (DuplicateKey _) = DbDuplicateKey"

definition error_from_split :: "split_error \<Rightarrow> db_error" where
  "error_from_split e = DbBTree (OfSplit e)"

fun error_from_btree :: "btree_error \<Rightarrow> db_error" where
  "error_from_btree BDuplicateKey = DbDuplicateKey"
| "error_from_btree (BInsertFailed e) = error_from_insert e"
| "error_from_btree (BSplitFailed e) = error_from_split e"
| "error_from_btree BPageIdExhausted = DbBTree (Text ''logical page ID exhausted'')"
| "error_from_btree (BMissingPage page_id) = DbCorruption (Formatted ''B-tree page is not loaded'' [unat page_id])"
| "error_from_btree (BCorruption c) = DbCorruption (OfTree c)"

definition error_from_buffer :: "buffer_error \<Rightarrow> db_error" where
  "error_from_buffer e = DbBuffer (OfBuffer e)"

text \<open>\<open>?\<close> on a result whose error converts into the crate's.\<close>

definition convert_err :: "('e \<Rightarrow> 'f) \<Rightarrow> ('e + 'a) \<Rightarrow> ('f + 'a)" where
  "convert_err f r = (case r of Inl e \<Rightarrow> Inl (f e) | Inr a \<Rightarrow> Inr a)"

lemma convert_err_simps [simp]: "convert_err f (Inl e) = Inl (f e)" "convert_err f (Inr a) = Inr a"
  by (simp_all add: convert_err_def)

end
