(* ===== verification/Db_Mutation.thy ===== *)
theory Db_Mutation
  imports Db_Error Tree_Machine
begin

text \<open>
  The logical mutations of the database (\<open>src/src/db/mutation.rs\<close>): a put or a delete on one candidate tree and blob
  manager, as the live path, the batches and the recovery apply it, and the point read of \<open>src/src/db/query.rs\<close>. The
  tree and the blob manager together hold a map from keys to values; a mutation that succeeds updates that map at its
  key, one that fails leaves it.
\<close>

section \<open>The operations\<close>

datatype mutation = MPut bytes bytes | MDelete bytes

record mutation_outcome =
  mo_changed :: bool
  mo_blob_changed :: bool
  mo_blob_deletion_succeeded :: bool

type_synonym 'a db_op = "((db_error + 'a) \<times> btree \<times> blob_manager) exec"

fun blob_of :: "lookup_result \<Rightarrow> blob_pointer option" where
  "blob_of (Blob ptr) = Some ptr"
| "blob_of _ = None"

text \<open>\<open>previous_blob.is_none_or(|pointer| blobs.mark_deleted(&pointer))\<close>\<close>

definition retire_previous :: "blob_manager \<Rightarrow> blob_pointer option \<Rightarrow> (bool \<times> blob_manager) exec" where
  "retire_previous m previous = (case previous of None \<Rightarrow> Some (True, m) | Some ptr \<Rightarrow> bl_mark_deleted m ptr)"

text \<open>The value is installed in the tree, through the blob manager when it is separated.\<close>

definition install_value :: "bool \<Rightarrow> bytes \<Rightarrow> bytes \<Rightarrow> btree \<Rightarrow> blob_manager \<Rightarrow> unit db_op" where
  "install_value separates key val t m =
     (if separates
      then do {
        (p, m1) \<leftarrow> bl_append m key val;
        (case p of
           Inl e \<Rightarrow> Some (Inl (DbBlob e), t, m1)
         | Inr ptr \<Rightarrow> do {
             (r, t1) \<leftarrow> bt_upsert_blob t key ptr;
             (case r of
                Inl e \<Rightarrow> Some (Inl (error_from_btree e), t1, snd (bl_rollback_append m1 ptr))
              | Inr _ \<Rightarrow> Some (Inr (), t1, m1))
           })
      }
      else do {
        (r, t1) \<leftarrow> bt_upsert t key val;
        Some (convert_err error_from_btree r, t1, m)
      })"

definition apply_put :: "bytes \<Rightarrow> bytes \<Rightarrow> btree \<Rightarrow> blob_manager \<Rightarrow> mutation_outcome db_op" where
  "apply_put key val t m = do {
     l \<leftarrow> bt_lookup t key;
     (case l of
        Inl e \<Rightarrow> Some (Inl (error_from_btree e), t, m)
      | Inr found \<Rightarrow> do {
          let previous_blob = blob_of found;
          let separates = should_separate m (length val);
          (r, t1, m1) \<leftarrow> install_value separates key val t m;
          (case r of
             Inl e \<Rightarrow> Some (Inl e, t1, m1)
           | Inr _ \<Rightarrow> do {
               (deleted, m2) \<leftarrow> retire_previous m1 previous_blob;
               Some (Inr \<lparr>mo_changed = True, mo_blob_changed = (separates \<or> previous_blob \<noteq> None), mo_blob_deletion_succeeded = deleted\<rparr>, t1, m2)
             })
        })
   }"

definition apply_delete :: "bytes \<Rightarrow> btree \<Rightarrow> blob_manager \<Rightarrow> mutation_outcome db_op" where
  "apply_delete key t m = do {
     l \<leftarrow> bt_lookup t key;
     (case l of
        Inl e \<Rightarrow> Some (Inl (error_from_btree e), t, m)
      | Inr found \<Rightarrow> do {
          let previous_blob = blob_of found;
          (r, t1) \<leftarrow> bt_delete t key;
          (case r of
             Inl e \<Rightarrow> Some (Inl (error_from_btree e), t1, m)
           | Inr changed \<Rightarrow> do {
               let blob_changed = (changed \<and> previous_blob \<noteq> None);
               (deleted, m1) \<leftarrow> (if blob_changed then retire_previous m previous_blob else Some (True, m));
               Some (Inr \<lparr>mo_changed = changed, mo_blob_changed = blob_changed, mo_blob_deletion_succeeded = deleted\<rparr>, t1, m1)
             })
        })
   }"

fun apply_mutation :: "mutation \<Rightarrow> btree \<Rightarrow> blob_manager \<Rightarrow> mutation_outcome db_op" where
  "apply_mutation (MPut key val) t m = apply_put key val t m"
| "apply_mutation (MDelete key) t m = apply_delete key t m"

definition require_blob_deletion :: "mutation_outcome \<Rightarrow> string \<Rightarrow> db_error + unit" where
  "require_blob_deletion out ctxt =
     (if mo_blob_deletion_succeeded out then Inr ()
      else Inl (DbCorruption (Text (ctxt @ '' references a missing or already-deleted blob''))))"

text \<open>The point read, over the tree and the blob manager of the handle.\<close>

definition db_get :: "btree \<Rightarrow> blob_manager \<Rightarrow> bytes \<Rightarrow> (db_error + bytes option) exec" where
  "db_get t m key = do {
     l \<leftarrow> bt_lookup t key;
     Some (case l of
        Inl e \<Rightarrow> Inl (error_from_btree e)
      | Inr (Found val) \<Rightarrow> Inr (Some val)
      | Inr (Blob ptr) \<Rightarrow> (case bl_read m ptr of Some data \<Rightarrow> Inr (Some data) | None \<Rightarrow> Inl (DbCorruption (Text ''blob pointer invalid'')))
      | Inr Deleted \<Rightarrow> Inr None
      | Inr NotFound \<Rightarrow> Inr None)
   }"

section \<open>The map a tree and a blob manager hold\<close>

text \<open>The value of an entry, when the values under the pointers in use are \<open>W\<close>.\<close>

fun entry_value :: "(u32 \<times> u64 \<rightharpoonup> bytes) \<Rightarrow> value_ref \<Rightarrow> bytes option" where
  "entry_value W (RInline val) = Some val"
| "entry_value W (RBlob ptr) = W (place ptr)"
| "entry_value W RTombstone = None"

text \<open>
  The entries \<open>E\<close> use the pointers of \<open>W\<close>: every blob entry has a value there, of the length the pointer records, and
  no two keys share a pointer.
\<close>

definition pointers_ok :: "(bytes \<rightharpoonup> value_ref) \<Rightarrow> (u32 \<times> u64 \<rightharpoonup> bytes) \<Rightarrow> bool" where
  "pointers_ok E W \<longleftrightarrow>
     (\<forall>k ptr. E k = Some (RBlob ptr) \<longrightarrow> (\<exists>v. W (place ptr) = Some v \<and> length v = unat (bp_length ptr)))
   \<and> (\<forall>k k' ptr ptr'. E k = Some (RBlob ptr) \<and> E k' = Some (RBlob ptr') \<and> place ptr = place ptr' \<longrightarrow> k = k')"

definition view :: "(bytes \<rightharpoonup> value_ref) \<Rightarrow> (u32 \<times> u64 \<rightharpoonup> bytes) \<Rightarrow> bytes \<rightharpoonup> bytes" where
  "view E W = (\<lambda>k. Option.bind (E k) (entry_value W))"

text \<open>A tree of height \<open>h\<close> and a blob manager hold the map \<open>M\<close>.\<close>

definition db_holds :: "btree \<Rightarrow> blob_manager \<Rightarrow> nat \<Rightarrow> (bytes \<rightharpoonup> bytes) \<Rightarrow> bool" where
  "db_holds t m h M \<longleftrightarrow> (\<exists>es W. contents t h es \<and> blobs.holds m W \<and> pointers_ok (map_of es) W \<and> view (map_of es) W = M)"

fun mutation_map :: "mutation \<Rightarrow> (bytes \<rightharpoonup> bytes) \<Rightarrow> (bytes \<rightharpoonup> bytes)" where
  "mutation_map (MPut key val) M = M(key \<mapsto> val)"
| "mutation_map (MDelete key) M = M(key := None)"

text \<open>A mutation the log admits, with room for its value in the blob files.\<close>

fun admitted :: "mutation \<Rightarrow> blob_manager \<Rightarrow> bool" where
  "admitted (MPut key val) m \<longleftrightarrow> length val < 2 ^ 32 \<and> append_fits m val"
| "admitted (MDelete key) m \<longleftrightarrow> True"

lemma pointers_okD:
  assumes "pointers_ok E W" and "E k = Some (RBlob ptr)"
  obtains v where "W (place ptr) = Some v" and "length v = unat (bp_length ptr)"
  using assms unfolding pointers_ok_def by blast

lemma pointers_ok_inj: "pointers_ok E W \<Longrightarrow> E k = Some (RBlob ptr) \<Longrightarrow> E k' = Some (RBlob ptr') \<Longrightarrow> place ptr = place ptr' \<Longrightarrow> k = k'"
  unfolding pointers_ok_def by blast

text \<open>An entry is replaced, and the values under the pointers of the other keys stay.\<close>

lemma pointers_ok_replace:
  assumes p: "pointers_ok E W" and others: "\<And>k ptr. k \<noteq> key \<Longrightarrow> E k = Some (RBlob ptr) \<Longrightarrow> W' (place ptr) = W (place ptr)"
    and new: "\<And>ptr. e = RBlob ptr \<Longrightarrow> W (place ptr) = None \<and> (\<exists>v. W' (place ptr) = Some v \<and> length v = unat (bp_length ptr))"
  shows "pointers_ok (E(key \<mapsto> e)) W'" and "view (E(key \<mapsto> e)) W' = (view E W)(key := entry_value W' e)"
proof -
  have old: "\<exists>v. W' (place ptr) = Some v \<and> length v = unat (bp_length ptr) \<and> W (place ptr) = Some v" if "k \<noteq> key" "E k = Some (RBlob ptr)" for k ptr
    using pointers_okD [OF p that(2)] others [OF that] by metis
  have "\<exists>v. W' (place ptr) = Some v \<and> length v = unat (bp_length ptr)" if "(E(key \<mapsto> e)) k = Some (RBlob ptr)" for k ptr
    using that old [of k ptr] new [of ptr] by (auto split: if_splits)
  moreover have "k = k'" if "(E(key \<mapsto> e)) k = Some (RBlob ptr)" "(E(key \<mapsto> e)) k' = Some (RBlob ptr')" "place ptr = place ptr'" for k k' ptr ptr'
  proof (cases "k = key"; cases "k' = key")
    assume k: "k = key" "k' \<noteq> key"
    then show ?thesis using that(1,2) old [OF k(2)] new [of ptr] that(3) by fastforce
  next
    assume k: "k \<noteq> key" "k' = key"
    then show ?thesis using that(1,2) old [OF k(1)] new [of ptr'] that(3) by fastforce
  next
    assume "k \<noteq> key" "k' \<noteq> key"
    then show ?thesis using that pointers_ok_inj [OF p] by simp
  qed simp
  ultimately show "pointers_ok (E(key \<mapsto> e)) W'" unfolding pointers_ok_def by blast
  have "Option.bind (E k) (entry_value W') = Option.bind (E k) (entry_value W)" if "k \<noteq> key" for k
  proof (cases "E k")
    case (Some w)
    then show ?thesis using others [OF that] by (cases w) auto
  qed simp
  then show "view (E(key \<mapsto> e)) W' = (view E W)(key := entry_value W' e)" by (auto simp: view_def)
qed

section \<open>The pointer a key had\<close>

definition blob_entry :: "(bytes \<rightharpoonup> value_ref) \<Rightarrow> bytes \<Rightarrow> blob_pointer option" where
  "blob_entry E key = (case E key of Some (RBlob ptr) \<Rightarrow> Some ptr | _ \<Rightarrow> None)"

lemma blob_entry_Some [simp]: "blob_entry E key = Some ptr \<longleftrightarrow> E key = Some (RBlob ptr)"
  by (auto simp: blob_entry_def split: option.splits value_ref.splits)

lemma blob_of_lookup: "blob_of (case E key of None \<Rightarrow> NotFound | Some v \<Rightarrow> lookup_of v) = blob_entry E key"
  by (auto simp: blob_entry_def split: option.splits value_ref.splits)

definition without :: "('p \<rightharpoonup> 'v) \<Rightarrow> ('b \<Rightarrow> 'p) \<Rightarrow> 'b option \<Rightarrow> ('p \<rightharpoonup> 'v)" where
  "without W f b = (case b of None \<Rightarrow> W | Some x \<Rightarrow> W(f x := None))"

lemma retire_previous_holds:
  assumes h: "blobs.holds m W" and used: "\<And>ptr. previous = Some ptr \<Longrightarrow> W (place ptr) \<noteq> None"
  obtains m' where "retire_previous m previous = Some (True, m')" and "blobs.holds m' (without W place previous)"
    and "blob_values m' = blob_values m"
proof (cases previous)
  case None
  then show thesis using that h by (simp add: retire_previous_def without_def)
next
  case (Some ptr)
  obtain r m' where m': "bl_mark_deleted m ptr = Some (r, m')" "blob_values m' = blob_values m"
    "r \<longleftrightarrow> blob_values m (place ptr) \<noteq> None \<and> place ptr \<notin> blob_deleted m"
    by (rule bl_mark_deleted_spec [OF blobs.holds_ok [OF h]]) blast
  obtain v where "W (place ptr) = Some v" using used [OF Some] by blast
  then have r: "r" using m'(3) blobs.holds_value [OF h] by simp
  have "blob_retired m (place ptr) m'" using m'(1) by (auto simp: blob_retired_def)
  then have "blobs.holds m' (W(place ptr := None))" by (rule blobs.retired_holds [OF h])
  then show thesis using that [of m'] m'(1,2) r Some by (simp add: retire_previous_def without_def)
qed

text \<open>Replacing the entry of a key and retiring its old pointer.\<close>

lemma replace_and_retire:
  assumes p: "pointers_ok E W" and more: "W \<subseteq>\<^sub>m W'"
    and new: "\<And>ptr. e = RBlob ptr \<Longrightarrow> W (place ptr) = None \<and> (\<exists>v. W' (place ptr) = Some v \<and> length v = unat (bp_length ptr))"
  shows "pointers_ok (E(key \<mapsto> e)) (without W' place (blob_entry E key))"
    and "view (E(key \<mapsto> e)) (without W' place (blob_entry E key)) = (view E W)(key := entry_value W' e)"
proof -
  have used: "\<exists>v. W (place ptr) = Some v" if "E k = Some (RBlob ptr)" for k ptr using pointers_okD [OF p that] by metis
  have o: "without W' place (blob_entry E key) (place ptr) = W (place ptr)" if "k \<noteq> key" "E k = Some (RBlob ptr)" for k ptr
  proof -
    have "W' (place ptr) = W (place ptr)" using used [OF that(2)] more by (metis domI map_le_def)
    then show ?thesis using pointers_ok_inj [OF p that(2)] that(1) by (auto simp: without_def split: option.splits)
  qed
  have n: "without W' place (blob_entry E key) (place ptr) = W' (place ptr)" if "e = RBlob ptr" for ptr
    using new [OF that] used [of key] by (fastforce simp: without_def split: option.splits)
  show "pointers_ok (E(key \<mapsto> e)) (without W' place (blob_entry E key))"
    by (rule pointers_ok_replace(1) [OF p o]) (use new n in auto)
  have "entry_value (without W' place (blob_entry E key)) e = entry_value W' e" using n by (cases e) auto
  then show "view (E(key \<mapsto> e)) (without W' place (blob_entry E key)) = (view E W)(key := entry_value W' e)"
    using pointers_ok_replace(2) [OF p o, where key=key and e=e] new n by auto
qed

section \<open>What the operations do to the map\<close>

text \<open>Installing the new value: on an error nothing changed; otherwise the tree has a new entry for the key.\<close>

definition installed :: "btree \<Rightarrow> nat \<Rightarrow> (bytes \<times> value_ref) list \<Rightarrow> blob_manager \<Rightarrow> (u32 \<times> u64 \<rightharpoonup> bytes) \<Rightarrow> bytes \<Rightarrow> bytes \<Rightarrow> btree \<Rightarrow> blob_manager \<Rightarrow> bool" where
  "installed t h es m W key val t' m' \<longleftrightarrow> (\<exists>h' es' e W'. h' \<le> Suc h \<and> contents t' h' es' \<and> map_of es' = (map_of es)(key \<mapsto> e)
     \<and> blobs.holds m' W' \<and> W \<subseteq>\<^sub>m W' \<and> entry_value W' e = Some val
     \<and> (\<forall>ptr. e = RBlob ptr \<longrightarrow> W (place ptr) = None \<and> length val = unat (bp_length ptr)))"

lemma install_inline:
  assumes c: "contents t h es" and deep: "h < 128" and b: "blobs.holds m W"
  shows "\<exists>r t' m'. install_value False key val t m = Some (r, t', m')
    \<and> (case r of Inl _ \<Rightarrow> untouched t t' \<and> m' = m | Inr _ \<Rightarrow> installed t h es m W key val t' m')"
proof -
  obtain r t' where u: "bt_upsert t key val = Some (r, t')"
    and r: "case r of Inl _ \<Rightarrow> untouched t t' | Inr _ \<Rightarrow> \<exists>h' \<le> Suc h. contents t' h' (put_entry key (RInline val) es)"
    using bt_upsert_contents [OF c deep, of key val] by (auto simp: outcome_def)
  have "installed t h es m W key val t' m" if "h' \<le> Suc h" "contents t' h' (put_entry key (RInline val) es)" for h'
    unfolding installed_def using that b map_of_put [OF contents_sorted [OF c], of key "RInline val"]
    by (intro exI [of _ h'] exI [of _ "put_entry key (RInline val) es"] exI [of _ "RInline val"] exI [of _ W]) simp
  then show ?thesis using u r by (cases r) (auto simp: install_value_def)
qed

lemma install_blob:
  assumes c: "contents t h es" and deep: "h < 128" and b: "blobs.holds m W" and v: "length val < 2 ^ 32" and fit: "append_fits m val"
  shows "\<exists>r t' m'. install_value True key val t m = Some (r, t', m')
    \<and> (case r of Inl _ \<Rightarrow> untouched t t' \<and> blobs.holds m' W \<and> blob_values m' = blob_values m \<and> blob_deleted m' = blob_deleted m
       | Inr _ \<Rightarrow> installed t h es m W key val t' m')"
proof -
  have ok: "manager_ok m" by (rule blobs.holds_ok [OF b])
  obtain p m1 where a: "bl_append m key val = Some (p, m1)" by (rule bl_append_returns [OF ok v fit])
  note d = bl_append_done [OF ok v a]
  show ?thesis
  proof (cases p)
    case (Inl e)
    then show ?thesis using d a b by (simp add: install_value_def)
  next
    case (Inr ptr)
    have "blob_stored m (place ptr) val m1" using a v Inr by (auto simp: blob_stored_def)
    note st = blobs.stored_holds [OF b this]
    obtain r t' where u: "bt_upsert_blob t key ptr = Some (r, t')"
      and r: "case r of Inl _ \<Rightarrow> untouched t t' | Inr _ \<Rightarrow> \<exists>h' \<le> Suc h. contents t' h' (put_entry key (RBlob ptr) es)"
      using bt_upsert_blob_contents [OF c deep, of key ptr] by (auto simp: outcome_def)
    show ?thesis
    proof (cases r)
      case (Inl e)
      obtain m2 where m2: "bl_rollback_append m1 ptr = (True, m2)"
        using bl_append_undo [OF ok v, of key ptr m1] a Inr by (cases "bl_rollback_append m1 ptr") auto
      have "blob_undone m1 (place ptr) m2" using m2 by (auto simp: blob_undone_def)
      then have "blobs.holds m2 ((W(place ptr \<mapsto> val))(place ptr := None))" by (rule blobs.undone_holds [OF st(1)])
      then have h2: "blobs.holds m2 W" using st(2) by (simp add: fun_upd_idem)
      have "blob_values m2 = blob_values m" "blob_deleted m2 = blob_deleted m"
        using bl_rollback_spec [of m1 ptr True m2] m2 d Inr by (auto simp: fun_upd_idem)
      then show ?thesis using a u r Inl \<open>p = Inr ptr\<close> m2 h2 by (simp add: install_value_def)
    next
      case (Inr q)
      then obtain h' where h': "h' \<le> Suc h" "contents t' h' (put_entry key (RBlob ptr) es)" using r by auto
      have "W \<subseteq>\<^sub>m W(place ptr \<mapsto> val)" using st(2) by (auto simp: map_le_def)
      then have "installed t h es m W key val t' m1"
        unfolding installed_def using h' st d \<open>p = Inr ptr\<close> map_of_put [OF contents_sorted [OF c], of key "RBlob ptr"]
        by (intro exI [of _ h'] exI [of _ "put_entry key (RBlob ptr) es"] exI [of _ "RBlob ptr"] exI [of _ "W(place ptr \<mapsto> val)"]) simp
      then show ?thesis using a u Inr \<open>p = Inr ptr\<close> by (simp add: install_value_def)
    qed
  qed
qed

text \<open>What an operation may answer on a state that holds \<open>M\<close>, with \<open>M'\<close> on success and the flags it reports.\<close>

definition answers :: "mutation_outcome db_op \<Rightarrow> btree \<Rightarrow> blob_manager \<Rightarrow> nat \<Rightarrow> (bytes \<rightharpoonup> bytes) \<Rightarrow> (bytes \<rightharpoonup> bytes) \<Rightarrow> bool \<Rightarrow> bool" where
  "answers run t m h M M' changed \<longleftrightarrow> (\<exists>r t' m'. run = Some (r, t', m') \<and>
     (case r of
        Inl _ \<Rightarrow> untouched t t' \<and> db_holds t' m' h M \<and> blob_values m' = blob_values m \<and> blob_deleted m' = blob_deleted m
      | Inr out \<Rightarrow> (\<exists>h' \<le> Suc h. db_holds t' m' h' M') \<and> h < 128 \<and> mo_blob_deletion_succeeded out \<and> mo_changed out = changed))"

lemma answersE:
  assumes "answers run t m h M M' changed"
  obtains (err) e t' m' where "run = Some (Inl e, t', m')" and "untouched t t'" and "db_holds t' m' h M"
      and "blob_values m' = blob_values m" and "blob_deleted m' = blob_deleted m"
    | (ok) out t' m' h' where "run = Some (Inr out, t', m')" and "h' \<le> Suc h" and "db_holds t' m' h' M'" and "h < 128"
      and "mo_blob_deletion_succeeded out" and "mo_changed out = changed"
proof -
  obtain r t' m' where r: "run = Some (r, t', m')" and c: "case r of
        Inl _ \<Rightarrow> untouched t t' \<and> db_holds t' m' h M \<and> blob_values m' = blob_values m \<and> blob_deleted m' = blob_deleted m
      | Inr out \<Rightarrow> (\<exists>h' \<le> Suc h. db_holds t' m' h' M') \<and> h < 128 \<and> mo_blob_deletion_succeeded out \<and> mo_changed out = changed"
    using assms unfolding answers_def by blast
  show thesis using that r c by (cases r) auto
qed

lemma db_holdsE:
  assumes "db_holds t m h M"
  obtains es W where "contents t h es" and "blobs.holds m W" and "pointers_ok (map_of es) W" and "view (map_of es) W = M"
  using assms unfolding db_holds_def by blast

lemma db_holdsI: "contents t h es \<Longrightarrow> blobs.holds m W \<Longrightarrow> pointers_ok (map_of es) W \<Longrightarrow> view (map_of es) W = M \<Longrightarrow> db_holds t m h M"
  unfolding db_holds_def by blast

lemma apply_put_answers:
  assumes d: "db_holds t m h M" and v: "length val < 2 ^ 32" and fit: "append_fits m val"
  shows "answers (apply_put key val t m) t m h M (M(key \<mapsto> val)) True"
  using d
proof (cases rule: db_holdsE)
  case (1 es W)
  note lookup = bt_lookup_contents [OF 1(1), of key]
  let ?E = "map_of es" and ?sep = "should_separate m (length val)"
  show ?thesis
  proof (cases "h < 128")
    case False
    then show ?thesis using d lookup by (simp add: answers_def apply_put_def)
  next
    case True
    have "\<exists>r t' m'. install_value ?sep key val t m = Some (r, t', m') \<and> (case r of
        Inl _ \<Rightarrow> untouched t t' \<and> blobs.holds m' W \<and> blob_values m' = blob_values m \<and> blob_deleted m' = blob_deleted m
      | Inr _ \<Rightarrow> installed t h es m W key val t' m')"
      using install_inline [OF 1(1) True 1(2), of key val] install_blob [OF 1(1) True 1(2) v fit, of key] 1(2)
      by (cases ?sep) (fastforce split: sum.splits)+
    then obtain r t' m' where i: "install_value ?sep key val t m = Some (r, t', m')" and r: "case r of
        Inl _ \<Rightarrow> untouched t t' \<and> blobs.holds m' W \<and> blob_values m' = blob_values m \<and> blob_deleted m' = blob_deleted m
      | Inr _ \<Rightarrow> installed t h es m W key val t' m'" by blast
    show ?thesis
    proof (cases r)
      case (Inl e)
      then have "untouched t t'" "db_holds t' m' h M" using r contents_untouched [OF _ 1(1)] 1(3,4) by (auto intro: db_holdsI)
      then show ?thesis using lookup True i r Inl by (simp add: answers_def apply_put_def)
    next
      case (Inr u)
      then obtain h' es' e W' where n: "h' \<le> Suc h" "contents t' h' es'" "map_of es' = ?E(key \<mapsto> e)" "blobs.holds m' W'" "W \<subseteq>\<^sub>m W'"
        "entry_value W' e = Some val" "\<And>ptr. e = RBlob ptr \<Longrightarrow> W (place ptr) = None \<and> length val = unat (bp_length ptr)"
        using r by (auto simp: installed_def)
      have "W' (place ptr) \<noteq> None" if "blob_entry ?E key = Some ptr" for ptr
        using pointers_okD [OF 1(3), of key ptr] that n(5) by (metis blob_entry_Some domI map_le_def option.distinct(1))
      then obtain m2 where m2: "retire_previous m' (blob_entry ?E key) = Some (True, m2)" "blobs.holds m2 (without W' place (blob_entry ?E key))"
        using retire_previous_holds [OF n(4)] by metis
      have new: "W (place ptr) = None \<and> (\<exists>v. W' (place ptr) = Some v \<and> length v = unat (bp_length ptr))" if "e = RBlob ptr" for ptr
        using n(6,7) that by auto
      note rr = replace_and_retire [OF 1(3) n(5) new, where key = key]
      have "db_holds t' m2 h' (M(key \<mapsto> val))"
        by (rule db_holdsI [OF n(2) m2(2)]) (use rr 1(4) n(3,6) in simp_all)
      then show ?thesis using lookup True i Inr n(1) m2(1) by (auto simp: answers_def apply_put_def blob_of_lookup)
    qed
  qed
qed

lemma apply_delete_answers:
  assumes d: "db_holds t m h M"
  shows "answers (apply_delete key t m) t m h M (M(key := None)) (M key \<noteq> None)"
  using d
proof (cases rule: db_holdsE)
  case (1 es W)
  note lookup = bt_lookup_contents [OF 1(1), of key]
  let ?E = "map_of es"
  have at: "M key = Option.bind (?E key) (entry_value W)" using 1(4) by (auto simp: view_def)
  show ?thesis
  proof (cases "h < 128")
    case False
    then show ?thesis using d lookup by (simp add: answers_def apply_delete_def)
  next
    case deep: True
    note del = bt_delete_contents [OF 1(1) deep, of key]
    show ?thesis
    proof (cases "?E key = None \<or> ?E key = Some RTombstone")
      case True
      then obtain t' where t': "bt_delete t key = Some (Inr False, t')" "untouched t t'" using del by auto
      have "M key = None" using True at by auto
      moreover have "db_holds t' m h M" by (rule db_holdsI [OF contents_untouched [OF t'(2) 1(1)] 1(2-4)])
      ultimately show ?thesis using lookup deep t'(1) by (auto simp: answers_def apply_delete_def fun_upd_idem intro!: exI [of _ h])
    next
      case False
      then obtain t' where t': "bt_delete t key = Some (Inr True, t')" "contents t' h (put_entry key RTombstone es)"
        using del by (auto split: option.splits if_splits)
      have used: "W (place ptr) \<noteq> None" if "blob_entry ?E key = Some ptr" for ptr
        using pointers_okD [OF 1(3), of key ptr] that by (metis blob_entry_Some option.distinct(1))
      then obtain m2 where m2: "retire_previous m (blob_entry ?E key) = Some (True, m2)" "blobs.holds m2 (without W place (blob_entry ?E key))"
        using retire_previous_holds [OF 1(2)] by metis
      note rr = replace_and_retire [OF 1(3) map_le_refl, where key = key and e = RTombstone]
      have "db_holds t' m2 h (M(key := None))"
        by (rule db_holdsI [OF t'(2) m2(2)]) (use rr 1(4) map_of_put [OF contents_sorted [OF 1(1)]] in simp_all)
      moreover have "M key \<noteq> None"
      proof -
        obtain w where w: "?E key = Some w" "w \<noteq> RTombstone" using False by auto
        then show ?thesis using at used by (cases w) auto
      qed
      ultimately show ?thesis using lookup deep t'(1) m2(1)
        by (cases "blob_entry ?E key") (auto simp: answers_def apply_delete_def blob_of_lookup retire_previous_def intro!: exI [of _ h])
    qed
  qed
qed

lemma apply_mutation_answers:
  assumes "db_holds t m h M" and "admitted mu m"
  shows "answers (apply_mutation mu t m) t m h M (mutation_map mu M) (case mu of MPut _ _ \<Rightarrow> True | MDelete key \<Rightarrow> M key \<noteq> None)"
  using apply_put_answers [OF assms(1)] apply_delete_answers [OF assms(1)] assms(2) by (cases mu) simp_all

lemma db_get_holds:
  assumes "db_holds t m h M"
  shows "db_get t m key = Some (if h < 128 then Inr (M key) else Inl (DbCorruption (OfTree DescentCycle)))"
  using assms
proof (cases rule: db_holdsE)
  case (1 es W)
  note lookup = bt_lookup_contents [OF 1(1), of key]
  have at: "M key = Option.bind (map_of es key) (entry_value W)" using 1(4) by (auto simp: view_def)
  show ?thesis
  proof (cases "map_of es key")
    case None
    then show ?thesis using lookup at by (simp add: db_get_def)
  next
    case (Some w)
    show ?thesis
    proof (cases w)
      case (RBlob ptr)
      obtain v where v: "W (place ptr) = Some v" "length v = unat (bp_length ptr)" using pointers_okD [OF 1(3)] Some RBlob by blast
      then have "bl_read m ptr = Some v" using bl_read_values [OF blobs.holds_ok [OF 1(2)], of ptr] blobs.holds_value [OF 1(2)] by simp
      then show ?thesis using lookup at Some RBlob v by (simp add: db_get_def)
    qed (use lookup at Some in \<open>simp_all add: db_get_def\<close>)
  qed
qed

section \<open>Sequences of mutations\<close>

text \<open>The mutations of a batch, one after the other, until one fails; the flag collects \<open>blob_changed\<close>.\<close>

fun apply_all :: "mutation list \<Rightarrow> bool \<Rightarrow> btree \<Rightarrow> blob_manager \<Rightarrow> bool db_op" where
  "apply_all [] b t m = Some (Inr b, t, m)"
| "apply_all (mu # mus) b t m = do {
     (a, t', m') \<leftarrow> apply_mutation mu t m;
     (case a of Inl e \<Rightarrow> Some (Inl e, t', m') | Inr out \<Rightarrow> apply_all mus (b \<or> mo_blob_changed out) t' m')
   }"

definition then_run :: "'a db_op \<Rightarrow> ('a \<Rightarrow> btree \<Rightarrow> blob_manager \<Rightarrow> 'b db_op) \<Rightarrow> 'b db_op" where
  "then_run op f = do { (a, t, m) \<leftarrow> op; (case a of Inl e \<Rightarrow> Some (Inl e, t, m) | Inr x \<Rightarrow> f x t m) }"

lemma then_run_simps [simp]:
  "then_run (Some (Inl e, t, m)) f = Some (Inl e, t, m)"
  "then_run (Some (Inr x, t, m)) f = f x t m"
  "then_run None f = None"
  by (simp_all add: then_run_def)

lemma apply_all_append: "apply_all (xs @ ys) b t m = then_run (apply_all xs b t m) (apply_all ys)"
proof (induction xs arbitrary: b t m)
  case (Cons x xs)
  show ?case
  proof (cases "apply_mutation x t m")
    case (Some y)
    obtain a t' m' where "y = (a, t', m')" by (cases y) auto
    then show ?thesis using Some Cons.IH by (cases a) simp_all
  qed simp
qed simp

lemma then_run_assoc: "then_run (then_run op f) g = then_run op (\<lambda>x t m. then_run (f x t m) g)"
proof (cases op)
  case (Some y)
  obtain a t m where "y = (a, t, m)" by (cases y) auto
  then show ?thesis using Some by (cases a) simp_all
qed simp

text \<open>The bytes a sequence of mutations may add to the blob files.\<close>

fun mutation_bytes :: "mutation \<Rightarrow> nat" where
  "mutation_bytes (MPut key val) = RECORD_OVERHEAD_SIZE + length val"
| "mutation_bytes (MDelete key) = 0"

fun short :: "mutation \<Rightarrow> bool" where
  "short (MPut key val) \<longleftrightarrow> length val < 2 ^ 32"
| "short (MDelete key) \<longleftrightarrow> True"

lemma short_admitted: "short mu \<Longrightarrow> blob_bytes m + mutation_bytes mu < 2 ^ 64 \<Longrightarrow> admitted mu m"
  using blob_bytes_fits [of m] by (cases mu) (simp_all add: add.assoc)

lemma install_bytes:
  "install_value sep key val t m = Some (Inr (), t', m') \<Longrightarrow> blob_bytes m' \<le> blob_bytes m + RECORD_OVERHEAD_SIZE + length val"
  using bl_append_bytes [of m key val] by (auto simp: install_value_def convert_err_def split: if_splits bind_splits prod.splits sum.splits)

lemma retire_bytes: "retire_previous m previous = Some (r, m') \<Longrightarrow> blob_bytes m' = blob_bytes m"
  using bl_mark_deleted_bytes [of m] by (auto simp: retire_previous_def split: option.splits)

lemma apply_mutation_bytes:
  assumes "apply_mutation mu t m = Some (Inr out, t', m')"
  shows "blob_bytes m' \<le> blob_bytes m + mutation_bytes mu"
proof (cases mu)
  case (MPut key val)
  then obtain prev m1 r where "install_value (should_separate m (length val)) key val t m = Some (Inr (), t', m1)" "retire_previous m1 prev = Some (r, m')"
    using assms by (auto simp: apply_put_def Let_def split: bind_splits prod.splits sum.splits)
  then show ?thesis using install_bytes retire_bytes MPut by fastforce
next
  case (MDelete key)
  then show ?thesis using assms retire_bytes
    by (auto simp: apply_delete_def Let_def split: bind_splits prod.splits sum.splits if_splits)
qed

definition apply_map :: "mutation list \<Rightarrow> (bytes \<rightharpoonup> bytes) \<Rightarrow> (bytes \<rightharpoonup> bytes)" where
  "apply_map mus M = foldl (\<lambda>M mu. mutation_map mu M) M mus"

text \<open>A sequence returns; when all of it is applied the state holds the updated map, otherwise that of the part applied.\<close>

lemma apply_all_holds:
  assumes "db_holds t m h M" and "list_all short mus" and "blob_bytes m + sum_list (map mutation_bytes mus) < 2 ^ 64"
  shows "\<exists>r t' m' h' n. apply_all mus b t m = Some (r, t', m') \<and> db_holds t' m' h' (apply_map (take n mus) M) \<and> h' \<le> h + n
    \<and> (case r of Inl _ \<Rightarrow> n < length mus | Inr _ \<Rightarrow> n = length mus)"
  using assms
proof (induction mus arbitrary: b t m h M)
  case Nil
  then show ?case by (auto simp: apply_map_def)
next
  case (Cons mu mus)
  have "admitted mu m" by (rule short_admitted) (use Cons.prems in simp_all)
  from apply_mutation_answers [OF Cons.prems(1) this] show ?case
  proof (cases rule: answersE)
    case (err e t1 m1)
    then show ?thesis
      by (intro exI [of _ "Inl e"] exI [of _ t1] exI [of _ m1] exI [of _ h] exI [of _ 0]) (simp add: apply_map_def)
  next
    case (ok out t1 m1 h1)
    have "blob_bytes m1 + sum_list (map mutation_bytes mus) < 2 ^ 64"
      using apply_mutation_bytes [OF ok(1)] Cons.prems(3) by simp
    then obtain q t2 m2 h2 n where n: "apply_all mus (b \<or> mo_blob_changed out) t1 m1 = Some (q, t2, m2)"
      "db_holds t2 m2 h2 (apply_map (take n mus) (mutation_map mu M))" "h2 \<le> h1 + n" "case q of Inl _ \<Rightarrow> n < length mus | Inr _ \<Rightarrow> n = length mus"
      using Cons.IH [OF ok(3)] Cons.prems(2) by auto metis
    then show ?thesis using ok(1,2)
      by (intro exI [of _ q] exI [of _ t2] exI [of _ m2] exI [of _ h2] exI [of _ "Suc n"]) (auto simp: apply_map_def split: sum.splits)
  qed
qed

end
