(* ===== verification/Wal_Recovery.thy ===== *)
theory Wal_Recovery
  imports Db_Mutation Wal_Record
begin

text \<open>
  Recovery from the write-ahead log (\<open>src/src/db/wal_recovery.rs\<close>): the analysis of a log against the manifest in
  force, the replay of the committed batches ahead of it, the payload decoders and the length checks of the write
  path. A log is the content of its file; truncating the file keeps a prefix of it.
\<close>

section \<open>Payloads and lengths\<close>

definition corrupt :: "string \<Rightarrow> db_error" where
  "corrupt s = DbCorruption (Text s)"

definition decode_put_payload :: "bool \<Rightarrow> bytes \<Rightarrow> (db_error + bytes \<times> bytes) exec" where
  "decode_put_payload v2 payload =
     (if v2
      then (if length payload < 4 + 4 then Some (Inl (corrupt ''WAL v2 put record too small''))
        else do {
          key_len \<leftarrow> read_u32 payload 0;
          (case usize_checked_add 4 (unat key_len) of
             None \<Rightarrow> Some (Inl (corrupt ''WAL key length overflow''))
           | Some value_len_offset \<Rightarrow>
               if length payload < value_len_offset + 4 then Some (Inl (corrupt ''WAL v2 put key is truncated''))
               else do {
                 value_len \<leftarrow> read_u32 payload value_len_offset;
                 let value_offset = value_len_offset + 4;
                 if length payload \<noteq> value_offset + unat value_len then Some (Inl (corrupt ''WAL v2 put value is truncated''))
                 else do {
                   key \<leftarrow> slice_range payload 4 value_len_offset;
                   val \<leftarrow> slice_range payload value_offset (length payload);
                   Some (Inr (key, val))
                 }
               })
        })
      else (if length payload < 4 then Some (Inl (corrupt ''WAL put record too small''))
        else do {
          key_len \<leftarrow> read_u16 payload 0;
          (case usize_checked_add 2 (unat key_len) of
             None \<Rightarrow> Some (Inl (corrupt ''WAL key length overflow''))
           | Some value_len_offset \<Rightarrow>
               if length payload < value_len_offset + 2 then Some (Inl (corrupt ''WAL put key is truncated''))
               else do {
                 value_len \<leftarrow> read_u16 payload value_len_offset;
                 let value_offset = value_len_offset + 2;
                 if length payload \<noteq> value_offset + unat value_len then Some (Inl (corrupt ''WAL put value is truncated''))
                 else do {
                   key \<leftarrow> slice_range payload 2 value_len_offset;
                   val \<leftarrow> slice_range payload value_offset (length payload);
                   Some (Inr (key, val))
                 }
               })
        }))"

definition decode_delete_payload :: "bool \<Rightarrow> bytes \<Rightarrow> (db_error + bytes) exec" where
  "decode_delete_payload v2 payload =
     (if v2
      then (if length payload < 4 then Some (Inl (corrupt ''WAL v2 delete record too small''))
        else do {
          key_len \<leftarrow> read_u32 payload 0;
          if length payload \<noteq> 4 + unat key_len then Some (Inl (corrupt ''WAL v2 delete key is truncated''))
          else map_option Inr (slice_range payload 4 (length payload))
        })
      else (if length payload < 2 then Some (Inl (corrupt ''WAL delete record too small''))
        else do {
          key_len \<leftarrow> read_u16 payload 0;
          if length payload \<noteq> 2 + unat key_len then Some (Inl (corrupt ''WAL delete key is truncated''))
          else map_option Inr (slice_range payload 2 (length payload))
        }))"

definition validate_wal_key_length :: "bytes \<Rightarrow> db_error + unit" where
  "validate_wal_key_length key =
     (if length key > MAX_KEY_SIZE then Inl (DbInvalidArgument (Text ''key exceeds the maximum B-tree page key size''))
      else if length key \<ge> 2 ^ 32 then Inl (DbInvalidArgument (Text ''key exceeds the durable WAL length limit''))
      else Inr ())"

definition validate_wal_put_lengths :: "bytes \<Rightarrow> bytes \<Rightarrow> db_error + unit" where
  "validate_wal_put_lengths key val =
     (case validate_wal_key_length key of
        Inl e \<Rightarrow> Inl e
      | Inr _ \<Rightarrow> if length val \<ge> 2 ^ 32 then Inl (DbInvalidArgument (Text ''value exceeds the durable WAL length limit'')) else Inr ())"

section \<open>Commit envelopes\<close>

definition extend_digest :: "(bytes \<Rightarrow> u32) \<Rightarrow> u32 \<Rightarrow> wal_record \<Rightarrow> u32" where
  "extend_digest crc current r = crc (u32_le current @ wr_to_bytes crc r)"

definition digest_records :: "(bytes \<Rightarrow> u32) \<Rightarrow> wal_record list \<Rightarrow> u32" where
  "digest_records crc rs = foldl (extend_digest crc) 0 rs"

definition is_mutation :: "wal_record \<Rightarrow> bool" where
  "is_mutation r \<longleftrightarrow> wr_type r \<in> {Put, Delete, PutV2, DeleteV2}"

text \<open>The envelope of a commit record, checked against the mutations before it.\<close>

definition commit_envelope :: "(bytes \<Rightarrow> u32) \<Rightarrow> wal_record \<Rightarrow> wal_record list \<Rightarrow> (db_error + commit_record) exec" where
  "commit_envelope crc r pending =
     try_result (ok_or (corrupt ''invalid WAL commit envelope'') (wr_commit_record r)) (\<lambda>commit.
       Some (if cr_mutation_count commit \<noteq> word_of_nat (length pending) \<or> cr_digest commit \<noteq> digest_records crc pending
         then Inl (corrupt ''WAL commit does not match its mutation prefix'') else Inr commit))"

text \<open>Whether a commit is ahead of the manifest, in the analysis and in the recovery.\<close>

definition analysis_frontier :: "manifest option \<Rightarrow> commit_record \<Rightarrow> db_error + bool" where
  "analysis_frontier current commit =
     (case current of
        Some mf \<Rightarrow>
          (case cmp (cr_generation_id commit) (mf_generation_id mf) of
             Less \<Rightarrow> if cr_commit_id commit > mf_commit_id mf then Inl (corrupt ''WAL commit frontier is inconsistent with manifest'') else Inr False
           | Equal \<Rightarrow>
               if cr_commit_id commit \<noteq> mf_commit_id mf \<or> cr_root_page_id commit \<noteq> mf_root_page_id mf
                 \<or> cr_mutation_count commit \<noteq> mf_mutation_count mf \<or> cr_digest commit \<noteq> mf_digest mf
               then Inl (corrupt ''WAL commit disagrees with authoritative manifest'') else Inr False
           | Greater \<Rightarrow> if cr_commit_id commit \<le> mf_commit_id mf then Inl (corrupt ''WAL commit frontier is inconsistent with manifest'') else Inr True)
      | None \<Rightarrow> Inr (cr_generation_id commit > 0 \<or> cr_commit_id commit > 0))"

definition recovery_frontier :: "manifest option \<Rightarrow> commit_record \<Rightarrow> db_error + bool" where
  "recovery_frontier current commit =
     (case current of
        Some mf \<Rightarrow>
          (case cmp (cr_generation_id commit) (mf_generation_id mf) of
             Less \<Rightarrow> if cr_commit_id commit > mf_commit_id mf then Inl (corrupt ''WAL commit frontier is inconsistent with manifest'') else Inr False
           | Equal \<Rightarrow>
               if cr_commit_id commit \<noteq> mf_commit_id mf then Inl (corrupt ''WAL commit frontier is inconsistent with manifest'')
               else if cr_root_page_id commit \<noteq> mf_root_page_id mf \<or> cr_mutation_count commit \<noteq> mf_mutation_count mf \<or> cr_digest commit \<noteq> mf_digest mf
               then Inl (corrupt ''WAL commit disagrees with authoritative manifest'') else Inr False
           | Greater \<Rightarrow> if cr_commit_id commit \<le> mf_commit_id mf then Inl (corrupt ''WAL commit frontier is inconsistent with manifest'') else Inr True)
      | None \<Rightarrow> Inr True)"

section \<open>Analysis\<close>

record wal_analysis =
  wa_status :: parse_status
  wa_last_commit_end :: nat
  wa_has_unpublished_commit :: bool

text \<open>The loop over the records; the state is \<open>pending\<close>, \<open>last_commit_end\<close>, \<open>has_unpublished_commit\<close> and \<open>offset\<close>.\<close>

fun analyze_records ::
  "(bytes \<Rightarrow> u32) \<Rightarrow> manifest option \<Rightarrow> wal_record list \<Rightarrow> wal_record list \<Rightarrow> nat \<Rightarrow> bool \<Rightarrow> nat \<Rightarrow> (db_error + nat \<times> bool) exec" where
  "analyze_records crc current [] pending last_commit_end unpublished offset = Some (Inr (last_commit_end, unpublished))"
| "analyze_records crc current (r # rs) pending last_commit_end unpublished offset =
     (case usize_checked_add offset (length (wr_to_bytes crc r)) of
        None \<Rightarrow> Some (Inl (corrupt ''WAL record offset overflow''))
      | Some offset' \<Rightarrow>
          if is_mutation r then analyze_records crc current rs (pending @ [r]) last_commit_end unpublished offset'
          else if wr_type r = Commit
          then try_result (commit_envelope crc r pending) (\<lambda>commit.
                 try_result (Some (analysis_frontier current commit)) (\<lambda>ahead.
                   analyze_records crc current rs [] offset' (unpublished \<or> ahead) offset'))
          else analyze_records crc current rs pending last_commit_end unpublished offset')"

definition analyze_wal_bytes :: "(bytes \<Rightarrow> u32) \<Rightarrow> bytes \<Rightarrow> manifest option \<Rightarrow> (db_error + wal_analysis) exec" where
  "analyze_wal_bytes crc bytes current = do {
     (records, status) \<leftarrow> parse_records_with_status crc bytes;
     try_result (analyze_records crc current records [] 0 False 0) (\<lambda>(last_commit_end, unpublished).
       Some (Inr \<lparr>wa_status = status, wa_last_commit_end = last_commit_end, wa_has_unpublished_commit = unpublished\<rparr>))
   }"

text \<open>The content of the log after it was reconciled: the file is cut after its last commit.\<close>

definition reconcile_wal :: "(bytes \<Rightarrow> u32) \<Rightarrow> bytes \<Rightarrow> manifest option \<Rightarrow> (db_error + bytes) exec" where
  "reconcile_wal crc bytes current =
     try_result (analyze_wal_bytes crc bytes current) (\<lambda>analysis.
       Some (if wa_status analysis = Corrupt \<and> current = None then Inl (corrupt ''invalid complete WAL record'')
         else if wa_last_commit_end analysis \<ge> length bytes then Inr bytes
         else Inr (take (wa_last_commit_end analysis) bytes)))"

definition wal_has_unpublished_commits :: "(bytes \<Rightarrow> u32) \<Rightarrow> bytes \<Rightarrow> manifest option \<Rightarrow> (db_error + bool) exec" where
  "wal_has_unpublished_commits crc bytes current =
     try_result (analyze_wal_bytes crc bytes current) (\<lambda>analysis.
       Some (if wa_status analysis = Corrupt \<and> current = None then Inl (corrupt ''invalid complete WAL record'')
         else Inr (wa_has_unpublished_commit analysis)))"

section \<open>Recovery\<close>

record recovery_summary =
  rs_last_commit :: "commit_record option"
  rs_last_commit_offset :: u64
  rs_blob_changed :: bool

definition mutation_of_record :: "wal_record \<Rightarrow> (db_error + mutation) exec" where
  "mutation_of_record r =
     (case wr_type r of
        Put \<Rightarrow> try_result (decode_put_payload False (wr_payload r)) (\<lambda>(key, val). Some (Inr (MPut key val)))
      | PutV2 \<Rightarrow> try_result (decode_put_payload True (wr_payload r)) (\<lambda>(key, val). Some (Inr (MPut key val)))
      | Delete \<Rightarrow> try_result (decode_delete_payload False (wr_payload r)) (\<lambda>key. Some (Inr (MDelete key)))
      | DeleteV2 \<Rightarrow> try_result (decode_delete_payload True (wr_payload r)) (\<lambda>key. Some (Inr (MDelete key)))
      | Commit \<Rightarrow> Some (Inl (corrupt ''commit record appeared in WAL mutation prefix''))
      | _ \<Rightarrow> Some (Inl (corrupt ''non-mutation passed to WAL applier'')))"

fun replay_pending :: "wal_record list \<Rightarrow> bool \<Rightarrow> btree \<Rightarrow> blob_manager \<Rightarrow> bool db_op" where
  "replay_pending [] blob_changed t m = Some (Inr blob_changed, t, m)"
| "replay_pending (r # rs) blob_changed t m = do {
     d \<leftarrow> mutation_of_record r;
     (case d of
        Inl e \<Rightarrow> Some (Inl e, t, m)
      | Inr mu \<Rightarrow> do {
          (a, t', m') \<leftarrow> apply_mutation mu t m;
          (case a of
             Inl e \<Rightarrow> Some (Inl e, t', m')
           | Inr out \<Rightarrow> replay_pending rs (blob_changed \<or> mo_blob_changed out) t' m')
        })
   }"

text \<open>The loop of \<open>recover_from_wal\<close>. Its \<open>u64\<close> offset is added without a check.\<close>

fun recover_records ::
  "(bytes \<Rightarrow> u32) \<Rightarrow> manifest option \<Rightarrow> wal_record list \<Rightarrow> wal_record list \<Rightarrow> recovery_summary \<Rightarrow> u64 \<Rightarrow> btree \<Rightarrow> blob_manager \<Rightarrow> recovery_summary db_op" where
  "recover_records crc current [] pending summary offset t m = Some (Inr summary, t, m)"
| "recover_records crc current (r # rs) pending summary offset t m = do {
     let record_len = word_of_nat (length (wr_to_bytes crc r));
     if is_mutation r
     then do { offset' \<leftarrow> checked_add_word offset record_len; recover_records crc current rs (pending @ [r]) summary offset' t m }
     else if wr_type r = Commit
     then do {
       c \<leftarrow> commit_envelope crc r pending;
       (case c of
          Inl e \<Rightarrow> Some (Inl e, t, m)
        | Inr commit \<Rightarrow>
            (case recovery_frontier current commit of
               Inl e \<Rightarrow> Some (Inl e, t, m)
             | Inr False \<Rightarrow> do { offset' \<leftarrow> checked_add_word offset record_len; recover_records crc current rs [] summary offset' t m }
             | Inr True \<Rightarrow> do {
                 (a, t', m') \<leftarrow> replay_pending pending (rs_blob_changed summary) t m;
                 (case a of
                    Inl e \<Rightarrow> Some (Inl e, t', m')
                  | Inr blob_changed \<Rightarrow> do {
                      offset' \<leftarrow> checked_add_word offset record_len;
                      recover_records crc current rs []
                        \<lparr>rs_last_commit = Some commit, rs_last_commit_offset = offset, rs_blob_changed = blob_changed\<rparr> offset' t' m'
                    })
               }))
     }
     else do { offset' \<leftarrow> checked_add_word offset record_len; recover_records crc current rs pending summary offset' t m }
   }"

definition recover_from_wal :: "(bytes \<Rightarrow> u32) \<Rightarrow> bytes \<Rightarrow> manifest option \<Rightarrow> btree \<Rightarrow> blob_manager \<Rightarrow> recovery_summary db_op" where
  "recover_from_wal crc wal_data current t m = do {
     (records, status) \<leftarrow> parse_records_with_status crc wal_data;
     if status = Corrupt then Some (Inl (corrupt ''invalid complete WAL record''), t, m)
     else recover_records crc current records []
            \<lparr>rs_last_commit = None, rs_last_commit_offset = 0, rs_blob_changed = False\<rparr> 0 t m
   }"

section \<open>Decoders\<close>

lemma decode_put_payload_total: "decode_put_payload v2 payload \<noteq> None"
  by (simp add: decode_put_payload_def usize_checked_add_def page_simps slice_sub_bytes Let_def del: not_None_eq)

lemma decode_delete_payload_total: "decode_delete_payload v2 payload \<noteq> None"
  by (simp add: decode_delete_payload_def page_simps slice_sub_bytes del: not_None_eq)

lemma mutation_of_record_total: "mutation_of_record r \<noteq> None"
  using decode_put_payload_total decode_delete_payload_total
  by (auto simp: mutation_of_record_def try_result_eq_None simp del: not_None_eq split: record_type.splits prod.splits)

text \<open>The record that the write path appends for a mutation, and the lengths it can encode.\<close>

fun mutation_record :: "mutation \<Rightarrow> wal_record" where
  "mutation_record (MPut key val) = wr_put key val"
| "mutation_record (MDelete key) = wr_delete key"

fun encodable :: "mutation \<Rightarrow> bool" where
  "encodable (MPut key val) \<longleftrightarrow> length key + length val + 13 < 2 ^ 32"
| "encodable (MDelete key) \<longleftrightarrow> length key + 9 < 2 ^ 32"

lemma mutation_record_ok: "encodable mu \<Longrightarrow> wr_ok (mutation_record mu)"
  by (cases mu) (simp_all add: wr_ok_def wr_put_def wr_delete_def wr_new_def)

lemma is_mutation_record [simp]: "is_mutation (mutation_record mu)"
  by (cases mu) (simp_all add: is_mutation_def wr_put_def wr_delete_def wr_new_def)

lemma mutation_of_mutation_record:
  assumes "encodable mu"
  shows "mutation_of_record (mutation_record mu) = Some (Inr mu)"
proof (cases mu)
  case (MPut key val)
  have l: "unat (word_of_nat (length key) :: u32) = length key" "unat (word_of_nat (length val) :: u32) = length val"
    using assms MPut by simp_all
  show ?thesis using MPut assms
    by (simp add: mutation_of_record_def wr_put_def wr_new_def decode_put_payload_def read_u32_def slice_range_def l usize_checked_add_def Let_def)
next
  case (MDelete key)
  have l: "unat (word_of_nat (length key) :: u32) = length key" using assms MDelete by simp
  show ?thesis using MDelete assms
    by (simp add: mutation_of_record_def wr_delete_def wr_new_def decode_delete_payload_def read_u32_def slice_range_def l)
qed

section \<open>Replay of committed batches\<close>

lemma replay_pending_records:
  "list_all encodable mus \<Longrightarrow> replay_pending (map mutation_record mus) b t m = apply_all mus b t m"
proof (induction mus arbitrary: b t m)
  case (Cons mu mus)
  show ?case
  proof (cases "apply_mutation mu t m")
    case (Some y)
    obtain a t' m' where "y = (a, t', m')" by (cases y) auto
    then show ?thesis using Some Cons mutation_of_mutation_record [of mu] by (cases a) simp_all
  qed (use Cons.prems mutation_of_mutation_record [of mu] in simp)
qed simp

text \<open>A committed batch is its mutations and its commit record.\<close>

type_synonym batch = "mutation list \<times> commit_record"

definition batch_records :: "batch \<Rightarrow> wal_record list" where
  "batch_records b = map mutation_record (fst b) @ [wr_commit (snd b)]"

definition records_bytes :: "(bytes \<Rightarrow> u32) \<Rightarrow> wal_record list \<Rightarrow> bytes" where
  "records_bytes crc rs = concat (map (wr_to_bytes crc) rs)"

definition batches_records :: "batch list \<Rightarrow> wal_record list" where
  "batches_records bs = concat (map batch_records bs)"

text \<open>The envelope of the batch describes its mutations, and its place relative to the manifest is consistent.\<close>

definition batch_ok :: "(bytes \<Rightarrow> u32) \<Rightarrow> manifest option \<Rightarrow> batch \<Rightarrow> bool" where
  "batch_ok crc current b \<longleftrightarrow> list_all encodable (fst b) \<and> cr_mutation_count (snd b) = word_of_nat (length (fst b))
     \<and> cr_digest (snd b) = digest_records crc (map mutation_record (fst b)) \<and> (\<exists>q. recovery_frontier current (snd b) = Inr q)"

definition ahead :: "manifest option \<Rightarrow> batch list \<Rightarrow> batch list" where
  "ahead current bs = filter (\<lambda>b. recovery_frontier current (snd b) = Inr True) bs"

fun summary_of :: "(bytes \<Rightarrow> u32) \<Rightarrow> manifest option \<Rightarrow> batch list \<Rightarrow> nat \<Rightarrow> recovery_summary \<Rightarrow> recovery_summary" where
  "summary_of crc current [] start s = s"
| "summary_of crc current (b # bs) start s =
     summary_of crc current bs (start + length (records_bytes crc (batch_records b)))
       (if recovery_frontier current (snd b) = Inr True
        then s\<lparr>rs_last_commit := Some (snd b), rs_last_commit_offset := word_of_nat (start + length (records_bytes crc (map mutation_record (fst b))))\<rparr>
        else s)"

lemma records_bytes_simps [simp]:
  "records_bytes crc [] = []" "records_bytes crc (r # rs) = wr_to_bytes crc r @ records_bytes crc rs"
  "records_bytes crc (rs @ rs') = records_bytes crc rs @ records_bytes crc rs'"
  by (simp_all add: records_bytes_def)

lemma recover_mutations:
  assumes "start + length (records_bytes crc (map mutation_record mus)) < 2 ^ 64"
  shows "recover_records crc current (map mutation_record mus @ rs) pending s (word_of_nat start) t m
    = recover_records crc current rs (pending @ map mutation_record mus) s (word_of_nat (start + length (records_bytes crc (map mutation_record mus)))) t m"
  using assms
proof (induction mus arbitrary: start pending)
  case (Cons mu mus)
  let ?n = "length (wr_to_bytes crc (mutation_record mu))"
  have "checked_add_word (word_of_nat start :: u64) (word_of_nat ?n) = Some (word_of_nat (start + ?n))"
    by (rule checked_add_nat) (use Cons.prems in simp)
  then show ?case using Cons.IH [of "start + ?n" "pending @ [mutation_record mu]"] Cons.prems
    by (simp add: add.assoc del: wr_to_bytes_length of_nat_add)
qed simp

lemma commit_envelope_batch:
  "batch_ok crc current b \<Longrightarrow> commit_envelope crc (wr_commit (snd b)) (map mutation_record (fst b)) = Some (Inr (snd b))"
  by (simp add: commit_envelope_def wr_commit_record_def wr_commit_def wr_new_def cr_from_to_bytes batch_ok_def)

lemma not_mutation_commit [simp]: "\<not> is_mutation (wr_commit c)" "wr_type (wr_commit c) = Commit"
  by (simp_all add: is_mutation_def wr_commit_def wr_new_def)

lemma recover_batch:
  fixes start :: nat
  assumes ok: "batch_ok crc current b" and fit: "start + length (records_bytes crc (batch_records b)) < 2 ^ 64"
  shows "recover_records crc current (batch_records b @ rs) [] s (word_of_nat start) t m =
    (let next = word_of_nat (start + length (records_bytes crc (batch_records b)))
     in if recovery_frontier current (snd b) = Inr True
        then then_run (apply_all (fst b) (rs_blob_changed s) t m) (\<lambda>bc t m. recover_records crc current rs []
          \<lparr>rs_last_commit = Some (snd b), rs_last_commit_offset = word_of_nat (start + length (records_bytes crc (map mutation_record (fst b)))), rs_blob_changed = bc\<rparr>
          next t m)
        else recover_records crc current rs [] s next t m)"
proof -
  let ?n = "length (records_bytes crc (map mutation_record (fst b)))" and ?c = "length (wr_to_bytes crc (wr_commit (snd b)))"
  have e: "recover_records crc current (batch_records b @ rs) [] s (word_of_nat start) t m
    = recover_records crc current (wr_commit (snd b) # rs) (map mutation_record (fst b)) s (word_of_nat (start + ?n)) t m"
    using recover_mutations [of start crc "fst b" current "wr_commit (snd b) # rs" "[]" s t m] fit by (simp add: batch_records_def)
  have step: "checked_add_word (word_of_nat (start + ?n) :: u64) (word_of_nat ?c) = Some (word_of_nat (start + ?n + ?c))"
    by (rule checked_add_nat) (use fit in \<open>simp add: batch_records_def\<close>)
  have total: "start + length (records_bytes crc (batch_records b)) = start + ?n + ?c" by (simp add: batch_records_def)
  note env = commit_envelope_batch [OF ok]
  have replay: "replay_pending (map mutation_record (fst b)) (rs_blob_changed s) t m = apply_all (fst b) (rs_blob_changed s) t m"
    by (rule replay_pending_records) (use ok in \<open>simp add: batch_ok_def\<close>)
  obtain q where q: "recovery_frontier current (snd b) = Inr q" using ok by (auto simp: batch_ok_def)
  show ?thesis
  proof (cases "apply_all (fst b) (rs_blob_changed s) t m")
    case None
    then show ?thesis unfolding e total Let_def by (cases q) (simp_all add: env q step replay Let_def del: wr_to_bytes_length of_nat_add)
  next
    case (Some y)
    obtain a t' m' where y: "y = (a, t', m')" by (cases y) auto
    show ?thesis unfolding e total Let_def
      by (cases q; cases a) (simp_all add: env q step replay Some y Let_def del: wr_to_bytes_length of_nat_add)
  qed
qed

lemma summary_of_flag:
  "(summary_of crc current bs start (s\<lparr>rs_blob_changed := x\<rparr>))\<lparr>rs_blob_changed := y\<rparr> = (summary_of crc current bs start s)\<lparr>rs_blob_changed := y\<rparr>"
proof (induction bs arbitrary: start s)
  case (Cons b bs)
  let ?s = "\<lparr>rs_last_commit = Some (snd b), rs_last_commit_offset = word_of_nat (start + length (records_bytes crc (map mutation_record (fst b)))), rs_blob_changed = rs_blob_changed s\<rparr>"
  show ?case using Cons.IH [of _ ?s] Cons.IH [of _ s] by (cases s) simp
qed simp

lemma recover_batches:
  assumes ok: "list_all (batch_ok crc current) bs"
    and fit: "start + length (records_bytes crc (batches_records bs @ map mutation_record tail)) < 2 ^ 64"
  shows "recover_records crc current (batches_records bs @ map mutation_record tail) [] s (word_of_nat start) t m
    = then_run (apply_all (concat (map fst (ahead current bs))) (rs_blob_changed s) t m)
        (\<lambda>bc t m. Some (Inr ((summary_of crc current bs start s)\<lparr>rs_blob_changed := bc\<rparr>), t, m))"
  using assms
proof (induction bs arbitrary: start s t m)
  case Nil
  then show ?case using recover_mutations [of start crc tail current "[]" "[]" s t m] by (simp add: batches_records_def ahead_def)
next
  case (Cons b bs)
  let ?n = "length (records_bytes crc (batch_records b))"
  let ?s = "\<lambda>bc. \<lparr>rs_last_commit = Some (snd b), rs_last_commit_offset = word_of_nat (start + length (records_bytes crc (map mutation_record (fst b)))), rs_blob_changed = bc\<rparr>"
  have fit: "start + ?n + length (records_bytes crc (batches_records bs @ map mutation_record tail)) < 2 ^ 64"
    using Cons.prems(2) by (simp add: batches_records_def)
  have b: "batch_ok crc current b" "list_all (batch_ok crc current) bs" using Cons.prems(1) by simp_all
  note IH = Cons.IH [OF b(2) fit]
  have split: "batches_records (b # bs) @ map mutation_record tail = batch_records b @ batches_records bs @ map mutation_record tail"
    by (simp add: batches_records_def)
  note rb = recover_batch [OF b(1), of start "batches_records bs @ map mutation_record tail" s t m]
  have flag: "(summary_of crc current bs k (?s bc))\<lparr>rs_blob_changed := y\<rparr> = (summary_of crc current bs k (?s (rs_blob_changed s)))\<lparr>rs_blob_changed := y\<rparr>" for k bc y
    using summary_of_flag [where s = "?s (rs_blob_changed s)" and x = bc and y = y] by simp
  show ?case
  proof (cases "recovery_frontier current (snd b) = Inr True")
    case True
    let ?rest = "concat (map fst (ahead current bs))" and ?k = "start + ?n"
    have s: "s\<lparr>rs_last_commit := Some (snd b), rs_last_commit_offset := word_of_nat (start + length (records_bytes crc (map mutation_record (fst b))))\<rparr>
      = ?s (rs_blob_changed s)" by (cases s) simp
    have "recover_records crc current (batches_records bs @ map mutation_record tail) [] (?s bc) (word_of_nat ?k)
      = (\<lambda>t m. then_run (apply_all ?rest bc t m)
          (\<lambda>bc t m. Some (Inr ((summary_of crc current (b # bs) start s)\<lparr>rs_blob_changed := bc\<rparr>), t, m)))" for bc
      unfolding fun_eq_iff IH [of "?s bc"] flag [where k = ?k and bc = bc] using True by (simp add: s del: of_nat_add)
    moreover have "concat (map fst (ahead current (b # bs))) = fst b @ ?rest" using True by (simp add: ahead_def)
    ultimately show ?thesis using rb fit True by (simp add: split apply_all_append then_run_assoc Let_def del: of_nat_add summary_of.simps)
  next
    case False
    then show ?thesis using rb fit IH by (simp add: split ahead_def Let_def del: of_nat_add)
  qed
qed

section \<open>A log cut anywhere\<close>

definition wal_log :: "(bytes \<Rightarrow> u32) \<Rightarrow> batch list \<Rightarrow> mutation list \<Rightarrow> bytes" where
  "wal_log crc bs tail = records_bytes crc (batches_records bs @ map mutation_record tail)"

lemma cut_batches:
  "\<exists>i tail'. i \<le> length bs \<and> take j (batches_records bs @ map mutation_record tail) = batches_records (take i bs) @ map mutation_record tail'
    \<and> (i < length bs \<longrightarrow> j < length (batches_records (take (Suc i) bs)))"
proof (induction bs arbitrary: j)
  case Nil
  show ?case by (intro exI [of _ 0] exI [of _ "take j tail"]) (simp add: batches_records_def take_map)
next
  case (Cons b bs)
  show ?case
  proof (cases "j < length (batch_records b)")
    case True
    then have "take j (batches_records (b # bs) @ map mutation_record tail) = map mutation_record (take j (fst b))"
      by (simp add: batches_records_def batch_records_def take_map)
    then show ?thesis using True by (intro exI [of _ 0] exI [of _ "take j (fst b)"]) (simp add: batches_records_def)
  next
    case False
    obtain i tail' where i: "i \<le> length bs" "i < length bs \<longrightarrow> j - length (batch_records b) < length (batches_records (take (Suc i) bs))"
      "take (j - length (batch_records b)) (batches_records bs @ map mutation_record tail) = batches_records (take i bs) @ map mutation_record tail'"
      using Cons.IH [of "j - length (batch_records b)"] by blast
    then show ?thesis using False by (intro exI [of _ "Suc i"] exI [of _ tail']) (auto simp: batches_records_def)
  qed
qed

lemma records_bytes_take_mono: "n \<le> n' \<Longrightarrow> length (records_bytes crc (take n rs)) \<le> length (records_bytes crc (take n' rs))"
proof (induction rs arbitrary: n n')
  case (Cons r rs)
  then show ?case by (cases n; cases n') auto
qed simp

lemma batch_records_ok: "batch_ok crc current b \<Longrightarrow> list_all wr_ok (batch_records b)"
  by (auto simp: batch_records_def batch_ok_def wr_commit_def wr_new_def wr_ok_def [of "\<lparr>wr_type = _, wr_payload = _\<rparr>"] list_all_iff mutation_record_ok)

lemma parse_cut:
  assumes "list_all wr_ok rs"
  obtains j st where "parse_records_with_status crc (take k (records_bytes crc rs)) = Some (take j rs, st)" and "st \<noteq> Corrupt"
    and "length (records_bytes crc (take j rs)) \<le> k" and "j < length rs \<Longrightarrow> k < length (records_bytes crc (take (Suc j) rs))"
  using parse_log_prefix [OF assms] unfolding records_bytes_def by metis

lemma batches_records_take_Suc:
  assumes "i < length bs"
  shows "take (length (batches_records (take (Suc i) bs))) (batches_records bs @ rs) = batches_records (take (Suc i) bs)"
    and "length (batches_records (take (Suc i) bs)) \<le> length (batches_records bs)"
proof -
  have "batches_records bs = batches_records (take (Suc i) bs) @ batches_records (drop (Suc i) bs)"
    by (metis append_take_drop_id batches_records_def concat_append map_append)
  then show "take (length (batches_records (take (Suc i) bs))) (batches_records bs @ rs) = batches_records (take (Suc i) bs)"
    "length (batches_records (take (Suc i) bs)) \<le> length (batches_records bs)" by simp_all
qed

lemma wal_cut:
  assumes ok: "list_all (batch_ok crc current) bs" and tail: "list_all encodable tail"
  obtains i tail' st where "i \<le> length bs"
    and "parse_records_with_status crc (take k (wal_log crc bs tail)) = Some (batches_records (take i bs) @ map mutation_record tail', st)" and "st \<noteq> Corrupt"
    and "length (wal_log crc (take i bs) tail') \<le> k" and "length (wal_log crc (take i bs) tail') \<le> length (wal_log crc bs tail)"
    and "i < length bs \<Longrightarrow> k < length (wal_log crc (take (Suc i) bs) [])"
proof -
  let ?rs = "batches_records bs @ map mutation_record tail"
  have "list_all wr_ok ?rs" using ok tail batch_records_ok mutation_record_ok by (fastforce simp: batches_records_def list_all_iff)
  then obtain j st where j: "parse_records_with_status crc (take k (wal_log crc bs tail)) = Some (take j ?rs, st)" "st \<noteq> Corrupt"
    "length (records_bytes crc (take j ?rs)) \<le> k" "j < length ?rs \<Longrightarrow> k < length (records_bytes crc (take (Suc j) ?rs))"
    unfolding wal_log_def by (rule parse_cut [where crc = crc and k = k]) blast
  obtain i tail' where i: "i \<le> length bs" "take j ?rs = batches_records (take i bs) @ map mutation_record tail'"
    "i < length bs \<longrightarrow> j < length (batches_records (take (Suc i) bs))"
    using cut_batches [of bs j tail] by blast
  have "k < length (wal_log crc (take (Suc i) bs) [])" if "i < length bs"
  proof -
    let ?n = "length (batches_records (take (Suc i) bs))"
    have n: "take ?n ?rs = batches_records (take (Suc i) bs)" "?n \<le> length ?rs" using batches_records_take_Suc [OF that] by (simp_all add: le_trans)
    then have "k < length (records_bytes crc (take (Suc j) ?rs))" using j(4) i(3) that n(2) by linarith
    also have "\<dots> \<le> length (records_bytes crc (take ?n ?rs))" by (rule records_bytes_take_mono) (use i(3) that in simp)
    finally show ?thesis unfolding n(1) by (simp add: wal_log_def)
  qed
  moreover have "length (records_bytes crc (take j ?rs)) \<le> length (records_bytes crc ?rs)"
    using records_bytes_take_mono [of j "max j (length ?rs)" crc ?rs] by simp
  ultimately show thesis using that [OF i(1), of tail' st] j(1-3) unfolding i(2) wal_log_def by blast
qed

lemma recover_cut_log:
  assumes ok: "list_all (batch_ok crc current) bs" and tail: "list_all encodable tail" and size: "length (wal_log crc bs tail) < 2 ^ 64"
  shows "\<exists>i tail'. i \<le> length bs \<and> length (wal_log crc (take i bs) tail') \<le> k \<and> (i < length bs \<longrightarrow> k < length (wal_log crc (take (Suc i) bs) []))
    \<and> recover_from_wal crc (take k (wal_log crc bs tail)) current t m
      = then_run (apply_all (concat (map fst (ahead current (take i bs)))) False t m)
          (\<lambda>bc t m. Some (Inr ((summary_of crc current (take i bs) 0 \<lparr>rs_last_commit = None, rs_last_commit_offset = 0, rs_blob_changed = False\<rparr>)\<lparr>rs_blob_changed := bc\<rparr>), t, m))"
proof -
  obtain i tail' st where i: "i \<le> length bs"
    "parse_records_with_status crc (take k (wal_log crc bs tail)) = Some (batches_records (take i bs) @ map mutation_record tail', st)" "st \<noteq> Corrupt"
    "length (wal_log crc (take i bs) tail') \<le> k" "length (wal_log crc (take i bs) tail') \<le> length (wal_log crc bs tail)"
    "i < length bs \<Longrightarrow> k < length (wal_log crc (take (Suc i) bs) [])"
    by (rule wal_cut [OF ok tail, where k = k]) blast
  have ok': "list_all (batch_ok crc current) (take i bs)" using ok by (auto simp: list_all_iff dest: in_set_takeD)
  have fit: "0 + length (records_bytes crc (batches_records (take i bs) @ map mutation_record tail')) < 2 ^ 64" using i(5) size by (simp add: wal_log_def)
  show ?thesis using recover_batches [OF ok' fit] i by (intro exI [of _ i] exI [of _ tail']) (simp add: recover_from_wal_def)
qed

lemma summary_last_commit:
  "rs_last_commit (summary_of crc current bs start s) = (if ahead current bs = [] then rs_last_commit s else Some (snd (last (ahead current bs))))"
proof (induction bs arbitrary: start s)
  case (Cons b bs)
  show ?case by (cases "recovery_frontier current (snd b) = Inr True") (simp_all add: Cons.IH ahead_def)
qed (simp add: ahead_def)

section \<open>Analysis of a log\<close>

lemma analysis_frontier_ok: "recovery_frontier current c = Inr q \<Longrightarrow> \<exists>q'. analysis_frontier current c = Inr q' \<and> (current \<noteq> None \<longrightarrow> q' = q)"
proof (cases current)
  case (Some mf)
  define w where "w = cmp (cr_generation_id c) (mf_generation_id mf)"
  show "recovery_frontier current c = Inr q \<Longrightarrow> \<exists>q'. analysis_frontier current c = Inr q' \<and> (current \<noteq> None \<longrightarrow> q' = q)"
    by (cases w) (simp_all add: recovery_frontier_def analysis_frontier_def Some flip: w_def split: if_splits)
qed (simp add: analysis_frontier_def)

lemma analyze_mutations:
  assumes "start + length (records_bytes crc (map mutation_record mus)) < 2 ^ 64"
  shows "analyze_records crc current (map mutation_record mus @ rs) pending lce unpub start
    = analyze_records crc current rs (pending @ map mutation_record mus) lce unpub (start + length (records_bytes crc (map mutation_record mus)))"
  using assms
proof (induction mus arbitrary: start pending)
  case (Cons mu mus)
  then show ?case using Cons.IH [of "start + length (wr_to_bytes crc (mutation_record mu))" "pending @ [mutation_record mu]"]
    by (simp add: usize_checked_add_def add.assoc del: wr_to_bytes_length)
qed simp

lemma analyze_batches:
  assumes ok: "list_all (batch_ok crc current) bs"
    and fit: "start + length (records_bytes crc (batches_records bs @ map mutation_record tail)) < 2 ^ 64"
  shows "\<exists>q. analyze_records crc current (batches_records bs @ map mutation_record tail) [] lce unpub start
    = Some (Inr (if bs = [] then lce else start + length (records_bytes crc (batches_records bs)), q))
    \<and> (current \<noteq> None \<longrightarrow> q = (unpub \<or> ahead current bs \<noteq> []))"
  using assms
proof (induction bs arbitrary: start lce unpub)
  case Nil
  then show ?case using analyze_mutations [of start crc tail current "[]" "[]" lce unpub] by (simp add: batches_records_def ahead_def)
next
  case (Cons b bs)
  let ?n = "length (records_bytes crc (map mutation_record (fst b)))" and ?m = "start + length (records_bytes crc (batch_records b))"
  have b: "batch_ok crc current b" "list_all (batch_ok crc current) bs" using Cons.prems(1) by simp_all
  obtain q where q: "recovery_frontier current (snd b) = Inr q" using b(1) by (auto simp: batch_ok_def)
  obtain q' where q': "analysis_frontier current (snd b) = Inr q'" "current \<noteq> None \<longrightarrow> q' = q" using analysis_frontier_ok [OF q] by blast
  have fit: "?m + length (records_bytes crc (batches_records bs @ map mutation_record tail)) < 2 ^ 64"
    using Cons.prems(2) by (simp add: batches_records_def)
  have m: "start + ?n + length (wr_to_bytes crc (wr_commit (snd b))) = ?m" by (simp add: batch_records_def)
  have "analyze_records crc current (batches_records (b # bs) @ map mutation_record tail) [] lce unpub start
    = analyze_records crc current (batches_records bs @ map mutation_record tail) [] ?m (unpub \<or> q') ?m"
    using analyze_mutations [of start crc "fst b" current "wr_commit (snd b) # batches_records bs @ map mutation_record tail" "[]" lce unpub]
      fit m commit_envelope_batch [OF b(1)] q'(1)
    by (simp add: batches_records_def batch_records_def usize_checked_add_def add.assoc del: wr_to_bytes_length)
  then show ?case using Cons.IH [OF b(2) fit, of ?m "unpub \<or> q'"] q q'(2)
    by (cases "bs = []") (auto simp: ahead_def batches_records_def)
qed

lemma reconcile_cut_log:
  assumes ok: "list_all (batch_ok crc current) bs" and tail: "list_all encodable tail" and size: "length (wal_log crc bs tail) < 2 ^ 64"
  shows "\<exists>i. i \<le> length bs \<and> length (wal_log crc (take i bs) []) \<le> k \<and> (i < length bs \<longrightarrow> k < length (wal_log crc (take (Suc i) bs) []))
    \<and> reconcile_wal crc (take k (wal_log crc bs tail)) current = Some (Inr (wal_log crc (take i bs) []))
    \<and> (current \<noteq> None \<longrightarrow> wal_has_unpublished_commits crc (take k (wal_log crc bs tail)) current = Some (Inr (ahead current (take i bs) \<noteq> [])))"
proof -
  let ?log = "take k (wal_log crc bs tail)"
  obtain i tail' st where i: "i \<le> length bs"
    "parse_records_with_status crc ?log = Some (batches_records (take i bs) @ map mutation_record tail', st)" "st \<noteq> Corrupt"
    "length (wal_log crc (take i bs) tail') \<le> k" "length (wal_log crc (take i bs) tail') \<le> length (wal_log crc bs tail)"
    "i < length bs \<Longrightarrow> k < length (wal_log crc (take (Suc i) bs) [])"
    by (rule wal_cut [OF ok tail, where k = k]) blast
  have ok': "list_all (batch_ok crc current) (take i bs)" using ok by (auto simp: list_all_iff dest: in_set_takeD)
  have fit: "0 + length (records_bytes crc (batches_records (take i bs) @ map mutation_record tail')) < 2 ^ 64" using i(5) size by (simp add: wal_log_def)
  let ?stop = "length (wal_log crc (take i bs) [])"
  obtain q where q: "analyze_records crc current (batches_records (take i bs) @ map mutation_record tail') [] 0 False 0 = Some (Inr (?stop, q))"
    "current \<noteq> None \<longrightarrow> q = (ahead current (take i bs) \<noteq> [])"
    using analyze_batches [OF ok' fit, of 0 False] by (auto simp: wal_log_def batches_records_def split: if_splits)
  have le: "?stop \<le> k" using i(4) by (simp add: wal_log_def)
  have "wal_log crc bs tail = wal_log crc (take i bs) [] @ records_bytes crc (batches_records (drop i bs) @ map mutation_record tail)"
    using append_take_drop_id [of i bs] by (simp add: wal_log_def batches_records_def flip: records_bytes_simps(3) concat_append map_append append_assoc)
  then have "take ?stop ?log = wal_log crc (take i bs) []" using le by simp
  moreover have "?log = take ?stop ?log" if "length ?log \<le> ?stop" by (rule take_all [OF that, symmetric])
  ultimately have "reconcile_wal crc ?log current = Some (Inr (wal_log crc (take i bs) []))"
    using i(2,3) q(1) by (auto simp: reconcile_wal_def analyze_wal_bytes_def)
  then show ?thesis using i le q by (intro exI [of _ i]) (auto simp: wal_has_unpublished_commits_def analyze_wal_bytes_def)
qed

end
