(* ===== verification/Db_Properties.thy ===== *)
theory Db_Properties
  imports Wal_Recovery Tree_Properties
begin

text \<open>
  What the tree, the blob store and the log promise together: the map that puts, deletes and reads work on, and the
  map that is recovered from a log that was cut anywhere.
\<close>

section \<open>A fresh database\<close>

lemma fresh_db_holds:
  assumes "bt_new = Some t"
  shows "db_holds t (bl_with_threshold_and_mode threshold segmented) 0 Map.empty"
  by (rule db_holdsI [OF bt_new_contents [OF assms] blobs.holds_empty [OF manager_ok_new]]) (simp_all add: pointers_ok_def view_def)

lemma fresh_db: "\<exists>t. bt_new = Some t \<and> db_holds t (bl_with_threshold_and_mode threshold segmented) 0 Map.empty
  \<and> blob_bytes (bl_with_threshold_and_mode threshold segmented) = 0"
  using sample_tree fresh_db_holds by (fastforce simp: blob_bytes_def bl_with_threshold_and_mode_def bl_with_threshold_def)

lemma upsert_on_fresh:
  assumes "bt_new = Some t"
  shows "\<exists>t1. bt_upsert t [1] [2] = Some (Inr (), t1)"
proof -
  obtain f where f: "bt_root t = 0" "\<And>p. tree_node t p = (if p = 0 then Some f else None)" "leaf_page f []" "free_of f = 4048"
    using bt_new_leaf assms by (metis option.inject)
  have "find_leaf t [1] = Some (Inr 0)"
    using f leaf_pageD [OF f(3)] by (simp add: find_leaf_def find_leaf_from.simps MAX_ROUTING_DEPTH_def page_simps)
  then have "leaf_room t [1] (length [2 :: byte])" using f by (auto simp: leaf_room_def)
  then show ?thesis by (rule bt_upsert_room [OF bt_new_contents [OF assms], rotated]) simp
qed

text \<open>A first put, of an inline value.\<close>

lemma fresh_put:
  obtains t t1 out where "bt_new = Some t" and "apply_mutation (MPut [1] [2]) t (bl_with_threshold_and_mode 9 False) = Some (Inr out, t1, bl_with_threshold_and_mode 9 False)"
proof -
  obtain t where t: "bt_new = Some t" using sample_tree by blast
  obtain t1 where t1: "bt_upsert t [1] [2] = Some (Inr (), t1)" using upsert_on_fresh [OF t] by blast
  have l: "bt_lookup t [1] = Some (Inr NotFound)" using bt_lookup_contents [OF bt_new_contents [OF t], of "[1]"] by simp
  have "apply_mutation (MPut [1] [2]) t (bl_with_threshold_and_mode 9 False)
    = Some (Inr \<lparr>mo_changed = True, mo_blob_changed = False, mo_blob_deletion_succeeded = True\<rparr>, t1, bl_with_threshold_and_mode 9 False)"
    using t1 l by (simp add: apply_put_def install_value_def retire_previous_def should_separate_def bl_with_threshold_and_mode_def bl_with_threshold_def)
  then show thesis using that [OF t] by blast
qed

section \<open>Puts, deletes and reads\<close>

text \<open>C4. A put or a delete on a tree and a blob manager that hold a map returns. When it fails, whether in the blob
  manager, in the tree or in the descent, the pages, root and allocator of the tree, the map and the values and marks of
  the blob files are as before: a blob that was appended for a value that could not be installed is rolled back. When it
  succeeds the map is updated at the key, the blob that the key used is marked and nothing else is, and the reported
  change is exact.\<close>

theorem mutation_refines:
  assumes "db_holds t m h M" and "admitted mu m"
  shows "\<exists>r t' m'. apply_mutation mu t m = Some (r, t', m') \<and>
    (case r of
       Inl _ \<Rightarrow> untouched t t' \<and> db_holds t' m' h M \<and> blob_values m' = blob_values m \<and> blob_deleted m' = blob_deleted m
     | Inr out \<Rightarrow> (\<exists>h' \<le> Suc h. db_holds t' m' h' (mutation_map mu M)) \<and> require_blob_deletion out ctxt = Inr ()
         \<and> (mo_changed out \<longleftrightarrow> (case mu of MPut _ _ \<Rightarrow> True | MDelete key \<Rightarrow> M key \<noteq> None)))"
  using apply_mutation_answers [OF assms]
proof (cases rule: answersE)
  case (err e t' m')
  then show ?thesis by simp
next
  case (ok out t' m' h')
  then show ?thesis by (auto simp: require_blob_deletion_def)
qed

theorem mutation_refines_witness:
  "\<exists>t m out t'. db_holds t m 0 Map.empty \<and> admitted (MPut [1] [2]) m \<and> apply_mutation (MPut [1] [2]) t m = Some (Inr out, t', m)
    \<and> (\<exists>h' \<le> 1. db_holds t' m h' [[1] \<mapsto> [2]]) \<and> mo_changed out"
proof -
  let ?m = "bl_with_threshold_and_mode 9 False"
  obtain t t1 out where p: "bt_new = Some t" "apply_mutation (MPut [1] [2]) t ?m = Some (Inr out, t1, ?m)" by (rule fresh_put)
  have t: "db_holds t ?m 0 Map.empty" by (rule fresh_db_holds [OF p(1)])
  have a: "admitted (MPut [1] [2]) ?m" by (simp add: append_fits_def bl_with_threshold_and_mode_def bl_with_threshold_def)
  have "(\<exists>h' \<le> Suc 0. db_holds t1 ?m h' (mutation_map (MPut [1] [2]) Map.empty)) \<and> mo_changed out"
    using mutation_refines [OF t a, of "[]"] unfolding p(2) by simp
  then show ?thesis using t a p(2) by (intro exI [of _ t] exI [of _ ?m] exI [of _ out] exI [of _ t1]) simp
qed

text \<open>The handle from its creation: mutations, failed ones included, and sweeps of dead blob files.\<close>

inductive db_run :: "btree \<Rightarrow> blob_manager \<Rightarrow> (bytes \<rightharpoonup> bytes) \<Rightarrow> bool" where
  start: "bt_new = Some t \<Longrightarrow> db_run t (bl_with_threshold_and_mode threshold segmented) Map.empty"
| mutate: "db_run t m M \<Longrightarrow> short mu \<Longrightarrow> blob_bytes m + mutation_bytes mu < 2 ^ 64 \<Longrightarrow> apply_mutation mu t m = Some (Inr out, t', m')
    \<Longrightarrow> db_run t' m' (mutation_map mu M)"
| failed: "db_run t m M \<Longrightarrow> short mu \<Longrightarrow> blob_bytes m + mutation_bytes mu < 2 ^ 64 \<Longrightarrow> apply_mutation mu t m = Some (Inl e, t', m')
    \<Longrightarrow> db_run t' m' M"
| sweep: "db_run t m M \<Longrightarrow> bl_gc m = Some (n, m') \<Longrightarrow> db_run t m' M"

lemma db_holds_sweep: "db_holds t m h M \<Longrightarrow> bl_gc m = Some (n, m') \<Longrightarrow> db_holds t m' h M"
  using blobs.swept_holds by (fastforce simp: db_holds_def blob_swept_def)

lemma db_run_holds: "db_run t m M \<Longrightarrow> \<exists>h. db_holds t m h M"
proof (induction rule: db_run.induct)
  case (start t threshold segmented)
  then show ?case using fresh_db_holds by blast
next
  case (mutate t m M mu out t' m')
  then obtain h where "db_holds t m h M" by blast
  from apply_mutation_answers [OF this short_admitted [OF mutate.hyps(2,3)]] show ?case
    by (cases rule: answersE) (use mutate.hyps(4) in auto)
next
  case (failed t m M mu e t' m')
  then obtain h where "db_holds t m h M" by blast
  from apply_mutation_answers [OF this short_admitted [OF failed.hyps(2,3)]] show ?case
    by (cases rule: answersE) (use failed.hyps(4) in auto)
qed (use db_holds_sweep in blast)



section \<open>Recovery\<close>

text \<open>The mutations of the batches that are ahead of the manifest, in order.\<close>

definition replayed :: "manifest option \<Rightarrow> batch list \<Rightarrow> mutation list" where
  "replayed current bs = concat (map fst (ahead current bs))"

text \<open>The log ends, after \<open>k\<close> bytes, within the batch after the first \<open>i\<close>.\<close>

definition ends_after :: "(bytes \<Rightarrow> u32) \<Rightarrow> batch list \<Rightarrow> nat \<Rightarrow> nat \<Rightarrow> bool" where
  "ends_after crc bs k i \<longleftrightarrow> i \<le> length bs \<and> length (wal_log crc (take i bs) []) \<le> k \<and> (i < length bs \<longrightarrow> k < length (wal_log crc (take (Suc i) bs) []))"

lemma encodable_short: "encodable mu \<Longrightarrow> short mu"
  by (cases mu) auto

lemma replayed_short:
  assumes "list_all (batch_ok crc current) bs"
  shows "list_all short (replayed current (take i bs))"
  using assms encodable_short by (fastforce simp: replayed_def ahead_def batch_ok_def list_all_iff dest: in_set_takeD)

lemma replayed_bytes:
  "sum_list (map mutation_bytes (replayed current (take i bs))) \<le> sum_list (map mutation_bytes (concat (map fst bs)))"
proof (induction bs arbitrary: i)
  case (Cons b bs)
  show ?case
  proof (cases i)
    case (Suc j)
    then show ?thesis using Cons.IH [of j] by (auto simp: replayed_def ahead_def)
  qed (simp add: replayed_def ahead_def)
qed (simp add: replayed_def ahead_def)

text \<open>C1. Recovery is atomic and exact. Let the log hold any number of committed batches and mutations that were not
  committed yet, and let it be cut after any number of bytes. Recovery from a state that holds a map does to it exactly
  what applying the mutations of the batches completely written, and ahead of the manifest, does, in the order of the
  log: it never panics, fails only where one of these mutations fails, and otherwise ends in a state that holds the
  updated map and reports the last of these commits. A batch of which a byte is missing leaves no trace.\<close>

theorem recovery_atomic:
  assumes ok: "list_all (batch_ok crc current) bs" and tail: "list_all encodable tail" and size: "length (wal_log crc bs tail) < 2 ^ 64"
    and holds: "db_holds t m h M" and room: "blob_bytes m + sum_list (map mutation_bytes (concat (map fst bs))) < 2 ^ 64"
  shows "\<exists>i r t' m'. ends_after crc bs k i \<and> recover_from_wal crc (take k (wal_log crc bs tail)) current t m = Some (r, t', m')
    \<and> (case r of
         Inl e \<Rightarrow> apply_all (replayed current (take i bs)) False t m = Some (Inl e, t', m')
       | Inr s \<Rightarrow> (\<exists>h'. db_holds t' m' h' (apply_map (replayed current (take i bs)) M))
           \<and> rs_last_commit s = (if ahead current (take i bs) = [] then None else Some (snd (last (ahead current (take i bs))))))"
proof -
  obtain i tail' where i: "i \<le> length bs" "length (wal_log crc (take i bs) tail') \<le> k" "i < length bs \<longrightarrow> k < length (wal_log crc (take (Suc i) bs) [])"
    and rec: "recover_from_wal crc (take k (wal_log crc bs tail)) current t m
      = then_run (apply_all (replayed current (take i bs)) False t m)
          (\<lambda>bc t m. Some (Inr ((summary_of crc current (take i bs) 0 \<lparr>rs_last_commit = None, rs_last_commit_offset = 0, rs_blob_changed = False\<rparr>)\<lparr>rs_blob_changed := bc\<rparr>), t, m))"
    using recover_cut_log [OF ok tail size, of k t m] unfolding replayed_def by blast
  have e: "ends_after crc bs k i" using i by (simp add: ends_after_def wal_log_def)
  let ?mus = "replayed current (take i bs)"
  have "blob_bytes m + sum_list (map mutation_bytes ?mus) < 2 ^ 64" using room replayed_bytes [of current i bs] by linarith
  then obtain r t' m' h' n where a: "apply_all ?mus False t m = Some (r, t', m')" "db_holds t' m' h' (apply_map (take n ?mus) M)"
    "case r of Inl _ \<Rightarrow> n < length ?mus | Inr _ \<Rightarrow> n = length ?mus"
    using apply_all_holds [OF holds replayed_short [OF ok]] by blast
  show ?thesis
  proof (cases r)
    case (Inl e')
    then show ?thesis using e rec a by (intro exI [of _ i] exI [of _ "Inl e'"] exI [of _ t'] exI [of _ m']) simp
  next
    case (Inr bc)
    then show ?thesis using e rec a
      by (intro exI [of _ i] exI [of _ "Inr _"] exI [of _ t'] exI [of _ m']) (auto simp: summary_last_commit)
  qed
qed

text \<open>C12. Reconciling a log that was cut anywhere keeps exactly the batches completely written, commits included, and
  reports whether one of them is ahead of the manifest: the mutations after the last commit are dropped, so that the
  next batch is not counted with them, and nothing that was committed is.\<close>

theorem reconcile_exact:
  assumes "list_all (batch_ok crc current) bs" and "list_all encodable tail" and "length (wal_log crc bs tail) < 2 ^ 64"
  shows "\<exists>i. ends_after crc bs k i
    \<and> reconcile_wal crc (take k (wal_log crc bs tail)) current = Some (Inr (wal_log crc (take i bs) []))
    \<and> (current \<noteq> None \<longrightarrow> wal_has_unpublished_commits crc (take k (wal_log crc bs tail)) current = Some (Inr (ahead current (take i bs) \<noteq> [])))"
  using reconcile_cut_log [OF assms, of k] unfolding ends_after_def by blast

text \<open>A log with one batch.\<close>

definition sample_commit :: commit_record where
  "sample_commit = \<lparr>cr_commit_id = 1, cr_generation_id = 1, cr_root_page_id = 0, cr_mutation_count = 1, cr_digest = 5\<rparr>"

lemma sample_batch_ok: "list_all (batch_ok (\<lambda>_. 5) None) [([MPut [1] [2]], sample_commit)]"
  by (simp add: batch_ok_def sample_commit_def digest_records_def extend_digest_def recovery_frontier_def exI [of _ True])

lemma sample_log_length: "length (wal_log (\<lambda>_. 5) [([MPut [1] [2]], sample_commit)] []) = 68"
  by (simp add: wal_log_def batches_records_def batch_records_def records_bytes_def wr_put_def wr_commit_def wr_new_def)

lemma sample_ends: "ends_after (\<lambda>_. 5) [([MPut [1] [2]], sample_commit)] 68 i \<Longrightarrow> i = 1"
  using sample_log_length by (cases i) (auto simp: ends_after_def)

theorem recovery_atomic_witness:
  "\<exists>t m s t' m'. db_holds t m 0 Map.empty
    \<and> recover_from_wal (\<lambda>_. 5) (wal_log (\<lambda>_. 5) [([MPut [1] [2]], sample_commit)] []) None t m = Some (Inr s, t', m')
    \<and> (\<exists>h'. db_holds t' m' h' [[1] \<mapsto> [2]]) \<and> rs_last_commit s = Some sample_commit"
proof -
  let ?m = "bl_with_threshold_and_mode 9 False" and ?bs = "[([MPut [1] [2]], sample_commit)]"
  let ?log = "wal_log (\<lambda>_. 5) ?bs []"
  obtain t t1 out where p: "bt_new = Some t" "apply_mutation (MPut [1] [2]) t ?m = Some (Inr out, t1, ?m)" by (rule fresh_put)
  have t: "db_holds t ?m 0 Map.empty" by (rule fresh_db_holds [OF p(1)])
  have room: "blob_bytes ?m + sum_list (map mutation_bytes (concat (map fst ?bs))) < 2 ^ 64"
    by (simp add: blob_bytes_def bl_with_threshold_and_mode_def bl_with_threshold_def)
  have rep: "replayed None ?bs = [MPut [1] [2]]" "ahead None ?bs = ?bs" by (simp_all add: replayed_def ahead_def recovery_frontier_def)
  have whole: "take 68 ?log = ?log" using sample_log_length by simp
  have size: "length ?log < 2 ^ 64" unfolding sample_log_length by simp
  obtain i r t' m' where i: "ends_after (\<lambda>_. 5) ?bs 68 i" "recover_from_wal (\<lambda>_. 5) (take 68 ?log) None t ?m = Some (r, t', m')"
    and r: "case r of Inl e \<Rightarrow> apply_all (replayed None (take i ?bs)) False t ?m = Some (Inl e, t', m')
       | Inr s \<Rightarrow> (\<exists>h'. db_holds t' m' h' (apply_map (replayed None (take i ?bs)) Map.empty))
           \<and> rs_last_commit s = (if ahead None (take i ?bs) = [] then None else Some (snd (last (ahead None (take i ?bs)))))"
    using recovery_atomic [OF sample_batch_ok _ size t room, of 68] by auto
  have all: "take i ?bs = ?bs" using sample_ends [OF i(1)] by simp
  have r: "case r of Inl e \<Rightarrow> apply_all [MPut [1] [2]] False t ?m = Some (Inl e, t', m')
     | Inr s \<Rightarrow> (\<exists>h'. db_holds t' m' h' [[1] \<mapsto> [2]]) \<and> rs_last_commit s = Some sample_commit"
    using r unfolding all rep by (cases r) (simp_all add: apply_map_def)
  have a: "apply_all [MPut [1] [2]] False t ?m = Some (Inr (mo_blob_changed out), t1, ?m)" using p(2) by simp
  show ?thesis
  proof (cases r)
    case (Inl e)
    then show ?thesis using r a by simp
  next
    case (Inr s)
    then show ?thesis using r t i(2) unfolding whole by (intro exI [of _ t] exI [of _ ?m] exI [of _ s] exI [of _ t'] exI [of _ m']) simp
  qed
qed

theorem reconcile_exact_witness:
  "reconcile_wal (\<lambda>_. 5) (take 69 (wal_log (\<lambda>_. 5) [([MPut [1] [2]], sample_commit)] [MDelete [1]])) None
    = Some (Inr (wal_log (\<lambda>_. 5) [([MPut [1] [2]], sample_commit)] []))"
proof -
  let ?bs = "[([MPut [1] [2]], sample_commit)]"
  have "length (wal_log (\<lambda>_. 5) ?bs [MDelete [1]]) < 2 ^ 64"
    by (simp add: wal_log_def batches_records_def batch_records_def records_bytes_def wr_put_def wr_delete_def wr_commit_def wr_new_def)
  from reconcile_exact [OF sample_batch_ok _ this, of 69] obtain i where i: "ends_after (\<lambda>_. 5) ?bs 69 i"
    "reconcile_wal (\<lambda>_. 5) (take 69 (wal_log (\<lambda>_. 5) ?bs [MDelete [1]])) None = Some (Inr (wal_log (\<lambda>_. 5) (take i ?bs) []))" by auto
  have "i = 1" using i(1) sample_log_length by (cases i) (auto simp: ends_after_def)
  then show ?thesis using i(2) by simp
qed

section \<open>Values the log cannot hold\<close>

text \<open>C40. The length check of the write path admits values whose log record cannot be read back: it bounds the value
  by the 32-bit length of its field, but the record also counts its type, its two length fields, its key and its checksum in
  a 32-bit length, which wraps. For each such pair of key and value the check succeeds and the decoder does not return
  the record that was encoded.\<close>

theorem oversized_put_admitted:
  assumes "length key \<le> MAX_KEY_SIZE" and "length val < 2 ^ 32" and "2 ^ 32 \<le> length key + length val + 13"
  shows "validate_wal_put_lengths key val = Inr () \<and> wr_from_bytes crc (wr_to_bytes crc (wr_put key val)) \<noteq> Some (Some (wr_put key val, n))"
proof
  show "validate_wal_put_lengths key val = Inr ()"
    using assms(1,2) by (simp add: validate_wal_put_lengths_def validate_wal_key_length_def MAX_KEY_SIZE_def)
  have "\<not> wr_ok (wr_put key val)" using assms(3) by (simp add: wr_ok_def wr_put_def wr_new_def)
  then show "wr_from_bytes crc (wr_to_bytes crc (wr_put key val)) \<noteq> Some (Some (wr_put key val, n))"
    using wr_from_bytes_accepts(3) by blast
qed

theorem oversized_put_admitted_witness:
  "\<exists>val. validate_wal_put_lengths [] val = Inr () \<and> wr_from_bytes (\<lambda>_. 5) (wr_to_bytes (\<lambda>_. 5) (wr_put [] val)) \<noteq> Some (Some (wr_put [] val, 9))"
proof -
  obtain val :: bytes where "length val = 2 ^ 32 - 13" using Ex_list_of_length by blast
  then have l: "length ([] :: bytes) \<le> MAX_KEY_SIZE" "length val < 2 ^ 32" "2 ^ 32 \<le> length ([] :: bytes) + length val + 13" by simp_all
  show ?thesis using oversized_put_admitted [OF l, of "\<lambda>_. 5" 9] by blast
qed

end
