(* ===== verification/Spec2Isabelle.thy ===== *)
theory Spec2Isabelle
  imports
    Page_Allocator
    Page_Mapping
    Durable_Format
    Manifest_History
    Retention_Registry
    Wal_Record
    Hybrid_Latch
    Node_Properties
    Tree_Properties
    Buffer_Properties
    Blob_Properties
    Db_Properties
begin

text \<open>
  SeerDB is an embedded ordered key-value store. Keys and values are byte strings. A B-tree of 4096-byte slotted pages
  holds the keys; values above a threshold live in append-only blob files and the tree holds pointers to them. Pages are
  written out of place: a page mapping table gives the current image of each logical page, a manifest names the
  published generation, and a write-ahead log holds the mutations since. This library models these parts as HOL
  functions over the same data, and proves what each part promises and what they promise together.

  \<^bold>\<open>Conventions.\<close> \<open>Rust_Prelude\<close> fixes the reading of Rust. A computation that may panic has type \<open>'a exec\<close>, which is
  \<open>'a option\<close> with \<open>None\<close> for a panic: an index out of range, an arithmetic overflow, an \<open>unwrap\<close>. A \<open>Result\<close> is a sum with
  the error on the left; a method with \<open>&mut self\<close> returns its result together with the new state. Fixed-width integers
  are words, with checked, wrapping and saturating operations as the source has them; \<open>usize\<close> is a natural number, since
  lengths of objects in memory do not overflow it, and its checked operations have the bound \<open>2 ^ 64\<close>. Hash maps are
  \<open>mapping\<close>s, B-tree maps and sets are maps and sets. CRC32C and its function for combining two checksums come from a
  library and are arguments \<open>crc\<close> and \<open>combine\<close> of every definition that uses them; the theorems hold for all such functions.

  \<^bold>\<open>Durable formats.\<close> \<open>Page_Allocator\<close> (\<open>src/src/allocator.rs\<close>), \<open>Page_Mapping\<close> (\<open>mvcc/pmt.rs\<close>), \<open>Durable_Format\<close>
  (\<open>storage/format.rs\<close>), \<open>Manifest_History\<close> (\<open>storage/manifest_history.rs\<close>) and \<open>Retention_Registry\<close>
  (\<open>storage/retention_format.rs\<close>) hold the state of each component, its operations, and its encoder and decoder. Shown
  are invariants of the operations, that decoders never panic and accept only well-formed states, round trips, and what a
  torn append loses. The locale \<open>fixed_codec\<close> is the contract of a list of fixed-size records, interpreted for the records
  of four of these formats; \<open>id_source\<close> is the contract of the allocator.

  \<^bold>\<open>Write-ahead log.\<close> \<open>Wal_Record\<close> (\<open>recovery/record.rs\<close>, \<open>recovery/wal.rs\<close>) has the record format, the prefix parser and
  the buffered manager, with the writer as a parameter under its documented contract. The parser inverts the encoding on
  the longest well-formed prefix and never takes a torn tail for corruption.

  \<^bold>\<open>Pages.\<close> The theories \<open>Node_*\<close> model \<open>btree/node.rs\<close> and \<open>btree/node/\<close> on the bytes of a page: header and layout check
  (\<open>Node_Page\<close>), readers and searches (\<open>Node_Access\<close>), the placing of an entry (\<open>Node_Layout\<close>), leaf and internal
  mutation (\<open>Node_Mutation\<close>, \<open>Node_Replace\<close>, \<open>Node_Child\<close>) and the split (\<open>Node_Split\<close>). A page is abstracted to its list of
  entries; the locales \<open>entry_pages\<close> and \<open>entry_insertion\<close> (\<open>Node_Entries\<close>) state once what leaves and internal pages
  share. Shown are which pages the loader accepts, that searches agree with a linear scan, when exactly an insertion
  fits, that a failed replacement leaves the page as it was, and that a split loses nothing.

  \<^bold>\<open>Tree.\<close> The theories \<open>Tree_*\<close> model \<open>btree/tree.rs\<close> and \<open>btree/tree/\<close>: a sparse vector of pages with a root, a dirty set and
  an allocator (\<open>Tree_State\<close>), descent, leaf navigation and range scans (\<open>Tree_Routing\<close>), split propagation and the
  mutations (\<open>Tree_Mutation\<close>). \<open>Tree_Shape\<close> relates the pages to a tree shape with key ranges; the theories up to
  \<open>Tree_Refinement\<close> carry the shape through allocation, parent search, splits and rollback, and show that each mutation
  refines the update of an ordered list of entries. The locale \<open>leaf_insertion\<close> is the contract of a page insertion that the
  split relies on, interpreted for inline values and blob pointers. \<open>Tree_Machine\<close> makes runs of the tree a step relation,
  \<open>Tree_Scan\<close> treats scans, \<open>Tree_Dirty\<close> the dirty set, and \<open>Tree_Properties\<close> states the properties. A descent stops after
  128 levels, as in the code; the theorems cover trees of every height, deeper ones answer with the error of the code.

  \<^bold>\<open>Buffer pool.\<close> \<open>Buffer_Pool\<close> models \<open>buffer/\<close>: frames, guards, the page map, fetch, write-back, eviction by the clock and
  the runtime check. Guards are counted in their frame, as their atomic counters are. \<open>Buffer_Invariant\<close> and
  \<open>Buffer_Worlds\<close> show that every operation returns and keeps the invariant; \<open>Buffer_Properties\<close> has the machine of pool,
  live guards and device images, in which the pool is a transparent cache. The clock makes two passes over the frames, which
  is shown to be enough.

  \<^bold>\<open>Blob store.\<close> \<open>Blob_Record\<close>, \<open>Blob_File\<close> and \<open>Blob_Manager\<close> model the cursor, record, file and manager of \<open>blob/\<close>;
  \<open>Blob_Image\<close> the whole-image format, \<open>Catalog_Format\<close> and \<open>Blob_Catalog\<close> the segment catalog with its delta log.
  \<open>Catalog_Replay\<close> and \<open>Catalog_Recovery\<close> show that an anchor and the deltas published after it recover the files of the last
  publication, whatever torn or abandoned frames follow; \<open>Blob_Properties\<close> states the properties. The locale
  \<open>value_store\<close> (\<open>Value_Store\<close>) is what a client of the manager relies on: stored values stay under their pointers until
  they are retired. It is interpreted on the manager and used by the runs of the blob store and by the database.

  \<^bold>\<open>Database.\<close> \<open>Db_Error\<close> models \<open>error.rs\<close>. \<open>Db_Mutation\<close> models \<open>db/mutation.rs\<close>, the one place where puts and deletes change
  tree and blobs together, and the point read of \<open>db/query.rs\<close>: a tree and a manager hold a map, and every mutation refines
  its update. \<open>Wal_Recovery\<close> models \<open>db/wal_recovery.rs\<close> over the content of the log file. \<open>Db_Properties\<close> composes
  them: a read after any run returns the last value written, recovery from a log cut at any byte applies exactly the batches
  completely written, and reconciliation keeps exactly these. Values of \<open>2 ^ 32\<close> bytes and more, and blob files of
  \<open>2 ^ 64\<close> bytes and more, are excluded by hypotheses; the code excludes the first by its length checks.

  \<^bold>\<open>Latch.\<close> \<open>Hybrid_Latch\<close> (\<open>concurrency/latch.rs\<close>) is a transition system whose steps are the atomic instructions of any
  number of threads; it gives mutual exclusion among fewer than \<open>2 ^ 32 - 1\<close> threads.

  \<^bold>\<open>Termination.\<close> No definition uses fuel. Loops are functions with a termination proof: a measure on the bytes that are
  left, on the indices or levels that are left, or on the pages not visited yet.

  \<^bold>\<open>Not modelled.\<close> The device (\<open>space/\<close>) and the storage engine (\<open>storage/\<close> beyond the formats above) read and write files;
  of the database layer, opening, publication, retention, archives, vacuum, diagnostics and the metadata log order the
  same file operations, and their effect depends on what the operating system guarantees of renames and syncs. Reads of
  retained roots decode files. Test-only code, fault injection, metrics and timing are left out, as are \<open>tests/\<close>,
  \<open>benches/\<close>, \<open>examples/\<close> and \<open>fuzz/\<close>.
\<close>

end
